(* ===== verification/Memory.thy ===== *)
theory Memory
  imports Main "HOL-Library.Word" "HOL-Library.Monad_Syntax"
begin

text \<open>
  The prelude of the development: the machine the C programs run on.

  \<^item> Addresses are natural numbers, bytes are 8-bit words, and memory is a partial map from
    addresses to bytes.  A byte that is not in the domain is not mapped; touching it is a
    memory fault (SIGSEGV), which every operation reports as the value None.  In particular
    the null pointer is the address 0, which no mapping covers.
  \<^item> \<open>load64\<close>/\<open>store64\<close> and \<open>load32\<close>/\<open>store32\<close> access
    little-endian integers byte by byte, as x86-64 does.
  \<^item> \<open>add64\<close>, \<open>sub64\<close>, \<open>mul64\<close> are the wrapping operations of size_t and uintptr_t;
    \<open>align_up\<close> is the macro ALIGN_UP of the allocators, computed on 64-bit words.
  \<^item> \<open>sys_mmap\<close> is the anonymous private mapping all allocators start from.  Which address
    the kernel picks is an argument (None when the call fails); \<open>mmap_ok\<close> names what mmap(2)
    documents of it.
\<close>

unbundle bit_operations_syntax

named_theorems mem_simps

type_synonym u8 = "8 word"
type_synonym addr = nat
type_synonym mem = "addr \<Rightarrow> u8 option"

abbreviation (input) NULL :: addr where "NULL \<equiv> 0"

section \<open>Machine integers\<close>

definition add64 :: "nat \<Rightarrow> nat \<Rightarrow> nat" where
  "add64 a b = (a + b) mod 2 ^ 64"

definition mul64 :: "nat \<Rightarrow> nat \<Rightarrow> nat" where
  "mul64 a b = (a * b) mod 2 ^ 64"

definition sub64 :: "nat \<Rightarrow> nat \<Rightarrow> nat" where
  "sub64 a b = unat ((of_nat a :: 64 word) - of_nat b)"

definition and_not64 :: "nat \<Rightarrow> nat \<Rightarrow> nat" where
  "and_not64 a b = unat ((of_nat a :: 64 word) AND NOT (of_nat b))"

definition align_up :: "nat \<Rightarrow> nat" where
  "align_up x = and_not64 (add64 x 15) 15"

lemma add64_exact [mem_simps]: "a + b < 2 ^ 64 \<Longrightarrow> add64 a b = a + b"
  by (simp add: add64_def)

lemma mul64_exact [mem_simps]: "a * b < 2 ^ 64 \<Longrightarrow> mul64 a b = a * b"
  by (simp add: mul64_def)

lemma add64_less [simp]: "add64 a b < 2 ^ 64"
  unfolding add64_def by (rule mod_less_divisor) simp

lemma sub64_exact [mem_simps]:
  assumes "b \<le> a" "a < 2 ^ 64"
  shows "sub64 a b = a - b"
proof -
  have "(of_nat a :: 64 word) - of_nat b = of_nat (a - b)"
    using assms(1) by (simp add: of_nat_diff)
  then show ?thesis
    using assms by (simp only: sub64_def unsigned_of_nat) (simp add: take_bit_nat_eq_self)
qed

lemma word_and_not_mask: "(w :: 64 word) AND NOT (mask k) = push_bit k (drop_bit k w)"
  by (rule bit_word_eqI) (auto simp: bit_simps)

lemma and_not64_mask:
  assumes "a < 2 ^ 64" "k < 64"
  shows "and_not64 a (2 ^ k - 1) = a div 2 ^ k * 2 ^ k"
proof -
  have m: "(of_nat (2 ^ k - 1) :: 64 word) = mask k"
    by (simp add: mask_eq_exp_minus_1 of_nat_diff)
  have le: "a div 2 ^ k * 2 ^ k < 2 ^ 64"
    using assms by (meson div_times_less_eq_dividend le_less_trans)
  have k: "unat (2 ^ k :: 64 word) = 2 ^ k"
    using assms(2) by transfer simp
  have "unat (push_bit k (drop_bit k (of_nat a :: 64 word))) = a div 2 ^ k * 2 ^ k"
    using assms le k
    by (simp add: push_bit_eq_mult drop_bit_eq_div unat_word_ariths unat_div_distrib
        unsigned_of_nat take_bit_nat_eq_self take_bit_eq_mod div_le_dividend [THEN le_less_trans])
  then show ?thesis by (simp only: and_not64_def m word_and_not_mask)
qed

lemma and_not64_low:
  "a < 2 ^ 64 \<Longrightarrow> and_not64 a 1 = a div 2 * 2"
  "a < 2 ^ 64 \<Longrightarrow> and_not64 a 15 = a div 16 * 16"
  "a < 2 ^ 64 \<Longrightarrow> and_not64 a 63 = a div 64 * 64"
  "a < 2 ^ 64 \<Longrightarrow> and_not64 a 4095 = a div 4096 * 4096"
  using and_not64_mask [of a 1] and_not64_mask [of a 4] and_not64_mask [of a 6]
    and_not64_mask [of a 12] by simp_all

text \<open>ALIGN_UP rounds up to the next multiple of 16, except that it wraps to 0 on the last
  fifteen values of size_t.\<close>

lemma align_up_wrap: "align_up x = (x + 15) mod 2 ^ 64 div 16 * 16"
  unfolding align_up_def by (subst and_not64_low(2)) (simp_all add: add64_def)

lemma align_up_exact: "x + 15 < 2 ^ 64 \<Longrightarrow> align_up x = (x + 15) div 16 * 16"
  by (simp add: align_up_wrap)

lemma align_up_ge: "x + 15 < 2 ^ 64 \<Longrightarrow> x \<le> align_up x"
  by (simp add: align_up_exact)

lemma align_up_less: "x + 15 < 2 ^ 64 \<Longrightarrow> align_up x < x + 16"
  by (simp add: align_up_exact)

lemma align_up_dvd [simp]: "16 dvd align_up x"
  by (simp add: align_up_wrap)

lemma align_up_id: "16 dvd x \<Longrightarrow> x + 15 < 2 ^ 64 \<Longrightarrow> align_up x = x"
  by (auto simp: align_up_exact elim!: dvdE)

section \<open>Bytes of an integer\<close>

fun le_bytes :: "nat \<Rightarrow> nat \<Rightarrow> u8 list" where
  "le_bytes 0 v = []"
| "le_bytes (Suc n) v = of_nat (v mod 256) # le_bytes n (v div 256)"

fun le_val :: "u8 list \<Rightarrow> nat" where
  "le_val [] = 0"
| "le_val (b # bs) = unat b + 256 * le_val bs"

lemma length_le_bytes [simp]: "length (le_bytes n v) = n"
  by (induction n arbitrary: v) auto

lemma le_val_le_bytes: "le_val (le_bytes n v) = v mod 256 ^ n"
proof (induction n arbitrary: v)
  case (Suc n)
  have "unat (of_nat (v mod 256) :: u8) = v mod 256"
    by (simp add: unsigned_of_nat take_bit_nat_eq_self)
  with Suc show ?case by (simp add: mod_mult2_eq)
qed simp

lemma le_val_less: "le_val bs < 256 ^ length bs"
proof (induction bs)
  case (Cons b bs)
  have "unat b < 256" using unsigned_less [of b] by simp
  with Cons show ?case by simp
qed simp

lemma le_bytes_le_val: "length bs = n \<Longrightarrow> le_bytes n (le_val bs) = bs"
proof (induction n arbitrary: bs)
  case (Suc n)
  then obtain b bs' where bs: "bs = b # bs'" by (cases bs) auto
  have b: "unat b < 256" using unsigned_less [of b] by simp
  have "(unat b + 256 * le_val bs') mod 256 = unat b"
    "(unat b + 256 * le_val bs') div 256 = le_val bs'" using b by simp_all
  with Suc bs show ?case by simp
qed simp

section \<open>Memory\<close>

fun load_bytes :: "mem \<Rightarrow> addr \<Rightarrow> nat \<Rightarrow> u8 list option" where
  "load_bytes m a 0 = Some []"
| "load_bytes m a (Suc n) =
     (case m a of None \<Rightarrow> None | Some b \<Rightarrow> map_option ((#) b) (load_bytes m (Suc a) n))"

fun store_bytes :: "mem \<Rightarrow> addr \<Rightarrow> u8 list \<Rightarrow> mem option" where
  "store_bytes m a [] = Some m"
| "store_bytes m a (b # bs) =
     (if m a = None then None else store_bytes (m(a \<mapsto> b)) (Suc a) bs)"

definition load64 :: "mem \<Rightarrow> addr \<Rightarrow> nat option" where
  "load64 m a = map_option le_val (load_bytes m a 8)"

definition store64 :: "mem \<Rightarrow> addr \<Rightarrow> nat \<Rightarrow> mem option" where
  "store64 m a v = store_bytes m a (le_bytes 8 v)"

definition load32 :: "mem \<Rightarrow> addr \<Rightarrow> nat option" where
  "load32 m a = map_option le_val (load_bytes m a 4)"

definition store32 :: "mem \<Rightarrow> addr \<Rightarrow> nat \<Rightarrow> mem option" where
  "store32 m a v = store_bytes m a (le_bytes 4 v)"

text \<open>The proofs see a store as a total update of the memory function, and every access as
  guarded by \<open>mapped\<close>.\<close>

definition mapped :: "mem \<Rightarrow> addr \<Rightarrow> nat \<Rightarrow> bool" where
  "mapped m a n \<longleftrightarrow> {a..<a + n} \<subseteq> dom m"

definition put :: "mem \<Rightarrow> addr \<Rightarrow> u8 list \<Rightarrow> mem" where
  "put m a bs = (\<lambda>x. if a \<le> x \<and> x < a + length bs then Some (bs ! (x - a)) else m x)"

abbreviation put64 :: "mem \<Rightarrow> addr \<Rightarrow> nat \<Rightarrow> mem" where
  "put64 m a v \<equiv> put m a (le_bytes 8 v)"

abbreviation put32 :: "mem \<Rightarrow> addr \<Rightarrow> nat \<Rightarrow> mem" where
  "put32 m a v \<equiv> put m a (le_bytes 4 v)"

lemma mapped_0 [simp]: "mapped m a 0"
  by (simp add: mapped_def)

lemma mapped_Suc: "mapped m a (Suc n) \<longleftrightarrow> m a \<noteq> None \<and> mapped m (Suc a) n"
proof -
  have "{a..<a + Suc n} = insert a {Suc a..<Suc a + n}" by auto
  then show ?thesis by (auto simp: mapped_def dom_def)
qed

lemma mapped_mono: "mapped m a n \<Longrightarrow> a \<le> b \<Longrightarrow> b + k \<le> a + n \<Longrightarrow> mapped m b k"
  by (auto simp: mapped_def subset_eq)

lemma load_bytes_char:
  "load_bytes m a n =
     (if mapped m a n then Some (map (\<lambda>i. the (m (a + i))) [0..<n]) else None)"
proof (induction n arbitrary: a)
  case (Suc n)
  have "[0..<Suc n] = 0 # map Suc [0..<n]" by (simp add: map_Suc_upt upt_conv_Cons)
  then show ?case by (auto simp: Suc mapped_Suc o_def split: option.splits)
qed simp

lemma put_Nil [simp]: "put m a [] = m"
  by (auto simp: put_def fun_eq_iff)

lemma put_Cons: "put m a (b # bs) = put (m(a \<mapsto> b)) (Suc a) bs"
proof
  fix x
  show "put m a (b # bs) x = put (m(a \<mapsto> b)) (Suc a) bs x"
    by (cases "x - a") (auto simp: put_def diff_Suc)
qed

lemma store_bytes_char:
  "store_bytes m a bs = (if mapped m a (length bs) then Some (put m a bs) else None)"
proof (induction bs arbitrary: m a)
  case (Cons b bs)
  have "mapped (m(a \<mapsto> b)) (Suc a) (length bs) = mapped m (Suc a) (length bs)" if "m a \<noteq> None"
    using that by (simp add: mapped_def insert_absorb domIff)
  then show ?case by (simp add: Cons.IH mapped_Suc put_Cons del: fun_upd_apply)
qed simp

lemma store64_mapped [mem_simps]: "mapped m a 8 \<Longrightarrow> store64 m a v = Some (put64 m a v)"
  by (simp add: store64_def store_bytes_char)

lemma store32_mapped [mem_simps]: "mapped m a 4 \<Longrightarrow> store32 m a v = Some (put32 m a v)"
  by (simp add: store32_def store_bytes_char)

lemma put_outside [mem_simps]: "x < a \<or> a + length bs \<le> x \<Longrightarrow> put m a bs x = m x"
  by (auto simp: put_def)

lemma dom_put: "dom (put m a bs) = dom m \<union> {a..<a + length bs}"
  by (auto simp: put_def split: if_splits)

lemma mapped_put [mem_simps]: "mapped m a (length bs) \<Longrightarrow> mapped (put m a bs) b n = mapped m b n"
  by (auto simp: mapped_def dom_put)

lemma load_bytes_put_same: "load_bytes (put m a bs) a (length bs) = Some bs"
proof -
  have "map (\<lambda>i. the (put m a bs (a + i))) [0..<length bs] = bs"
    by (rule nth_equalityI) (auto simp: put_def)
  then show ?thesis by (simp add: load_bytes_char mapped_def dom_put)
qed

lemma load_bytes_cong:
  assumes "\<And>x. a \<le> x \<Longrightarrow> x < a + n \<Longrightarrow> m x = m' x"
  shows "load_bytes m a n = load_bytes m' a n"
  using assms
proof (induction n arbitrary: a)
  case (Suc n)
  then have "load_bytes m (Suc a) n = load_bytes m' (Suc a) n" "m a = m' a" by simp_all
  then show ?case by (simp split: option.split)
qed simp

lemma load_bytes_put_other [mem_simps]:
  "b + n \<le> a \<or> a + length bs \<le> b \<Longrightarrow> load_bytes (put m a bs) b n = load_bytes m b n"
  by (rule load_bytes_cong) (auto simp: put_def)

lemma load64_put_same [mem_simps]: "v < 2 ^ 64 \<Longrightarrow> load64 (put64 m a v) a = Some v"
  using load_bytes_put_same [of m a "le_bytes 8 v"] by (simp add: load64_def le_val_le_bytes)

lemma load32_put_same [mem_simps]: "v < 2 ^ 32 \<Longrightarrow> load32 (put32 m a v) a = Some v"
  using load_bytes_put_same [of m a "le_bytes 4 v"] by (simp add: load32_def le_val_le_bytes)

lemma load64_put_other [mem_simps]:
  "b + 8 \<le> a \<or> a + length bs \<le> b \<Longrightarrow> load64 (put m a bs) b = load64 m b"
  by (simp add: load64_def load_bytes_put_other)

lemma load32_put_other [mem_simps]:
  "b + 4 \<le> a \<or> a + length bs \<le> b \<Longrightarrow> load32 (put m a bs) b = load32 m b"
  by (simp add: load32_def load_bytes_put_other)

lemma load64_cong:
  "(\<And>x. a \<le> x \<Longrightarrow> x < a + 8 \<Longrightarrow> m x = m' x) \<Longrightarrow> load64 m a = load64 m' a"
  unfolding load64_def by (rule arg_cong [OF load_bytes_cong])

lemma load32_cong:
  "(\<And>x. a \<le> x \<Longrightarrow> x < a + 4 \<Longrightarrow> m x = m' x) \<Longrightarrow> load32 m a = load32 m' a"
  unfolding load32_def by (rule arg_cong [OF load_bytes_cong])

lemma load_bytes_mapped:
  assumes "mapped m a n"
  obtains bs where "load_bytes m a n = Some bs" "length bs = n"
  using assms that [of "map (\<lambda>i. the (m (a + i))) [0..<n]"] by (simp add: load_bytes_char)

lemma load_bytes_SomeD: "load_bytes m a n = Some bs \<Longrightarrow> mapped m a n \<and> length bs = n"
  by (auto simp: load_bytes_char split: if_splits)

lemma load64_mapped: "mapped m a 8 \<longleftrightarrow> (\<exists>v. load64 m a = Some v \<and> v < 2 ^ 64)"
proof
  assume "mapped m a 8"
  then obtain bs where bs: "load_bytes m a 8 = Some bs" "length bs = 8"
    by (rule load_bytes_mapped)
  then show "\<exists>v. load64 m a = Some v \<and> v < 2 ^ 64"
    using le_val_less [of bs] by (simp add: load64_def)
qed (auto simp: load64_def dest: load_bytes_SomeD)

lemma load64_SomeD:
  assumes "load64 m a = Some v"
  shows "mapped m a 8" "v < 2 ^ 64"
proof -
  show m: "mapped m a 8" using assms by (auto simp: load64_def dest: load_bytes_SomeD)
  then show "v < 2 ^ 64" using assms load64_mapped [of m a] by simp
qed

lemma load32_SomeD:
  assumes "load32 m a = Some v"
  shows "mapped m a 4" "v < 2 ^ 32"
proof -
  show m: "mapped m a 4"
    using assms by (auto simp: load32_def dest: load_bytes_SomeD)
  then obtain bs where bs: "load_bytes m a 4 = Some bs" "length bs = 4"
    by (rule load_bytes_mapped)
  then show "v < 2 ^ 32" using assms le_val_less [of bs] by (simp add: load32_def)
qed

text \<open>A user byte write is a one-byte put.\<close>

lemma fun_upd_put: "m(a \<mapsto> b) = put m a [b]"
  by (auto simp: put_def fun_eq_iff)

section \<open>Disjoint address ranges\<close>

definition apart :: "addr \<Rightarrow> nat \<Rightarrow> addr \<Rightarrow> nat \<Rightarrow> bool" where
  "apart a n b k \<longleftrightarrow> a + n \<le> b \<or> b + k \<le> a"

lemma apart_sym: "apart a n b k \<Longrightarrow> apart b k a n"
  by (auto simp: apart_def)

lemma apart_mono: "apart a n b k \<Longrightarrow> n' \<le> n \<Longrightarrow> k' \<le> k \<Longrightarrow> apart a n' b k'"
  by (auto simp: apart_def)

lemma apart_aligned:
  assumes "(d::nat) dvd a" "d dvd b" "a \<noteq> b" "n \<le> d" "k \<le> d"
  shows "apart a n b k"
proof -
  from assms(1,2) obtain i j where ij: "a = d * i" "b = d * j" by (auto elim!: dvdE)
  with assms(3) have "i < j \<or> j < i" by auto
  then have "d * i + d \<le> d * j \<or> d * j + d \<le> d * i"
    by (metis Suc_leI mult_Suc_right add.commute mult_le_mono2)
  with ij assms(4,5) show ?thesis by (auto simp: apart_def)
qed

section \<open>mmap\<close>

definition MAP_FAILED :: addr where "MAP_FAILED = 2 ^ 64 - 1"

definition USER_TOP :: addr where "USER_TOP = 2 ^ 47"

definition page_up :: "nat \<Rightarrow> nat" where
  "page_up len = (len + 4095) div 4096 * 4096"

definition sys_mmap :: "addr option \<Rightarrow> nat \<Rightarrow> mem \<Rightarrow> addr \<times> mem" where
  "sys_mmap choice len m = (case choice of
     None \<Rightarrow> (MAP_FAILED, m)
   | Some p \<Rightarrow> (p, \<lambda>x. if p \<le> x \<and> x < p + page_up len then Some 0 else m x))"

definition sys_munmap :: "addr \<Rightarrow> nat \<Rightarrow> mem \<Rightarrow> mem" where
  "sys_munmap p len m = (\<lambda>x. if p \<le> x \<and> x < p + page_up len then None else m x)"

definition mmap_ok :: "addr option \<Rightarrow> nat \<Rightarrow> mem \<Rightarrow> bool" where
  "mmap_ok choice len m \<longleftrightarrow> (case choice of
     None \<Rightarrow> True
   | Some p \<Rightarrow> 0 < len \<and> 0 < p \<and> 4096 dvd p \<and> p + page_up len \<le> USER_TOP \<and>
       {p..<p + page_up len} \<inter> dom m = {})"

lemma page_up_ge: "len \<le> page_up len"
  by (simp add: page_up_def)

lemma page_up_id: "4096 dvd len \<Longrightarrow> page_up len = len"
  by (auto simp: page_up_def elim!: dvdE)

lemma sys_mmap_mapped: "sys_mmap (Some p) len m = (r, m') \<Longrightarrow> r = p \<and> mapped m' p (page_up len)"
  by (auto simp: sys_mmap_def mapped_def)

end
