(* ===== verification/Allocator_Spec.thy ===== *)
theory Allocator_Spec
  imports Memory "HOL-Library.Multiset"
begin

text \<open>
  The contract every allocator of \<open>14_putting_it_together\<close> is held to, as a locale, and what a
  client may conclude from it.

  A client holds a list of live blocks.  It may allocate (a null answer means out of memory and
  changes nothing the client can see), give a block back, and write bytes inside its own blocks.
  Each block remembers what the client wrote (\<open>bdata\<close>), so the two facts a client relies on
  can be stated: no two live blocks overlap (\<open>blocks_apart\<close>), and every byte reads back as
  last written, whatever the allocator did in between (\<open>data_intact\<close>).

  \<open>allocator\<close> is the contract without a per-block free (bump); \<open>freeing_allocator\<close>
  extends it (pool, slab, freelist, buddy).  Both prove, once, that no script of legal commands
  ever faults and that the two facts hold after it.
\<close>

section \<open>Clients\<close>

datatype 'r cmd = Alloc 'r | Free nat | Poke nat nat u8

datatype 'r block = Block (baddr: addr) (breq: 'r) (bdata: "nat \<Rightarrow> u8 option")

definition key :: "'r block \<Rightarrow> addr \<times> 'r" where
  "key B = (baddr B, breq B)"

fun is_Free :: "'r cmd \<Rightarrow> bool" where
  "is_Free (Free i) = True"
| "is_Free c = False"

fun legal_cmd :: "('r \<Rightarrow> bool) \<Rightarrow> 'r cmd \<Rightarrow> bool" where
  "legal_cmd legal (Alloc r) = legal r"
| "legal_cmd legal c = True"

definition drop_nth :: "nat \<Rightarrow> 'a list \<Rightarrow> 'a list" where
  "drop_nth i xs = take i xs @ drop (Suc i) xs"

fun exec ::
  "('r \<Rightarrow> 's \<Rightarrow> (addr \<times> 's) option) \<Rightarrow> (addr \<Rightarrow> 'r \<Rightarrow> 's \<Rightarrow> 's option) \<Rightarrow> ('s \<Rightarrow> mem) \<Rightarrow>
   (mem \<Rightarrow> 's \<Rightarrow> 's) \<Rightarrow> ('r \<Rightarrow> nat) \<Rightarrow> 'r cmd \<Rightarrow> 's \<times> 'r block list \<Rightarrow> ('s \<times> 'r block list) option"
where
  "exec al fr get set' ext (Alloc r) (s, bs) =
     (case al r s of None \<Rightarrow> None
      | Some (p, s') \<Rightarrow> Some (s', if p = 0 then bs else bs @ [Block p r Map.empty]))"
| "exec al fr get set' ext (Free i) (s, bs) =
     (if i < length bs
      then map_option (\<lambda>s'. (s', drop_nth i bs)) (fr (baddr (bs ! i)) (breq (bs ! i)) s)
      else Some (s, bs))"
| "exec al fr get set' ext (Poke i k b) (s, bs) =
     (if i < length bs \<and> k < ext (breq (bs ! i))
      then if get s (baddr (bs ! i) + k) = None then None
           else Some (set' ((get s)(baddr (bs ! i) + k \<mapsto> b)) s,
                      bs[i := Block (baddr (bs ! i)) (breq (bs ! i)) ((bdata (bs ! i))(k \<mapsto> b))])
      else Some (s, bs))"

fun run ::
  "('r \<Rightarrow> 's \<Rightarrow> (addr \<times> 's) option) \<Rightarrow> (addr \<Rightarrow> 'r \<Rightarrow> 's \<Rightarrow> 's option) \<Rightarrow> ('s \<Rightarrow> mem) \<Rightarrow>
   (mem \<Rightarrow> 's \<Rightarrow> 's) \<Rightarrow> ('r \<Rightarrow> nat) \<Rightarrow> 'r cmd list \<Rightarrow> 's \<times> 'r block list \<Rightarrow> ('s \<times> 'r block list) option"
where
  "run al fr get set' ext [] sb = Some sb"
| "run al fr get set' ext (c # cs) sb =
     (case exec al fr get set' ext c sb of None \<Rightarrow> None
      | Some sb' \<Rightarrow> run al fr get set' ext cs sb')"

definition blocks_apart :: "('r \<Rightarrow> nat) \<Rightarrow> 'r block list \<Rightarrow> bool" where
  "blocks_apart ext bs \<longleftrightarrow>
     (\<forall>i < length bs. \<forall>j < length bs. i \<noteq> j \<longrightarrow>
        apart (baddr (bs ! i)) (ext (breq (bs ! i))) (baddr (bs ! j)) (ext (breq (bs ! j))))"

definition data_intact :: "mem \<Rightarrow> ('r \<Rightarrow> nat) \<Rightarrow> 'r block list \<Rightarrow> bool" where
  "data_intact m ext bs \<longleftrightarrow>
     (\<forall>B \<in> set bs. \<forall>k b. bdata B k = Some b \<longrightarrow> k < ext (breq B) \<and> m (baddr B + k) = Some b)"

lemma mset_nth_split: "i < length xs \<Longrightarrow> mset xs = add_mset (xs ! i) (mset (drop_nth i xs))"
  by (subst id_take_nth_drop [of i xs]) (simp_all add: drop_nth_def)

lemma set_drop_nth: "set (drop_nth i xs) \<subseteq> set xs"
  by (auto simp: drop_nth_def dest: in_set_takeD in_set_dropD)

lemma map_drop_nth: "map f (drop_nth i xs) = drop_nth i (map f xs)"
  by (simp add: drop_nth_def take_map drop_map)

lemma mset_update_same_key:
  "i < length bs \<Longrightarrow> key B = key (bs ! i) \<Longrightarrow> map key (bs[i := B]) = map key bs"
  by (simp add: map_update) (metis list_update_id nth_map)

lemma nth_in_drop_nth:
  assumes "j < length xs" "i < length xs" "i \<noteq> j"
  shows "xs ! j \<in> set (drop_nth i xs)"
proof (cases "j < i")
  case True
  then have "take i xs ! j = xs ! j" "j < length (take i xs)" using assms by auto
  then have "xs ! j \<in> set (take i xs)" by (metis nth_mem)
  then show ?thesis by (simp add: drop_nth_def)
next
  case False
  then have "drop (Suc i) xs ! (j - Suc i) = xs ! j" "j - Suc i < length (drop (Suc i) xs)"
    using assms by auto
  then have "xs ! j \<in> set (drop (Suc i) xs)" by (metis nth_mem)
  then show ?thesis by (simp add: drop_nth_def)
qed

text \<open>The invariants speak of the live blocks as a multiset of (address, request) pairs.\<close>

definition apart_mset :: "('r \<Rightarrow> nat) \<Rightarrow> (addr \<times> 'r) multiset \<Rightarrow> bool" where
  "apart_mset ext L \<longleftrightarrow>
     (\<forall>x \<in># L. \<forall>y \<in># L - {#x#}. apart (fst x) (ext (snd x)) (fst y) (ext (snd y)))"

lemma apart_mset_empty [simp]: "apart_mset ext {#}"
  by (simp add: apart_mset_def)

lemma apart_mset_add:
  "apart_mset ext (add_mset x L) \<longleftrightarrow>
     (\<forall>y \<in># L. apart (fst x) (ext (snd x)) (fst y) (ext (snd y))) \<and> apart_mset ext L"
  (is "?l \<longleftrightarrow> ?r")
proof
  assume l: ?l
  have "y \<in># add_mset x L - {#z#}" if "y \<in># L - {#z#}" for y z
    using that by (cases "z = x") (auto dest: in_diffD)
  with l show ?r by (auto simp: apart_mset_def)
next
  assume r: ?r
  show ?l unfolding apart_mset_def
  proof (intro ballI)
    fix z y assume z: "z \<in># add_mset x L" and y: "y \<in># add_mset x L - {#z#}"
    show "apart (fst z) (ext (snd z)) (fst y) (ext (snd y))"
    proof (cases "z = x")
      case True
      then show ?thesis using r y by simp
    next
      case False
      then have zL: "z \<in># L" and yL: "y = x \<or> y \<in># L - {#z#}" using z y by auto
      from yL show ?thesis
      proof
        assume "y = x"
        then show ?thesis using r zL by (blast intro: apart_sym)
      next
        assume "y \<in># L - {#z#}"
        then show ?thesis using r zL by (auto simp: apart_mset_def)
      qed
    qed
  qed
qed

lemma apart_mset_union:
  assumes "apart_mset ext (A + B)" "a \<in># A" "b \<in># B"
  shows "apart (fst a) (ext (snd a)) (fst b) (ext (snd b))"
proof -
  obtain A' where A: "A = add_mset a A'" using assms(2) by (metis multi_member_split)
  have "b \<in># A' + B" using assms(3) by simp
  moreover have "apart_mset ext (add_mset a (A' + B))"
    using assms(1) unfolding A by (simp only: union_mset_add_mset_left)
  ultimately show ?thesis unfolding apart_mset_add by blast
qed

lemma apart_mset_neq:
  assumes "apart_mset ext M" "a \<in># M" "b \<in># M" "a \<noteq> b"
  shows "apart (fst a) (ext (snd a)) (fst b) (ext (snd b))"
proof -
  have "b \<in># M - {#a#}" using assms(3,4) by (simp add: in_diff_count)
  then show ?thesis using assms(1,2) unfolding apart_mset_def by blast
qed

lemma apart_mset_union_right: "apart_mset ext (A + B) \<Longrightarrow> apart_mset ext B"
  by (induction A) (simp_all add: apart_mset_add)

section \<open>The contract\<close>

locale allocator =
  fixes inv :: "'s \<Rightarrow> (addr \<times> 'r) multiset \<Rightarrow> bool"
    and get :: "'s \<Rightarrow> mem"
    and set_mem :: "mem \<Rightarrow> 's \<Rightarrow> 's"
    and ext :: "'r \<Rightarrow> nat"
    and legal :: "'r \<Rightarrow> bool"
    and alloc :: "'r \<Rightarrow> 's \<Rightarrow> (addr \<times> 's) option"
  assumes get_set: "get (set_mem m s) = m"
    and live_mapped: "inv s (add_mset (p, r) L) \<Longrightarrow> mapped (get s) p (ext r)"
    and live_apart: "inv s (add_mset (p, r) (add_mset (q, t) L)) \<Longrightarrow> apart p (ext r) q (ext t)"
    and write_inv: "inv s (add_mset (p, r) L) \<Longrightarrow> k < ext r \<Longrightarrow>
      inv (set_mem ((get s)(p + k \<mapsto> b)) s) (add_mset (p, r) L)"
    and alloc_ok: "inv s L \<Longrightarrow> legal r \<Longrightarrow>
      \<exists>p s'. alloc r s = Some (p, s') \<and> inv s' (if p = 0 then L else add_mset (p, r) L) \<and>
        (\<forall>q t k. (q, t) \<in># L \<longrightarrow> k < ext t \<longrightarrow> get s' (q + k) = get s (q + k))"
begin

definition consistent :: "'s \<Rightarrow> 'r block list \<Rightarrow> bool" where
  "consistent s bs \<longleftrightarrow> inv s (mset (map key bs)) \<and> data_intact (get s) ext bs"

lemma consistent_empty: "inv s {#} \<Longrightarrow> consistent s []"
  by (simp add: consistent_def data_intact_def)

lemma two_apart:
  assumes "inv s (mset (map key bs))" "i < length bs" "j < length bs" "i \<noteq> j"
  shows "apart (baddr (bs ! i)) (ext (breq (bs ! i))) (baddr (bs ! j)) (ext (breq (bs ! j)))"
proof -
  let ?ks = "map key bs"
  have "?ks ! j \<in># mset (drop_nth i ?ks)"
    using nth_in_drop_nth [of j ?ks i] assms by simp
  then obtain L where "mset (drop_nth i ?ks) = add_mset (?ks ! j) L"
    by (metis multi_member_split)
  then have "mset ?ks = add_mset (?ks ! i) (add_mset (?ks ! j) L)"
    using mset_nth_split [of i ?ks] assms(2) by simp
  with assms show ?thesis
    by (intro live_apart [of s _ _ _ _ L]) (simp add: key_def)
qed

lemma consistent_apart: "consistent s bs \<Longrightarrow> blocks_apart ext bs"
  by (auto simp: consistent_def blocks_apart_def intro: two_apart)

lemma exec_Alloc:
  assumes "consistent s bs" "legal r"
  shows "\<exists>s' bs'. exec alloc fr get set_mem ext (Alloc r) (s, bs) = Some (s', bs') \<and> consistent s' bs'"
proof -
  obtain p s' where p: "alloc r s = Some (p, s')"
    "inv s' (if p = 0 then mset (map key bs) else add_mset (p, r) (mset (map key bs)))"
    and fr: "\<And>q t k. (q, t) \<in># mset (map key bs) \<Longrightarrow> k < ext t \<Longrightarrow> get s' (q + k) = get s (q + k)"
    using alloc_ok [of s "mset (map key bs)" r] assms by (auto simp: consistent_def)
  have "data_intact (get s') ext bs"
    using assms(1) fr by (force simp: consistent_def data_intact_def key_def)
  then show ?thesis using p by (auto simp: consistent_def data_intact_def key_def)
qed

lemma poke_key:
  "i < length bs \<Longrightarrow>
   inv s (mset (map key bs)) = inv s (add_mset (key (bs ! i)) (mset (drop_nth i (map key bs))))"
  using mset_nth_split [of i "map key bs"] by simp

lemma exec_Poke:
  assumes "consistent s bs"
  shows "\<exists>s' bs'. exec alloc fr get set_mem ext (Poke i k b) (s, bs) = Some (s', bs') \<and>
    consistent s' bs'"
proof (cases "i < length bs \<and> k < ext (breq (bs ! i))")
  case True
  define B where "B = bs ! i"
  let ?p = "baddr B" and ?m = "(get s)(baddr B + k \<mapsto> b)"
  let ?B' = "Block ?p (breq B) ((bdata B)(k \<mapsto> b))"
  have inv: "inv s (add_mset (?p, breq B) (mset (drop_nth i (map key bs))))"
    using assms True poke_key [of i bs s] by (simp add: consistent_def B_def key_def)
  have kk: "k < ext (breq B)" using True by (simp add: B_def)
  have get: "get s (?p + k) \<noteq> None"
    using live_mapped [OF inv] kk by (auto simp: mapped_def subset_eq)
  have keys: "map key (bs[i := ?B']) = map key bs"
    by (rule mset_update_same_key) (use True in \<open>auto simp: key_def B_def\<close>)
  have "inv (set_mem ?m s) (mset (map key bs))"
    using write_inv [OF inv kk, of b] True poke_key [of i bs] by (simp add: B_def key_def)
  moreover have "data_intact ?m ext (bs[i := ?B'])"
    unfolding data_intact_def
  proof (intro ballI allI impI)
    fix C j c assume C: "C \<in> set (bs[i := ?B'])" "bdata C j = Some c"
    then obtain n where n: "n < length bs" "C = bs[i := ?B'] ! n" by (auto simp: in_set_conv_nth)
    show "j < ext (breq C) \<and> ?m (baddr C + j) = Some c"
    proof (cases "n = i")
      case True
      with C n have "C = ?B'" by simp
      then show ?thesis using C assms kk True n nth_mem [of i bs]
        by (auto simp: consistent_def data_intact_def B_def split: if_splits)
    next
      case False
      with n have Cn: "C = bs ! n" by simp
      then have old: "j < ext (breq C) \<and> get s (baddr C + j) = Some c"
        using C assms n nth_mem [of n bs] by (auto simp: consistent_def data_intact_def)
      have "apart ?p (ext (breq B)) (baddr C) (ext (breq C))"
        using two_apart [of s bs i n] assms True False n Cn by (auto simp: consistent_def B_def)
      with old kk show ?thesis by (auto simp: apart_def)
    qed
  qed
  ultimately have "consistent (set_mem ?m s) (bs[i := ?B'])"
    by (simp add: consistent_def keys get_set)
  then show ?thesis using True get by (auto simp: B_def)
qed (use assms in auto)

theorem run_safe:
  assumes "consistent s bs" "\<forall>c \<in> set cs. legal_cmd legal c \<and> \<not> is_Free c"
  shows "\<exists>s' bs'. run alloc fr get set_mem ext cs (s, bs) = Some (s', bs') \<and> consistent s' bs'"
  using assms
proof (induction cs arbitrary: s bs)
  case (Cons c cs)
  have "\<exists>s' bs'. exec alloc fr get set_mem ext c (s, bs) = Some (s', bs') \<and> consistent s' bs'"
    using Cons.prems exec_Alloc exec_Poke by (cases c) auto
  then obtain s' bs' where "exec alloc fr get set_mem ext c (s, bs) = Some (s', bs')"
    "consistent s' bs'" by blast
  with Cons.IH [of s' bs'] Cons.prems(2) show ?case by auto
qed simp

corollary client_safe:
  assumes "inv s {#}" "\<forall>c \<in> set cs. legal_cmd legal c \<and> \<not> is_Free c"
  shows "\<exists>s' bs'. run alloc fr get set_mem ext cs (s, []) = Some (s', bs') \<and>
    inv s' (mset (map key bs')) \<and> blocks_apart ext bs' \<and> data_intact (get s') ext bs'"
  using run_safe [OF consistent_empty [OF assms(1)] assms(2), of fr] consistent_apart
  by (fastforce simp: consistent_def)

end

locale freeing_allocator = allocator inv get set_mem ext legal alloc
  for inv :: "'s \<Rightarrow> (addr \<times> 'r) multiset \<Rightarrow> bool"
    and get and set_mem and ext and legal and alloc +
  fixes dealloc :: "addr \<Rightarrow> 'r \<Rightarrow> 's \<Rightarrow> 's option"
  assumes dealloc_ok: "inv s (add_mset (p, r) L) \<Longrightarrow>
    \<exists>s'. dealloc p r s = Some s' \<and> inv s' L \<and>
      (\<forall>q t k. (q, t) \<in># L \<longrightarrow> k < ext t \<longrightarrow> get s' (q + k) = get s (q + k))"
begin

lemma exec_Free:
  assumes "consistent s bs"
  shows "\<exists>s' bs'. exec alloc dealloc get set_mem ext (Free i) (s, bs) = Some (s', bs') \<and>
    consistent s' bs'"
proof (cases "i < length bs")
  case True
  define B L where "B = bs ! i" and "L = mset (map key (drop_nth i bs))"
  have "inv s (add_mset (baddr B, breq B) L)"
    using assms True poke_key [of i bs s]
    by (simp add: consistent_def B_def L_def key_def map_drop_nth del: mset_map)
  then obtain s' where s': "dealloc (baddr B) (breq B) s = Some s'" "inv s' L"
    and fr: "\<And>q t k. (q, t) \<in># L \<Longrightarrow> k < ext t \<Longrightarrow> get s' (q + k) = get s (q + k)"
    using dealloc_ok by blast
  have "data_intact (get s') ext (drop_nth i bs)"
    unfolding data_intact_def
  proof (intro ballI allI impI)
    fix C k c assume C: "C \<in> set (drop_nth i bs)" "bdata C k = Some c"
    then have "C \<in> set bs" using set_drop_nth by fast
    then have "k < ext (breq C) \<and> get s (baddr C + k) = Some c"
      using assms C by (auto simp: consistent_def data_intact_def)
    moreover have "(baddr C, breq C) \<in># L"
      using C by (auto simp: L_def key_def image_iff intro!: bexI [of _ C])
    ultimately show "k < ext (breq C) \<and> get s' (baddr C + k) = Some c" using fr by simp
  qed
  then show ?thesis using s' True by (auto simp: consistent_def B_def L_def)
qed (use assms in auto)

theorem run_safe_free:
  assumes "consistent s bs" "\<forall>c \<in> set cs. legal_cmd legal c"
  shows "\<exists>s' bs'. run alloc dealloc get set_mem ext cs (s, bs) = Some (s', bs') \<and> consistent s' bs'"
  using assms
proof (induction cs arbitrary: s bs)
  case (Cons c cs)
  have "\<exists>s' bs'. exec alloc dealloc get set_mem ext c (s, bs) = Some (s', bs') \<and> consistent s' bs'"
    using Cons.prems exec_Alloc exec_Poke exec_Free by (cases c) auto
  then obtain s' bs' where "exec alloc dealloc get set_mem ext c (s, bs) = Some (s', bs')"
    "consistent s' bs'" by blast
  with Cons.IH [of s' bs'] Cons.prems(2) show ?case by auto
qed simp

corollary client_safe_free:
  assumes "inv s {#}" "\<forall>c \<in> set cs. legal_cmd legal c"
  shows "\<exists>s' bs'. run alloc dealloc get set_mem ext cs (s, []) = Some (s', bs') \<and>
    inv s' (mset (map key bs')) \<and> blocks_apart ext bs' \<and> data_intact (get s') ext bs'"
  using run_safe_free [OF consistent_empty [OF assms(1)] assms(2)] consistent_apart
  by (fastforce simp: consistent_def)

end

text \<open>The part of the contract that is about writing, for states whose memory can be replaced: stores of several
  bytes into one block.\<close>

locale block_memory =
  fixes inv :: "'s \<Rightarrow> (addr \<times> 'r) multiset \<Rightarrow> bool"
    and get :: "'s \<Rightarrow> mem"
    and set_mem :: "mem \<Rightarrow> 's \<Rightarrow> 's"
    and ext :: "'r \<Rightarrow> nat"
  assumes get_set: "get (set_mem m s) = m"
    and set_set: "set_mem m (set_mem m' s) = set_mem m s"
    and set_get: "set_mem (get s) s = s"
    and live_mapped: "inv s (add_mset (p, r) L) \<Longrightarrow> mapped (get s) p (ext r)"
    and live_apart: "inv s (add_mset (p, r) (add_mset (q, t) L)) \<Longrightarrow> apart p (ext r) q (ext t)"
    and write_inv: "inv s (add_mset (p, r) L) \<Longrightarrow> k < ext r \<Longrightarrow>
      inv (set_mem ((get s)(p + k \<mapsto> b)) s) (add_mset (p, r) L)"
begin

lemma store_block:
  assumes "inv s (add_mset (p, r) L)" "k + length bs \<le> ext r"
  shows "store_bytes (get s) (p + k) bs = Some (put (get s) (p + k) bs)"
  using mapped_mono [OF live_mapped [OF assms(1)], of "p + k" "length bs"] assms(2)
  by (simp add: store_bytes_char)

lemma store_inv:
  "inv s (add_mset (p, r) L) \<Longrightarrow> k + length bs \<le> ext r \<Longrightarrow>
   inv (set_mem (put (get s) (p + k) bs) s) (add_mset (p, r) L)"
proof (induction bs arbitrary: s k)
  case Nil
  then show ?case by (simp add: set_get)
next
  case (Cons b bs)
  let ?s = "set_mem ((get s)(p + k \<mapsto> b)) s"
  have "inv ?s (add_mset (p, r) L)" using write_inv [OF Cons.prems(1), of k b] Cons.prems(2) by simp
  from Cons.IH [OF this, of "Suc k"] Cons.prems(2) show ?case
    by (simp add: put_Cons get_set set_set del: fun_upd_apply)
qed

lemma store_other:
  assumes "inv s (add_mset (p, r) (add_mset (q, t) L))" "k + length bs \<le> ext r" "j < ext t"
  shows "put (get s) (p + k) bs (q + j) = get s (q + j)"
  using live_apart [OF assms(1)] assms(2,3) by (intro put_outside) (auto simp: apart_def)

end

end
