(* ===== verification/Bump.thy ===== *)
theory Bump
  imports Allocator_Spec
begin

text \<open>
  \<open>14_putting_it_together/01_bump.c\<close>: the bump (arena) allocator.  The record \<open>arena\<close> is the
  struct Arena, one definition per function.  Sizes wrap at 64 bits as size_t does, and so does
  the pointer sum \<open>a->bump + sz\<close> on the flat address space of x86-64.
\<close>

record arena =
  a_base :: addr
  a_bump :: addr
  a_end :: addr

section \<open>The operations\<close>

definition arena_init :: "addr option \<Rightarrow> nat \<Rightarrow> arena \<Rightarrow> mem \<Rightarrow> int \<times> arena \<times> mem" where
  "arena_init choice cap a m =
     (let (p, m') = sys_mmap choice cap m;
          a = a\<lparr>a_base := p\<rparr>
      in if a_base a = MAP_FAILED then (-1, a, m')
         else (0, a\<lparr>a_bump := a_base a, a_end := add64 (a_base a) cap\<rparr>, m'))"

definition arena_alloc :: "nat \<Rightarrow> arena \<Rightarrow> addr \<times> arena" where
  "arena_alloc sz a =
     (let sz = align_up sz
      in if add64 (a_bump a) sz > a_end a then (NULL, a)
         else (a_bump a, a\<lparr>a_bump := add64 (a_bump a) sz\<rparr>))"

definition arena_reset :: "arena \<Rightarrow> arena" where
  "arena_reset a = a\<lparr>a_bump := a_base a\<rparr>"

definition arena_destroy :: "arena \<Rightarrow> mem \<Rightarrow> mem" where
  "arena_destroy a m = sys_munmap (a_base a) (sub64 (a_end a) (a_base a)) m"

text \<open>\<open>(long)(a.bump - a.base)\<close>, what the demo prints.\<close>

definition arena_used :: "arena \<Rightarrow> nat" where
  "arena_used a = sub64 (a_bump a) (a_base a)"

section \<open>Well-formed arenas\<close>

definition arena_wf :: "arena \<Rightarrow> bool" where
  "arena_wf a \<longleftrightarrow> 0 < a_base a \<and> a_base a \<le> a_bump a \<and> a_bump a \<le> a_end a \<and>
     a_end a \<le> USER_TOP \<and> 16 dvd a_base a \<and> 16 dvd a_bump a"

text \<open>The requests for which neither the rounding nor the pointer sum wraps: everything up to
  just below 2^64 minus the user address space.\<close>

definition arena_legal :: "nat \<Rightarrow> bool" where
  "arena_legal sz \<longleftrightarrow> sz + USER_TOP + 15 < 2 ^ 64"

lemma USER_TOP_less: "USER_TOP < 2 ^ 63"
  by (simp add: USER_TOP_def)

lemma arena_legal_sum:
  assumes "arena_wf a" "arena_legal sz"
  shows "add64 (a_bump a) (align_up sz) = a_bump a + align_up sz"
    and "sz \<le> align_up sz" and "align_up sz < sz + 16"
proof -
  have "sz + 15 < 2 ^ 64" using assms(2) by (simp add: arena_legal_def)
  then show le: "sz \<le> align_up sz" and lt: "align_up sz < sz + 16"
    by (rule align_up_ge, rule align_up_less)
  have "a_bump a + align_up sz < 2 ^ 64"
    using assms lt by (simp add: arena_wf_def arena_legal_def)
  then show "add64 (a_bump a) (align_up sz) = a_bump a + align_up sz" by (rule add64_exact)
qed

lemma arena_alloc_cases:
  assumes "arena_wf a" "arena_legal sz"
  shows "arena_alloc sz a =
    (if a_bump a + align_up sz > a_end a then (0, a)
     else (a_bump a, a\<lparr>a_bump := a_bump a + align_up sz\<rparr>))"
  using arena_legal_sum [OF assms] by (simp add: arena_alloc_def Let_def)

lemma arena_alloc_wf:
  assumes "arena_wf a" "arena_legal sz"
  shows "arena_wf (snd (arena_alloc sz a))"
  using assms by (simp add: arena_alloc_cases) (auto simp: arena_wf_def)

lemma arena_init_wf:
  assumes "mmap_ok (Some p) cap m"
  shows "\<exists>a' m'. arena_init (Some p) cap a m = (0, a', m') \<and> arena_wf a' \<and>
    a_base a' = p \<and> a_bump a' = p \<and> a_end a' = p + cap \<and> mapped m' p cap"
proof -
  have top: "p + page_up cap \<le> USER_TOP" and al: "4096 dvd p" and pos: "0 < p"
    using assms by (auto simp: mmap_ok_def)
  have le: "p + cap \<le> USER_TOP" using top page_up_ge [of cap] by simp
  have "p \<noteq> MAP_FAILED" "add64 p cap = p + cap"
    using le USER_TOP_less by (auto simp: MAP_FAILED_def intro!: add64_exact)
  moreover have "16 dvd p" using al by (rule dvd_trans [rotated]) simp
  moreover have "mapped (snd (sys_mmap (Some p) cap m)) p cap"
    using page_up_ge [of cap] by (auto simp: sys_mmap_def mapped_def)
  ultimately show ?thesis
    using le pos by (simp add: arena_init_def sys_mmap_def Let_def arena_wf_def)
qed

section \<open>The allocator contract\<close>

text \<open>The state a client sees: the arena and the memory.\<close>

type_synonym bump_state = "arena \<times> mem"

definition bump_alloc :: "nat \<Rightarrow> bump_state \<Rightarrow> (addr \<times> bump_state) option" where
  "bump_alloc sz s = (let (p, a') = arena_alloc sz (fst s) in Some (p, a', snd s))"

definition bump_set_mem :: "mem \<Rightarrow> bump_state \<Rightarrow> bump_state" where
  "bump_set_mem m s = (fst s, m)"

definition bump_extent :: "nat \<Rightarrow> nat" where
  "bump_extent sz = sz"

definition bump_inv :: "bump_state \<Rightarrow> (addr \<times> nat) multiset \<Rightarrow> bool" where
  "bump_inv s L \<longleftrightarrow>
     arena_wf (fst s) \<and> mapped (snd s) (a_base (fst s)) (a_end (fst s) - a_base (fst s)) \<and>
     apart_mset bump_extent L \<and>
     (\<forall>(p, sz) \<in># L. a_base (fst s) \<le> p \<and> p + sz \<le> a_bump (fst s))"

lemma bump_alloc_inv:
  assumes inv: "bump_inv s L" and leg: "arena_legal sz"
  shows "\<exists>p s'. bump_alloc sz s = Some (p, s') \<and> snd s' = snd s \<and>
    bump_inv s' (if p = 0 then L else add_mset (p, sz) L)"
proof (cases "a_bump (fst s) + align_up sz > a_end (fst s)")
  case True
  then show ?thesis using assms
    by (auto simp: bump_alloc_def arena_alloc_cases bump_inv_def)
next
  case False
  define a where "a = fst s"
  let ?a' = "a\<lparr>a_bump := a_bump a + align_up sz\<rparr>"
  have wf: "arena_wf a" using inv by (simp add: bump_inv_def a_def)
  have fits: "\<not> a_bump a + align_up sz > a_end a" using False by (simp add: a_def)
  have res: "arena_alloc sz a = (a_bump a, ?a')"
    using fits by (simp add: arena_alloc_cases [OF wf leg])
  then have alloc: "bump_alloc sz s = Some (a_bump a, ?a', snd s)"
    by (simp add: bump_alloc_def a_def)
  have "arena_wf ?a'" using arena_alloc_wf [OF wf leg] by (simp add: res)
  moreover have "apart_mset bump_extent (add_mset (a_bump a, sz) L)"
    using inv by (auto simp: apart_mset_add bump_inv_def apart_def bump_extent_def a_def)
  moreover have "\<forall>(p, n) \<in># add_mset (a_bump a, sz) L.
      a_base a \<le> p \<and> p + n \<le> a_bump a + align_up sz"
    using inv wf arena_legal_sum(2) [OF wf leg] by (auto simp: bump_inv_def arena_wf_def a_def)
  ultimately have "bump_inv (?a', snd s) (add_mset (a_bump a, sz) L)"
    using inv by (simp add: bump_inv_def a_def)
  moreover have "a_bump a \<noteq> 0" using wf by (auto simp: arena_wf_def)
  ultimately show ?thesis using alloc by simp
qed

lemma bump_block:
  assumes "bump_inv s L" "(p, sz) \<in># L"
  shows "a_base (fst s) \<le> p" "p + sz \<le> a_end (fst s)"
  using assms by (auto simp: bump_inv_def arena_wf_def)

interpretation bump: allocator bump_inv snd bump_set_mem bump_extent arena_legal bump_alloc
proof unfold_locales
  fix s :: bump_state and p r L assume i: "bump_inv s (add_mset (p, r) L)"
  have m: "mapped (snd s) (a_base (fst s)) (a_end (fst s) - a_base (fst s))"
    using i unfolding bump_inv_def by (elim conjE)
  have "a_base (fst s) \<le> p" "p + r \<le> a_end (fst s)"
    using bump_block [OF i, of p r] by (simp_all only: union_single_eq_member)
  with m show "mapped (snd s) p (bump_extent r)"
    unfolding bump_extent_def by (elim mapped_mono) simp_all
next
  fix s p r q t L assume "bump_inv s (add_mset (p, r) (add_mset (q, t) L))"
  then show "apart p (bump_extent r) q (bump_extent t)"
    by (auto simp: bump_inv_def apart_mset_add)
next
  fix s p r L k b assume i: "bump_inv s (add_mset (p, r) L)" and "k < bump_extent r"
  then have "mapped ((snd s)(p + k \<mapsto> b)) x n" if "mapped (snd s) x n" for x n
    using that by (auto simp: mapped_def)
  with i show "bump_inv (bump_set_mem ((snd s)(p + k \<mapsto> b)) s) (add_mset (p, r) L)"
    by (simp add: bump_inv_def bump_set_mem_def)
next
  fix s L r assume "bump_inv s L" "arena_legal r"
  from bump_alloc_inv [OF this] obtain p s' where "bump_alloc r s = Some (p, s')"
    "snd s' = snd s" "bump_inv s' (if p = 0 then L else add_mset (p, r) L)" by blast
  then show "\<exists>p s'. bump_alloc r s = Some (p, s') \<and>
      bump_inv s' (if p = 0 then L else add_mset (p, r) L) \<and>
      (\<forall>q t k. (q, t) \<in># L \<longrightarrow> k < bump_extent t \<longrightarrow> snd s' (q + k) = snd s (q + k))"
    by (intro exI [of _ p] exI [of _ s']) simp
qed (simp add: bump_set_mem_def)


section \<open>Sequences of allocations\<close>

fun arena_allocs :: "nat list \<Rightarrow> arena \<Rightarrow> addr list \<times> arena" where
  "arena_allocs [] a = ([], a)"
| "arena_allocs (sz # szs) a =
     (let (p, a') = arena_alloc sz a; (ps, a'') = arena_allocs szs a' in (p # ps, a''))"

text \<open>The addresses a run of successful allocations returns: each block starts where the
  rounded previous one ended.\<close>

fun bump_layout :: "addr \<Rightarrow> nat list \<Rightarrow> addr list" where
  "bump_layout p [] = []"
| "bump_layout p (sz # szs) = p # bump_layout (p + (sz + 15) div 16 * 16) szs"

definition rounded_total :: "nat list \<Rightarrow> nat" where
  "rounded_total szs = (\<Sum>sz \<leftarrow> szs. (sz + 15) div 16 * 16)"

lemma arena_legal_align: "arena_legal sz \<Longrightarrow> align_up sz = (sz + 15) div 16 * 16"
  by (rule align_up_exact) (simp add: arena_legal_def)

lemma arena_allocs_layout:
  assumes "arena_wf a" "\<forall>sz \<in> set szs. arena_legal sz"
    and "a_bump a + rounded_total szs \<le> a_end a"
  shows "arena_allocs szs a =
    (bump_layout (a_bump a) szs, a\<lparr>a_bump := a_bump a + rounded_total szs\<rparr>)"
  using assms
proof (induction szs arbitrary: a)
  case (Cons sz szs)
  let ?n = "(sz + 15) div 16 * 16"
  let ?a' = "a\<lparr>a_bump := a_bump a + ?n\<rparr>"
  have leg: "arena_legal sz" and al: "align_up sz = ?n"
    using Cons.prems(2) arena_legal_align by auto
  have "arena_alloc sz a = (a_bump a, ?a')"
    using arena_alloc_cases [OF Cons.prems(1) leg] al Cons.prems(3) by (simp add: rounded_total_def)
  moreover have "arena_wf ?a'"
    using arena_alloc_wf [OF Cons.prems(1) leg] calculation by simp
  ultimately show ?case using Cons.IH [of ?a'] Cons.prems(2,3)
    by (simp add: rounded_total_def add.assoc)
qed (simp add: rounded_total_def)

section \<open>Properties\<close>

text \<open>arena_alloc, on a well-formed arena and a request that does not wrap, either finds too
  little room for the rounded size and returns NULL without changing the arena, or returns the
  old bump pointer: a 16-byte aligned block of at least sz bytes inside the arena, directly below
  the new bump pointer, which moved by less than sz + 16.\<close>

theorem arena_alloc_correct:
  assumes "arena_wf a" and "arena_legal sz"
  shows "let (p, a') = arena_alloc sz a in
    arena_wf a' \<and> a_base a' = a_base a \<and> a_end a' = a_end a \<and>
    (if a_end a - a_bump a < (sz + 15) div 16 * 16 then p = NULL \<and> a' = a
     else p = a_bump a \<and> 16 dvd p \<and> p + sz \<le> a_bump a' \<and> a_bump a' < p + sz + 16 \<and>
       a_bump a' \<le> a_end a)"
proof -
  have bounds: "sz \<le> align_up sz" "align_up sz < sz + 16"
    using arena_legal_sum [OF assms] by simp_all
  have wf': "arena_wf (snd (arena_alloc sz a))" by (rule arena_alloc_wf [OF assms])
  have le: "a_bump a \<le> a_end a" "16 dvd a_bump a" using assms(1) by (simp_all add: arena_wf_def)
  have al: "align_up sz = (sz + 15) div 16 * 16" by (rule arena_legal_align [OF assms(2)])
  show ?thesis
  proof (cases "a_end a - a_bump a < align_up sz")
    case True
    then have "a_end a < a_bump a + align_up sz" using le by linarith
    then have "arena_alloc sz a = (0, a)" by (simp add: arena_alloc_cases [OF assms])
    then show ?thesis using True assms(1) by (simp add: al)
  next
    case False
    then have "\<not> a_end a < a_bump a + align_up sz" using le by linarith
    then have "arena_alloc sz a = (a_bump a, a\<lparr>a_bump := a_bump a + align_up sz\<rparr>)"
      by (simp add: arena_alloc_cases [OF assms])
    then show ?thesis using False bounds le wf' by (auto simp: al [symmetric])
  qed
qed

definition demo_arena :: arena where
  "demo_arena = \<lparr>a_base = 4096, a_bump = 4096, a_end = 8192\<rparr>"

lemma demo_arena_wf: "arena_wf demo_arena"
  by (simp add: arena_wf_def demo_arena_def USER_TOP_def)

theorem arena_alloc_correct_witness:
  "arena_wf demo_arena \<and> arena_legal 13 \<and> fst (arena_alloc 13 demo_arena) = 4096 \<and>
   a_bump (snd (arena_alloc 13 demo_arena)) = 4112"
proof -
  have leg: "arena_legal 13" by (simp add: arena_legal_def USER_TOP_def)
  show ?thesis
    using arena_alloc_correct [OF demo_arena_wf leg] demo_arena_wf leg
      arena_alloc_cases [OF demo_arena_wf leg] arena_legal_align [OF leg]
    by (simp add: demo_arena_def)
qed

text \<open>Sizes that are not legal: either the rounded size does not wrap the pointer sum and is refused,
  or it does, and the check lets it through although no arena has that much room.\<close>

lemma align_up_cases:
  assumes "sz < 2 ^ 64"
  shows "(sz + 15) div 16 * 16 < 2 ^ 64 \<and> align_up sz = (sz + 15) div 16 * 16 \<or>
    (sz + 15) div 16 * 16 = 2 ^ 64 \<and> align_up sz = 0"
proof (cases "sz + 15 < 2 ^ 64")
  case True
  have "(sz + 15) div 16 * 16 \<le> sz + 15" by simp
  then have "(sz + 15) div 16 * 16 < 2 ^ 64" using True by (rule le_less_trans)
  then show ?thesis using align_up_exact [OF True] by simp
next
  case False
  then have "(sz + 15) div 16 = 2 ^ 60" using assms by simp
  moreover have "(sz + 15) mod 2 ^ 64 = sz + 15 - 2 ^ 64" using False assms by (simp add: mod_if)
  ultimately show ?thesis using assms False by (simp add: align_up_wrap)
qed

lemma arena_alloc_huge:
  assumes wf: "arena_wf a" and sz: "\<not> arena_legal sz" "sz < 2 ^ 64"
  shows "if a_bump a + (sz + 15) div 16 * 16 < 2 ^ 64 then arena_alloc sz a = (NULL, a)
    else fst (arena_alloc sz a) = a_bump a \<and> a_end a < a_bump a + sz"
proof -
  define r where "r = (sz + 15) div 16 * 16"
  have b: "0 < a_base a" "a_base a \<le> a_bump a" "a_bump a \<le> a_end a" "a_end a \<le> USER_TOP"
    using wf by (simp_all add: arena_wf_def)
  have u: "2 ^ 64 \<le> sz + USER_TOP + 15" "USER_TOP < 2 ^ 62"
    using sz(1) by (simp_all add: arena_legal_def USER_TOP_def)
  have big: "a_end a < sz" using b(4) u by (simp add: USER_TOP_def)
  have r: "sz \<le> r" unfolding r_def by simp
  have al: "r < 2 ^ 64 \<and> align_up sz = r \<or> r = 2 ^ 64 \<and> align_up sz = 0"
    unfolding r_def by (rule align_up_cases [OF sz(2)])
  show ?thesis
  proof (cases "a_bump a + r < 2 ^ 64")
    case True
    then have "align_up sz = r" using al by auto
    then have "add64 (a_bump a) (align_up sz) = a_bump a + r" using True by (simp add: add64_exact)
    moreover have "a_end a < a_bump a + r" using big r by simp
    ultimately show ?thesis using True unfolding r_def by (simp add: arena_alloc_def)
  next
    case False
    have top: "a_bump a < 2 ^ 64" using b(3,4) u(2) by simp
    have "add64 (a_bump a) (align_up sz) \<le> a_bump a"
    proof (cases "r < 2 ^ 64")
      case True
      then have "add64 (a_bump a) (align_up sz) = (a_bump a + r) mod 2 ^ 64" using al by (auto simp: add64_def)
      also have "\<dots> = a_bump a + r - 2 ^ 64" using False True top by (simp add: mod_if)
      finally show ?thesis using True by simp
    next
      case F: False
      then have "align_up sz = 0" using al by auto
      then show ?thesis using top by (simp add: add64_exact)
    qed
    then have "fst (arena_alloc sz a) = a_bump a" using b(3) by (simp add: arena_alloc_def)
    moreover have "a_end a < a_bump a + sz" using big by simp
    ultimately show ?thesis using False unfolding r_def by simp
  qed
qed

text \<open>C12. A client of a freshly initialised arena, of any capacity, may run any script of allocations and
  writes into its own blocks, with sizes up to 2^64 minus the user address space: nothing faults,
  the live blocks never overlap, and every byte keeps the value the client last wrote there.  The
  remaining sizes of type size_t, in every state such a script reaches: as long as the bump pointer plus the
  rounded size does not wrap, the answer is NULL and nothing changes; when it wraps, the bound
  check is passed and a block is granted that ends beyond the arena.\<close>

theorem arena_client_safe:
  assumes "mmap_ok (Some p) cap m"
    and "\<forall>c \<in> set cs. legal_cmd arena_legal c \<and> \<not> is_Free c"
  shows "\<exists>a' m'. arena_init (Some p) cap a m = (0, a', m') \<and>
    (\<exists>s bs. run bump_alloc fr snd bump_set_mem bump_extent cs ((a', m'), []) = Some (s, bs) \<and>
      blocks_apart bump_extent bs \<and> data_intact (snd s) bump_extent bs \<and>
      (\<forall>sz. \<not> arena_legal sz \<longrightarrow> sz < 2 ^ 64 \<longrightarrow>
        (if a_bump (fst s) + (sz + 15) div 16 * 16 < 2 ^ 64 then arena_alloc sz (fst s) = (NULL, fst s)
         else fst (arena_alloc sz (fst s)) = a_bump (fst s) \<and> a_end (fst s) < a_bump (fst s) + sz)))"
proof -
  obtain a' m' where i: "arena_init (Some p) cap a m = (0, a', m')" "arena_wf a'"
    "a_base a' = p" "a_end a' = p + cap" "mapped m' p cap"
    using arena_init_wf [OF assms(1), of a] by blast
  then have "bump_inv (a', m') {#}" by (simp add: bump_inv_def)
  from bump.client_safe [OF this assms(2), of fr] obtain s bs where
    run: "run bump_alloc fr snd bump_set_mem bump_extent cs ((a', m'), []) = Some (s, bs)"
      "bump_inv s (mset (map key bs))" "blocks_apart bump_extent bs" "data_intact (snd s) bump_extent bs"
    by blast
  have "arena_wf (fst s)" using run(2) by (auto simp: bump_inv_def)
  note huge = arena_alloc_huge [OF this]
  then show ?thesis using i(1) run(1,3,4)
    by (intro exI [of _ a'] exI [of _ m'] conjI exI [of _ s] exI [of _ bs]) auto
qed

theorem arena_client_safe_witness:
  "mmap_ok (Some 4096) 4096 Map.empty \<and>
   (\<exists>a' m'. arena_init (Some 4096) 4096 demo_arena Map.empty = (0, a', m') \<and>
     (\<exists>s bs. run bump_alloc (\<lambda>p r s. None) snd bump_set_mem bump_extent
        [Alloc 13, Poke 0 2 65, Alloc 100] ((a', m'), []) = Some (s, bs) \<and>
      blocks_apart bump_extent bs \<and> data_intact (snd s) bump_extent bs))"
proof -
  have ok: "mmap_ok (Some 4096) 4096 Map.empty"
    by (simp add: mmap_ok_def page_up_def USER_TOP_def)
  have "\<forall>c \<in> set [Alloc 13, Poke 0 2 65, Alloc 100]. legal_cmd arena_legal c \<and> \<not> is_Free c"
    by (simp add: arena_legal_def USER_TOP_def)
  from arena_client_safe [OF ok this, of demo_arena "\<lambda>p r s. None"] ok show ?thesis by blast
qed

text \<open>Arena_reset gives back everything at once: after any sequence of allocations that fit, the
  used count is the sum of the sizes rounded to 16, the blocks lie back to back, and after the
  reset the used count is 0 and the same allocations return the same addresses again.\<close>

theorem arena_reset_reuses:
  assumes "arena_wf a" and "a_bump a = a_base a" and "\<forall>sz \<in> set szs. arena_legal sz"
    and "rounded_total szs \<le> a_end a - a_base a"
  shows "arena_used (snd (arena_allocs szs a)) = rounded_total szs \<and>
    fst (arena_allocs szs a) = bump_layout (a_base a) szs \<and>
    arena_used (arena_reset (snd (arena_allocs szs a))) = 0 \<and>
    arena_allocs szs (arena_reset (snd (arena_allocs szs a))) = arena_allocs szs a"
proof -
  have top: "a_base a \<le> a_end a" "a_end a < 2 ^ 64"
    using assms(1) USER_TOP_less by (auto simp: arena_wf_def)
  have fit: "a_bump a + rounded_total szs \<le> a_end a" using assms(2,4) top by simp
  have eq: "arena_allocs szs a =
      (bump_layout (a_bump a) szs, a\<lparr>a_bump := a_bump a + rounded_total szs\<rparr>)"
    by (rule arena_allocs_layout [OF assms(1,3) fit])
  have undo: "arena_reset (snd (arena_allocs szs a)) = a"
    using assms(2) by (simp add: eq arena_reset_def)
  show ?thesis
    unfolding undo using assms(2) fit top by (simp add: eq arena_used_def sub64_exact)
qed

theorem arena_reset_reuses_witness:
  "arena_used (snd (arena_allocs [13, 100] demo_arena)) = 128 \<and>
   fst (arena_allocs [13, 100] demo_arena) = [4096, 4112] \<and>
   arena_allocs [13, 100] (arena_reset (snd (arena_allocs [13, 100] demo_arena))) =
     arena_allocs [13, 100] demo_arena"
  using arena_reset_reuses [OF demo_arena_wf, of "[13, 100]"]
  by (simp add: demo_arena_def arena_legal_def USER_TOP_def rounded_total_def)

text \<open>The size check is not overflow-safe.  For the last fifteen values of size_t, ALIGN_UP wraps
  to 0 and arena_alloc hands out a non-null pointer while reserving nothing; and for a request of
  2^64 - 16 k bytes with 16 k at most the part in use, the pointer sum wraps, so the call
  succeeds and moves the bump pointer 16 k bytes backwards, into blocks handed out before.\<close>

theorem arena_alloc_overflow:
  assumes "arena_wf a"
  shows "(0 < k \<longrightarrow> k \<le> 15 \<longrightarrow> arena_alloc (2 ^ 64 - k) a = (a_bump a, a)) \<and>
    (0 < k \<longrightarrow> 16 * k \<le> a_bump a - a_base a \<longrightarrow>
      arena_alloc (2 ^ 64 - 16 * k) a = (a_bump a, a\<lparr>a_bump := a_bump a - 16 * k\<rparr>))"
proof (intro conjI impI)
  assume k: "0 < k" "k \<le> 15"
  have "(2 ^ 64 - k + 15) mod 2 ^ 64 = 15 - k"
  proof -
    have "2 ^ 64 - k + 15 = 2 ^ 64 + (15 - k)" using k by simp
    then have "(2 ^ 64 - k + 15) mod 2 ^ 64 = (15 - k) mod 2 ^ 64"
      by (simp only: mod_add_self1)
    also have "\<dots> = 15 - k" by (rule mod_less) (use k in simp)
    finally show ?thesis .
  qed
  then have "align_up (2 ^ 64 - k) = (15 - k) div 16 * 16" by (simp only: align_up_wrap)
  then have "align_up (2 ^ 64 - k) = 0" using k by simp
  moreover have "a_bump a \<le> a_end a" "a_end a < 2 ^ 64"
    using assms USER_TOP_less by (auto simp: arena_wf_def)
  ultimately show "arena_alloc (2 ^ 64 - k) a = (a_bump a, a)"
    by (simp add: arena_alloc_def add64_exact)
next
  assume k: "0 < k" "16 * k \<le> a_bump a - a_base a"
  have b: "a_base a \<le> a_bump a" "a_bump a \<le> a_end a" "a_end a < 2 ^ 63" "0 < a_base a"
    using assms USER_TOP_less by (auto simp: arena_wf_def)
  have lt: "16 * k < 2 ^ 63" using k b by linarith
  have al: "align_up (2 ^ 64 - 16 * k) = 2 ^ 64 - 16 * k"
  proof (rule align_up_id)
    have "2 ^ 64 - 16 * k = (2 ^ 60 - k) * 16" by simp
    then show "16 dvd 2 ^ 64 - 16 * k" by (metis dvd_triv_right)
    show "2 ^ 64 - 16 * k + 15 < 2 ^ 64" using k lt by simp
  qed
  have "a_bump a + (2 ^ 64 - 16 * k) = 2 ^ 64 + (a_bump a - 16 * k)"
    using k b lt by simp
  then have "add64 (a_bump a) (2 ^ 64 - 16 * k) = (a_bump a - 16 * k) mod 2 ^ 64"
    unfolding add64_def by (simp only: mod_add_self1)
  also have "\<dots> = a_bump a - 16 * k" by (rule mod_less) (use b in simp)
  finally have sum: "add64 (a_bump a) (2 ^ 64 - 16 * k) = a_bump a - 16 * k" .
  then show "arena_alloc (2 ^ 64 - 16 * k) a = (a_bump a, a\<lparr>a_bump := a_bump a - 16 * k\<rparr>)"
    using b by (simp add: arena_alloc_def al [simplified] sum [simplified])
qed

theorem arena_alloc_overflow_witness:
  "arena_wf (snd (arena_alloc 32 demo_arena)) \<and>
   fst (arena_alloc (2 ^ 64 - 32) (snd (arena_alloc 32 demo_arena))) = 4128 \<and>
   a_bump (snd (arena_alloc (2 ^ 64 - 32) (snd (arena_alloc 32 demo_arena)))) = 4096"
proof -
  have leg: "arena_legal 32" by (simp add: arena_legal_def USER_TOP_def)
  have eq: "arena_alloc 32 demo_arena = (4096, demo_arena\<lparr>a_bump := 4128\<rparr>)"
    using arena_alloc_cases [OF demo_arena_wf leg] arena_legal_align [OF leg]
    by (simp add: demo_arena_def)
  have wf: "arena_wf (snd (arena_alloc 32 demo_arena))"
    by (rule arena_alloc_wf [OF demo_arena_wf leg])
  show ?thesis
    using arena_alloc_overflow [OF wf, of 2] wf unfolding eq by (simp add: demo_arena_def)
qed

end
