(* ===== verification/Linked_List.thy ===== *)
theory Linked_List
  imports Allocator_Spec
begin

text \<open>
  Singly linked lists threaded through memory, the data structure all allocators but the bump
  arena are built on.  \<open>chain off m p xs\<close>: starting from the pointer p, the nodes of the list
  are xs, the link of a node lies \<open>off\<close> bytes into it, and the last link is NULL.
\<close>

primrec chain :: "nat \<Rightarrow> mem \<Rightarrow> addr \<Rightarrow> addr list \<Rightarrow> bool" where
  "chain off m p [] \<longleftrightarrow> p = 0"
| "chain off m p (x # xs) \<longleftrightarrow>
     p = x \<and> x \<noteq> 0 \<and> (\<exists>q. load64 m (x + off) = Some q \<and> chain off m q xs)"

lemma chain_NULL [simp]: "chain off m 0 xs \<longleftrightarrow> xs = []"
  by (cases xs) auto

lemma chain_pos: "0 < p \<Longrightarrow> chain off m p xs \<longleftrightarrow>
    (\<exists>q ys. xs = p # ys \<and> load64 m (p + off) = Some q \<and> chain off m q ys)"
  by (cases xs) auto

lemma chain_head: "chain off m p (x # xs) \<Longrightarrow> p = x"
  by simp

lemma chain_nonzero: "chain off m p xs \<Longrightarrow> 0 \<notin> set xs"
  by (induction xs arbitrary: p) auto

lemma chain_cong:
  "(\<And>x. x \<in> set xs \<Longrightarrow> load64 m (x + off) = load64 m' (x + off)) \<Longrightarrow>
   chain off m p xs = chain off m' p xs"
  by (induction xs arbitrary: p) auto

lemma chain_put:
  "(\<And>x. x \<in> set xs \<Longrightarrow> apart (x + off) 8 a (length bs)) \<Longrightarrow>
   chain off (put m a bs) p xs = chain off m p xs"
  by (rule chain_cong) (auto simp: apart_def intro!: load64_put_other)

lemma chain_unique: "chain off m p xs \<Longrightarrow> chain off m p ys \<Longrightarrow> xs = ys"
proof (induction xs arbitrary: p ys)
  case (Cons x xs)
  then show ?case by (cases ys) auto
qed simp

lemma chain_mapped: "chain off m p xs \<Longrightarrow> x \<in> set xs \<Longrightarrow> mapped m (x + off) 8"
  by (induction xs arbitrary: p) (auto dest: load64_SomeD)

lemma chain_less: "chain off m p xs \<Longrightarrow> \<forall>x \<in> set xs. x < 2 ^ 64 \<Longrightarrow> p < 2 ^ 64"
  by (cases xs) auto

text \<open>Pushing a node: store the old head into its link.\<close>

lemma chain_push:
  assumes "chain off m p xs" "p < 2 ^ 64" "x \<noteq> 0"
    and "\<And>y. y \<in> set xs \<Longrightarrow> apart (y + off) 8 (x + off) 8"
  shows "chain off (put64 m (x + off) p) x (x # xs)"
  using assms by (simp add: load64_put_same chain_put)


lemma chain_suffix:
  "chain off m p (ys @ zs) \<Longrightarrow> \<exists>q. chain off m q zs"
  by (induction ys arbitrary: p) auto

lemma chain_distinct: "chain off m p xs \<Longrightarrow> distinct xs"
proof (induction xs arbitrary: p)
  case (Cons x xs)
  then obtain q where q: "chain off m q xs" by auto
  have "x \<notin> set xs"
  proof
    assume "x \<in> set xs"
    then obtain as bs where xs: "xs = as @ x # bs" by (metis split_list)
    obtain r where r: "chain off m r (x # bs)" using chain_suffix q unfolding xs by blast
    have "x # xs = x # bs"
      using chain_unique [of off m x "x # xs" "x # bs"] Cons.prems r by simp
    then have "length xs = length bs" by simp
    then show False by (simp add: xs)
  qed
  with Cons.IH [OF q] show ?case by simp
qed simp

lemma chain_last:
  "chain off m p (ys @ zs) \<Longrightarrow> ys \<noteq> [] \<Longrightarrow>
   \<exists>q. load64 m (last ys + off) = Some q \<and> chain off m q zs"
proof (induction ys arbitrary: p)
  case (Cons y ys)
  then show ?case by (cases "ys = []") auto
qed simp

text \<open>Unlinking a node behind a non-empty prefix: store its link into the node before it.\<close>

lemma chain_unlink:
  assumes "chain off m p (ys @ z # zs)" "ys \<noteq> []" "load64 m (z + off) = Some n" "n < 2 ^ 64"
    and "\<And>a b. a \<in> set (ys @ zs) \<Longrightarrow> b \<in> set (ys @ zs) \<Longrightarrow> a \<noteq> b \<Longrightarrow> apart (a + off) 8 (b + off) 8"
  shows "chain off (put64 m (last ys + off) n) p (ys @ zs)"
  using assms
proof (induction ys arbitrary: p)
  case (Cons y ys)
  let ?m = "put64 m (last (y # ys) + off) n"
  have dist: "distinct (y # ys @ z # zs)" using chain_distinct [OF Cons.prems(1)] by simp
  show ?case
  proof (cases "ys = []")
    case True
    have "chain off m n zs" using Cons.prems(1,3) True by auto
    moreover have "apart (x + off) 8 (y + off) 8" if "x \<in> set zs" for x
      using Cons.prems(5) [of x y] dist that True by auto
    ultimately have "chain off ?m n zs" using True by (subst chain_put) simp_all
    then show ?thesis using Cons.prems(1,4) True by (auto simp: load64_put_same)
  next
    case False
    obtain q where q: "p = y" "y \<noteq> 0" "load64 m (y + off) = Some q" "chain off m q (ys @ z # zs)"
      using Cons.prems(1) by auto
    have "chain off (put64 m (last ys + off) n) q (ys @ zs)"
      using Cons.prems(5) by (intro Cons.IH [OF q(4) False Cons.prems(3,4)]) auto
    moreover have "y \<noteq> last ys" using dist False by (metis distinct.simps(2) in_set_conv_decomp
        append_Cons last_in_set Un_iff set_append)
    then have "apart (y + off) 8 (last ys + off) 8"
      using Cons.prems(5) [of y "last ys"] False by simp
    then have "load64 (put64 m (last ys + off) n) (y + off) = Some q"
      using q(3) by (subst load64_put_other) (auto simp: apart_def)
    ultimately show ?thesis using q False by simp
  qed
qed simp

end
