(* ===== verification/Pool.thy ===== *)
theory Pool
  imports Linked_List
begin

text \<open>
  \<open>14_putting_it_together/02_pool.c\<close>: the fixed-size pool.  The record \<open>pool\<close> is the struct
  Pool; the free list is threaded through the free slots in memory (struct Node, the link at
  offset 0).  Every access to a node is a 64-bit load or store that faults off the mapping.
\<close>

record pool =
  p_base :: addr
  p_obj_sz :: nat
  p_cap :: nat
  p_free_head :: addr

definition sizeof_Node :: nat where "sizeof_Node = 8"

section \<open>The operations\<close>

text \<open>The loop of pool_init that threads the free list through all slots.\<close>

function pool_thread ::
  "nat \<Rightarrow> nat \<Rightarrow> addr \<Rightarrow> nat \<Rightarrow> addr \<Rightarrow> mem \<Rightarrow> (addr \<times> mem) option" where
  "pool_thread i n base obj_sz head m =
     (if i < n
      then let node = add64 base (mul64 i obj_sz)
           in (case store64 m node head of
                 None \<Rightarrow> None
               | Some m' \<Rightarrow> pool_thread (Suc i) n base obj_sz node m')
      else Some (head, m))"
  by pat_completeness auto
termination
  by (relation "measure (\<lambda>(i, n, _). n - i)") auto

declare pool_thread.simps [simp del]

definition pool_init ::
  "addr option \<Rightarrow> nat \<Rightarrow> nat \<Rightarrow> pool \<Rightarrow> mem \<Rightarrow> (int \<times> pool \<times> mem) option" where
  "pool_init choice obj_sz n p m =
     (let obj_sz = (if obj_sz < sizeof_Node then sizeof_Node else obj_sz);
          p = p\<lparr>p_obj_sz := obj_sz, p_cap := n\<rparr>;
          (b, m') = sys_mmap choice (mul64 obj_sz n) m;
          p = p\<lparr>p_base := b\<rparr>
      in if p_base p = MAP_FAILED then Some (-1, p, m')
         else (case pool_thread 0 n (p_base p) obj_sz NULL m' of
                 None \<Rightarrow> None
               | Some (head, m'') \<Rightarrow> Some (0, p\<lparr>p_free_head := head\<rparr>, m'')))"

definition pool_alloc :: "pool \<Rightarrow> mem \<Rightarrow> (addr \<times> pool) option" where
  "pool_alloc p m =
     (if p_free_head p = NULL then Some (NULL, p)
      else let n = p_free_head p
           in (case load64 m n of
                 None \<Rightarrow> None
               | Some next \<Rightarrow> Some (n, p\<lparr>p_free_head := next\<rparr>)))"

definition pool_free :: "addr \<Rightarrow> pool \<Rightarrow> mem \<Rightarrow> (pool \<times> mem) option" where
  "pool_free q p m =
     (case store64 m q (p_free_head p) of
        None \<Rightarrow> None
      | Some m' \<Rightarrow> Some (p\<lparr>p_free_head := q\<rparr>, m'))"

definition pool_destroy :: "pool \<Rightarrow> mem \<Rightarrow> mem" where
  "pool_destroy p m = sys_munmap (p_base p) (mul64 (p_obj_sz p) (p_cap p)) m"

section \<open>Slots\<close>

definition slots :: "addr \<Rightarrow> nat \<Rightarrow> nat \<Rightarrow> addr list" where
  "slots base osz n = map (\<lambda>i. base + i * osz) [0..<n]"

lemma slot_range: "x \<in> set (slots base osz n) \<Longrightarrow> base \<le> x \<and> x + osz \<le> base + n * osz"
proof -
  assume "x \<in> set (slots base osz n)"
  then obtain i where "i < n" "x = base + i * osz" by (auto simp: slots_def)
  moreover from \<open>i < n\<close> have "Suc i * osz \<le> n * osz" by (intro mult_le_mono1) simp
  ultimately show ?thesis by simp
qed

lemma slots_apart:
  assumes "x \<in> set (slots base osz n)" "y \<in> set (slots base osz n)" "x \<noteq> y"
  shows "apart x osz y osz"
proof -
  obtain i j where ij: "x = base + i * osz" "y = base + j * osz"
    using assms by (auto simp: slots_def)
  with assms(3) have "i < j \<or> j < i" by auto
  then have "Suc i * osz \<le> j * osz \<or> Suc j * osz \<le> i * osz"
    by (metis Suc_leI mult_le_mono1)
  with ij show ?thesis by (auto simp: apart_def)
qed

lemma distinct_slots: "0 < osz \<Longrightarrow> distinct (slots base osz n)"
  by (auto simp: slots_def distinct_map inj_on_def)

lemma slots_Suc: "slots base osz (Suc n) = slots base osz n @ [base + n * osz]"
  by (simp add: slots_def)

section \<open>The invariant\<close>

text \<open>The state is the pool and the memory.  The free list and the live blocks together are
  exactly the slots, each once.\<close>

type_synonym pool_state = "pool \<times> mem"

definition pool_wf :: "nat \<Rightarrow> pool_state \<Rightarrow> bool" where
  "pool_wf osz s \<longleftrightarrow> p_obj_sz (fst s) = osz \<and> 8 \<le> osz \<and> 0 < p_base (fst s) \<and>
     p_base (fst s) + p_cap (fst s) * osz \<le> USER_TOP \<and>
     mapped (snd s) (p_base (fst s)) (p_cap (fst s) * osz)"

definition pool_inv_fl :: "nat \<Rightarrow> pool_state \<Rightarrow> addr list \<Rightarrow> (addr \<times> nat) multiset \<Rightarrow> bool" where
  "pool_inv_fl osz s fs L \<longleftrightarrow> pool_wf osz s \<and>
     chain 0 (snd s) (p_free_head (fst s)) fs \<and>
     mset fs + image_mset fst L = mset (slots (p_base (fst s)) osz (p_cap (fst s))) \<and>
     (\<forall>x \<in># L. snd x \<le> osz)"

definition pool_inv :: "nat \<Rightarrow> pool_state \<Rightarrow> (addr \<times> nat) multiset \<Rightarrow> bool" where
  "pool_inv osz s L \<longleftrightarrow> (\<exists>fs. pool_inv_fl osz s fs L)"

lemma mset_add_set:
  "mset fs + image_mset fst L = mset xs \<Longrightarrow> set fs \<union> fst ` set_mset L = set xs"
  by (metis set_image_mset set_mset_mset set_mset_union)

lemma mset_add_distinct:
  assumes "mset fs + image_mset fst L = mset xs" "distinct xs"
  shows "distinct fs" and "x \<in># L \<Longrightarrow> fst x \<notin> set fs"
    and "L = add_mset x (add_mset y L') \<Longrightarrow> fst x \<noteq> fst y"
proof -
  have le: "count (mset fs + image_mset fst L) a \<le> 1" for a
    using assms(2) unfolding assms(1) distinct_count_atmost_1 by simp
  have one: "count (mset fs) a \<le> 1" for a using le [of a] by simp
  have pos: "0 < count (mset fs) a" if "a \<in> set fs" for a using that by simp
  have "count (mset fs) a = (if a \<in> set fs then 1 else 0)" for a
    using one [of a] pos [of a] by (auto simp: le_Suc_eq count_eq_zero_iff)
  then show "distinct fs" by (simp add: distinct_count_atmost_1)
  show "x \<in># L \<Longrightarrow> fst x \<notin> set fs"
  proof
    assume "x \<in># L" "fst x \<in> set fs"
    then have "1 \<le> count (mset fs) (fst x)" "1 \<le> count (image_mset fst L) (fst x)"
      by (simp_all add: Suc_le_eq)
    with le [of "fst x"] show False by simp
  qed
  show "L = add_mset x (add_mset y L') \<Longrightarrow> fst x \<noteq> fst y"
    using le [of "fst x"] by auto
qed


lemma pool_slot:
  assumes "pool_wf osz s" "x \<in> set (slots (p_base (fst s)) osz (p_cap (fst s)))" "k \<le> osz"
  shows "mapped (snd s) x k" "0 < x" "x < 2 ^ 64"
proof -
  note r = slot_range [OF assms(2)]
  show "mapped (snd s) x k"
    using assms r by (auto simp: pool_wf_def elim!: mapped_mono)
  show "0 < x" "x < 2 ^ 64"
    using assms(1) r by (auto simp: pool_wf_def USER_TOP_def)
qed

lemma pool_inv_sets:
  assumes "pool_inv_fl osz s fs L"
  shows "set fs \<union> fst ` set_mset L = set (slots (p_base (fst s)) osz (p_cap (fst s)))"
    and "distinct (slots (p_base (fst s)) osz (p_cap (fst s)))"
proof -
  have "0 < osz" using assms by (auto simp: pool_inv_fl_def pool_wf_def)
  then show "distinct (slots (p_base (fst s)) osz (p_cap (fst s)))" by (rule distinct_slots)
  show "set fs \<union> fst ` set_mset L = set (slots (p_base (fst s)) osz (p_cap (fst s)))"
    using assms by (intro mset_add_set) (simp add: pool_inv_fl_def)
qed

lemma pool_inv_block:
  assumes "pool_inv_fl osz s fs L" "x \<in># L"
  shows "fst x \<in> set (slots (p_base (fst s)) osz (p_cap (fst s)))" "snd x \<le> osz"
    and "fst x \<notin> set fs"
proof -
  show "fst x \<in> set (slots (p_base (fst s)) osz (p_cap (fst s)))"
    using pool_inv_sets(1) [OF assms(1)] assms(2) by blast
  show "snd x \<le> osz" using assms by (auto simp: pool_inv_fl_def)
  show "fst x \<notin> set fs"
    using assms mset_add_distinct(2) [of fs L _ x] pool_inv_sets(2) [OF assms(1)]
    by (auto simp: pool_inv_fl_def)
qed

section \<open>The operations keep the invariant\<close>

lemma pool_thread_ok:
  assumes "base + n * osz \<le> USER_TOP" "mapped m base (n * osz)" "8 \<le> osz" "0 < base"
    and "chain 0 m head (rev (slots base osz i))" "head < 2 ^ 64" "i \<le> n"
  shows "\<exists>h m'. pool_thread i n base osz head m = Some (h, m') \<and>
    chain 0 m' h (rev (slots base osz n)) \<and> dom m' = dom m"
  using assms
proof (induction i n base osz head m rule: pool_thread.induct)
  case (1 i n base osz head m)
  show ?case
  proof (cases "i < n")
    case True
    let ?x = "base + i * osz"
    have "Suc i * osz \<le> n * osz" using True by (intro mult_le_mono1) simp
    then have top: "?x + osz \<le> base + n * osz" by simp
    have lt: "?x < 2 ^ 64" "i * osz < 2 ^ 64"
      using top "1.prems"(1) by (auto simp: USER_TOP_def)
    have node: "add64 base (mul64 i osz) = ?x" using lt by (simp add: mul64_exact add64_exact)
    have mp: "mapped m ?x 8"
      using "1.prems"(2,3) top by (auto elim!: mapped_mono)
    have "chain 0 (put64 m (?x + 0) head) ?x (?x # rev (slots base osz i))"
    proof (rule chain_push)
      fix y assume "y \<in> set (rev (slots base osz i))"
      then have "y + osz \<le> ?x" using slot_range [of y base osz i] by simp
      then show "apart (y + 0) 8 (?x + 0) 8" using "1.prems"(3) by (simp add: apart_def)
    qed (use "1.prems" in auto)
    then have "chain 0 (put64 m ?x head) ?x (rev (slots base osz (Suc i)))"
      by (simp add: slots_Suc)
    moreover have "dom (put64 m ?x head) = dom m"
      using mp by (auto simp: dom_put mapped_def)
    moreover have "mapped (put64 m ?x head) base (n * osz)"
      using "1.prems"(2) calculation(2) by (simp add: mapped_def)
    moreover have "store64 m ?x head = Some (put64 m ?x head)" using mp by (rule store64_mapped)
    ultimately show ?thesis
      using "1.IH" [OF True refl _ ] "1.prems" lt True
      by (simp add: pool_thread.simps [of i] node Let_def)
  next
    case False
    then show ?thesis using "1.prems" by (simp add: pool_thread.simps)
  qed
qed

lemma pool_init_ok:
  assumes "mmap_ok (Some b) (osz * n) m" "8 \<le> osz" "osz = max 8 req"
  shows "\<exists>p' m'. pool_init (Some b) req n p m = Some (0, p', m') \<and>
    pool_inv_fl osz (p', m') (rev (slots b osz n)) {#} \<and> p_base p' = b \<and> p_cap p' = n"
proof -
  have osz: "(if req < sizeof_Node then sizeof_Node else req) = osz"
    using assms(3) by (auto simp: sizeof_Node_def)
  have top: "b + page_up (osz * n) \<le> USER_TOP" "0 < b" using assms(1) by (auto simp: mmap_ok_def)
  have le: "b + n * osz \<le> USER_TOP" using top page_up_ge [of "osz * n"] by (simp add: mult.commute)
  then have ml: "mul64 osz n = osz * n"
    by (intro mul64_exact) (simp add: USER_TOP_def mult.commute)
  define m1 where "m1 = snd (sys_mmap (Some b) (osz * n) m)"
  have mm: "sys_mmap (Some b) (mul64 osz n) m = (b, m1)" by (simp add: m1_def ml sys_mmap_def)
  have mp: "mapped m1 b (n * osz)"
    using page_up_ge [of "osz * n"] by (auto simp: m1_def sys_mmap_def mapped_def mult.commute)
  have nf: "b \<noteq> MAP_FAILED" using le by (auto simp: USER_TOP_def MAP_FAILED_def)
  obtain h m' where th: "pool_thread 0 n b osz 0 m1 = Some (h, m')"
      "chain 0 m' h (rev (slots b osz n))" "dom m' = dom m1"
    using pool_thread_ok [OF le mp assms(2) top(2), of 0 0] by (auto simp: slots_def)
  have "mapped m' b (n * osz)" using mp th(3) by (simp add: mapped_def)
  then show ?thesis
    using th nf le top(2) assms(2)
    by (simp add: pool_init_def osz mm Let_def pool_inv_fl_def pool_wf_def)
qed

lemma pool_alloc_ok:
  assumes "pool_inv_fl osz (p, m) fs L"
  shows "pool_alloc p m =
    Some (case fs of [] \<Rightarrow> (0, p) | x # fs' \<Rightarrow> (x, p\<lparr>p_free_head := if fs' = [] then 0 else hd fs'\<rparr>))"
proof (cases fs)
  case (Cons x fs')
  with assms obtain q where "p_free_head p = x" "x \<noteq> 0" "load64 m x = Some q" "chain 0 m q fs'"
    by (auto simp: pool_inv_fl_def)
  moreover from this have "q = (if fs' = [] then 0 else hd fs')" by (cases fs') auto
  ultimately show ?thesis using Cons by (simp add: pool_alloc_def Let_def)
qed (use assms in \<open>simp add: pool_inv_fl_def pool_alloc_def\<close>)

lemma pool_alloc_inv:
  assumes "pool_inv_fl osz (p, m) (x # fs) L" "r \<le> osz"
  shows "pool_inv_fl osz (p\<lparr>p_free_head := if fs = [] then 0 else hd fs\<rparr>, m) fs (add_mset (x, r) L)"
proof -
  obtain q where q: "load64 m x = Some q" "chain 0 m q fs"
    using assms(1) by (auto simp: pool_inv_fl_def)
  then have "q = (if fs = [] then 0 else hd fs)" by (cases fs) auto
  with q assms show ?thesis by (auto simp: pool_inv_fl_def pool_wf_def)
qed

lemma pool_free_inv:
  assumes inv: "pool_inv_fl osz (p, m) fs (add_mset (q, r) L)"
  shows "pool_free q p m = Some (p\<lparr>p_free_head := q\<rparr>, put64 m q (p_free_head p))"
    and "pool_inv_fl osz (p\<lparr>p_free_head := q\<rparr>, put64 m q (p_free_head p)) (q # fs) L"
proof -
  let ?S = "set (slots (p_base p) osz (p_cap p))"
  have wf: "pool_wf osz (p, m)" using inv by (simp add: pool_inv_fl_def)
  have osz: "8 \<le> osz" using wf by (simp add: pool_wf_def)
  have q: "q \<in> ?S" "q \<notin> set fs" using pool_inv_block [OF inv, of "(q, r)"] by auto
  have mp: "mapped m q 8" "0 < q" using pool_slot [OF wf] q(1) osz by auto
  then show "pool_free q p m = Some (p\<lparr>p_free_head := q\<rparr>, put64 m q (p_free_head p))"
    by (simp add: pool_free_def store64_mapped)
  have fsS: "set fs \<subseteq> ?S" using pool_inv_sets(1) [OF inv] by auto
  have ch: "chain 0 m (p_free_head p) fs" using inv by (simp add: pool_inv_fl_def)
  have "chain 0 (put64 m (q + 0) (p_free_head p)) q (q # fs)"
  proof (rule chain_push [OF ch])
    show "p_free_head p < 2 ^ 64"
      using chain_less [OF ch] fsS pool_slot(3) [OF wf _ le0] by auto
    fix y assume "y \<in> set fs"
    then have "apart y osz q osz" using slots_apart [of y _ osz _ q] fsS q by blast
    then show "apart (y + 0) 8 (q + 0) 8" using osz by (auto elim: apart_mono)
  qed (use mp in simp)
  moreover have "mapped (put64 m q (p_free_head p)) (p_base p) (p_cap p * osz)"
    using wf mp(1) by (simp add: mapped_put pool_wf_def)
  ultimately show
    "pool_inv_fl osz (p\<lparr>p_free_head := q\<rparr>, put64 m q (p_free_head p)) (q # fs) L"
    using inv by (simp add: pool_inv_fl_def pool_wf_def)
qed

section \<open>The allocator contract\<close>

definition pool_malloc :: "nat \<Rightarrow> pool_state \<Rightarrow> (addr \<times> pool_state) option" where
  "pool_malloc r s = map_option (\<lambda>(q, p'). (q, p', snd s)) (pool_alloc (fst s) (snd s))"

definition pool_dealloc :: "addr \<Rightarrow> nat \<Rightarrow> pool_state \<Rightarrow> pool_state option" where
  "pool_dealloc q r s = pool_free q (fst s) (snd s)"

definition pool_set_mem :: "mem \<Rightarrow> pool_state \<Rightarrow> pool_state" where
  "pool_set_mem m s = (fst s, m)"

definition pool_extent :: "nat \<Rightarrow> nat" where
  "pool_extent r = r"

lemma pool_blocks_distinct:
  assumes inv: "pool_inv_fl osz s fs (add_mset x (add_mset y L))"
  shows "fst x \<noteq> fst y"
proof (rule mset_add_distinct(3) [OF _ pool_inv_sets(2) [OF inv] refl])
  show "mset fs + image_mset fst (add_mset x (add_mset y L)) =
      mset (slots (p_base (fst s)) osz (p_cap (fst s)))"
    using inv by (simp only: pool_inv_fl_def)
qed

lemma pool_blocks_apart:
  assumes inv: "pool_inv_fl osz s fs (add_mset x (add_mset y L))"
  shows "apart (fst x) (snd x) (fst y) (snd y)"
proof -
  have "fst x \<noteq> fst y" by (rule pool_blocks_distinct [OF inv])
  then have "apart (fst x) osz (fst y) osz"
    using pool_inv_block(1) [OF inv, of x] pool_inv_block(1) [OF inv, of y]
    by (intro slots_apart) auto
  then show ?thesis
    using pool_inv_block(2) [OF inv, of x] pool_inv_block(2) [OF inv, of y]
    by (auto elim: apart_mono)
qed

lemma pool_write_inv:
  assumes inv: "pool_inv_fl osz (p, m) fs (add_mset (q, r) L)" and k: "k < r"
  shows "pool_inv_fl osz (p, m(q + k \<mapsto> b)) fs (add_mset (q, r) L)"
proof -
  let ?S = "set (slots (p_base p) osz (p_cap p))"
  have wf: "pool_wf osz (p, m)" using inv by (simp add: pool_inv_fl_def)
  have q: "q \<in> ?S" "q \<notin> set fs" "r \<le> osz" using pool_inv_block [OF inv, of "(q, r)"] by auto
  have osz: "8 \<le> osz" using wf by (simp add: pool_wf_def)
  have "chain 0 (put m (q + k) [b]) (p_free_head p) fs"
  proof (subst chain_put)
    fix y assume "y \<in> set fs"
    then have "y \<in> ?S" using pool_inv_sets(1) [OF inv] by auto
    with \<open>y \<in> set fs\<close> q have "apart y osz q osz" by (intro slots_apart) auto
    then show "apart (y + 0) 8 (q + k) (length [b])" using osz k q by (auto simp: apart_def)
  qed (use inv in \<open>simp add: pool_inv_fl_def\<close>)
  moreover have "mapped (put m (q + k) [b]) (p_base p) (p_cap p * osz)"
    using wf by (auto simp: pool_wf_def mapped_def dom_put)
  ultimately show ?thesis using inv
    by (simp add: pool_inv_fl_def pool_wf_def fun_upd_put del: fun_upd_apply)
qed

interpretation pool: freeing_allocator "pool_inv osz" snd pool_set_mem pool_extent
  "\<lambda>r. r \<le> osz" pool_malloc pool_dealloc for osz
proof unfold_locales
  fix s :: pool_state and q r L assume "pool_inv osz s (add_mset (q, r) L)"
  then obtain fs where i: "pool_inv_fl osz s fs (add_mset (q, r) L)" by (auto simp: pool_inv_def)
  then show "mapped (snd s) q (pool_extent r)"
    using pool_inv_block [OF i, of "(q, r)"] pool_slot(1) [of osz s q r]
    by (simp add: pool_inv_fl_def pool_extent_def)
next
  fix s :: pool_state and q r q' t L
  assume "pool_inv osz s (add_mset (q, r) (add_mset (q', t) L))"
  then show "apart q (pool_extent r) q' (pool_extent t)"
    using pool_blocks_apart [of osz s _ "(q, r)" "(q', t)" L]
    by (auto simp: pool_inv_def pool_extent_def)
next
  fix s :: pool_state and q r L k b
  assume "pool_inv osz s (add_mset (q, r) L)" "k < pool_extent r"
  then show "pool_inv osz (pool_set_mem ((snd s)(q + k \<mapsto> b)) s) (add_mset (q, r) L)"
    using pool_write_inv [of osz "fst s" "snd s" _ q r L k b]
    by (auto simp: pool_inv_def pool_extent_def pool_set_mem_def)
next
  fix s :: pool_state and L r assume "pool_inv osz s L" "r \<le> osz"
  then obtain fs where i: "pool_inv_fl osz (fst s, snd s) fs L" by (auto simp: pool_inv_def)
  show "\<exists>p s'. pool_malloc r s = Some (p, s') \<and>
      pool_inv osz s' (if p = 0 then L else add_mset (p, r) L) \<and>
      (\<forall>q t k. (q, t) \<in># L \<longrightarrow> k < pool_extent t \<longrightarrow> snd s' (q + k) = snd s (q + k))"
  proof (cases fs)
    case Nil
    then show ?thesis using i pool_alloc_ok [OF i] by (auto simp: pool_malloc_def pool_inv_def)
  next
    case (Cons x fs')
    then have "x \<noteq> 0" using i by (auto simp: pool_inv_fl_def)
    then show ?thesis
      using pool_alloc_ok [OF i] pool_alloc_inv [OF i [unfolded Cons] \<open>r \<le> osz\<close>] Cons
      by (auto simp: pool_malloc_def pool_inv_def)
  qed
next
  fix s :: pool_state and q r L assume "pool_inv osz s (add_mset (q, r) L)"
  then obtain fs where i: "pool_inv_fl osz (fst s, snd s) fs (add_mset (q, r) L)"
    by (auto simp: pool_inv_def)
  have frame: "put64 (snd s) q v (q' + k) = snd s (q' + k)"
    if "(q', t) \<in># L" "k < pool_extent t" for q' t k v
  proof -
    obtain L' where L: "L = add_mset (q', t) L'" using \<open>(q', t) \<in># L\<close> by (metis multi_member_split)
    have "8 \<le> osz" using i by (simp add: pool_inv_fl_def pool_wf_def)
    moreover have "q \<noteq> q'"
      using pool_blocks_distinct [OF i [unfolded L]] by simp
    then have "apart q osz q' osz"
      using pool_inv_block(1) [OF i, of "(q, r)"] pool_inv_block(1) [OF i, of "(q', t)"] that(1)
      by (intro slots_apart) auto
    moreover have "t \<le> osz" using pool_inv_block(2) [OF i, of "(q', t)"] that(1) by simp
    ultimately show ?thesis using that(2)
      by (intro put_outside) (auto simp: apart_def pool_extent_def)
  qed
  show "\<exists>s'. pool_dealloc q r s = Some s' \<and> pool_inv osz s' L \<and>
      (\<forall>q' t k. (q', t) \<in># L \<longrightarrow> k < pool_extent t \<longrightarrow> snd s' (q' + k) = snd s (q' + k))"
    using pool_free_inv [OF i] frame by (auto simp: pool_dealloc_def pool_inv_def)
qed (simp add: pool_set_mem_def)


section \<open>Properties\<close>

text \<open>Allocating k times in a row.\<close>

fun pool_allocs :: "nat \<Rightarrow> pool \<Rightarrow> mem \<Rightarrow> (addr list \<times> pool) option" where
  "pool_allocs 0 p m = Some ([], p)"
| "pool_allocs (Suc k) p m =
     (case pool_alloc p m of
        None \<Rightarrow> None
      | Some (q, p') \<Rightarrow> map_option (\<lambda>(qs, p''). (q # qs, p'')) (pool_allocs k p' m))"

lemma pool_allocs_drain:
  assumes "chain 0 m (p_free_head p) fs"
  shows "pool_allocs (length fs) p m = Some (fs, p\<lparr>p_free_head := 0\<rparr>)"
  using assms
proof (induction fs arbitrary: p)
  case (Cons x fs)
  then obtain q where "load64 m x = Some q" "p_free_head p = x" "x \<noteq> 0" "chain 0 m q fs" by auto
  with Cons.IH [of "p\<lparr>p_free_head := q\<rparr>"] show ?case by (simp add: pool_alloc_def Let_def)
qed simp

text \<open>Pool_init threads every slot of the region onto the free list, and pool_alloc pops them
  one by one: after a successful init with n slots, n allocations return all n slots, the last
  slot of the region first, and the next allocation returns NULL.\<close>

theorem pool_drain:
  assumes "mmap_ok (Some b) (max 8 obj_sz * n) m"
  shows "\<exists>p' m'. pool_init (Some b) obj_sz n p m = Some (0, p', m') \<and>
    (\<exists>p''. pool_allocs n p' m' = Some (rev (slots b (max 8 obj_sz) n), p'') \<and>
       pool_alloc p'' m' = Some (NULL, p''))"
proof -
  obtain p' m' where i: "pool_init (Some b) obj_sz n p m = Some (0, p', m')"
    "pool_inv_fl (max 8 obj_sz) (p', m') (rev (slots b (max 8 obj_sz) n)) {#}"
    using pool_init_ok [OF assms, of obj_sz p] by auto
  have "chain 0 m' (p_free_head p') (rev (slots b (max 8 obj_sz) n))"
    using i(2) by (simp add: pool_inv_fl_def)
  from pool_allocs_drain [OF this]
  have "pool_allocs n p' m' = Some (rev (slots b (max 8 obj_sz) n), p'\<lparr>p_free_head := 0\<rparr>)"
    by (simp add: slots_def)
  then show ?thesis using i(1) by (auto simp: pool_alloc_def)
qed

definition demo_pool :: pool where
  "demo_pool = \<lparr>p_base = 0, p_obj_sz = 0, p_cap = 0, p_free_head = 0\<rparr>"

lemma demo_mmap: "mmap_ok (Some 4096) (max 8 32 * 3) Map.empty"
  by (simp add: mmap_ok_def page_up_def USER_TOP_def)

theorem pool_drain_witness:
  "\<exists>p' m'. pool_init (Some 4096) 32 3 demo_pool Map.empty = Some (0, p', m') \<and>
    (\<exists>p''. pool_allocs 3 p' m' = Some ([4160, 4128, 4096], p'') \<and>
       pool_alloc p'' m' = Some (0, p''))"
proof -
  have "rev (slots 4096 (max 8 32) 3) = [4160, 4128, 4096]"
    by (simp add: slots_def upt_rec)
  with pool_drain [OF demo_mmap, of demo_pool] show ?thesis by simp
qed

text \<open>C11. Any client of a freshly initialised pool that asks for at most the object size, in any
  order of allocations, frees and writes into its own objects, never faults; live objects never
  overlap and keep their bytes, although the free list is stored inside the free slots.\<close>

theorem pool_client_safe:
  assumes "mmap_ok (Some b) (max 8 obj_sz * n) m"
    and "\<forall>c \<in> set cs. legal_cmd (\<lambda>r. r \<le> max 8 obj_sz) c"
  shows "\<exists>p' m'. pool_init (Some b) obj_sz n p m = Some (0, p', m') \<and>
    (\<exists>s bs. run pool_malloc pool_dealloc snd pool_set_mem pool_extent cs ((p', m'), []) =
        Some (s, bs) \<and> blocks_apart pool_extent bs \<and> data_intact (snd s) pool_extent bs)"
proof -
  obtain p' m' where i: "pool_init (Some b) obj_sz n p m = Some (0, p', m')"
    "pool_inv_fl (max 8 obj_sz) (p', m') (rev (slots b (max 8 obj_sz) n)) {#}"
    using pool_init_ok [OF assms(1), of obj_sz p] by auto
  then have "pool_inv (max 8 obj_sz) (p', m') {#}" by (auto simp: pool_inv_def)
  from pool.client_safe_free [OF this assms(2)] show ?thesis using i(1) by fastforce
qed

theorem pool_client_safe_witness:
  "\<exists>p' m'. pool_init (Some 4096) 32 3 demo_pool Map.empty = Some (0, p', m') \<and>
    (\<exists>s bs. run pool_malloc pool_dealloc snd pool_set_mem pool_extent
        [Alloc 32, Alloc 32, Poke 1 31 7, Free 0, Alloc 32] ((p', m'), []) =
        Some (s, bs) \<and> blocks_apart pool_extent bs \<and> data_intact (snd s) pool_extent bs)"
  by (rule pool_client_safe [OF demo_mmap]) simp

text \<open>Pool_free followed by pool_alloc is LIFO: it returns the object just freed and leaves the
  pool as it was, having changed nothing in memory but the first eight bytes of that object.\<close>

theorem pool_free_then_alloc:
  assumes "mapped m q 8" and "q \<noteq> NULL" and "p_free_head p < 2 ^ 64"
  shows "\<exists>p' m'. pool_free q p m = Some (p', m') \<and> pool_alloc p' m' = Some (q, p) \<and>
    (\<forall>x. x < q \<or> q + 8 \<le> x \<longrightarrow> m' x = m x)"
  using assms
  by (auto simp: pool_free_def pool_alloc_def store64_mapped load64_put_same put_outside)

theorem pool_free_then_alloc_witness:
  "\<exists>p' m'. pool_free 4096 demo_pool (put64 Map.empty 4096 7) = Some (p', m') \<and>
    pool_alloc p' m' = Some (4096, demo_pool)"
  using pool_free_then_alloc [of "put64 Map.empty 4096 7" 4096 demo_pool]
  by (auto simp: mapped_def dom_put demo_pool_def)

text \<open>The size of the region, obj_sz * n, is computed without an overflow check: for objects of
  2^62 + 1024 bytes, four of them multiply to 4096, mmap succeeds with one page, and the loop of
  pool_init faults on the second slot.\<close>

theorem pool_init_size_overflow:
  assumes "mmap_ok (Some b) 4096 Map.empty"
  shows "mul64 (2 ^ 62 + 1024) 4 = 4096 \<and>
    pool_init (Some b) (2 ^ 62 + 1024) 4 p Map.empty = None"
proof
  show ml: "mul64 (2 ^ 62 + 1024) 4 = 4096" by (simp add: mul64_def)
  have b: "0 < b" "b + 4096 \<le> USER_TOP"
    using assms by (auto simp: mmap_ok_def page_up_def)
  define m1 where "m1 = snd (sys_mmap (Some b) 4096 Map.empty)"
  have mm: "sys_mmap (Some b) 4096 Map.empty = (b, m1)" by (simp add: m1_def sys_mmap_def)
  have dom: "dom m1 = {b..<b + 4096}"
    by (auto simp: m1_def sys_mmap_def page_up_def split: if_splits)
  have n0: "add64 b (mul64 0 (2 ^ 62 + 1024)) = b"
    using b by (simp add: mul64_def add64_def USER_TOP_def)
  have n1: "add64 b (mul64 (Suc 0) (2 ^ 62 + 1024)) = b + 2 ^ 62 + 1024"
    using b by (simp add: mul64_def add64_def USER_TOP_def)
  have s0: "store64 m1 b 0 = Some (put64 m1 b 0)"
    by (rule store64_mapped) (auto simp: mapped_def dom)
  have "\<not> mapped (put64 m1 b 0) (b + 2 ^ 62 + 1024) 8"
    by (auto simp: mapped_def dom_put dom subset_eq)
  then have s1: "store64 (put64 m1 b 0) (b + 2 ^ 62 + 1024) b = None"
    by (simp add: store64_def store_bytes_char)
  have "pool_thread 0 4 b (2 ^ 62 + 1024) 0 m1 = None"
    by (subst pool_thread.simps) (simp only: n0 Let_def s0 option.case if_True zero_less_numeral,
      subst pool_thread.simps, simp only: n1 Let_def s1 option.case, simp)
  moreover have "b \<noteq> MAP_FAILED" using b by (auto simp: MAP_FAILED_def USER_TOP_def)
  moreover have "(if 2 ^ 62 + 1024 < sizeof_Node then sizeof_Node else 2 ^ 62 + 1024) = 2 ^ 62 + 1024"
    by (simp add: sizeof_Node_def)
  ultimately show "pool_init (Some b) (2 ^ 62 + 1024) 4 p Map.empty = None"
    unfolding pool_init_def Let_def by (simp only: ml mm) simp
qed

theorem pool_init_size_overflow_witness:
  "mmap_ok (Some 4096) 4096 Map.empty \<and>
   pool_init (Some 4096) (2 ^ 62 + 1024) 4 demo_pool Map.empty = None"
proof -
  have ok: "mmap_ok (Some 4096) 4096 Map.empty"
    by (simp add: mmap_ok_def page_up_def USER_TOP_def)
  show ?thesis using pool_init_size_overflow [OF ok] ok by (simp only: simp_thms)
qed

end
