(* ===== verification/Slab.thy ===== *)
theory Slab
  imports Pool
begin

text \<open>
  \<open>14_putting_it_together/03_slab.c\<close>: the Bonwick-style slab allocator.  The record \<open>cache\<close> is
  the struct Cache together with the memory; struct Slab lies at the start of each mapping
  (next_all 0, next_partial 8, free 16, in_use 24, capacity 28, base 32, end 40; 48 bytes), the
  objects follow it, and a free object holds the link of struct FreeNode in its first bytes.
  Where the kernel places a slab is a function of the memory, a parameter of the operations that
  may call mmap.
\<close>

record cache =
  c_all :: addr
  c_partial :: addr
  c_obj_sz :: nat
  c_objs :: nat
  c_mem :: mem

definition SLAB_BYTES :: nat where "SLAB_BYTES = 32 * 1024"
definition sizeof_Slab :: nat where "sizeof_Slab = 48"
definition sizeof_FreeNode :: nat where "sizeof_FreeNode = 8"

abbreviation (input) next_all :: "addr \<Rightarrow> addr" where "next_all s \<equiv> s + 0"
abbreviation (input) next_partial :: "addr \<Rightarrow> addr" where "next_partial s \<equiv> s + 8"
abbreviation (input) free_list :: "addr \<Rightarrow> addr" where "free_list s \<equiv> s + 16"
abbreviation (input) in_use :: "addr \<Rightarrow> addr" where "in_use s \<equiv> s + 24"
abbreviation (input) capacity :: "addr \<Rightarrow> addr" where "capacity s \<equiv> s + 28"
abbreviation (input) obj_base :: "addr \<Rightarrow> addr" where "obj_base s \<equiv> s + 32"
abbreviation (input) obj_end :: "addr \<Rightarrow> addr" where "obj_end s \<equiv> s + 40"

definition get64 :: "addr \<Rightarrow> cache \<Rightarrow> nat option" where
  "get64 a c = load64 (c_mem c) a"

definition set64 :: "addr \<Rightarrow> nat \<Rightarrow> cache \<Rightarrow> cache option" where
  "set64 a v c = map_option (\<lambda>m. c\<lparr>c_mem := m\<rparr>) (store64 (c_mem c) a v)"

definition get32 :: "addr \<Rightarrow> cache \<Rightarrow> nat option" where
  "get32 a c = load32 (c_mem c) a"

definition set32 :: "addr \<Rightarrow> nat \<Rightarrow> cache \<Rightarrow> cache option" where
  "set32 a v c = map_option (\<lambda>m. c\<lparr>c_mem := m\<rparr>) (store32 (c_mem c) a v)"

section \<open>The operations\<close>

definition slab_header :: nat where
  "slab_header = align_up sizeof_Slab"

text \<open>An object size that rounds to 0 divides by zero.\<close>

definition cache_init :: "nat \<Rightarrow> cache \<Rightarrow> cache option" where
  "cache_init obj_sz c =
     (let obj_sz = (if obj_sz < sizeof_FreeNode then sizeof_FreeNode else obj_sz);
          obj_sz = align_up obj_sz;
          c = c\<lparr>c_obj_sz := obj_sz, c_all := NULL, c_partial := NULL\<rparr>
      in if obj_sz = 0 then None
         else Some (c\<lparr>c_objs := (SLAB_BYTES - slab_header) div obj_sz\<rparr>))"

function slab_thread :: "nat \<Rightarrow> nat \<Rightarrow> addr \<Rightarrow> cache \<Rightarrow> cache option" where
  "slab_thread i k s c =
     (if i < k
      then (case get64 (obj_base s) c of
              None \<Rightarrow> None
            | Some b \<Rightarrow>
                let n = add64 b (mul64 i (c_obj_sz c))
                in (case get64 (free_list s) c of
                      None \<Rightarrow> None
                    | Some f \<Rightarrow>
                        (case Option.bind (set64 n f c) (set64 (free_list s) n) of
                           None \<Rightarrow> None
                         | Some c' \<Rightarrow> slab_thread (Suc i) k s c')))
      else Some c)"
  by pat_completeness auto
termination by (relation "measure (\<lambda>(i, k, _). k - i)") auto

declare slab_thread.simps [simp del]

definition new_slab :: "(mem \<Rightarrow> addr option) \<Rightarrow> cache \<Rightarrow> (addr \<times> cache) option" where
  "new_slab kern c =
     (let (s, m) = sys_mmap (kern (c_mem c)) SLAB_BYTES (c_mem c); c = c\<lparr>c_mem := m\<rparr>
      in if s = MAP_FAILED then Some (NULL, c)
         else do {
           c \<leftarrow> set64 (obj_base s) (add64 s slab_header) c;
           b \<leftarrow> get64 (obj_base s) c;
           c \<leftarrow> set64 (obj_end s) (add64 b (mul64 (c_objs c) (c_obj_sz c))) c;
           c \<leftarrow> set32 (in_use s) 0 c;
           c \<leftarrow> set32 (capacity s) (c_objs c) c;
           c \<leftarrow> set64 (free_list s) NULL c;
           c \<leftarrow> slab_thread 0 (c_objs c) s c;
           c \<leftarrow> set64 (next_all s) (c_all c) c;
           let c = c\<lparr>c_all := s\<rparr>;
           c \<leftarrow> set64 (next_partial s) (c_partial c) c;
           Some (s, c\<lparr>c_partial := s\<rparr>) })"

text \<open>The part of cache_alloc after a slab is at hand; the in_use count is an int.\<close>

definition slab_pop :: "cache \<Rightarrow> (addr \<times> cache) option" where
  "slab_pop c =
     (let s = c_partial c
      in do {
        n \<leftarrow> get64 (free_list s) c;
        nx \<leftarrow> get64 n c;
        c \<leftarrow> set64 (free_list s) nx c;
        u \<leftarrow> get32 (in_use s) c;
        c \<leftarrow> set32 (in_use s) ((u + 1) mod 2 ^ 32) c;
        f \<leftarrow> get64 (free_list s) c;
        c \<leftarrow> (if f = NULL
              then do { np \<leftarrow> get64 (next_partial s) c; Some (c\<lparr>c_partial := np\<rparr>) }
              else Some c);
        Some (n, c) })"

definition cache_alloc :: "(mem \<Rightarrow> addr option) \<Rightarrow> cache \<Rightarrow> (addr \<times> cache) option" where
  "cache_alloc kern c =
     (if c_partial c = NULL
      then do {
        (s, c) \<leftarrow> new_slab kern c;
        if s = NULL then Some (NULL, c) else slab_pop c }
      else slab_pop c)"

partial_function (option) find_slab :: "addr \<Rightarrow> addr \<Rightarrow> cache \<Rightarrow> addr option" where
  "find_slab it p c =
     (if it = NULL then Some NULL
      else do {
        b \<leftarrow> get64 (obj_base it) c;
        e \<leftarrow> get64 (obj_end it) c;
        if b \<le> p \<and> p < e then Some it
        else do { nx \<leftarrow> get64 (next_all it) c; find_slab nx p c } })"

text \<open>The result says whether the pointer was one of ours; if not, a message goes to stderr.\<close>

definition cache_free :: "addr \<Rightarrow> cache \<Rightarrow> (bool \<times> cache) option" where
  "cache_free p c = do {
     s \<leftarrow> find_slab (c_all c) p c;
     if s = NULL then Some (False, c)
     else do {
       f0 \<leftarrow> get64 (free_list s) c;
       c \<leftarrow> set64 p f0 c;
       c \<leftarrow> set64 (free_list s) p c;
       u \<leftarrow> get32 (in_use s) c;
       c \<leftarrow> set32 (in_use s) ((u + 2 ^ 32 - 1) mod 2 ^ 32) c;
       if f0 = NULL
       then do {
         c \<leftarrow> set64 (next_partial s) (c_partial c) c;
         Some (True, c\<lparr>c_partial := s\<rparr>) }
       else Some (True, c) } }"

section \<open>The invariant\<close>

abbreviation slab_size :: nat where "slab_size \<equiv> 32768"

lemma slab_consts [simp]: "slab_header = 48" "SLAB_BYTES = slab_size" "sizeof_FreeNode = 8"
  by (simp_all add: slab_header_def sizeof_Slab_def SLAB_BYTES_def sizeof_FreeNode_def align_up_exact)

definition objs :: "nat \<Rightarrow> nat \<Rightarrow> addr \<Rightarrow> addr list" where
  "objs osz k s = slots (s + 48) osz k"

text \<open>One slab: its header fields, and its free objects as the list fs.\<close>

definition slab_ok :: "mem \<Rightarrow> nat \<Rightarrow> nat \<Rightarrow> addr \<Rightarrow> addr list \<Rightarrow> bool" where
  "slab_ok m osz k s fs \<longleftrightarrow>
     load64 m (s + 32) = Some (s + 48) \<and> load64 m (s + 40) = Some (s + 48 + k * osz) \<and>
     load32 m (s + 24) = Some (k - length fs) \<and> load32 m (s + 28) = Some k \<and>
     (\<exists>f. load64 m (s + 16) = Some f \<and> chain 0 m f fs) \<and> set fs \<subseteq> set (objs osz k s)"

definition sizes_ok :: "nat \<Rightarrow> nat \<Rightarrow> bool" where
  "sizes_ok osz k \<longleftrightarrow> 8 \<le> osz \<and> 0 < k \<and> k * osz + 48 \<le> slab_size"

definition cache_core :: "cache \<Rightarrow> addr list \<Rightarrow> addr list \<Rightarrow> (addr \<Rightarrow> addr list) \<Rightarrow> bool" where
  "cache_core c ss ps fo \<longleftrightarrow> sizes_ok (c_obj_sz c) (c_objs c) \<and>
     (\<forall>s \<in> set ss. 0 < s \<and> s + slab_size \<le> USER_TOP \<and> mapped (c_mem c) s slab_size \<and>
        slab_ok (c_mem c) (c_obj_sz c) (c_objs c) s (fo s)) \<and>
     (\<forall>s \<in> set ss. \<forall>t \<in> set ss. s \<noteq> t \<longrightarrow> apart s slab_size t slab_size) \<and>
     chain 0 (c_mem c) (c_all c) ss \<and> chain 8 (c_mem c) (c_partial c) ps \<and>
     set ps = {s \<in> set ss. fo s \<noteq> []}"

lemma slab_coreD:
  assumes "cache_core c ss ps fo"
  shows "sizes_ok (c_obj_sz c) (c_objs c)"
    "s \<in> set ss \<Longrightarrow> 0 < s" "s \<in> set ss \<Longrightarrow> s + slab_size \<le> USER_TOP"
    "s \<in> set ss \<Longrightarrow> mapped (c_mem c) s slab_size"
    "s \<in> set ss \<Longrightarrow> slab_ok (c_mem c) (c_obj_sz c) (c_objs c) s (fo s)"
    "s \<in> set ss \<Longrightarrow> t \<in> set ss \<Longrightarrow> s \<noteq> t \<Longrightarrow> apart s slab_size t slab_size"
    "chain 0 (c_mem c) (c_all c) ss" "chain 8 (c_mem c) (c_partial c) ps"
    "set ps = {s \<in> set ss. fo s \<noteq> []}"
  using assms by (simp_all add: cache_core_def)

lemma cache_coreI:
  assumes "sizes_ok (c_obj_sz c) (c_objs c)"
    and "\<And>s. s \<in> set ss \<Longrightarrow> 0 < s \<and> s + slab_size \<le> USER_TOP"
    and "\<And>s. s \<in> set ss \<Longrightarrow> mapped m s slab_size"
    and "\<And>s. s \<in> set ss \<Longrightarrow> slab_ok m (c_obj_sz c) (c_objs c) s (fo s)"
    and "\<And>s t. s \<in> set ss \<Longrightarrow> t \<in> set ss \<Longrightarrow> s \<noteq> t \<Longrightarrow> apart s slab_size t slab_size"
    and "chain 0 m al ss" "chain 8 m p ps" "set ps = {s \<in> set ss. fo s \<noteq> []}"
  shows "cache_core (c\<lparr>c_mem := m, c_all := al, c_partial := p\<rparr>) ss ps fo"
  using assms by (simp add: cache_core_def)

lemma obj_range:
  assumes "x \<in> set (objs osz k s)" "sizes_ok osz k"
  shows "s + 48 \<le> x" "x + osz \<le> s + 48 + k * osz" "x + osz \<le> s + slab_size" "8 \<le> osz"
  using slot_range [of x "s + 48" osz k] assms by (auto simp: objs_def sizes_ok_def)

lemma objs_apart:
  "x \<in> set (objs osz k s) \<Longrightarrow> y \<in> set (objs osz k s) \<Longrightarrow> x \<noteq> y \<Longrightarrow> apart x osz y osz"
  unfolding objs_def by (rule slots_apart)

lemma sizes_le: "sizes_ok osz k \<Longrightarrow> k \<le> slab_size"
proof -
  assume s: "sizes_ok osz k"
  then have "k * 1 \<le> k * osz" by (intro mult_le_mono2) (simp add: sizes_ok_def)
  then have "k \<le> k * osz" by simp
  moreover have "k * osz + 48 \<le> slab_size" using s by (simp add: sizes_ok_def)
  ultimately show "k \<le> slab_size" by linarith
qed

lemma slab_ok_length:
  assumes "slab_ok m osz k s fs"
  shows "distinct fs" "length fs \<le> k"
proof -
  obtain f where "chain 0 m f fs" using assms by (auto simp: slab_ok_def)
  then show d: "distinct fs" by (rule chain_distinct)
  have "length fs = card (set fs)" using d by (simp add: distinct_card)
  also have "\<dots> \<le> card (set (objs osz k s))"
    using assms by (intro card_mono) (simp_all add: slab_ok_def)
  also have "\<dots> \<le> k" using card_length [of "objs osz k s"] by (simp add: objs_def slots_def)
  finally show "length fs \<le> k" .
qed

text \<open>What a slab needs of memory: its header fields and the links of its free objects.\<close>

lemma slab_ok_frame:
  assumes "slab_ok m osz k s fs"
    and "\<And>a. s + 16 \<le> a \<Longrightarrow> a < s + 48 \<Longrightarrow> m' a = m a"
    and "\<And>x a. x \<in> set fs \<Longrightarrow> x \<le> a \<Longrightarrow> a < x + 8 \<Longrightarrow> m' a = m a"
  shows "slab_ok m' osz k s fs"
proof -
  have w: "load64 m' (s + 32) = load64 m (s + 32)" "load64 m' (s + 40) = load64 m (s + 40)"
    "load64 m' (s + 16) = load64 m (s + 16)" "load32 m' (s + 24) = load32 m (s + 24)"
    "load32 m' (s + 28) = load32 m (s + 28)"
    by (auto intro!: load64_cong load32_cong assms(2))
  have ch: "chain 0 m' f fs = chain 0 m f fs" for f
    by (rule chain_cong) (auto intro!: load64_cong assms(3))
  show ?thesis using assms(1) by (simp add: slab_ok_def w ch)
qed

lemma slab_other:
  assumes "slab_ok m osz k t fs" "sizes_ok osz k"
    and "\<And>a. t \<le> a \<Longrightarrow> a < t + slab_size \<Longrightarrow> m' a = m a"
  shows "slab_ok m' osz k t fs"
proof (rule slab_ok_frame [OF assms(1)])
  fix x a assume x: "x \<in> set fs" "x \<le> a" "a < x + 8"
  then have "x \<in> set (objs osz k t)" using assms(1) by (auto simp: slab_ok_def)
  from obj_range [OF this assms(2)] show "m' a = m a" using x by (intro assms(3)) auto
qed (auto intro: assms(3))

lemma slab_chain_frame:
  assumes "chain off m p ss" "\<And>t a. t \<in> set ss \<Longrightarrow> t + off \<le> a \<Longrightarrow> a < t + off + 8 \<Longrightarrow> m' a = m a"
  shows "chain off m' p ss"
  using assms(1) by (rule chain_cong [THEN iffD1, rotated]) (auto intro!: load64_cong simp: assms(2))

lemma mapped_sub: "mapped m s slab_size \<Longrightarrow> s \<le> a \<Longrightarrow> a + j \<le> s + slab_size \<Longrightarrow> mapped m a j"
  by (rule mapped_mono)

section \<open>Taking an object from a slab\<close>

lemma slab_pop_core:
  assumes core: "cache_core c ss (s # ps) fo"
  shows "\<exists>x fs c'. fo s = x # fs \<and> slab_pop c = Some (x, c') \<and>
    cache_core c' ss (if fs = [] then ps else s # ps) (fo(s := fs)) \<and>
    c_obj_sz c' = c_obj_sz c \<and> c_objs c' = c_objs c \<and>
    (\<forall>a. a < s + 16 \<or> s + 28 \<le> a \<longrightarrow> c_mem c' a = c_mem c a)"
proof -
  note d = slab_coreD [OF core]
  let ?m = "c_mem c" and ?osz = "c_obj_sz c" and ?k = "c_objs c"
  have sin: "s \<in> set ss" and ne: "fo s \<noteq> []" using d(9) by auto
  obtain x fs where fo: "fo s = x # fs" using ne by (cases "fo s") auto
  have ps: "c_partial c = s" "s \<noteq> 0" using d(8) by auto
  have so: "slab_ok ?m ?osz ?k s (x # fs)" using d(5) [OF sin] fo by simp
  then have sub: "set (x # fs) \<subseteq> set (objs ?osz ?k s)" by (simp add: slab_ok_def)
  have xo: "y \<in> set (x # fs) \<Longrightarrow> s + 48 \<le> y \<and> y + 8 \<le> s + slab_size" for y
    using obj_range [of y ?osz ?k s] sub d(1) by fastforce
  obtain q where q: "load64 ?m (s + 16) = Some x" "load64 ?m x = Some q" "chain 0 ?m q fs"
    using so by (auto simp: slab_ok_def)
  have q64: "q < 2 ^ 64" using load64_SomeD(2) [OF q(2)] .
  have len: "length (x # fs) \<le> ?k" by (rule slab_ok_length(2) [OF so])
  define u where "u = ?k - length (x # fs)"
  have u: "load32 ?m (s + 24) = Some u" using so by (simp add: slab_ok_def u_def)
  have u1: "(u + 1) mod 2 ^ 32 = ?k - length fs"
    using len sizes_le [OF d(1)] by (simp add: u_def Suc_diff_Suc)
  have mp: "mapped ?m (s + 16) 8" "mapped ?m (s + 24) 4"
    using mapped_sub [OF d(4) [OF sin], of "s + 16" 8] mapped_sub [OF d(4) [OF sin], of "s + 24" 4] by simp_all
  let ?m1 = "put64 ?m (s + 16) q"
  let ?m2 = "put32 ?m1 (s + 24) (?k - length fs)"
  have out: "?m2 a = ?m a" if "a < s + 16 \<or> s + 28 \<le> a" for a
    using that by (auto simp: put_outside)
  have n32: "?k - length fs < 2 ^ 32" using sizes_le [OF d(1)] by simp
  have f2: "load64 ?m2 (s + 16) = Some q" using q64 by (simp add: load64_put_other load64_put_same)
  have np: "load64 ?m2 (s + 8) = load64 ?m (s + 8)" by (simp add: load64_put_other)
  obtain r where r: "load64 ?m (s + 8) = Some r" "chain 8 ?m r ps" using d(8) by auto
  let ?c = "c\<lparr>c_mem := ?m2, c_partial := if fs = [] then r else s\<rparr>"
  have "q = 0 \<longleftrightarrow> fs = []" using q(3) by (cases fs) auto
  then have res: "slab_pop c = Some (x, ?c)"
    using q(1,2) u u1 mp f2 np r(1) ps
    by (cases "fs = []") (simp_all add: slab_pop_def get64_def set64_def get32_def set32_def
        store64_mapped store32_mapped mapped_put load32_put_other)
  have sk: "slab_ok ?m2 ?osz ?k s fs"
    unfolding slab_ok_def
  proof (intro conjI exI)
    show "load64 ?m2 (s + 32) = Some (s + 48)" "load64 ?m2 (s + 40) = Some (s + 48 + ?k * ?osz)"
      "load32 ?m2 (s + 28) = Some ?k"
      using so by (simp_all add: slab_ok_def load64_put_other load32_put_other)
    show "load32 ?m2 (s + 24) = Some (?k - length fs)" using n32 by (simp add: load32_put_same)
    show "load64 ?m2 (s + 16) = Some q" by (rule f2)
    show "chain 0 ?m2 q fs"
    proof (intro slab_chain_frame [OF q(3)] out)
      fix t a assume "t \<in> set fs" "t + 0 \<le> a"
      then show "a < s + 16 \<or> s + 28 \<le> a" using xo [of t] by simp
    qed
    show "set fs \<subseteq> set (objs ?osz ?k s)" using sub by simp
  qed
  have oth: "slab_ok ?m2 ?osz ?k t (fo t)" if "t \<in> set ss" "t \<noteq> s" for t
    using d(6) [OF that(1) sin that(2)]
    by (intro slab_other [OF d(5) [OF that(1)] d(1)] out) (auto simp: apart_def)
  have tout: "?m2 a = ?m a" if "t \<in> set ss" "t \<le> a" "a < t + 16" for t a
    using d(6) [OF that(1) sin] that by (cases "t = s") (auto intro!: out simp: apart_def)
  have c0: "chain 0 ?m2 (c_all c) ss" by (rule slab_chain_frame [OF d(7)]) (auto intro!: tout)
  have psin: "set ps \<subseteq> set ss" "s \<notin> set ps" using d(9) chain_distinct [OF d(8)] by auto
  have c8: "chain 8 ?m2 r ps" using psin(1) by (intro slab_chain_frame [OF r(2)]) (auto intro!: tout)
  then have c8': "chain 8 ?m2 (c_partial ?c) (if fs = [] then ps else s # ps)"
    using ps np r(1) by auto
  have "set (if fs = [] then ps else s # ps) = {t \<in> set ss. (fo(s := fs)) t \<noteq> []}"
    using d(9) psin(2) sin by auto
  moreover have "mapped ?m2 t slab_size" if "t \<in> set ss" for t
    using d(4) [OF that] mp by (simp add: mapped_put)
  ultimately have "cache_core ?c ss (if fs = [] then ps else s # ps) (fo(s := fs))"
    using d(1-3,6) sk oth c0 c8' by (simp add: cache_core_def)
  then show ?thesis using fo res out by (intro exI [of _ x] exI [of _ fs] exI [of _ ?c]) simp
qed

section \<open>Giving an object back\<close>

lemma find_slab_core:
  assumes core: "cache_core c ss ps fo" and "chain 0 (c_mem c) it ts" "set ts \<subseteq> set ss"
    and s: "s \<in> set ts" "s + 48 \<le> p" "p < s + 48 + c_objs c * c_obj_sz c"
  shows "find_slab it p c = Some s"
  using assms(2,3,4)
proof (induction ts arbitrary: it)
  case (Cons t ts)
  note d = slab_coreD [OF core]
  have t: "it = t" "t \<noteq> 0" and tin: "t \<in> set ss" using Cons.prems by auto
  obtain q where q: "load64 (c_mem c) t = Some q" "chain 0 (c_mem c) q ts" using Cons.prems(1) by auto
  have b: "get64 (t + 32) c = Some (t + 48)" "get64 (t + 40) c = Some (t + 48 + c_objs c * c_obj_sz c)"
    using d(5) [OF tin] by (simp_all add: slab_ok_def get64_def)
  show ?case
  proof (cases "t = s")
    case True
    then show ?thesis using b s(2,3) t by (subst find_slab.simps) simp
  next
    case False
    have sin: "s \<in> set ss" using Cons.prems(2,3) by auto
    have "\<not> (t + 48 \<le> p \<and> p < t + 48 + c_objs c * c_obj_sz c)"
      using d(6) [OF tin sin False] s(2,3) d(1) by (auto simp: apart_def sizes_ok_def)
    then have "find_slab it p c = find_slab q p c"
      using b t q(1) by (subst find_slab.simps) (auto simp: get64_def)
    then show ?thesis using Cons.IH [OF q(2)] Cons.prems(2,3) False by simp
  qed
qed simp

lemma find_slab_none:
  assumes core: "cache_core c ss ps fo" and "chain 0 (c_mem c) it ts" "set ts \<subseteq> set ss"
    and no: "\<forall>s \<in> set ss. \<not> (s + 48 \<le> p \<and> p < s + 48 + c_objs c * c_obj_sz c)"
  shows "find_slab it p c = Some 0"
  using assms(2,3)
proof (induction ts arbitrary: it)
  case Nil
  then show ?case by (subst find_slab.simps) simp
next
  case (Cons t ts)
  obtain q where q: "it = t" "t \<noteq> 0" "load64 (c_mem c) t = Some q" "chain 0 (c_mem c) q ts"
    using Cons.prems(1) by auto
  have "get64 (t + 32) c = Some (t + 48)" "get64 (t + 40) c = Some (t + 48 + c_objs c * c_obj_sz c)"
    using slab_coreD(5) [OF core, of t] Cons.prems(2) by (simp_all add: slab_ok_def get64_def)
  moreover have "\<not> (t + 48 \<le> p \<and> p < t + 48 + c_objs c * c_obj_sz c)" using no Cons.prems(2) by simp
  ultimately have "find_slab it p c = find_slab q p c"
    using q by (subst find_slab.simps) (auto simp: get64_def)
  then show ?case using Cons.IH [OF q(4)] Cons.prems(2) by simp
qed

lemma cache_free_core:
  assumes core: "cache_core c ss ps fo" and sin: "s \<in> set ss"
    and p: "p \<in> set (objs (c_obj_sz c) (c_objs c) s)" "p \<notin> set (fo s)"
  shows "\<exists>c'. cache_free p c = Some (True, c') \<and>
    cache_core c' ss (if fo s = [] then s # ps else ps) (fo(s := p # fo s)) \<and>
    c_obj_sz c' = c_obj_sz c \<and> c_objs c' = c_objs c \<and>
    (\<forall>a. (a < s + 8 \<or> s + 28 \<le> a) \<and> (a < p \<or> p + 8 \<le> a) \<longrightarrow> c_mem c' a = c_mem c a)"
proof -
  note d = slab_coreD [OF core]
  let ?m = "c_mem c" and ?osz = "c_obj_sz c" and ?k = "c_objs c" and ?fs = "fo s"
  note po = obj_range [OF p(1) d(1)]
  have so: "slab_ok ?m ?osz ?k s ?fs" by (rule d(5) [OF sin])
  then have sub: "set ?fs \<subseteq> set (objs ?osz ?k s)" by (simp add: slab_ok_def)
  obtain f where f: "load64 ?m (s + 16) = Some f" "chain 0 ?m f ?fs"
    using so by (auto simp: slab_ok_def)
  have f64: "f < 2 ^ 64" using load64_SomeD(2) [OF f(1)] .
  have s64: "s + slab_size < 2 ^ 64" "0 < s" using d(2,3) [OF sin] by (simp_all add: USER_TOP_def)
  have fin: "find_slab (c_all c) p c = Some s"
    using po d(1) by (intro find_slab_core [OF core d(7) _ sin]) (auto simp: sizes_ok_def)
  have len: "length (p # ?fs) \<le> ?k"
  proof -
    have "card (set (p # ?fs)) \<le> card (set (objs ?osz ?k s))"
      by (rule card_mono) (use sub p(1) in auto)
    also have "\<dots> \<le> ?k" using card_length [of "objs ?osz ?k s"] by (simp add: objs_def slots_def)
    finally show ?thesis using p(2) slab_ok_length(1) [OF so] by (simp add: distinct_card)
  qed
  define u where "u = ?k - length ?fs"
  have u: "load32 ?m (s + 24) = Some u" using so by (simp add: slab_ok_def u_def)
  have u1: "(u + 2 ^ 32 - 1) mod 2 ^ 32 = ?k - length (p # ?fs)"
  proof -
    have "u + 2 ^ 32 - 1 = 2 ^ 32 + (?k - length (p # ?fs))" using len by (simp add: u_def)
    then have "(u + 2 ^ 32 - 1) mod 2 ^ 32 = (?k - length (p # ?fs)) mod 2 ^ 32"
      by (simp only: mod_add_self1)
    then show ?thesis using sizes_le [OF d(1)] by simp
  qed
  let ?n = "?k - length (p # ?fs)"
  have n32: "?n < 2 ^ 32" using sizes_le [OF d(1)] by simp
  let ?m1 = "put64 ?m p f"
  let ?m2 = "put64 ?m1 (s + 16) p"
  let ?m3 = "put32 ?m2 (s + 24) ?n"
  let ?m4 = "if ?fs = [] then put64 ?m3 (s + 8) (c_partial c) else ?m3"
  let ?c = "c\<lparr>c_mem := ?m4, c_partial := if ?fs = [] then s else c_partial c\<rparr>"
  have mp: "mapped ?m p 8" "mapped ?m (s + 16) 8" "mapped ?m (s + 24) 4" "mapped ?m (s + 8) 8"
    using po by (auto intro!: mapped_sub [OF d(4) [OF sin]])
  have out: "?m4 a = ?m a" if "a < s + 8 \<or> s + 28 \<le> a" "a < p \<or> p + 8 \<le> a" for a
    using that by (auto simp: put_outside)
  have f0: "f = 0 \<longleftrightarrow> ?fs = []" using f(2) by (cases ?fs) auto
  have l24: "load32 ?m2 (s + 24) = Some u" using u po by (simp add: load32_put_other)
  have res: "cache_free p c = Some (True, ?c)"
    using fin s64 f(1) mp l24 u1 f0 po
    by (cases "?fs = []") (simp_all add: cache_free_def get64_def set64_def get32_def set32_def
        store64_mapped store32_mapped mapped_put)
  have p64: "p < 2 ^ 64" using po s64 by simp
  have part64: "c_partial c < 2 ^ 64"
  proof (rule chain_less [OF d(8)])
    show "\<forall>t \<in> set ps. t < 2 ^ 64" using d(9) d(3) by (force simp: USER_TOP_def)
  qed
  have w8: "load64 ?m4 b = load64 ?m3 b" if "b + 8 \<le> s + 8 \<or> s + 16 \<le> b" for b
    using that by (auto simp: load64_put_other)
  have w8': "load32 ?m4 b = load32 ?m3 b" if "s + 16 \<le> b" for b
    using that by (auto simp: load32_put_other)
  have sk: "slab_ok ?m4 ?osz ?k s (p # ?fs)"
    unfolding slab_ok_def
  proof (intro conjI exI)
    show "load64 ?m4 (s + 32) = Some (s + 48)" "load64 ?m4 (s + 40) = Some (s + 48 + ?k * ?osz)"
      using so po by (simp_all add: w8 slab_ok_def load64_put_other)
    show "load32 ?m4 (s + 28) = Some ?k"
      using so po by (simp add: w8' slab_ok_def load32_put_other)
    show "load32 ?m4 (s + 24) = Some (?k - length (p # ?fs))"
      using n32 by (simp add: w8' load32_put_same)
    show "load64 ?m4 (s + 16) = Some p"
      using p64 by (simp add: w8 load64_put_other load64_put_same)
    have "load64 ?m4 p = Some f" using po f64 by (simp add: w8 load64_put_other load64_put_same)
    moreover have "chain 0 ?m4 f ?fs"
    proof (intro slab_chain_frame [OF f(2)] out)
      fix t a assume t: "t \<in> set ?fs" "t + 0 \<le> a" "a < t + 0 + 8"
      then have to: "t \<in> set (objs ?osz ?k s)" using sub by auto
      have "t \<noteq> p" using t p(2) by auto
      then have "apart t ?osz p ?osz" by (rule objs_apart [OF to p(1)])
      then show "a < p \<or> p + 8 \<le> a" using t po(4) by (auto simp: apart_def)
      show "a < s + 8 \<or> s + 28 \<le> a" using obj_range(1) [OF to d(1)] t by simp
    qed
    ultimately show "chain 0 ?m4 p (p # ?fs)" using po by simp
    show "set (p # ?fs) \<subseteq> set (objs ?osz ?k s)" using sub p(1) by simp
  qed
  have tout: "?m4 a = ?m a" if "t \<in> set ss" "t \<noteq> s" "t \<le> a" "a < t + slab_size" for t a
    using d(6) [OF that(1) sin that(2)] that po by (intro out) (auto simp: apart_def)
  have oth: "slab_ok ?m4 ?osz ?k t (fo t)" if "t \<in> set ss" "t \<noteq> s" for t
    using that by (intro slab_other [OF d(5) [OF that(1)] d(1)] tout)
  have c0: "chain 0 ?m4 (c_all c) ss"
  proof (rule slab_chain_frame [OF d(7)])
    fix t a assume t: "t \<in> set ss" "t + 0 \<le> a" "a < t + 0 + 8"
    show "?m4 a = ?m a"
    proof (cases "t = s")
      case True
      then show ?thesis using t po by (intro out) auto
    next
      case False
      then show ?thesis using t by (intro tout [of t]) auto
    qed
  qed
  have c8: "chain 8 ?m4 (if ?fs = [] then s else c_partial c) (if ?fs = [] then s # ps else ps)"
  proof (cases "?fs = []")
    case True
    have "s \<notin> set ps" using d(9) True by simp
    then have "chain 8 ?m4 (c_partial c) ps"
    proof (intro slab_chain_frame [OF d(8)])
      fix t a assume t: "t \<in> set ps" "t + 8 \<le> a" "a < t + 8 + 8"
      then show "?m4 a = ?m a" using d(9) \<open>s \<notin> set ps\<close> by (intro tout [of t]) auto
    qed
    then show ?thesis using True s64 part64 by (simp add: load64_put_same)
  next
    case False
    have "chain 8 ?m4 (c_partial c) ps"
    proof (rule slab_chain_frame [OF d(8)])
      fix t a assume t: "t \<in> set ps" "t + 8 \<le> a" "a < t + 8 + 8"
      then have tin: "t \<in> set ss" using d(9) by simp
      show "?m4 a = ?m a"
      proof (cases "t = s")
        case True
        have "s + 8 \<le> a" "a < s + 16" using t True by simp_all
        then show ?thesis using False po by (simp add: put_outside)
      next
        case False
        then show ?thesis using t tin by (intro tout [of t]) auto
      qed
    qed
    then show ?thesis using False by simp
  qed
  have "set (if ?fs = [] then s # ps else ps) = {t \<in> set ss. (fo(s := p # ?fs)) t \<noteq> []}"
    using d(9) sin by auto
  moreover have "mapped ?m4 t slab_size" if "t \<in> set ss" for t
    using d(4) [OF that] mp by (simp add: mapped_put)
  moreover have "slab_ok ?m4 ?osz ?k t ((fo(s := p # ?fs)) t)" if "t \<in> set ss" for t
    using sk oth [OF that] by (cases "t = s") simp_all
  ultimately have "cache_core (c\<lparr>c_mem := ?m4, c_all := c_all c,
      c_partial := if ?fs = [] then s else c_partial c\<rparr>) ss
      (if ?fs = [] then s # ps else ps) (fo(s := p # ?fs))"
    using d(2,3,6) by (intro cache_coreI [OF d(1) _ _ _ _ c0 c8]) blast+
  then show ?thesis using res out by (intro exI [of _ ?c]) simp
qed

section \<open>A new slab\<close>

definition slab_map :: "mem \<Rightarrow> addr \<Rightarrow> nat \<Rightarrow> nat \<Rightarrow> addr \<Rightarrow> bool" where
  "slab_map m s osz k f \<longleftrightarrow> mapped m s slab_size \<and> load64 m (s + 32) = Some (s + 48) \<and>
     load64 m (s + 16) = Some f"

lemma slab_thread_core:
  assumes "sizes_ok (c_obj_sz c) k" "0 < s" "s + slab_size \<le> USER_TOP" "i \<le> k"
    and "slab_map (c_mem c) s (c_obj_sz c) k f"
    and "chain 0 (c_mem c) f (rev (objs (c_obj_sz c) i s))"
  shows "\<exists>m f'. slab_thread i k s c = Some (c\<lparr>c_mem := m\<rparr>) \<and> slab_map m s (c_obj_sz c) k f' \<and>
    chain 0 m f' (rev (objs (c_obj_sz c) k s)) \<and> dom m = dom (c_mem c) \<and>
    (\<forall>a. (a < s + 16 \<or> s + 24 \<le> a) \<and> (a < s + 48 \<or> s + slab_size \<le> a) \<longrightarrow> m a = c_mem c a)"
  using assms(4-6) assms(1-3)
proof (induction "k - i" arbitrary: i c f)
  case 0
  then have "i = k" by simp
  then show ?case using 0
    by (intro exI [of _ "c_mem c"] exI [of _ f]) (simp add: slab_thread.simps)
next
  case (Suc d)
  let ?osz = "c_obj_sz c" and ?m = "c_mem c"
  let ?n = "s + 48 + i * ?osz"
  have ik: "i < k" using Suc.hyps(2) by simp
  have nin: "?n \<in> set (objs ?osz k s)" using ik by (auto simp: objs_def slots_def)
  note nr = obj_range [OF nin Suc.prems(4)]
  have s64: "s + slab_size < 2 ^ 64" using Suc.prems(6) by (simp add: USER_TOP_def)
  have sm: "mapped ?m s slab_size" "load64 ?m (s + 32) = Some (s + 48)" "load64 ?m (s + 16) = Some f"
    using Suc.prems(2) by (simp_all add: slab_map_def)
  have "mul64 i ?osz = i * ?osz" using nr s64 by (intro mul64_exact) simp
  then have ad: "add64 (s + 48) (mul64 i ?osz) = ?n" using nr s64 by (simp add: add64_exact)
  have f64: "f < 2 ^ 64" using load64_SomeD(2) [OF sm(3)] .
  have mp: "mapped ?m ?n 8" "mapped ?m (s + 16) 8" using nr by (auto intro!: mapped_sub [OF sm(1)])
  let ?m1 = "put64 ?m ?n f"
  let ?m2 = "put64 ?m1 (s + 16) ?n"
  let ?c = "c\<lparr>c_mem := ?m2\<rparr>"
  have step: "slab_thread i k s c = slab_thread (Suc i) k s ?c"
    using ik sm ad mp by (subst slab_thread.simps)
      (simp add: get64_def set64_def store64_mapped mapped_put Let_def)
  have out: "?m2 a = ?m a" if "a < s + 16 \<or> s + 24 \<le> a" "a < ?n \<or> ?n + 8 \<le> a" for a
    using that by (auto simp: put_outside)
  have A: "slab_map ?m2 s ?osz k ?n"
    using sm mp nr s64 by (simp add: slab_map_def mapped_put load64_put_other load64_put_same)
  have B: "chain 0 ?m2 ?n (rev (objs ?osz (Suc i) s))"
  proof -
    have "load64 ?m2 ?n = Some f" using nr f64 by (simp add: load64_put_other load64_put_same)
    moreover have "chain 0 ?m2 f (rev (objs ?osz i s))"
    proof (intro slab_chain_frame [OF Suc.prems(3)] out)
      fix t a assume t: "t \<in> set (rev (objs ?osz i s))" "t + 0 \<le> a" "a < t + 0 + 8"
      then have "s + 48 \<le> t \<and> t + ?osz \<le> s + 48 + i * ?osz"
        using slot_range [of t "s + 48" ?osz i] by (simp add: objs_def)
      then show "a < s + 16 \<or> s + 24 \<le> a" "a < ?n \<or> ?n + 8 \<le> a" using t nr(4) by auto
    qed
    ultimately show ?thesis using Suc.prems(5) by (simp add: objs_def slots_Suc)
  qed
  have pr: "c_obj_sz ?c = ?osz" "c_mem ?c = ?m2" by simp_all
  have di: "d = k - Suc i" "Suc i \<le> k" using Suc.hyps(2) ik by simp_all
  from Suc.hyps(1) [of "Suc i" ?c ?n, unfolded pr, OF di A B Suc.prems(4-6)]
  obtain m f' where r: "slab_thread (Suc i) k s ?c = Some (?c\<lparr>c_mem := m\<rparr>)"
    "slab_map m s ?osz k f'" "chain 0 m f' (rev (objs ?osz k s))" "dom m = dom ?m2"
    "\<forall>a. (a < s + 16 \<or> s + 24 \<le> a) \<and> (a < s + 48 \<or> s + slab_size \<le> a) \<longrightarrow> m a = ?m2 a"
    by blast
  have "dom ?m2 = dom ?m" using mp by (auto simp: dom_put mapped_def)
  moreover have "m a = ?m a"
    if "(a < s + 16 \<or> s + 24 \<le> a) \<and> (a < s + 48 \<or> s + slab_size \<le> a)" for a
  proof -
    have "a < s + 48 \<or> s + slab_size \<le> a" using that by blast
    then have "a < ?n \<or> ?n + 8 \<le> a"
    proof
      assume "a < s + 48"
      from less_le_trans [OF this nr(1)] show ?thesis ..
    next
      assume "s + slab_size \<le> a"
      moreover have "?n + 8 \<le> s + slab_size" using nr(3,4) by simp
      ultimately have "?n + 8 \<le> a" by (rule order_trans [rotated])
      then show ?thesis ..
    qed
    moreover have "a < s + 16 \<or> s + 24 \<le> a" using that by (rule conjunct1)
    ultimately have "?m2 a = ?m a" by (intro out)
    then show ?thesis using r(5) that by metis
  qed
  ultimately show ?case using step r(1-4)
    by (intro exI [of _ m] exI [of _ f']) simp
qed

lemma new_slab_core:
  assumes core: "cache_core c ss ps fo" and kern: "mmap_ok (kern (c_mem c)) SLAB_BYTES (c_mem c)"
  shows "(kern (c_mem c) = None \<and> new_slab kern c = Some (NULL, c)) \<or>
    (\<exists>s c'. kern (c_mem c) = Some s \<and> s \<noteq> 0 \<and> new_slab kern c = Some (s, c') \<and> s \<notin> set ss \<and>
      cache_core c' (s # ss) (s # ps) (fo(s := rev (objs (c_obj_sz c) (c_objs c) s))) \<and>
      c_obj_sz c' = c_obj_sz c \<and> c_objs c' = c_objs c \<and>
      (\<forall>a \<in> dom (c_mem c). c_mem c' a = c_mem c a))"
proof (cases "kern (c_mem c)")
  case None
  then show ?thesis by (simp add: new_slab_def sys_mmap_def)
next
  case (Some s)
  note d = slab_coreD [OF core]
  let ?osz = "c_obj_sz c" and ?k = "c_objs c"
  have pu: "page_up slab_size = slab_size" by (rule page_up_id) simp
  have ok: "0 < s" "s + slab_size \<le> USER_TOP" "{s..<s + slab_size} \<inter> dom (c_mem c) = {}"
    using kern Some pu by (simp_all add: mmap_ok_def)
  obtain m0 where m0: "sys_mmap (Some s) slab_size (c_mem c) = (s, m0)" by (simp add: sys_mmap_def)
  have mp0: "mapped m0 s slab_size" using sys_mmap_mapped [OF m0] pu by simp
  have out0: "m0 a = c_mem c a" if "a < s \<or> s + slab_size \<le> a" for a
    using m0 that pu by (auto simp: sys_mmap_def)
  have s64: "s + slab_size < 2 ^ 64" "s \<noteq> MAP_FAILED" using ok(2) by (auto simp: USER_TOP_def MAP_FAILED_def)
  have kosz: "?k * ?osz + 48 \<le> slab_size" using d(1) by (simp add: sizes_ok_def)
  have mul: "mul64 ?k ?osz = ?k * ?osz" using kosz by (intro mul64_exact) simp
  have ad: "add64 s 48 = s + 48" "add64 (s + 48) (?k * ?osz) = s + 48 + ?k * ?osz"
    using s64 kosz by (simp_all add: add64_exact)
  let ?m1 = "put64 m0 (s + 32) (s + 48)"
  let ?m2 = "put64 ?m1 (s + 40) (s + 48 + ?k * ?osz)"
  let ?m3 = "put32 ?m2 (s + 24) 0"
  let ?m4 = "put32 ?m3 (s + 28) ?k"
  let ?m5 = "put64 ?m4 (s + 16) 0"
  have mp: "mapped m0 (s + j) n" if "j + n \<le> slab_size" for j n
    using that by (intro mapped_sub [OF mp0]) auto
  have k32: "?k < 2 ^ 32" using sizes_le [OF d(1)] by simp
  have l32: "load64 ?m5 (s + 32) = Some (s + 48)"
    using s64 by (simp add: load64_put_other load64_put_same)
  have sm: "slab_map ?m5 s ?osz ?k 0"
    using mp0 mp l32 by (simp add: slab_map_def mapped_put load64_put_same)
  have th: "chain 0 ?m5 0 (rev (objs ?osz 0 s))" by (simp add: objs_def slots_def)
  obtain m f where m: "slab_thread 0 ?k s (c\<lparr>c_mem := ?m5\<rparr>) = Some (c\<lparr>c_mem := m\<rparr>)"
    "slab_map m s ?osz ?k f" "chain 0 m f (rev (objs ?osz ?k s))" "dom m = dom ?m5"
    "\<forall>a. (a < s + 16 \<or> s + 24 \<le> a) \<and> (a < s + 48 \<or> s + slab_size \<le> a) \<longrightarrow> m a = ?m5 a"
    using slab_thread_core [of "c\<lparr>c_mem := ?m5\<rparr>" ?k s 0 0] d(1) ok sm th by auto
  have part64: "c_partial c < 2 ^ 64" "c_all c < 2 ^ 64"
  proof -
    have "t < 2 ^ 64" if "t \<in> set ss" for t using d(3) [OF that] by (simp add: USER_TOP_def)
    then have l: "\<forall>t \<in> set ps. t < 2 ^ 64" "\<forall>t \<in> set ss. t < 2 ^ 64" using d(9) by simp_all
    show "c_partial c < 2 ^ 64" by (rule chain_less [OF d(8) l(1)])
    show "c_all c < 2 ^ 64" by (rule chain_less [OF d(7) l(2)])
  qed
  let ?m6 = "put64 m (s + 0) (c_all c)"
  let ?m7 = "put64 ?m6 (s + 8) (c_partial c)"
  let ?c = "c\<lparr>c_mem := ?m7, c_all := s, c_partial := s\<rparr>"
  have mps: "mapped m s slab_size" using m(2) by (simp add: slab_map_def)
  have mpm: "mapped m (s + j) n" if "j + n \<le> slab_size" for j n
    by (rule mapped_sub [OF mps]) (use that in simp_all)
  have res: "new_slab kern c = Some (s, ?c)"
  proof -
    have w: "set64 (s + 32) (s + 48) (c\<lparr>c_mem := m0\<rparr>) = Some (c\<lparr>c_mem := ?m1\<rparr>)"
      using mp [of 32 8] by (simp add: set64_def store64_mapped)
    have g: "get64 (s + 32) (c\<lparr>c_mem := ?m1\<rparr>) = Some (s + 48)"
      using s64 by (simp add: get64_def load64_put_same)
    have w2: "set64 (s + 40) (s + 48 + ?k * ?osz) (c\<lparr>c_mem := ?m1\<rparr>) = Some (c\<lparr>c_mem := ?m2\<rparr>)"
      using mp [of 32 8] mp [of 40 8] by (simp add: set64_def store64_mapped mapped_put)
    have w3: "set32 (s + 24) 0 (c\<lparr>c_mem := ?m2\<rparr>) = Some (c\<lparr>c_mem := ?m3\<rparr>)"
      using mp [of 32 8] mp [of 40 8] mp [of 24 4] by (simp add: set32_def store32_mapped mapped_put)
    have w4: "set32 (s + 28) ?k (c\<lparr>c_mem := ?m3\<rparr>) = Some (c\<lparr>c_mem := ?m4\<rparr>)"
      using mp [of 32 8] mp [of 40 8] mp [of 24 4] mp [of 28 4]
      by (simp add: set32_def store32_mapped mapped_put)
    have w5: "set64 (s + 16) 0 (c\<lparr>c_mem := ?m4\<rparr>) = Some (c\<lparr>c_mem := ?m5\<rparr>)"
      using mp [of 32 8] mp [of 40 8] mp [of 24 4] mp [of 28 4] mp [of 16 8]
      by (simp add: set64_def store64_mapped mapped_put)
    have w6: "set64 (s + 0) (c_all c) (c\<lparr>c_mem := m\<rparr>) = Some (c\<lparr>c_mem := ?m6\<rparr>)"
      using mpm [of 0 8] by (simp add: set64_def store64_mapped)
    have w7: "set64 (s + 8) (c_partial c) (c\<lparr>c_mem := ?m6, c_all := s\<rparr>) =
        Some (c\<lparr>c_mem := ?m7, c_all := s\<rparr>)"
      using mpm [of 0 8] mpm [of 8 8] by (simp add: set64_def store64_mapped mapped_put)
    show ?thesis
      unfolding new_slab_def Some m0 slab_consts Let_def prod.case ad(1) if_not_P [OF s64(2)]
      using w g w2 w3 w4 w5 m(1) w6 w7 by (simp add: mul ad(2))
  qed
  have out: "?m7 a = c_mem c a" if "a < s \<or> s + slab_size \<le> a" for a
  proof -
    have "?m7 a = m a" "m a = ?m5 a" "?m5 a = m0 a" using that m(5) by (auto simp: put_outside)
    then show ?thesis using out0 [OF that] by simp
  qed
  have old: "?m7 a = c_mem c a" if "a \<in> dom (c_mem c)" for a
  proof (rule out)
    have "a \<notin> {s..<s + slab_size}" using ok(3) that by blast
    then show "a < s \<or> s + slab_size \<le> a" by auto
  qed
  have far: "apart t slab_size s slab_size" if "t \<in> set ss" for t
  proof -
    have "{t..<t + slab_size} \<subseteq> dom (c_mem c)" using d(4) [OF that] by (simp add: mapped_def)
    then have "{t..<t + slab_size} \<inter> {s..<s + slab_size} = {}" using ok(3) by blast
    moreover have "max s t \<in> {t..<t + slab_size} \<inter> {s..<s + slab_size}"
      if "s < t + slab_size" "t < s + slab_size" using that by auto
    ultimately show ?thesis unfolding apart_def by (metis empty_iff not_le)
  qed
  have oth: "slab_ok ?m7 ?osz ?k t (fo t)" if "t \<in> set ss" for t
    using far [OF that] by (intro slab_other [OF d(5) [OF that] d(1)] out) (auto simp: apart_def)
  have hdr: "load64 m (s + 40) = Some (s + 48 + ?k * ?osz)" "load32 m (s + 24) = Some 0"
    "load32 m (s + 28) = Some ?k"
  proof -
    have "load64 m (s + 40) = load64 ?m5 (s + 40)" "load32 m (s + 24) = load32 ?m5 (s + 24)"
      "load32 m (s + 28) = load32 ?m5 (s + 28)"
      using m(5) by (auto intro!: load64_cong load32_cong)
    then show "load64 m (s + 40) = Some (s + 48 + ?k * ?osz)" "load32 m (s + 24) = Some 0"
      "load32 m (s + 28) = Some ?k"
      using s64 kosz k32 by (simp_all add: load64_put_other load64_put_same load32_put_other load32_put_same)
  qed
  have len: "length (rev (objs ?osz ?k s)) = ?k" by (simp add: objs_def slots_def)
  have new: "slab_ok ?m7 ?osz ?k s (rev (objs ?osz ?k s))"
    unfolding slab_ok_def len
  proof (intro conjI exI)
    show "load64 ?m7 (s + 32) = Some (s + 48)" "load64 ?m7 (s + 16) = Some f"
      using m(2) by (simp_all add: slab_map_def load64_put_other)
    show "load64 ?m7 (s + 40) = Some (s + 48 + ?k * ?osz)" "load32 ?m7 (s + 24) = Some (?k - ?k)"
      "load32 ?m7 (s + 28) = Some ?k"
      using hdr by (simp_all add: load64_put_other load32_put_other)
    show "chain 0 ?m7 f (rev (objs ?osz ?k s))"
    proof (rule slab_chain_frame [OF m(3)])
      fix t a assume "t \<in> set (rev (objs ?osz ?k s))" "t + 0 \<le> a"
      then have "s + 48 \<le> a" using obj_range(1) [OF _ d(1), of t s] by simp
      then show "?m7 a = m a" by (simp add: put_outside)
    qed
  qed simp
  have snin: "s \<notin> set ss" using far by (force simp: apart_def)
  have "mapped ?m7 t slab_size" if "t \<in> set (s # ss)" for t
  proof (cases "t = s")
    case True
    then show ?thesis using mpm [of 0 slab_size] mpm [of 0 8] mpm [of 8 8] by (simp add: mapped_put)
  next
    case False
    then have "{t..<t + slab_size} \<subseteq> dom (c_mem c)" using that d(4) by (simp add: mapped_def)
    then show ?thesis using old by (force simp: mapped_def domIff)
  qed
  moreover have "slab_ok ?m7 ?osz ?k t ((fo(s := rev (objs ?osz ?k s))) t)" if "t \<in> set (s # ss)" for t
    using that new oth snin by auto
  moreover have "chain 0 ?m7 s (s # ss)"
  proof -
    have "chain 0 ?m7 (c_all c) ss"
    proof (rule slab_chain_frame [OF d(7)])
      fix t a assume t: "t \<in> set ss" "t + 0 \<le> a" "a < t + 0 + 8"
      show "?m7 a = c_mem c a" using far [OF t(1)] t(2,3) by (intro out) (auto simp: apart_def)
    qed
    then show ?thesis using ok(1) part64 by (simp add: load64_put_other load64_put_same)
  qed
  moreover have "chain 8 ?m7 s (s # ps)"
  proof -
    have "chain 8 ?m7 (c_partial c) ps"
    proof (rule slab_chain_frame [OF d(8)])
      fix t a assume t: "t \<in> set ps" "t + 8 \<le> a" "a < t + 8 + 8"
      then have "t \<in> set ss" using d(9) by simp
      then show "?m7 a = c_mem c a" using far [of t] t(2,3) by (intro out) (auto simp: apart_def)
    qed
    then show ?thesis using ok(1) part64 by (simp add: load64_put_same)
  qed
  moreover have "set (s # ps) = {t \<in> set (s # ss). (fo(s := rev (objs ?osz ?k s))) t \<noteq> []}"
    using d(1,9) snin by (auto simp: objs_def slots_def sizes_ok_def)
  moreover have "apart t slab_size u slab_size" if "t \<in> set (s # ss)" "u \<in> set (s # ss)" "t \<noteq> u" for t u
    using that far d(6) by (auto intro: apart_sym)
  moreover have "0 < t \<and> t + slab_size \<le> USER_TOP" if "t \<in> set (s # ss)" for t
    using that ok d(2,3) by auto
  ultimately have "cache_core (c\<lparr>c_mem := ?m7, c_all := s, c_partial := s\<rparr>) (s # ss) (s # ps)
      (fo(s := rev (objs ?osz ?k s)))"
    by (intro cache_coreI [OF d(1)]) blast+
  then show ?thesis using res Some ok(1) snin old by (intro disjI2 exI [of _ s] exI [of _ ?c]) simp
qed

section \<open>The contract\<close>

definition slab_extent :: "nat \<Rightarrow> nat" where "slab_extent r = r"

definition slab_set_mem :: "mem \<Rightarrow> cache \<Rightarrow> cache" where
  "slab_set_mem m c = c\<lparr>c_mem := m\<rparr>"

definition slab_alloc :: "(mem \<Rightarrow> addr option) \<Rightarrow> nat \<Rightarrow> cache \<Rightarrow> (addr \<times> cache) option" where
  "slab_alloc kern r c = cache_alloc kern c"

definition slab_dealloc :: "addr \<Rightarrow> nat \<Rightarrow> cache \<Rightarrow> cache option" where
  "slab_dealloc p r c = map_option snd (cache_free p c)"

definition used :: "nat \<Rightarrow> nat \<Rightarrow> addr list \<Rightarrow> (addr \<Rightarrow> addr list) \<Rightarrow> addr set" where
  "used osz k ss fo = (\<Union>s \<in> set ss. set (objs osz k s) - set (fo s))"

text \<open>What is documented of mmap: the kernel answers with a fresh, page-aligned mapping or fails.\<close>

definition kern_ok :: "(mem \<Rightarrow> addr option) \<Rightarrow> bool" where
  "kern_ok kern \<longleftrightarrow> (\<forall>m. mmap_ok (kern m) SLAB_BYTES m)"

definition slab_inv :: "(mem \<Rightarrow> addr option) \<Rightarrow> nat \<Rightarrow> nat \<Rightarrow> cache \<Rightarrow> (addr \<times> nat) multiset \<Rightarrow> bool" where
  "slab_inv kern osz k c L \<longleftrightarrow> kern_ok kern \<and> c_obj_sz c = osz \<and> c_objs c = k \<and>
     (\<forall>(p, r) \<in># L. r \<le> osz) \<and>
     (\<exists>ss ps fo. cache_core c ss ps fo \<and> image_mset fst L = mset_set (used osz k ss fo))"

lemma finite_used [simp]: "finite (used osz k ss fo)"
  by (simp add: used_def)

lemma objs_disjoint:
  assumes "cache_core c ss ps fo" "s \<in> set ss" "t \<in> set ss" "s \<noteq> t"
    "x \<in> set (objs (c_obj_sz c) (c_objs c) s)"
  shows "x \<notin> set (objs (c_obj_sz c) (c_objs c) t)"
proof
  assume "x \<in> set (objs (c_obj_sz c) (c_objs c) t)"
  then show False
    using obj_range [OF assms(5) slab_coreD(1) [OF assms(1)]] slab_coreD(6) [OF assms(1-4)]
      obj_range [OF _ slab_coreD(1) [OF assms(1)], of x t] by (auto simp: apart_def)
qed

lemma used_change:
  assumes core: "cache_core c ss ps fo" and s: "s \<in> set ss"
    and x: "x \<in> set (objs (c_obj_sz c) (c_objs c) s)" and f: "x \<notin> set fs"
  shows "used (c_obj_sz c) (c_objs c) ss (fo(s := fs)) =
      insert x (used (c_obj_sz c) (c_objs c) ss (fo(s := x # fs)))"
    "x \<notin> used (c_obj_sz c) (c_objs c) ss (fo(s := x # fs))"
  using objs_disjoint [OF core s _ _ x] s x f by (auto simp: used_def split: if_splits)

lemma used_fun_upd_same [simp]: "used osz k ss (fo(s := fo s)) = used osz k ss fo"
  by simp

lemma live_block:
  assumes "image_mset fst (add_mset (p, r) L) = mset_set (used osz k ss fo)"
  obtains s where "s \<in> set ss" "p \<in> set (objs osz k s)" "p \<notin> set (fo s)"
proof -
  have "p \<in># mset_set (used osz k ss fo)" unfolding assms [symmetric] by simp
  then show ?thesis using that by (auto simp: used_def)
qed

lemma live_mem:
  assumes "image_mset fst L = mset_set (used osz k ss fo)" "(q, t) \<in># L"
  obtains s where "s \<in> set ss" "q \<in> set (objs osz k s)" "q \<notin> set (fo s)"
  using assms live_block [of q t "L - {#(q, t)#}" osz k ss fo] by (metis insert_DiffM)

lemma live_two:
  assumes "image_mset fst (add_mset (p, r) (add_mset (q, t) L)) = mset_set A" "finite A"
  shows "p \<noteq> q"
proof
  assume pq: "p = q"
  have "count (mset_set A) p = 2 + count (image_mset fst L) p"
    unfolding assms(1) [symmetric] by (simp add: pq)
  moreover have "count (mset_set A) p \<le> 1" using assms(2) by (cases "p \<in> A") simp_all
  ultimately show False by simp
qed

lemma objs_apart_all:
  assumes core: "cache_core c ss ps fo" and s: "s \<in> set ss" "t \<in> set ss"
    and x: "x \<in> set (objs (c_obj_sz c) (c_objs c) s)" "y \<in> set (objs (c_obj_sz c) (c_objs c) t)" "x \<noteq> y"
  shows "apart x (c_obj_sz c) y (c_obj_sz c)"
proof (cases "s = t")
  case True
  then show ?thesis using objs_apart [of x _ _ s y] x by simp
next
  case False
  then show ?thesis
    using slab_coreD(6) [OF core s False] obj_range [OF x(1) slab_coreD(1) [OF core]]
      obj_range [OF x(2) slab_coreD(1) [OF core]] by (auto simp: apart_def)
qed

text \<open>A write into an object in use leaves the structure alone.\<close>

lemma obj_write_core:
  assumes core: "cache_core c ss ps fo" and s: "s \<in> set ss"
    and p: "p \<in> set (objs (c_obj_sz c) (c_objs c) s)" "p \<notin> set (fo s)" and a: "p \<le> a" "a < p + c_obj_sz c"
  shows "cache_core (c\<lparr>c_mem := (c_mem c)(a \<mapsto> b)\<rparr>) ss ps fo"
proof -
  note d = slab_coreD [OF core]
  let ?m = "(c_mem c)(a \<mapsto> b)"
  note pr = obj_range [OF p(1) d(1)]
  have out: "?m x = c_mem c x" if "x \<noteq> a" for x using that by simp
  have far: "x \<noteq> a" if "t \<in> set ss" "t \<le> x" "x < t + 48" for t x
    using that d(6) [OF that(1) s] pr a by (cases "t = s") (auto simp: apart_def)
  have "slab_ok ?m (c_obj_sz c) (c_objs c) t (fo t)" if t: "t \<in> set ss" for t
  proof (rule slab_ok_frame [OF d(5) [OF t]])
    show "?m x = c_mem c x" if "t + 16 \<le> x" "x < t + 48" for x
      using that far [OF t, of x] by (intro out) simp
    fix y x assume y: "y \<in> set (fo t)" "y \<le> x" "x < y + 8"
    then have yo: "y \<in> set (objs (c_obj_sz c) (c_objs c) t)" using d(5) [OF t] by (auto simp: slab_ok_def)
    have "y \<noteq> p"
    proof
      assume yp: "y = p"
      then have "t = s" using objs_disjoint [OF core t s _ yo] p(1) by blast
      then show False using y(1) p(2) yp by simp
    qed
    then have "apart y (c_obj_sz c) p (c_obj_sz c)" by (rule objs_apart_all [OF core t s yo p(1)])
    then show "?m x = c_mem c x" using y pr(4) a by (intro out) (auto simp: apart_def)
  qed
  moreover have "chain 0 ?m (c_all c) ss"
  proof (rule slab_chain_frame [OF d(7)])
    fix t x assume "t \<in> set ss" "t + 0 \<le> x" "x < t + 0 + 8"
    then show "?m x = c_mem c x" using far [of t x] by (intro out) simp
  qed
  moreover have "chain 8 ?m (c_partial c) ps"
  proof (rule slab_chain_frame [OF d(8)])
    fix t x assume t: "t \<in> set ps" "t + 8 \<le> x" "x < t + 8 + 8"
    then have "t \<in> set ss" using d(9) by simp
    then show "?m x = c_mem c x" using far [of t x] t by (intro out) simp
  qed
  moreover have "mapped ?m t slab_size" if "t \<in> set ss" for t
    using d(4) [OF that] by (auto simp: mapped_def)
  ultimately have "cache_core (c\<lparr>c_mem := ?m, c_all := c_all c, c_partial := c_partial c\<rparr>) ss ps fo"
    using d(2,3,6) by (intro cache_coreI [OF d(1) _ _ _ _ _ _ d(9)]) blast+
  then show ?thesis by simp
qed

lemma slab_pop_inv:
  assumes core: "cache_core c ss (s # ps) fo"
    and L: "image_mset fst L = mset_set (used (c_obj_sz c) (c_objs c) ss fo)"
  shows "\<exists>x c' ps' fo'. slab_pop c = Some (x, c') \<and> x \<noteq> 0 \<and> cache_core c' ss ps' fo' \<and>
    c_obj_sz c' = c_obj_sz c \<and> c_objs c' = c_objs c \<and>
    add_mset x (image_mset fst L) = mset_set (used (c_obj_sz c) (c_objs c) ss fo') \<and>
    (\<forall>q t k. (q, t) \<in># L \<longrightarrow> t \<le> c_obj_sz c \<longrightarrow> k < t \<longrightarrow> c_mem c' (q + k) = c_mem c (q + k))"
proof -
  note d = slab_coreD [OF core]
  obtain x fs c' where r: "fo s = x # fs" "slab_pop c = Some (x, c')"
    "cache_core c' ss (if fs = [] then ps else s # ps) (fo(s := fs))"
    "c_obj_sz c' = c_obj_sz c" "c_objs c' = c_objs c"
    "\<forall>a. a < s + 16 \<or> s + 28 \<le> a \<longrightarrow> c_mem c' a = c_mem c a"
    using slab_pop_core [OF core] by blast
  have sin: "s \<in> set ss" using d(9) by auto
  have so: "slab_ok (c_mem c) (c_obj_sz c) (c_objs c) s (x # fs)" using d(5) [OF sin] r(1) by simp
  have x: "x \<in> set (objs (c_obj_sz c) (c_objs c) s)" "x \<notin> set fs"
    using so slab_ok_length(1) [OF so] by (auto simp: slab_ok_def)
  have "fo(s := x # fs) = fo" using r(1) by auto
  then have u: "used (c_obj_sz c) (c_objs c) ss (fo(s := fs)) = insert x (used (c_obj_sz c) (c_objs c) ss fo)"
    "x \<notin> used (c_obj_sz c) (c_objs c) ss fo"
    using used_change [OF core sin x] by simp_all
  have "add_mset x (image_mset fst L) = mset_set (used (c_obj_sz c) (c_objs c) ss (fo(s := fs)))"
    using u L by simp
  moreover have "x \<noteq> 0" using obj_range(1) [OF x(1) d(1)] by simp
  moreover have "c_mem c' (q + k) = c_mem c (q + k)"
    if q: "(q, t) \<in># L" "t \<le> c_obj_sz c" "k < t" for q t k
  proof -
    obtain s' where s': "s' \<in> set ss" "q \<in> set (objs (c_obj_sz c) (c_objs c) s')"
      by (rule live_mem [OF L q(1)])
    have "q + k < s + 16 \<or> s + 28 \<le> q + k"
      using obj_range [OF s'(2) d(1)] d(6) [OF s'(1) sin] q(2,3)
      by (cases "s' = s") (auto simp: apart_def)
    then show ?thesis using r(6) by blast
  qed
  ultimately show ?thesis using r(2-5) by blast
qed

lemma slab_alloc_inv:
  assumes inv: "slab_inv kern osz k c L" and r: "r \<le> osz"
  shows "\<exists>p c'. cache_alloc kern c = Some (p, c') \<and>
    slab_inv kern osz k c' (if p = 0 then L else add_mset (p, r) L) \<and>
    (\<forall>q t j. (q, t) \<in># L \<longrightarrow> j < t \<longrightarrow> c_mem c' (q + j) = c_mem c (q + j))"
proof -
  obtain ss ps fo where core: "cache_core c ss ps fo"
    and L: "image_mset fst L = mset_set (used osz k ss fo)" and sz: "c_obj_sz c = osz" "c_objs c = k"
    and kern: "kern_ok kern" and le: "\<forall>(p, r) \<in># L. r \<le> osz"
    using inv by (auto simp: slab_inv_def)
  note d = slab_coreD [OF core]
  have pop: "\<exists>p c'. slab_pop c1 = Some (p, c') \<and> slab_inv kern osz k c' (if p = 0 then L else add_mset (p, r) L) \<and>
      (\<forall>q t j. (q, t) \<in># L \<longrightarrow> j < t \<longrightarrow> c_mem c' (q + j) = c_mem c1 (q + j))"
    if c1: "cache_core c1 ss1 (s # ps1) fo1" "image_mset fst L = mset_set (used osz k ss1 fo1)"
      "c_obj_sz c1 = osz" "c_objs c1 = k" for c1 ss1 s ps1 fo1
  proof -
    obtain x c' ps' fo' where p: "slab_pop c1 = Some (x, c')" "x \<noteq> 0" "cache_core c' ss1 ps' fo'"
      "c_obj_sz c' = osz" "c_objs c' = k"
      "add_mset x (image_mset fst L) = mset_set (used osz k ss1 fo')"
      "\<forall>q t j. (q, t) \<in># L \<longrightarrow> t \<le> osz \<longrightarrow> j < t \<longrightarrow> c_mem c' (q + j) = c_mem c1 (q + j)"
    proof -
      have "image_mset fst L = mset_set (used (c_obj_sz c1) (c_objs c1) ss1 fo1)"
        using c1(2-4) by simp
      from slab_pop_inv [OF c1(1) this] show thesis unfolding c1(3,4) using that by blast
    qed
    have "slab_inv kern osz k c' (add_mset (x, r) L)"
      unfolding slab_inv_def using kern p(3-6) le r by auto
    then show ?thesis using p(1,2,7) le by fastforce
  qed
  show ?thesis
  proof (cases ps)
    case (Cons s ps')
    then have "c_partial c \<noteq> 0" using d(8) by auto
    then show ?thesis using pop [OF core [unfolded Cons] L sz] by (simp add: cache_alloc_def)
  next
    case Nil
    then have cp: "c_partial c = 0" using d(8) by simp
    have "mmap_ok (kern (c_mem c)) SLAB_BYTES (c_mem c)" using kern by (simp add: kern_ok_def)
    then consider (none) "new_slab kern c = Some (0, c)"
      | (some) s c' where "s \<noteq> 0" "new_slab kern c = Some (s, c')" "s \<notin> set ss"
        "cache_core c' (s # ss) (s # ps) (fo(s := rev (objs osz k s)))" "c_obj_sz c' = osz" "c_objs c' = k"
        "\<forall>a \<in> dom (c_mem c). c_mem c' a = c_mem c a"
      using new_slab_core [OF core] sz by blast
    then show ?thesis
    proof cases
      case none
      then show ?thesis using cp inv by (simp add: cache_alloc_def)
    next
      case some
      have "used osz k (s # ss) (fo(s := rev (objs osz k s))) = used osz k ss fo"
        using some(3) by (auto simp: used_def split: if_splits)
      then obtain p c2 where p: "slab_pop c' = Some (p, c2)"
        "slab_inv kern osz k c2 (if p = 0 then L else add_mset (p, r) L)"
        "\<forall>q t j. (q, t) \<in># L \<longrightarrow> j < t \<longrightarrow> c_mem c2 (q + j) = c_mem c' (q + j)"
        using pop [OF some(4) _ some(5,6)] L by auto
      have "c_mem c' (q + j) = c_mem c (q + j)" if q: "(q, t) \<in># L" "j < t" for q t j
      proof -
        obtain s' where s': "s' \<in> set ss" "q \<in> set (objs osz k s')" by (rule live_mem [OF L q(1)])
        have "t \<le> osz" using le q(1) by auto
        moreover have "s' + 48 \<le> q" "q + osz \<le> s' + slab_size"
          using obj_range [OF s'(2)] d(1) sz by auto
        ultimately have "q + j \<in> {s'..<s' + slab_size}" using q(2) by simp
        then have "q + j \<in> dom (c_mem c)" using d(4) [OF s'(1)] unfolding mapped_def by blast
        then show ?thesis using some(7) by blast
      qed
      then show ?thesis using p some(1,2) cp by (fastforce simp: cache_alloc_def)
    qed
  qed
qed

lemma slab_free_inv:
  assumes inv: "slab_inv kern osz k c (add_mset (p, r) L)"
  shows "\<exists>c'. cache_free p c = Some (True, c') \<and> slab_inv kern osz k c' L \<and>
    (\<forall>q t j. (q, t) \<in># L \<longrightarrow> j < t \<longrightarrow> c_mem c' (q + j) = c_mem c (q + j))"
proof -
  obtain ss ps fo where core: "cache_core c ss ps fo"
    and L: "image_mset fst (add_mset (p, r) L) = mset_set (used osz k ss fo)"
    and sz: "c_obj_sz c = osz" "c_objs c = k"
    and kern: "kern_ok kern" and le: "\<forall>(p, r) \<in># L. r \<le> osz"
    using inv by (auto simp: slab_inv_def)
  note d = slab_coreD [OF core]
  obtain s where s: "s \<in> set ss" "p \<in> set (objs osz k s)" "p \<notin> set (fo s)" by (rule live_block [OF L])
  obtain c' where r: "cache_free p c = Some (True, c')"
    "cache_core c' ss (if fo s = [] then s # ps else ps) (fo(s := p # fo s))"
    "c_obj_sz c' = osz" "c_objs c' = k"
    "\<forall>a. (a < s + 8 \<or> s + 28 \<le> a) \<and> (a < p \<or> p + 8 \<le> a) \<longrightarrow> c_mem c' a = c_mem c a"
    using cache_free_core [OF core s(1)] s(2,3) sz by auto
  have "used osz k ss fo = insert p (used osz k ss (fo(s := p # fo s)))" "p \<notin> used osz k ss (fo(s := p # fo s))"
    using used_change [OF core s(1), of p "fo s"] s(2,3) sz by simp_all
  then have "image_mset fst L = mset_set (used osz k ss (fo(s := p # fo s)))" using L by simp
  then have "slab_inv kern osz k c' L" unfolding slab_inv_def using kern r(2-4) le by blast
  moreover have "c_mem c' (q + j) = c_mem c (q + j)" if q: "(q, t) \<in># L" "j < t" for q t j
  proof -
    obtain L' where L': "L = add_mset (q, t) L'" using q(1) by (metis multi_member_split)
    have "p \<noteq> q" by (rule live_two [OF L [unfolded L']]) simp
    have "(q, t) \<in># add_mset (p, r) L" using q(1) by simp
    obtain s' where s': "s' \<in> set ss" "q \<in> set (objs osz k s')"
      by (rule live_mem [OF L \<open>(q, t) \<in># add_mset (p, r) L\<close>])
    have "apart q osz p osz" using objs_apart_all [OF core s'(1) s(1)] s'(2) s(2) sz \<open>p \<noteq> q\<close> by auto
    moreover have "t \<le> osz" using le q(1) by auto
    moreover have "s' + 48 \<le> q" "q + osz \<le> s' + slab_size" "8 \<le> osz"
      using obj_range [OF s'(2)] d(1) sz by auto
    moreover have "s' \<noteq> s \<longrightarrow> apart s' slab_size s slab_size" using d(6) [OF s'(1) s(1)] by simp
    ultimately have "(q + j < s + 8 \<or> s + 28 \<le> q + j) \<and> (q + j < p \<or> p + 8 \<le> q + j)"
      using q(2) by (cases "s' = s") (auto simp: apart_def)
    then show ?thesis using r(5) by blast
  qed
  ultimately show ?thesis using r(1) by blast
qed

interpretation slab: freeing_allocator "slab_inv kern osz k" c_mem slab_set_mem slab_extent
  "\<lambda>r. r \<le> osz" "slab_alloc kern" slab_dealloc for kern osz k
proof unfold_locales
  fix c p r L assume inv: "slab_inv kern osz k c (add_mset (p, r) L)"
  then obtain ss ps fo where core: "cache_core c ss ps fo"
    and L: "image_mset fst (add_mset (p, r) L) = mset_set (used osz k ss fo)"
    and sz: "c_obj_sz c = osz" "c_objs c = k" "r \<le> osz"
    by (auto simp: slab_inv_def)
  obtain s where s: "s \<in> set ss" "p \<in> set (objs osz k s)" by (rule live_block [OF L])
  show "mapped (c_mem c) p (slab_extent r)"
  proof -
    have "sizes_ok osz k" "mapped (c_mem c) s slab_size" using slab_coreD(1,4) [OF core] s(1) sz by simp_all
    then have "s + 48 \<le> p" "p + osz \<le> s + slab_size" using obj_range [OF s(2)] by simp_all
    then show ?thesis using sz(3)
      by (intro mapped_sub [OF \<open>mapped (c_mem c) s slab_size\<close>]) (simp_all add: slab_extent_def)
  qed
next
  fix c p r q t L assume inv: "slab_inv kern osz k c (add_mset (p, r) (add_mset (q, t) L))"
  then obtain ss ps fo where core: "cache_core c ss ps fo"
    and L: "image_mset fst (add_mset (p, r) (add_mset (q, t) L)) = mset_set (used osz k ss fo)"
    and sz: "c_obj_sz c = osz" "c_objs c = k" "r \<le> osz" "t \<le> osz"
    by (auto simp: slab_inv_def)
  obtain s where s: "s \<in> set ss" "p \<in> set (objs osz k s)" by (rule live_block [OF L])
  obtain s' where s': "s' \<in> set ss" "q \<in> set (objs osz k s')"
    by (rule live_mem [OF L, of q t]) simp
  have "p \<noteq> q" by (rule live_two [OF L]) simp
  then have "apart p osz q osz" using objs_apart_all [OF core s(1) s'(1)] s(2) s'(2) sz by auto
  then show "apart p (slab_extent r) q (slab_extent t)"
    using sz by (auto simp: slab_extent_def elim!: apart_mono)
next
  fix c p r L j b assume inv: "slab_inv kern osz k c (add_mset (p, r) L)" and j: "j < slab_extent r"
  then obtain ss ps fo where core: "cache_core c ss ps fo"
    and L: "image_mset fst (add_mset (p, r) L) = mset_set (used osz k ss fo)"
    and sz: "c_obj_sz c = osz" "c_objs c = k" "r \<le> osz"
    by (auto simp: slab_inv_def)
  obtain s where s: "s \<in> set ss" "p \<in> set (objs osz k s)" "p \<notin> set (fo s)" by (rule live_block [OF L])
  have "cache_core (slab_set_mem ((c_mem c)(p + j \<mapsto> b)) c) ss ps fo"
    unfolding slab_set_mem_def using obj_write_core [OF core s(1)] s(2,3) sz j
    by (auto simp: slab_extent_def)
  then show "slab_inv kern osz k (slab_set_mem ((c_mem c)(p + j \<mapsto> b)) c) (add_mset (p, r) L)"
    using inv L unfolding slab_inv_def by (auto simp: slab_set_mem_def)
next
  fix c L r assume "slab_inv kern osz k c L" "r \<le> osz"
  from slab_alloc_inv [OF this] show "\<exists>p s'. slab_alloc kern r c = Some (p, s') \<and>
      slab_inv kern osz k s' (if p = 0 then L else add_mset (p, r) L) \<and>
      (\<forall>q t j. (q, t) \<in># L \<longrightarrow> j < slab_extent t \<longrightarrow> c_mem s' (q + j) = c_mem c (q + j))"
    by (simp add: slab_alloc_def slab_extent_def)
next
  fix c p r L assume "slab_inv kern osz k c (add_mset (p, r) L)"
  from slab_free_inv [OF this] show "\<exists>s'. slab_dealloc p r c = Some s' \<and> slab_inv kern osz k s' L \<and>
      (\<forall>q t j. (q, t) \<in># L \<longrightarrow> j < slab_extent t \<longrightarrow> c_mem s' (q + j) = c_mem c (q + j))"
    by (auto simp: slab_dealloc_def slab_extent_def)
qed (simp add: slab_set_mem_def)

section \<open>Properties\<close>

abbreviation slab_run ::
  "(mem \<Rightarrow> addr option) \<Rightarrow> nat cmd list \<Rightarrow> cache \<times> nat block list \<Rightarrow> (cache \<times> nat block list) option" where
  "slab_run kern \<equiv> run (slab_alloc kern) slab_dealloc c_mem slab_set_mem slab_extent"

definition round_obj :: "nat \<Rightarrow> nat" where
  "round_obj sz = (max 8 sz + 15) div 16 * 16"

lemma cache_init_inv:
  assumes "kern_ok kern" "obj_sz \<le> 32720"
  shows "\<exists>c1. cache_init obj_sz c = Some c1 \<and>
    slab_inv kern (round_obj obj_sz) (32720 div round_obj obj_sz) c1 {#}"
proof -
  let ?o = "round_obj obj_sz"
  have o: "align_up (if obj_sz < 8 then 8 else obj_sz) = ?o"
    using assms(2) by (auto simp: align_up_exact round_obj_def max_def)
  have b: "8 \<le> ?o" "?o \<le> 32720" using assms(2) by (auto simp: round_obj_def max_def)
  have k: "0 < 32720 div ?o" "32720 div ?o * ?o \<le> 32720" using b by (simp_all add: div_greater_zero_iff)
  let ?c = "c\<lparr>c_obj_sz := ?o, c_all := NULL, c_partial := NULL, c_objs := 32720 div ?o\<rparr>"
  have init: "cache_init obj_sz c = Some ?c"
    unfolding cache_init_def Let_def slab_consts o using b by simp
  have "cache_core ?c [] [] (\<lambda>_. [])" using b k by (simp add: cache_core_def sizes_ok_def)
  then have "slab_inv kern ?o (32720 div ?o) ?c {#}"
    using assms(1) by (auto simp: slab_inv_def used_def intro!: exI [of _ "[]"])
  then show ?thesis using init by blast
qed

text \<open>Objects that do not fit a slab are not rejected: cache_init computes zero objects per slab,
  the first allocation maps a slab whose free list is empty, and popping it dereferences NULL.\<close>

lemma cache_init_big:
  assumes "32720 < obj_sz" "obj_sz + 15 < 2 ^ 64"
  shows "cache_init obj_sz c =
    Some (c\<lparr>c_obj_sz := align_up obj_sz, c_all := NULL, c_partial := NULL, c_objs := 0\<rparr>)"
  using assms align_up_ge [OF assms(2)] by (simp add: cache_init_def Let_def)

theorem slab_big_object_faults:
  assumes "32720 < obj_sz" and "obj_sz + 15 < 2 ^ 64" and "c_mem c NULL = None"
    and "kern (c_mem c) = Some s" and "mmap_ok (Some s) SLAB_BYTES (c_mem c)"
  shows "\<exists>c1. cache_init obj_sz c = Some c1 \<and> c_objs c1 = 0 \<and> cache_alloc kern c1 = None"
proof -
  let ?o = "align_up obj_sz"
  have o: "obj_sz \<le> ?o" using assms(2) by (rule align_up_ge)
  let ?c = "c\<lparr>c_obj_sz := ?o, c_all := NULL, c_partial := NULL, c_objs := 0\<rparr>"
  have init: "cache_init obj_sz c = Some ?c" using assms(1,2) by (rule cache_init_big)
  have pu: "page_up slab_size = slab_size" by (rule page_up_id) simp
  have ok: "0 < s" "s + slab_size \<le> USER_TOP" using assms(5) pu by (simp_all add: mmap_ok_def)
  have s64: "s + slab_size < 2 ^ 64" "s \<noteq> MAP_FAILED" using ok(2) by (auto simp: USER_TOP_def MAP_FAILED_def)
  obtain m0 where m0: "sys_mmap (Some s) slab_size (c_mem c) = (s, m0)" by (simp add: sys_mmap_def)
  have mp0: "mapped m0 s slab_size" using sys_mmap_mapped [OF m0] pu by simp
  have z0: "m0 0 = None" using m0 assms(3) ok(1) pu by (auto simp: sys_mmap_def)
  have ad: "add64 s 48 = s + 48" "add64 (s + 48) (mul64 0 ?o) = s + 48"
    using s64 by (simp_all add: add64_exact mul64_def)
  have mp: "mapped m0 (s + j) n" if "j + n \<le> slab_size" for j n
    by (rule mapped_sub [OF mp0]) (use that in simp_all)
  obtain c2 where c2: "new_slab kern ?c = Some (s, c2)" "c_partial c2 = s" "get64 (s + 16) c2 = Some 0"
    "c_mem c2 0 = None"
  proof -
    let ?m1 = "put64 m0 (s + 32) (s + 48)"
    let ?m2 = "put64 ?m1 (s + 40) (s + 48)"
    let ?m3 = "put32 ?m2 (s + 24) 0"
    let ?m4 = "put32 ?m3 (s + 28) 0"
    let ?m5 = "put64 ?m4 (s + 16) 0"
    let ?m6 = "put64 ?m5 (s + 0) 0"
    let ?m7 = "put64 ?m6 (s + 8) 0"
    let ?c2 = "?c\<lparr>c_mem := ?m7, c_all := s, c_partial := s\<rparr>"
    have "load64 ?m1 (s + 32) = Some (s + 48)" using s64 by (simp add: load64_put_same)
    then have "new_slab kern ?c = Some (s, ?c2)"
      using assms(4) m0 s64 ad mp [of 32 8] mp [of 40 8] mp [of 24 4] mp [of 28 4] mp [of 16 8] mp [of 0 8] mp [of 8 8]
      by (simp add: new_slab_def set64_def get64_def set32_def store64_mapped store32_mapped mapped_put
          slab_thread.simps Let_def)
    moreover have "get64 (s + 16) ?c2 = Some 0"
      by (simp add: get64_def load64_put_other load64_put_same)
    moreover have "c_mem ?c2 0 = None" using z0 ok(1) by (simp add: put_outside)
    ultimately show thesis using that by simp
  qed
  have "\<not> mapped (c_mem c2) 0 8" using c2(4) by (auto simp: mapped_def subset_eq domIff)
  then have "get64 0 c2 = None" by (simp add: get64_def load64_def load_bytes_char)
  then have "slab_pop c2 = None" using c2(2,3) by (simp add: slab_pop_def Let_def)
  then have "cache_alloc kern ?c = None" using c2(1) ok(1) by (simp add: cache_alloc_def)
  then show ?thesis using init by (intro exI [of _ ?c]) simp
qed

lemma cache_init_wraps:
  assumes "2 ^ 64 \<le> obj_sz + 15" "obj_sz < 2 ^ 64"
  shows "cache_init obj_sz c = None"
proof -
  have "(obj_sz + 15) mod 2 ^ 64 = obj_sz + 15 - 2 ^ 64" using assms by (simp add: mod_if)
  then have "align_up obj_sz = 0" using assms by (simp add: align_up_wrap)
  moreover have "\<not> obj_sz < 8" using assms(1) by simp
  ultimately show ?thesis by (simp add: cache_init_def slab_consts Let_def)
qed

text \<open>C5. Any client of a slab cache, for every object size of type size_t.  Objects of at most 32720 bytes fit a
  slab: then the client may allocate, free and write into its own objects in any order and never
  faults, wherever the kernel places the slabs and whenever it refuses one; live objects never
  overlap and keep their bytes.  For a larger size cache_init does not fail but counts no object in a
  slab, and the first allocation for which the kernel grants a slab pops an empty list and
  dereferences NULL; the last 15 sizes wrap around to 0 and cache_init divides by it.\<close>

theorem slab_client_safe:
  assumes "kern_ok kern" and "obj_sz < 2 ^ 64"
    and "\<forall>cmd \<in> set cs. legal_cmd (\<lambda>r. r \<le> round_obj obj_sz) cmd"
  shows "if obj_sz \<le> 32720 then
      \<exists>c1. cache_init obj_sz c = Some c1 \<and>
        (\<exists>c' bs. slab_run kern cs (c1, []) = Some (c', bs) \<and>
           blocks_apart slab_extent bs \<and> data_intact (c_mem c') slab_extent bs)
    else if obj_sz + 15 < 2 ^ 64 then
      \<exists>c1. cache_init obj_sz c = Some c1 \<and> c_objs c1 = 0 \<and>
        (c_mem c NULL = None \<longrightarrow> kern (c_mem c) \<noteq> None \<longrightarrow> cache_alloc kern c1 = None)
    else cache_init obj_sz c = None"
proof (cases "obj_sz \<le> 32720")
  case True
  obtain c1 where c1: "cache_init obj_sz c = Some c1"
    "slab_inv kern (round_obj obj_sz) (32720 div round_obj obj_sz) c1 {#}"
    using cache_init_inv [OF assms(1) True] by blast
  from slab.client_safe_free [OF c1(2) assms(3)] show ?thesis using c1(1) True by fastforce
next
  case big: False
  show ?thesis
  proof (cases "obj_sz + 15 < 2 ^ 64")
    case True
    obtain c1 where init: "cache_init obj_sz c = Some c1" "c_objs c1 = 0"
      using cache_init_big [of obj_sz c] big True by auto
    have "cache_alloc kern c1 = None" if "c_mem c NULL = None" "kern (c_mem c) = Some s" for s
    proof -
      have "mmap_ok (Some s) SLAB_BYTES (c_mem c)" using assms(1) that(2) unfolding kern_ok_def by metis
      with slab_big_object_faults [of obj_sz c kern s] show ?thesis using that init(1) big True by simp
    qed
    then show ?thesis using init big True by auto
  next
    case False
    then show ?thesis using cache_init_wraps [of obj_sz c] assms(2) big by simp
  qed
qed

text \<open>A kernel that hands out the first page-aligned region above 4096, once.\<close>

definition demo_kern :: "mem \<Rightarrow> addr option" where
  "demo_kern m = (if {4096..<4096 + slab_size} \<inter> dom m = {} then Some 4096 else None)"

lemma demo_kern_ok: "kern_ok demo_kern"
proof -
  have "page_up slab_size = slab_size" by (rule page_up_id) simp
  then show ?thesis by (simp add: kern_ok_def demo_kern_def mmap_ok_def USER_TOP_def)
qed

definition demo_cache :: cache where
  "demo_cache = \<lparr>c_all = 0, c_partial = 0, c_obj_sz = 0, c_objs = 0, c_mem = Map.empty\<rparr>"

theorem slab_client_safe_witness:
  "(\<exists>c1. cache_init 64 demo_cache = Some c1 \<and>
     (\<exists>c' bs. slab_run demo_kern [Alloc 64, Alloc 64, Poke 1 63 7, Free 0, Alloc 64] (c1, []) =
         Some (c', bs) \<and> blocks_apart slab_extent bs \<and> data_intact (c_mem c') slab_extent bs)) \<and>
   (\<exists>c1. cache_init 40000 demo_cache = Some c1 \<and> cache_alloc demo_kern c1 = None) \<and>
   cache_init (2 ^ 64 - 1) demo_cache = None"
proof -
  have k: "c_mem demo_cache NULL = None" "demo_kern (c_mem demo_cache) \<noteq> None"
    by (simp_all add: demo_kern_def demo_cache_def)
  show ?thesis
    using slab_client_safe [OF demo_kern_ok, of 64 "[Alloc 64, Alloc 64, Poke 1 63 7, Free 0, Alloc 64]" demo_cache]
      slab_client_safe [OF demo_kern_ok, of 40000 "[]" demo_cache]
      slab_client_safe [OF demo_kern_ok, of "2 ^ 64 - 1" "[]" demo_cache] k
    by (auto simp: round_obj_def)
qed

lemma size_mset_set: "finite A \<Longrightarrow> size (mset_set A) = card A"
  by simp

lemma card_slab:
  assumes core: "cache_core c ss ps fo" and s: "s \<in> set ss"
  shows "card (set (objs (c_obj_sz c) (c_objs c) s) - set (fo s)) = c_objs c - length (fo s)"
proof -
  have so: "slab_ok (c_mem c) (c_obj_sz c) (c_objs c) s (fo s)" by (rule slab_coreD(5) [OF core s])
  have "distinct (objs (c_obj_sz c) (c_objs c) s)"
    using slab_coreD(1) [OF core] by (simp add: objs_def sizes_ok_def distinct_slots)
  then have "card (set (objs (c_obj_sz c) (c_objs c) s)) = length (objs (c_obj_sz c) (c_objs c) s)"
    by (rule distinct_card)
  then have "card (set (objs (c_obj_sz c) (c_objs c) s)) = c_objs c" by (simp add: objs_def slots_def)
  moreover have "card (set (fo s)) = length (fo s)"
    using slab_ok_length(1) [OF so] by (rule distinct_card)
  ultimately show ?thesis using so by (subst card_Diff_subset) (simp_all add: slab_ok_def)
qed

lemma card_used:
  assumes core: "cache_core c ss ps fo"
  shows "card (used (c_obj_sz c) (c_objs c) ss fo) = (\<Sum>s \<leftarrow> ss. c_objs c - length (fo s))"
proof -
  note d = slab_coreD [OF core]
  let ?o = "\<lambda>s. set (objs (c_obj_sz c) (c_objs c) s)"
  have dist: "distinct ss" by (rule chain_distinct [OF d(7)])
  have one: "card (?o s - set (fo s)) = c_objs c - length (fo s)" if "s \<in> set ss" for s
    by (rule card_slab [OF core that])
  have "card (used (c_obj_sz c) (c_objs c) ss fo) = (\<Sum>s \<in> set ss. card (?o s - set (fo s)))"
    unfolding used_def
  proof (rule card_UN_disjoint)
    show "\<forall>s \<in> set ss. \<forall>t \<in> set ss. s \<noteq> t \<longrightarrow> (?o s - set (fo s)) \<inter> (?o t - set (fo t)) = {}"
      using objs_disjoint [OF core] by blast
  qed simp_all
  also have "\<dots> = (\<Sum>s \<in> set ss. c_objs c - length (fo s))" using one by (intro sum.cong) auto
  also have "\<dots> = (\<Sum>s \<leftarrow> ss. c_objs c - length (fo s))" by (simp add: sum_list_distinct_conv_sum_set dist)
  finally show ?thesis .
qed

lemma used_in_slab:
  assumes core: "cache_core c ss ps fo" and s: "s \<in> set ss"
  shows "card {x \<in> used (c_obj_sz c) (c_objs c) ss fo. x \<in> set (objs (c_obj_sz c) (c_objs c) s)} =
    c_objs c - length (fo s)"
proof -
  let ?o = "\<lambda>s. set (objs (c_obj_sz c) (c_objs c) s)"
  have "{x \<in> used (c_obj_sz c) (c_objs c) ss fo. x \<in> ?o s} = ?o s - set (fo s)"
    using s objs_disjoint [OF core] unfolding used_def by blast
  then show ?thesis using card_slab [OF core s] by simp
qed

lemma slab_inv_counts:
  assumes "slab_inv kern osz k c L"
  shows "\<exists>ss ps. chain 0 (c_mem c) (c_all c) ss \<and> chain 8 (c_mem c) (c_partial c) ps \<and>
    (\<forall>s \<in> set ss. get32 (capacity s) c = Some k \<and>
       get32 (in_use s) c = Some (size {#p \<in># image_mset fst L. p \<in> set (objs osz k s)#}) \<and>
       the (get32 (in_use s) c) \<le> k) \<and>
    size L = (\<Sum>s \<leftarrow> ss. the (get32 (in_use s) c)) \<and>
    set ps = {s \<in> set ss. the (get32 (in_use s) c) < k}"
proof -
  obtain ss ps fo where core: "cache_core c ss ps fo"
    and L: "image_mset fst L = mset_set (used osz k ss fo)" and sz: "c_obj_sz c = osz" "c_objs c = k"
    using assms by (auto simp: slab_inv_def)
  note d = slab_coreD [OF core]
  have u: "get32 (s + 24) c = Some (k - length (fo s))" "get32 (s + 28) c = Some k" "length (fo s) \<le> k"
    if "s \<in> set ss" for s
    using d(5) [OF that] slab_ok_length(2) [OF d(5) [OF that]] sz by (simp_all add: slab_ok_def get32_def)
  have "size L = size (image_mset fst L)" by simp
  also have "\<dots> = (\<Sum>s \<leftarrow> ss. k - length (fo s))" unfolding L using card_used [OF core] sz by simp
  also have "\<dots> = (\<Sum>s \<leftarrow> ss. the (get32 (s + 24) c))"
    using u(1) by (intro arg_cong [of _ _ sum_list] map_cong) simp_all
  finally have size: "size L = (\<Sum>s \<leftarrow> ss. the (get32 (s + 24) c))" .
  have "0 < k" using d(1) sz by (simp add: sizes_ok_def)
  then have "set ps = {s \<in> set ss. the (get32 (s + 24) c) < k}"
    using d(9) u(1,3) by (auto simp: le_less)
  moreover have "size {#p \<in># image_mset fst L. p \<in> set (objs osz k s)#} = k - length (fo s)"
    if "s \<in> set ss" for s
    using used_in_slab [OF core that] sz by (simp add: L filter_mset_mset_set)
  ultimately show ?thesis using d(7,8) u size by (intro exI [of _ ss] exI [of _ ps]) auto
qed

text \<open>C6. The bookkeeping is exact in every state that a client can reach.  Start a cache for objects that fit
  a slab and run any script of allocations, frees and writes, with any kernel.  Then following
  next_all from the cache gives its slabs; the in_use count of each slab is the number of live
  objects that lie in it and at most its capacity, which is the number of objects that fit; these
  counts add up to the number of live objects; and following next_partial gives exactly the slabs
  that are not full.\<close>

theorem slab_accounting:
  assumes "kern_ok kern" and "obj_sz \<le> 32720"
    and "\<forall>cmd \<in> set cs. legal_cmd (\<lambda>r. r \<le> round_obj obj_sz) cmd"
    and "cache_init obj_sz c0 = Some c1" and "slab_run kern cs (c1, []) = Some (c, bs)"
  shows "\<exists>ss ps. chain 0 (c_mem c) (c_all c) ss \<and> chain 8 (c_mem c) (c_partial c) ps \<and>
    (\<forall>s \<in> set ss. get32 (capacity s) c = Some (32720 div round_obj obj_sz) \<and>
       get32 (in_use s) c = Some (length [b \<leftarrow> bs. baddr b \<in> set (slots (s + 48) (round_obj obj_sz) (32720 div round_obj obj_sz))]) \<and>
       the (get32 (in_use s) c) \<le> 32720 div round_obj obj_sz) \<and>
    length bs = (\<Sum>s \<leftarrow> ss. the (get32 (in_use s) c)) \<and>
    set ps = {s \<in> set ss. the (get32 (in_use s) c) < 32720 div round_obj obj_sz}"
proof -
  let ?o = "round_obj obj_sz" let ?k = "32720 div round_obj obj_sz"
  have "slab_inv kern ?o ?k c1 {#}" using cache_init_inv [OF assms(1,2), of c0] assms(4) by simp
  from slab.client_safe_free [OF this assms(3)] have inv: "slab_inv kern ?o ?k c (mset (map key bs))"
    using assms(5) by auto
  have size: "size {#p \<in># image_mset fst (mset (map key bs)). p \<in> X#} = length [b \<leftarrow> bs. baddr b \<in> X]" for X
    by (induction bs) (simp_all add: key_def)
  show ?thesis using slab_inv_counts [OF inv] unfolding size objs_def by (simp only: size_mset length_map)
qed

lemma demo_cache_state:
  "\<exists>c1 p c2. cache_init 64 demo_cache = Some c1 \<and> cache_alloc demo_kern c1 = Some (p, c2) \<and>
    slab_inv demo_kern 64 511 c2 (if p = 0 then {#} else {#(p, 64)#})"
proof -
  have r: "round_obj 64 = 64" by (simp add: round_obj_def)
  obtain c1 where c1: "cache_init 64 demo_cache = Some c1" "slab_inv demo_kern 64 511 c1 {#}"
    using cache_init_inv [OF demo_kern_ok, of 64 demo_cache] by (auto simp: r)
  from slab_alloc_inv [OF c1(2), of 64] show ?thesis using c1(1) by auto
qed

theorem slab_accounting_witness:
  "\<exists>c1 c bs ss. cache_init 64 demo_cache = Some c1 \<and>
    slab_run demo_kern [Alloc 64, Alloc 64, Poke 1 63 7, Free 0, Alloc 64] (c1, []) = Some (c, bs) \<and>
    chain 0 (c_mem c) (c_all c) ss \<and> length bs = (\<Sum>s \<leftarrow> ss. the (get32 (in_use s) c))"
proof -
  let ?cs = "[Alloc 64, Alloc 64, Poke 1 63 7, Free 0, Alloc 64]"
  obtain c1 where c1: "cache_init 64 demo_cache = Some c1" "slab_inv demo_kern 64 511 c1 {#}"
    using cache_init_inv [OF demo_kern_ok, of 64 demo_cache] by (auto simp: round_obj_def)
  obtain c bs where run: "slab_run demo_kern ?cs (c1, []) = Some (c, bs)"
    using slab.client_safe_free [OF c1(2), of ?cs] by auto
  show ?thesis using slab_accounting [OF demo_kern_ok _ _ c1(1) run] c1(1) run by (auto simp: round_obj_def)
qed

lemma slab_partial_room:
  assumes core: "cache_core c ss ps fo" and L: "image_mset fst L = mset_set (used (c_obj_sz c) (c_objs c) ss fo)"
    and room: "size L < c_objs c * length ss"
  shows "ps \<noteq> []"
proof
  assume "ps = []"
  then have "(\<Sum>s \<leftarrow> ss. c_objs c - length (fo s)) = (\<Sum>s \<leftarrow> ss. c_objs c)"
    using slab_coreD(9) [OF core] by (intro arg_cong [of _ _ sum_list] map_cong) auto
  moreover have "size L = (\<Sum>s \<leftarrow> ss. c_objs c - length (fo s))"
    using card_used [OF core] L by (metis size_image_mset size_mset_set finite_used)
  ultimately show False using room by (simp add: sum_list_triv)
qed

text \<open>A cache never maps a new slab while an object is free: with fewer live objects than its
  slabs can hold, cache_alloc succeeds even if the kernel would refuse every mapping, and its
  result does not depend on the kernel.\<close>

theorem slab_alloc_reuses:
  assumes "slab_inv kern osz k c L" and "chain 0 (c_mem c) (c_all c) ss" and "size L < k * length ss"
  shows "\<exists>p c'. p \<noteq> NULL \<and> (\<forall>kern'. cache_alloc kern' c = Some (p, c'))"
proof -
  obtain ss' ps fo where core: "cache_core c ss' ps fo"
    and L: "image_mset fst L = mset_set (used osz k ss' fo)" and sz: "c_obj_sz c = osz" "c_objs c = k"
    using assms(1) by (auto simp: slab_inv_def)
  note d = slab_coreD [OF core]
  have ss: "ss' = ss" by (rule chain_unique [OF d(7) assms(2)])
  have "ps \<noteq> []" using slab_partial_room [OF core] L sz assms(3) ss by simp
  then obtain s ps' where ps: "ps = s # ps'" by (cases ps) auto
  then have "c_partial c \<noteq> 0" using d(8) by auto
  moreover obtain x c' where "slab_pop c = Some (x, c')" "x \<noteq> 0"
    using slab_pop_inv [OF core [unfolded ps]] L sz by blast
  ultimately show ?thesis by (auto simp: cache_alloc_def)
qed

theorem slab_alloc_reuses_witness:
  "\<exists>c1 c2 p c'. cache_init 64 demo_cache = Some c1 \<and> new_slab demo_kern c1 = Some (4096, c2) \<and>
    p \<noteq> NULL \<and> cache_alloc (\<lambda>_. None) c2 = Some (p, c')"
proof -
  have r: "round_obj 64 = 64" by (simp add: round_obj_def)
  obtain c1 where c1: "cache_init 64 demo_cache = Some c1" "slab_inv demo_kern 64 511 c1 {#}"
    using cache_init_inv [OF demo_kern_ok, of 64 demo_cache] by (auto simp: r)
  have m: "c_mem c1 = Map.empty" "c_all c1 = 0"
    using c1(1) by (auto simp: cache_init_def Let_def demo_cache_def split: if_splits)
  obtain ss ps fo where core: "cache_core c1 ss ps fo"
    and L: "image_mset fst ({#} :: (addr \<times> nat) multiset) = mset_set (used 64 511 ss fo)" and sz: "c_obj_sz c1 = 64" "c_objs c1 = 511"
    using c1(2) unfolding slab_inv_def by blast
  have ss: "ss = []" using slab_coreD(7) [OF core] m(2) by simp
  have k: "demo_kern (c_mem c1) = Some 4096" using m by (simp add: demo_kern_def)
  have "mmap_ok (demo_kern (c_mem c1)) SLAB_BYTES (c_mem c1)" using demo_kern_ok by (simp add: kern_ok_def)
  from new_slab_core [of c1 ss ps fo demo_kern, OF core this] k obtain c2 where c2: "new_slab demo_kern c1 = Some (4096, c2)"
    "cache_core c2 [4096] (4096 # ps) (fo(4096 := rev (objs 64 511 4096)))" "c_obj_sz c2 = 64" "c_objs c2 = 511"
    using sz ss by auto
  have "used 64 511 [4096] (fo(4096 := rev (objs 64 511 4096))) = {}" by (simp add: used_def)
  then have "slab_inv demo_kern 64 511 c2 {#}"
    unfolding slab_inv_def using demo_kern_ok c2(2-4) by (metis (no_types, lifting) empty_iff image_mset_empty mset_set.empty set_mset_empty)
  moreover have "chain 0 (c_mem c2) (c_all c2) [4096]" by (rule slab_coreD(7) [OF c2(2)])
  ultimately obtain p c' where "p \<noteq> NULL" "\<forall>kern'. cache_alloc kern' c2 = Some (p, c')"
    using slab_alloc_reuses [of demo_kern 64 511 c2 "{#}" "[4096]"] by auto
  then show ?thesis using c1(1) c2(1) by blast
qed

text \<open>A pointer that lies in no slab is reported and changes nothing.\<close>

theorem cache_free_foreign:
  assumes "slab_inv kern osz k c L" and "chain 0 (c_mem c) (c_all c) ss"
    and "\<forall>s \<in> set ss. p < s + 48 \<or> s + 48 + k * osz \<le> p"
  shows "cache_free p c = Some (False, c)"
proof -
  obtain ss' ps fo where core: "cache_core c ss' ps fo" and sz: "c_obj_sz c = osz" "c_objs c = k"
    using assms(1) by (auto simp: slab_inv_def)
  have ss: "ss' = ss" by (rule chain_unique [OF slab_coreD(7) [OF core] assms(2)])
  have "find_slab (c_all c) p c = Some 0"
    using assms(3) sz by (intro find_slab_none [OF core slab_coreD(7) [OF core]]) (auto simp: ss)
  then show ?thesis by (simp add: cache_free_def)
qed

theorem cache_free_foreign_witness:
  "\<exists>c1. cache_init 64 demo_cache = Some c1 \<and> cache_free 12345 c1 = Some (False, c1)"
proof -
  have r: "round_obj 64 = 64" by (simp add: round_obj_def)
  obtain c1 where c1: "cache_init 64 demo_cache = Some c1" "slab_inv demo_kern 64 511 c1 {#}"
    using cache_init_inv [OF demo_kern_ok, of 64 demo_cache] by (auto simp: r)
  have "c_all c1 = 0" using c1(1) by (auto simp: cache_init_def Let_def demo_cache_def split: if_splits)
  then show ?thesis using cache_free_foreign [OF c1(2), of "[]" 12345] c1(1) by simp
qed

theorem slab_big_object_faults_witness:
  "\<exists>c1. cache_init 40000 demo_cache = Some c1 \<and> cache_alloc demo_kern c1 = None"
proof -
  have k: "demo_kern (c_mem demo_cache) = Some 4096" by (simp add: demo_kern_def demo_cache_def)
  then have "mmap_ok (Some 4096) SLAB_BYTES (c_mem demo_cache)"
    using demo_kern_ok unfolding kern_ok_def by metis
  with slab_big_object_faults [of 40000 demo_cache demo_kern 4096] k show ?thesis
    by (auto simp: demo_cache_def)
qed

end
