(* ===== verification/Freelist.thy ===== *)
theory Freelist
  imports Linked_List
begin

text \<open>
  \<open>14_putting_it_together/04_freelist.c\<close>: the variable-size first-fit allocator with boundary
  tags.  The record \<open>heap\<close> holds the three globals and the memory.  A chunk starts with struct
  Hdr (size and free flag at offset 0, the links prev_free and next_free at 8 and 16), padded to
  32 bytes, and ends with struct Ftr in its last 16 bytes.
\<close>

record heap =
  h_base :: addr
  h_end :: addr
  h_free :: addr
  h_mem :: mem

definition HDR_SZ :: nat where "HDR_SZ = align_up 24"
definition FTR_SZ :: nat where "FTR_SZ = align_up 8"
definition MIN_CHUNK :: nat where "MIN_CHUNK = HDR_SZ + 16 + FTR_SZ"

lemma freelist_consts [simp]: "HDR_SZ = 32" "FTR_SZ = 16" "MIN_CHUNK = 64"
  by (simp_all add: HDR_SZ_def FTR_SZ_def MIN_CHUNK_def align_up_exact)

section \<open>The operations\<close>

definition get_word :: "addr \<Rightarrow> heap \<Rightarrow> nat option" where
  "get_word a s = load64 (h_mem s) a"

definition set_word :: "addr \<Rightarrow> nat \<Rightarrow> heap \<Rightarrow> heap option" where
  "set_word a v s = map_option (\<lambda>m. s\<lparr>h_mem := m\<rparr>) (store64 (h_mem s) a v)"

abbreviation (input) prev_free :: "addr \<Rightarrow> addr" where "prev_free h \<equiv> h + 8"
abbreviation (input) next_free :: "addr \<Rightarrow> addr" where "next_free h \<equiv> h + 16"

definition csz :: "addr \<Rightarrow> heap \<Rightarrow> nat option" where
  "csz h s = do { v \<leftarrow> get_word h s; Some (and_not64 v 1) }"

definition cfree :: "addr \<Rightarrow> heap \<Rightarrow> bool option" where
  "cfree h s = do { v \<leftarrow> get_word h s; Some (v AND 1 \<noteq> 0) }"

definition ftr_of :: "addr \<Rightarrow> heap \<Rightarrow> addr option" where
  "ftr_of h s = do { n \<leftarrow> csz h s; Some (sub64 (add64 h n) FTR_SZ) }"

definition next_of :: "addr \<Rightarrow> heap \<Rightarrow> addr option" where
  "next_of h s = do { n \<leftarrow> csz h s; Some (add64 h n) }"

definition prev_of :: "addr \<Rightarrow> heap \<Rightarrow> addr option" where
  "prev_of h s =
     (if h = h_base s then Some NULL
      else do { v \<leftarrow> get_word (sub64 h FTR_SZ) s; Some (sub64 h (and_not64 v 1)) })"

definition set_size :: "addr \<Rightarrow> nat \<Rightarrow> bool \<Rightarrow> heap \<Rightarrow> heap option" where
  "set_size h sz free s = do {
     s1 \<leftarrow> set_word h (sz OR (if free then 1 else 0)) s;
     f \<leftarrow> ftr_of h s1;
     v \<leftarrow> get_word h s1;
     set_word f v s1 }"

definition fl_insert :: "addr \<Rightarrow> heap \<Rightarrow> heap option" where
  "fl_insert h s = do {
     s1 \<leftarrow> set_word (prev_free h) NULL s;
     s2 \<leftarrow> set_word (next_free h) (h_free s1) s1;
     s3 \<leftarrow> (if h_free s2 \<noteq> NULL then set_word (prev_free (h_free s2)) h s2 else Some s2);
     Some (s3\<lparr>h_free := h\<rparr>) }"

definition fl_unlink :: "addr \<Rightarrow> heap \<Rightarrow> heap option" where
  "fl_unlink h s = do {
     p \<leftarrow> get_word (prev_free h) s;
     s1 \<leftarrow> (if p \<noteq> NULL
            then do { n \<leftarrow> get_word (next_free h) s; set_word (next_free p) n s }
            else do { n \<leftarrow> get_word (next_free h) s; Some (s\<lparr>h_free := n\<rparr>) });
     n \<leftarrow> get_word (next_free h) s1;
     if n \<noteq> NULL
     then do { p' \<leftarrow> get_word (prev_free h) s1; set_word (prev_free n) p' s1 }
     else Some s1 }"

definition my_init :: "addr option \<Rightarrow> nat \<Rightarrow> heap \<Rightarrow> heap option" where
  "my_init choice cap s =
     (let cap = and_not64 (add64 cap 4095) 4095;
          (b, m) = sys_mmap choice cap (h_mem s);
          s = s\<lparr>h_base := b, h_end := add64 b cap, h_mem := m\<rparr>
      in do {
        s1 \<leftarrow> set_size b cap True s;
        fl_insert b (s1\<lparr>h_free := NULL\<rparr>) })"

definition need_of :: "nat \<Rightarrow> nat" where
  "need_of req =
     (let need = align_up (add64 (add64 req HDR_SZ) FTR_SZ)
      in if need < MIN_CHUNK then MIN_CHUNK else need)"

text \<open>The body of the search loop once a chunk fits.\<close>

definition take_chunk :: "addr \<Rightarrow> nat \<Rightarrow> heap \<Rightarrow> (addr \<times> heap) option" where
  "take_chunk h need s = do {
     s1 \<leftarrow> fl_unlink h s;
     c \<leftarrow> csz h s1;
     let leftover = sub64 c need;
     s2 \<leftarrow> (if MIN_CHUNK \<le> leftover
            then do {
              s2 \<leftarrow> set_size h need False s1;
              r \<leftarrow> next_of h s2;
              s3 \<leftarrow> set_size r leftover True s2;
              fl_insert r s3 }
            else do { c' \<leftarrow> csz h s1; set_size h c' False s1 });
     Some (add64 h HDR_SZ, s2) }"

partial_function (option) find_fit :: "addr \<Rightarrow> nat \<Rightarrow> heap \<Rightarrow> (addr \<times> heap) option" where
  "find_fit h need s =
     (if h = NULL then Some (NULL, s)
      else do {
        c \<leftarrow> csz h s;
        if need \<le> c then take_chunk h need s
        else do { h' \<leftarrow> get_word (next_free h) s; find_fit h' need s } })"

definition my_malloc :: "nat \<Rightarrow> heap \<Rightarrow> (addr \<times> heap) option" where
  "my_malloc req s = (if req = 0 then Some (NULL, s) else find_fit (h_free s) (need_of req) s)"

text \<open>The two coalescing steps of my_free.\<close>

definition join_next :: "addr \<Rightarrow> heap \<Rightarrow> heap option" where
  "join_next h s = do {
     n \<leftarrow> next_of h s;
     f \<leftarrow> (if n < h_end s then cfree n s else Some False);
     if f
     then do {
       s1 \<leftarrow> fl_unlink n s;
       c \<leftarrow> csz h s1;
       d \<leftarrow> csz n s1;
       set_size h (add64 c d) True s1 }
     else Some s }"

definition join_prev :: "addr \<Rightarrow> heap \<Rightarrow> (addr \<times> heap) option" where
  "join_prev h s = do {
     pr \<leftarrow> prev_of h s;
     f \<leftarrow> (if pr \<noteq> NULL then cfree pr s else Some False);
     if f
     then do {
       s1 \<leftarrow> fl_unlink pr s;
       c \<leftarrow> csz pr s1;
       d \<leftarrow> csz h s1;
       s2 \<leftarrow> set_size pr (add64 c d) True s1;
       Some (pr, s2) }
     else Some (h, s) }"

definition my_free :: "addr \<Rightarrow> heap \<Rightarrow> heap option" where
  "my_free p s =
     (if p = NULL then Some s
      else do {
        let h = sub64 p HDR_SZ;
        c \<leftarrow> csz h s;
        s1 \<leftarrow> set_size h c True s;
        s2 \<leftarrow> join_next h s1;
        (h', s3) \<leftarrow> join_prev h s2;
        fl_insert h' s3 })"


section \<open>Words and tags\<close>

lemma load64_put_word:
  assumes "8 dvd a" "8 dvd b" "v < 2 ^ 64"
  shows "load64 (put64 m a v) b = (if b = a then Some v else load64 m b)"
proof (cases "b = a")
  case True
  then show ?thesis using assms(3) by (simp add: load64_put_same)
next
  case False
  then have "apart b 8 a 8" using assms(1,2) by (intro apart_aligned [of 8]) auto
  then show ?thesis using False by (auto simp: apart_def intro!: load64_put_other)
qed

definition tag :: "nat \<Rightarrow> bool \<Rightarrow> nat" where
  "tag sz free = sz + (if free then 1 else 0)"

lemma or_tag: "even sz \<Longrightarrow> sz OR (if free then 1 else 0) = tag sz free"
  unfolding tag_def using or_one_eq [of sz] by simp

lemma tag_size: "even sz \<Longrightarrow> tag sz free < 2 ^ 64 \<Longrightarrow> and_not64 (tag sz free) 1 = sz"
  by (subst and_not64_low(1)) (auto simp: tag_def elim!: evenE)

lemma tag_flag: "even sz \<Longrightarrow> (tag sz free AND 1 \<noteq> 0) = free"
  by (auto simp: tag_def and_one_eq)

section \<open>Chunks\<close>

type_synonym chunk = "addr \<times> nat \<times> bool"

text \<open>The chunks cs lie back to back from a to e.\<close>

fun tiled :: "addr \<Rightarrow> chunk list \<Rightarrow> addr \<Rightarrow> bool" where
  "tiled a [] e = (a = e)"
| "tiled a ((h, sz, f) # cs) e = (h = a \<and> 64 \<le> sz \<and> 16 dvd sz \<and> tiled (a + sz) cs e)"

lemma tiled_append: "tiled a (as @ bs) e \<longleftrightarrow> (\<exists>b. tiled a as b \<and> tiled b bs e)"
  by (induction as arbitrary: a) auto

lemma tiled_le: "tiled a cs e \<Longrightarrow> a \<le> e"
  by (induction cs arbitrary: a) fastforce+

lemma tiled_chunk:
  assumes "tiled a cs e" "(h, sz, f) \<in> set cs"
  shows "a \<le> h" "h + sz \<le> e" "64 \<le> sz" "16 dvd sz" "16 dvd a \<Longrightarrow> 16 dvd h"
proof -
  obtain as bs where cs: "cs = as @ (h, sz, f) # bs" using assms(2) by (metis split_list)
  have t: "tiled a as h" "64 \<le> sz" "16 dvd sz" "tiled (h + sz) bs e"
    using assms(1) by (auto simp: cs tiled_append)
  then show "64 \<le> sz" "16 dvd sz" by simp_all
  show "a \<le> h" "h + sz \<le> e" using tiled_le [OF t(1)] tiled_le [OF t(4)] by simp_all
  show "16 dvd h" if "16 dvd a"
    using t(1) that
  proof (induction as arbitrary: a)
    case (Cons c as)
    then show ?case by (cases c) (auto intro!: Cons.IH)
  qed simp
qed

lemma tiled_after: "tiled a cs e \<Longrightarrow> (h, sz, f) \<in> set cs \<Longrightarrow> a \<le> h"
  by (rule tiled_chunk(1))

lemma tiled_apart:
  assumes "tiled a cs e" "(h, sz, f) \<in> set cs" "(h', sz', f') \<in> set cs" "(h, sz, f) \<noteq> (h', sz', f')"
  shows "apart h sz h' sz'"
  using assms
proof (induction cs arbitrary: a)
  case (Cons c cs)
  obtain k n g where c: "c = (k, n, g)" by (cases c)
  have t: "k = a" "tiled (a + n) cs e" using Cons.prems(1) by (simp_all add: c)
  have aft: "a + n \<le> y" if "(y, m, b) \<in> set cs" for y m b
    using tiled_after [OF t(2) that] .
  show ?case
  proof (cases "(h, sz, f) = c \<or> (h', sz', f') = c")
    case True
    then show ?thesis using Cons.prems(2-4) aft t(1) by (auto simp: c apart_def)
  next
    case False
    then show ?thesis using Cons.IH [OF t(2)] Cons.prems(2-4) by auto
  qed
qed simp

lemma start_chunk: "h \<in> fst ` set cs \<Longrightarrow> \<exists>sz f. (h, sz, f) \<in> set cs"
  by force

lemma tiled_start_unique:
  assumes "tiled a cs e" "(h, sz, f) \<in> set cs" "(h, sz', f') \<in> set cs"
  shows "sz = sz' \<and> f = f'"
  using tiled_apart [OF assms] tiled_chunk(3) [OF assms(1,2)] tiled_chunk(3) [OF assms(1,3)]
  by (auto simp: apart_def)

lemma tiled_change:
  "tiled a (as @ (h, sz, f) # bs) e \<Longrightarrow> tiled a (as @ (h, sz, f') # bs) e"
  by (simp add: tiled_append)

lemma tiled_join:
  "tiled a (as @ (h, sz, f) # (h', sz', f') # bs) e \<Longrightarrow>
   tiled a (as @ (h, sz + sz', f'') # bs) e \<and> h' = h + sz"
  by (auto simp: tiled_append add.assoc)

lemma tiled_cut:
  assumes "tiled a (as @ (h, sz, f) # bs) e" "64 \<le> n" "16 dvd n" "n + 64 \<le> sz"
  shows "tiled a (as @ (h, n, f') # (h + n, sz - n, f'') # bs) e"
  using assms by (auto simp: tiled_append dvd_diff_nat)

section \<open>The doubly linked free list\<close>

definition first_of :: "addr list \<Rightarrow> addr \<Rightarrow> addr" where
  "first_of xs n = (case xs of [] \<Rightarrow> n | x # _ \<Rightarrow> x)"

definition last_of :: "addr \<Rightarrow> addr list \<Rightarrow> addr" where
  "last_of p xs = (if xs = [] then p else last xs)"

lemma first_of_simps [simp]: "first_of [] n = n" "first_of (x # xs) n = x"
  by (simp_all add: first_of_def)

lemma last_of_simps [simp]: "last_of p [] = p" "last_of p (x # xs) = last_of x xs"
  "last_of p (xs @ [x]) = x"
  by (simp_all add: last_of_def)

text \<open>\<open>dseg s p xs n\<close>: xs is a doubly linked segment; p is the back link of its first node and
  n the forward link of its last.\<close>

fun dseg :: "heap \<Rightarrow> addr \<Rightarrow> addr list \<Rightarrow> addr \<Rightarrow> bool" where
  "dseg s p [] n = True"
| "dseg s p (x # xs) n =
     (x \<noteq> 0 \<and> get_word (prev_free x) s = Some p \<and> get_word (next_free x) s = Some (first_of xs n) \<and>
      dseg s x xs n)"

lemma first_of_append: "first_of (xs @ ys) n = first_of xs (first_of ys n)"
  by (cases xs) auto

lemma dseg_append: "dseg s p (xs @ ys) n \<longleftrightarrow> dseg s p xs (first_of ys n) \<and> dseg s (last_of p xs) ys n"
  by (induction xs arbitrary: p) (auto simp: first_of_append)

lemma dseg_nonzero: "dseg s p xs n \<Longrightarrow> 0 \<notin> set xs"
  by (induction xs arbitrary: p) auto

lemma dseg_cong:
  assumes "\<And>x. x \<in> set xs \<Longrightarrow> get_word (prev_free x) s' = get_word (prev_free x) s \<and>
    get_word (next_free x) s' = get_word (next_free x) s"
  shows "dseg s' p xs n = dseg s p xs n"
  using assms by (induction xs arbitrary: p) auto

lemma dseg_set_prev:
  assumes "dseg s p (x # xs) n" "get_word (prev_free x) s' = Some q"
    "get_word (next_free x) s' = get_word (next_free x) s"
    "\<And>y. y \<in> set xs \<Longrightarrow> get_word (prev_free y) s' = get_word (prev_free y) s \<and>
      get_word (next_free y) s' = get_word (next_free y) s"
  shows "dseg s' q (x # xs) n"
  using assms dseg_cong [of xs s' s x n] by simp

lemma dseg_set_next:
  assumes "dseg s p (xs @ [x]) n" "get_word (next_free x) s' = Some n'"
    "get_word (prev_free x) s' = get_word (prev_free x) s"
    "\<And>y. y \<in> set xs \<Longrightarrow> get_word (prev_free y) s' = get_word (prev_free y) s \<and>
      get_word (next_free y) s' = get_word (next_free y) s"
  shows "dseg s' p (xs @ [x]) n'"
  using assms dseg_cong [of xs s' s p x] by (simp add: dseg_append)

section \<open>Updates of words\<close>

definition heap_ok :: "heap \<Rightarrow> bool" where
  "heap_ok s \<longleftrightarrow> 0 < h_base s \<and> 16 dvd h_base s \<and> h_base s \<le> h_end s \<and> h_end s \<le> USER_TOP \<and>
     mapped (h_mem s) (h_base s) (h_end s - h_base s)"

text \<open>\<open>upd s s' U\<close>: s' is s with the words of U stored, and no other byte changed.\<close>

definition upd :: "heap \<Rightarrow> heap \<Rightarrow> (addr \<Rightarrow> nat option) \<Rightarrow> bool" where
  "upd s s' U \<longleftrightarrow> h_base s' = h_base s \<and> h_end s' = h_end s \<and> heap_ok s' \<and>
     (\<forall>b. 8 dvd b \<longrightarrow> get_word b s' = (case U b of None \<Rightarrow> get_word b s | Some v \<Rightarrow> Some v)) \<and>
     (\<forall>x. (\<forall>a \<in> dom U. x < a \<or> a + 8 \<le> x) \<longrightarrow> h_mem s' x = h_mem s x)"

lemma updD:
  assumes "upd s s' U"
  shows "h_base s' = h_base s" "h_end s' = h_end s" "heap_ok s'"
    "8 dvd b \<Longrightarrow> U b = None \<Longrightarrow> get_word b s' = get_word b s"
    "8 dvd b \<Longrightarrow> U b = Some v \<Longrightarrow> get_word b s' = Some v"
    "(\<And>a. a \<in> dom U \<Longrightarrow> x < a \<or> a + 8 \<le> x) \<Longrightarrow> h_mem s' x = h_mem s x"
  using assms by (auto simp: upd_def)

lemma free_update [simp]:
  "heap_ok (s\<lparr>h_free := f\<rparr>) = heap_ok s" "get_word b (s\<lparr>h_free := f\<rparr>) = get_word b s"
  by (simp_all add: heap_ok_def get_word_def)

lemma upd_free [simp]: "upd s (s1\<lparr>h_free := f\<rparr>) U = upd s s1 U"
  unfolding upd_def by simp

lemma upd_refl: "heap_ok s \<Longrightarrow> upd s s Map.empty"
  unfolding upd_def by simp

lemma upd_trans:
  assumes "upd s s1 U" "upd s1 s2 V"
  shows "upd s s2 (U ++ V)"
proof -
  have "get_word b s2 = (case (U ++ V) b of None \<Rightarrow> get_word b s | Some v \<Rightarrow> Some v)" if "8 dvd b" for b
  proof (cases "V b")
    case None
    then have "get_word b s2 = get_word b s1" using updD(4) [OF assms(2) that] by simp
    moreover have "get_word b s1 = (case U b of None \<Rightarrow> get_word b s | Some v \<Rightarrow> Some v)"
      using updD(4,5) [OF assms(1) that] by (simp split: option.split)
    ultimately show ?thesis using None by (simp add: map_add_def)
  next
    case (Some v)
    then show ?thesis using updD(5) [OF assms(2) that] by (simp add: map_add_def)
  qed
  moreover have "h_mem s2 x = h_mem s x" if "\<forall>a \<in> dom (U ++ V). x < a \<or> a + 8 \<le> x" for x
    using updD(6) [OF assms(2), of x] updD(6) [OF assms(1), of x] that by auto
  ultimately show ?thesis
    using updD(1-3) [OF assms(1)] updD(1-3) [OF assms(2)] unfolding upd_def by simp
qed

lemma set_word_upd:
  assumes "heap_ok s" "8 dvd a" "h_base s \<le> a" "a + 8 \<le> h_end s" "v < 2 ^ 64"
  shows "\<exists>s'. set_word a v s = Some s' \<and> upd s s' [a \<mapsto> v] \<and> h_free s' = h_free s"
proof -
  have mp: "mapped (h_mem s) a 8"
    using assms by (auto simp: heap_ok_def elim!: mapped_mono)
  have "upd s (s\<lparr>h_mem := put64 (h_mem s) a v\<rparr>) [a \<mapsto> v]"
    using assms(1,2,5) mp
    by (auto simp: upd_def heap_ok_def get_word_def load64_put_word mapped_put put_outside)
  then show ?thesis using mp by (simp add: set_word_def store64_mapped)
qed

section \<open>The invariant\<close>

definition tags :: "heap \<Rightarrow> chunk list \<Rightarrow> bool" where
  "tags s cs \<longleftrightarrow> (\<forall>(h, sz, f) \<in> set cs.
     get_word h s = Some (tag sz f) \<and> get_word (h + (sz - 16)) s = Some (tag sz f))"

definition core :: "heap \<Rightarrow> chunk list \<Rightarrow> addr list \<Rightarrow> bool" where
  "core s cs xs \<longleftrightarrow> heap_ok s \<and> tiled (h_base s) cs (h_end s) \<and> tags s cs \<and>
     dseg s 0 xs 0 \<and> h_free s = first_of xs 0 \<and> distinct xs \<and> set xs \<subseteq> fst ` set cs"

definition pay :: "chunk list \<Rightarrow> addr set" where
  "pay cs = (\<Union>(h, sz, f) \<in> set cs. {h + 32..<h + (sz - 16)})"

definition same_bytes :: "heap \<Rightarrow> heap \<Rightarrow> addr set \<Rightarrow> bool" where
  "same_bytes s s' A \<longleftrightarrow> h_base s' = h_base s \<and> h_end s' = h_end s \<and> (\<forall>a \<in> A. h_mem s' a = h_mem s a)"

lemma same_bytes_trans: "same_bytes s s1 A \<Longrightarrow> same_bytes s1 s2 A \<Longrightarrow> same_bytes s s2 A"
  by (simp add: same_bytes_def)

lemma same_bytes_mono: "same_bytes s s' A \<Longrightarrow> B \<subseteq> A \<Longrightarrow> same_bytes s s' B"
  by (auto simp: same_bytes_def)

lemma pay_mem: "a \<in> pay cs \<longleftrightarrow> (\<exists>h sz f. (h, sz, f) \<in> set cs \<and> h + 32 \<le> a \<and> a < h + (sz - 16))"
  by (force simp: pay_def)

lemma pay_append: "pay (as @ bs) = pay as \<union> pay bs" "pay (c # cs) = pay [c] \<union> pay cs"
  by (auto simp: pay_def)

lemma heap_coreD:
  assumes "core s cs xs"
  shows "heap_ok s" "tiled (h_base s) cs (h_end s)" "tags s cs" "dseg s 0 xs 0"
    "h_free s = first_of xs 0" "distinct xs" "set xs \<subseteq> fst ` set cs"
  using assms by (simp_all add: core_def)

lemma heap_okD:
  assumes "heap_ok s"
  shows "0 < h_base s" "16 dvd h_base s" "h_end s \<le> USER_TOP"
  using assms by (simp_all add: heap_ok_def)

lemma start_range:
  assumes "heap_ok s" "tiled (h_base s) cs (h_end s)" "h \<in> fst ` set cs"
  shows "16 dvd h" "h_base s \<le> h" "h + 64 \<le> h_end s" "h \<noteq> 0"
proof -
  obtain sz f where c: "(h, sz, f) \<in> set cs" using assms(3) by force
  note t = tiled_chunk [OF assms(2) c]
  show "16 dvd h" using t(5) heap_okD(2) [OF assms(1)] .
  show "h_base s \<le> h" "h + 64 \<le> h_end s" "h \<noteq> 0"
    using t(1-3) heap_okD(1) [OF assms(1)] by simp_all
qed

lemma link_not_tag:
  assumes "tiled b cs e" "(h, sz, f) \<in> set cs" "(h', sz', f') \<in> set cs" "k = 8 \<or> k = 16"
  shows "h + k \<noteq> h'" "h + k \<noteq> h' + (sz' - 16)"
proof -
  have "64 \<le> sz" "64 \<le> sz'" using tiled_chunk(3) [OF assms(1)] assms(2,3) by blast+
  moreover have "(h, sz, f) = (h', sz', f') \<or> apart h sz h' sz'"
    using tiled_apart [OF assms(1-3)] by blast
  ultimately show "h + k \<noteq> h'" "h + k \<noteq> h' + (sz' - 16)" using assms(4) by (auto simp: apart_def)
qed

lemma words_apart:
  fixes x y :: nat
  assumes "16 dvd x" "16 dvd y"
  shows "x + 8 \<noteq> y + 16" "x + 16 \<noteq> y + 8" "x \<noteq> y + 8"
  using assms by presburger+

text \<open>Storing links changes neither the tags nor any payload.\<close>

lemma links_core:
  assumes "heap_ok s" "tiled (h_base s) cs (h_end s)" "tags s cs" "upd s s' U"
    and "\<And>a. a \<in> dom U \<Longrightarrow> \<exists>h \<in> fst ` set cs. a = h + 8 \<or> a = h + 16"
  shows "tags s' cs" "same_bytes s s' (pay cs)"
proof -
  show "tags s' cs" unfolding tags_def
  proof clarify
    fix h sz f assume c: "(h, sz, f) \<in> set cs"
    note t = tiled_chunk [OF assms(2) c]
    have al: "16 dvd h" "16 dvd sz" using t(4,5) heap_okD(2) [OF assms(1)] by blast+
    then have d: "8 dvd h" "8 dvd h + (sz - 16)"
      by (auto intro!: dvd_add dvd_diff_nat intro: dvd_trans [of 8 16])
    have "U h = None" "U (h + (sz - 16)) = None"
    proof -
      have no: "w \<notin> dom U" if "w = h \<or> w = h + (sz - 16)" for w
      proof
        assume "w \<in> dom U"
        then obtain h' sz' f' where "(h', sz', f') \<in> set cs" "w = h' + 8 \<or> w = h' + 16"
          using assms(5) by force
        with link_not_tag [OF assms(2) _ c] that show False by metis
      qed
      then show "U h = None" "U (h + (sz - 16)) = None" by (auto simp: domIff)
    qed
    then show "get_word h s' = Some (tag sz f) \<and> get_word (h + (sz - 16)) s' = Some (tag sz f)"
      using updD(4) [OF assms(4) d(1)] updD(4) [OF assms(4) d(2)] assms(3) c by (auto simp: tags_def)
  qed
  have "h_mem s' x = h_mem s x" if x: "x \<in> pay cs" for x
  proof (rule updD(6) [OF assms(4)])
    fix a assume "a \<in> dom U"
    then obtain h' sz' f' where h': "(h', sz', f') \<in> set cs" "a = h' + 8 \<or> a = h' + 16"
      using assms(5) by force
    obtain h sz f where h: "(h, sz, f) \<in> set cs" "h + 32 \<le> x" "x < h + (sz - 16)"
      using x unfolding pay_mem by blast
    have "(h, sz, f) = (h', sz', f') \<or> apart h sz h' sz'"
      using tiled_apart [OF assms(2) h(1) h'(1)] by blast
    then show "x < a \<or> a + 8 \<le> x"
      using h(2,3) h'(2) tiled_chunk(3) [OF assms(2) h'(1)] by (auto simp: apart_def)
  qed
  then show "same_bytes s s' (pay cs)" using updD(1,2) [OF assms(4)] by (simp add: same_bytes_def)
qed

lemma link_upd:
  assumes "heap_ok s" "tiled (h_base s) cs (h_end s)" "h \<in> fst ` set cs" "k = 8 \<or> k = 16" "v < 2 ^ 64"
  shows "\<exists>s'. set_word (h + k) v s = Some s' \<and> upd s s' [h + k \<mapsto> v] \<and> h_free s' = h_free s"
proof (rule set_word_upd [OF assms(1)])
  have "8 dvd h" using start_range(1) [OF assms(1-3)] by (auto intro: dvd_trans [of 8 16])
  then show "8 dvd h + k" using assms(4) by auto
qed (use start_range [OF assms(1-3)] assms(4,5) in auto)

lemma start_less: "heap_ok s \<Longrightarrow> tiled (h_base s) cs (h_end s) \<Longrightarrow> h \<in> fst ` set cs \<Longrightarrow> h < 2 ^ 64"
  using start_range(3) [of s cs h] heap_okD(3) [of s] by (simp add: USER_TOP_def)

text \<open>Unlinking a node of the free list.\<close>

lemma heap_unlink_core:
  assumes core: "core s cs (ys @ x # zs)"
  shows "\<exists>s'. fl_unlink x s = Some s' \<and> core s' cs (ys @ zs) \<and> same_bytes s s' (pay cs)"
proof -
  note c = heap_coreD [OF core]
  let ?p = "last_of 0 ys" and ?n = "first_of zs 0"
  have nz: "0 \<notin> set (ys @ x # zs)" by (rule dseg_nonzero [OF c(4)])
  have gp: "get_word (x + 8) s = Some ?p" and gn: "get_word (x + 16) s = Some ?n"
    using c(4) by (simp_all add: dseg_append)
  have pin: "?p \<in> set ys" if "?p \<noteq> 0" using that by (auto simp: last_of_def split: if_splits)
  have nin: "?n \<in> set zs" if "?n \<noteq> 0" using that by (cases zs) auto
  have st: "a \<in> fst ` set cs" if "a \<in> set (ys @ x # zs)" for a using c(7) that by blast
  have al: "16 dvd a" "a < 2 ^ 64" if "a \<in> set (ys @ x # zs)" for a
    using start_range(1) [OF c(1,2) st [OF that]] start_less [OF c(1,2) st [OF that]] .
  have n64: "?n < 2 ^ 64" using al(2) [of ?n] nin by (cases "?n = 0") simp_all
  have p64: "?p < 2 ^ 64" using al(2) [of ?p] pin by (cases "?p = 0") simp_all
  define U1 where "U1 = (if ?p \<noteq> 0 then [?p + 16 \<mapsto> ?n] else Map.empty)"
  define U2 where "U2 = (if ?n \<noteq> 0 then [?n + 8 \<mapsto> ?p] else Map.empty)"
  have U1: "U1 a = (if ?p \<noteq> 0 \<and> a = ?p + 16 then Some ?n else None)" for a by (simp add: U1_def)
  have U2: "U2 a = (if ?n \<noteq> 0 \<and> a = ?n + 8 then Some ?p else None)" for a by (simp add: U2_def)
  have w8: "8 dvd a + 8" "8 dvd a + 16" if "a \<in> set (ys @ x # zs)" for a
    using al(1) [OF that] by (auto intro: dvd_add dvd_trans [of 8 16])
  obtain s1 where s1: "(if ?p \<noteq> 0
      then do { n \<leftarrow> get_word (x + 16) s; set_word (?p + 16) n s }
      else do { n \<leftarrow> get_word (x + 16) s; Some (s\<lparr>h_free := n\<rparr>) }) = Some s1"
    "upd s s1 U1" "h_free s1 = (if ?p \<noteq> 0 then h_free s else ?n)"
  proof (cases "?p = 0")
    case True
    then show ?thesis using that [of "s\<lparr>h_free := ?n\<rparr>"] gn upd_refl [OF c(1)] by (simp add: U1_def)
  next
    case False
    then obtain s1 where "set_word (?p + 16) ?n s = Some s1" "upd s s1 [?p + 16 \<mapsto> ?n]" "h_free s1 = h_free s"
      using link_upd [OF c(1,2) st, of ?p 16 ?n] pin n64 by auto
    then show ?thesis using that [of s1] gn False by (simp add: U1_def)
  qed
  have xp: "x \<noteq> ?p" using c(6) pin nz by (cases "?p = 0") auto
  have b1: "h_base s1 = h_base s" "h_end s1 = h_end s" "heap_ok s1" using updD(1-3) [OF s1(2)] .
  have xw: "8 dvd x + 8" "8 dvd x + 16" using w8 [of x] by simp_all
  have p16: "?p \<noteq> 0 \<Longrightarrow> 16 dvd ?p" using al(1) pin by simp
  have gn1: "get_word (x + 16) s1 = Some ?n"
    using updD(4) [OF s1(2) xw(2)] xp gn by (simp add: U1)
  have gp1: "get_word (x + 8) s1 = Some ?p"
  proof -
    have "?p \<noteq> 0 \<longrightarrow> x + 8 \<noteq> ?p + 16" using words_apart(1) [of x ?p] al(1) [of x] p16 by simp
    then have "U1 (x + 8) = None" unfolding U1 by auto
    then show ?thesis using updD(4) [OF s1(2) xw(1)] gp by simp
  qed
  obtain s2 where s2: "(if ?n \<noteq> 0 then do { p' \<leftarrow> get_word (x + 8) s1; set_word (?n + 8) p' s1 }
      else Some s1) = Some s2" "upd s1 s2 U2" "h_free s2 = h_free s1"
  proof (cases "?n = 0")
    case True
    then show ?thesis using that [of s1] upd_refl [OF b1(3)] by (simp add: U2_def)
  next
    case False
    then obtain s2 where "set_word (?n + 8) ?p s1 = Some s2" "upd s1 s2 [?n + 8 \<mapsto> ?p]" "h_free s2 = h_free s1"
      using link_upd [OF b1(3), of cs ?n 8 ?p] st nin p64 c(2) b1 by auto
    then show ?thesis using that [of s2] gp1 False by (simp add: U2_def)
  qed
  have res: "fl_unlink x s = Some s2"
    unfolding fl_unlink_def using gp s1(1) gn1 s2(1) by simp
  have u: "upd s s2 (U1 ++ U2)" by (rule upd_trans [OF s1(2) s2(2)])
  have dom: "\<exists>h \<in> fst ` set cs. a = h + 8 \<or> a = h + 16" if "a \<in> dom (U1 ++ U2)" for a
  proof -
    have "(?p \<noteq> 0 \<and> a = ?p + 16) \<or> (?n \<noteq> 0 \<and> a = ?n + 8)"
      using that by (auto simp: U1_def U2_def split: if_splits)
    then show ?thesis using st [of ?n] st [of ?p] pin nin by auto
  qed
  note lk = links_core [OF c(1-3) u dom]
  have get: "get_word b s2 = (if ?n \<noteq> 0 \<and> b = ?n + 8 then Some ?p
      else if ?p \<noteq> 0 \<and> b = ?p + 16 then Some ?n else get_word b s)" if "8 dvd b" for b
  proof -
    have "(U1 ++ U2) b = (if ?n \<noteq> 0 \<and> b = ?n + 8 then Some ?p
        else if ?p \<noteq> 0 \<and> b = ?p + 16 then Some ?n else None)"
      by (simp add: map_add_def U1 U2)
    then show ?thesis using updD(4,5) [OF u that] by (auto split: if_splits)
  qed
  have keep: "get_word (a + 8) s2 = get_word (a + 8) s" if "a \<in> set (ys @ x # zs)" "a \<noteq> ?n" for a
    using get [OF w8(1) [OF that(1)]] words_apart(1) [OF al(1) [OF that(1)] p16] that(2) by auto
  have n16: "?n \<noteq> 0 \<Longrightarrow> 16 dvd ?n" using al(1) nin by simp
  have keep': "get_word (a + 16) s2 = get_word (a + 16) s" if "a \<in> set (ys @ x # zs)" "a \<noteq> ?p" for a
    using get [OF w8(2) [OF that(1)]] words_apart(2) [OF al(1) [OF that(1)] n16] that(2) by auto
  have d: "dseg s 0 ys x" "dseg s x zs 0" using c(4) by (simp_all add: dseg_append)
  have "dseg s2 0 ys ?n"
  proof (cases ys rule: rev_cases)
    case (snoc ys' p)
    then have p: "?p = p" by simp
    have pn: "p \<noteq> 0" using nz snoc by auto
    have yn: "a \<noteq> ?n" if "a \<in> set ys" for a using c(6) nin nz that by fastforce
    show ?thesis unfolding snoc
    proof (rule dseg_set_next)
      show "dseg s 0 (ys' @ [p]) x" using d(1) snoc by simp
      show "get_word (p + 16) s2 = Some ?n"
        using get [OF w8(2), of p] words_apart(2) [of p ?n] n16 al(1) [of p] pn p snoc by auto
      show "get_word (p + 8) s2 = get_word (p + 8) s" using keep [of p] yn [of p] snoc by simp
      show "get_word (y + 8) s2 = get_word (y + 8) s \<and> get_word (y + 16) s2 = get_word (y + 16) s"
        if "y \<in> set ys'" for y
        using keep [of y] keep' [of y] yn [of y] that c(6) p snoc by auto
    qed
  qed simp
  moreover have "dseg s2 ?p zs 0"
  proof (cases zs)
    case (Cons n zs')
    then have n: "?n = n" "n \<noteq> 0" using nz by auto
    have zp: "a \<noteq> ?p" if "a \<in> set zs" for a using c(6) pin nz that by fastforce
    show ?thesis unfolding Cons
    proof (rule dseg_set_prev)
      show "dseg s x (n # zs') 0" using d(2) Cons by simp
      show "get_word (n + 8) s2 = Some ?p" using get [OF w8(1), of n] n Cons by simp
      show "get_word (n + 16) s2 = get_word (n + 16) s" using keep' [of n] zp [of n] Cons by simp
      show "get_word (y + 8) s2 = get_word (y + 8) s \<and> get_word (y + 16) s2 = get_word (y + 16) s"
        if "y \<in> set zs'" for y
        using keep [of y] keep' [of y] zp [of y] that c(6) n Cons by auto
    qed
  qed simp
  ultimately have "dseg s2 0 (ys @ zs) 0" by (simp add: dseg_append)
  moreover have "h_free s2 = first_of (ys @ zs) 0"
  proof (cases ys)
    case (Cons y ys')
    then have "last ys \<noteq> 0" using nz by (metis UnCI last_in_set list.distinct(1) set_append)
    then show ?thesis using s2(3) s1(3) c(5) Cons by (simp add: last_of_def)
  qed (use s2(3) s1(3) in simp)
  ultimately have "core s2 cs (ys @ zs)"
    using lk(1) c updD(1-3) [OF u] by (auto simp: core_def)
  then show ?thesis using res lk(2) by blast
qed

lemma insert_core:
  assumes core: "core s cs xs" and h: "h \<in> fst ` set cs" "h \<notin> set xs"
  shows "\<exists>s'. fl_insert h s = Some s' \<and> core s' cs (h # xs) \<and> same_bytes s s' (pay cs)"
proof -
  note c = heap_coreD [OF core]
  let ?n = "first_of xs 0"
  have st: "a \<in> fst ` set cs" if "a \<in> set (h # xs)" for a using c(7) h(1) that by auto
  have al: "16 dvd a" "a < 2 ^ 64" "a \<noteq> 0" if "a \<in> set (h # xs)" for a
    using start_range(1,4) [OF c(1,2) st [OF that]] start_less [OF c(1,2) st [OF that]] by auto
  have w8: "8 dvd a + 8" "8 dvd a + 16" if "a \<in> set (h # xs)" for a
    using al(1) [OF that] by (auto intro: dvd_add dvd_trans [of 8 16])
  have nin: "?n \<in> set xs" if "?n \<noteq> 0" using that by (cases xs) auto
  have n64: "?n < 2 ^ 64" using al(2) [of ?n] nin by (cases "?n = 0") simp_all
  have h64: "h < 2 ^ 64" using al(2) [of h] by simp
  obtain s1 where s1: "set_word (h + 8) 0 s = Some s1" "upd s s1 [h + 8 \<mapsto> 0]" "h_free s1 = h_free s"
    using link_upd [OF c(1,2) h(1), of 8 0] by auto
  have b1: "h_base s1 = h_base s" "h_end s1 = h_end s" "heap_ok s1" using updD(1-3) [OF s1(2)] .
  obtain s2 where s2: "set_word (h + 16) ?n s1 = Some s2" "upd s1 s2 [h + 16 \<mapsto> ?n]" "h_free s2 = h_free s1"
    using link_upd [OF b1(3), of cs h 16 ?n] c(2) b1 h(1) n64 by auto
  have b2: "h_base s2 = h_base s" "h_end s2 = h_end s" "heap_ok s2" using updD(1-3) [OF s2(2)] b1 by auto
  define U3 where "U3 = (if ?n \<noteq> 0 then [?n + 8 \<mapsto> h] else Map.empty)"
  have U3: "U3 a = (if ?n \<noteq> 0 \<and> a = ?n + 8 then Some h else None)" for a by (simp add: U3_def)
  obtain s3 where s3: "(if ?n \<noteq> 0 then set_word (?n + 8) h s2 else Some s2) = Some s3"
    "upd s2 s3 U3" "h_free s3 = h_free s2"
  proof (cases "?n = 0")
    case True
    then show ?thesis using that [of s2] upd_refl [OF b2(3)] by (simp add: U3_def)
  next
    case False
    then obtain s3 where "set_word (?n + 8) h s2 = Some s3" "upd s2 s3 [?n + 8 \<mapsto> h]" "h_free s3 = h_free s2"
      using link_upd [OF b2(3), of cs ?n 8 h] c(2) b2 st nin h64 by auto
    then show ?thesis using that [of s3] False by (simp add: U3_def)
  qed
  let ?s = "s3\<lparr>h_free := h\<rparr>"
  have res: "fl_insert h s = Some ?s"
    unfolding fl_insert_def using s1(1,3) s2(1,3) s3(1) c(5) by (cases "?n = 0") simp_all
  define U where "U = ([h + 8 \<mapsto> 0] ++ [h + 16 \<mapsto> ?n]) ++ U3"
  have u: "upd s s3 U" unfolding U_def by (intro upd_trans [OF _ s3(2)] upd_trans [OF s1(2) s2(2)])
  then have u': "upd s ?s U" by simp
  have dom: "\<exists>h \<in> fst ` set cs. a = h + 8 \<or> a = h + 16" if "a \<in> dom U" for a
  proof -
    have "a = h + 8 \<or> a = h + 16 \<or> (?n \<noteq> 0 \<and> a = ?n + 8)"
      using that by (auto simp: U_def U3_def split: if_splits)
    then show ?thesis using h(1) st [of ?n] nin by auto
  qed
  note lk = links_core [OF c(1-3) u' dom]
  have get: "get_word b ?s = (if ?n \<noteq> 0 \<and> b = ?n + 8 then Some h
      else if b = h + 16 then Some ?n else if b = h + 8 then Some 0 else get_word b s)" if "8 dvd b" for b
  proof -
    have "U b = (if ?n \<noteq> 0 \<and> b = ?n + 8 then Some h
        else if b = h + 16 then Some ?n else if b = h + 8 then Some 0 else None)"
      by (simp add: U_def U3 map_add_def)
    then show ?thesis using updD(4,5) [OF u that] by (auto split: if_splits)
  qed
  have n16: "?n \<noteq> 0 \<Longrightarrow> 16 dvd ?n" using al(1) nin by simp
  have hn: "h \<noteq> ?n" using h(2) nin al(3) [of h] by (cases "?n = 0") auto
  have hal: "16 dvd h" using al(1) [of h] by simp
  have "get_word (h + 8) ?s = Some 0"
    using get [OF w8(1), of h] hn words_apart(1) [of h h] hal by auto
  moreover have "get_word (h + 16) ?s = Some ?n"
    using get [OF w8(2), of h] words_apart(2) [OF hal n16] by auto
  moreover have "dseg ?s h xs 0"
  proof (cases xs)
    case (Cons n xs')
    then have n: "?n = n" "n \<noteq> 0" using al(3) [of n] by auto
    have xa: "a \<noteq> h" "16 dvd a" if "a \<in> set xs" for a using that h(2) al(1) by auto
    have k8: "get_word (a + 8) ?s = get_word (a + 8) s" if "a \<in> set xs" "a \<noteq> n" for a
      using get [OF w8(1), of a] that n xa [OF that(1)] words_apart(1) [of a h] hal by auto
    have k16: "get_word (a + 16) ?s = get_word (a + 16) s" if "a \<in> set xs" for a
      using get [OF w8(2), of a] that n(2) xa [OF that] words_apart(2) [of a h] words_apart(2) [of a ?n]
        hal n16 by auto
    show ?thesis unfolding Cons
    proof (rule dseg_set_prev)
      show "dseg s 0 (n # xs') 0" using c(4) Cons by simp
      show "get_word (n + 8) ?s = Some h" using get [OF w8(1), of n] n Cons by simp
      show "get_word (n + 16) ?s = get_word (n + 16) s" using k16 [of n] Cons by simp
      show "get_word (y + 8) ?s = get_word (y + 8) s \<and> get_word (y + 16) ?s = get_word (y + 16) s"
        if "y \<in> set xs'" for y using k8 [of y] k16 [of y] that c(6) Cons by auto
    qed
  qed simp
  ultimately have "core ?s cs (h # xs)"
    using lk(1) c h al(3) [of h] updD(1-3) [OF u'] by (simp add: core_def)
  then show ?thesis using res lk(2) by blast
qed

text \<open>Writing the two tags of a chunk.\<close>

lemma set_size_upd:
  assumes ok: "heap_ok s" and t: "tiled (h_base s) cs (h_end s)" and c: "(h, sz, f) \<in> set cs"
    and os: "set os \<subseteq> set cs" "tags s os" and xs: "set xs \<subseteq> fst ` set cs"
  shows "\<exists>s'. set_size h sz f s = Some s' \<and> heap_ok s' \<and> tags s' ((h, sz, f) # os) \<and>
    dseg s' 0 xs 0 = dseg s 0 xs 0 \<and> h_free s' = h_free s \<and> same_bytes s s' (pay os)"
proof -
  let ?t = "tag sz f"
  have hs: "h \<in> fst ` set cs" using c by force
  note tc = tiled_chunk [OF t c]
  have h16: "16 dvd h" "h \<noteq> 0" using start_range(1,4) [OF ok t hs] .
  have sz: "even sz" using tc(4) by (auto intro: dvd_trans [of 2 16])
  have top: "h + sz \<le> h_end s" "h_end s < 2 ^ 48" using tc(2) heap_okD(3) [OF ok] by (auto simp: USER_TOP_def)
  have t64: "?t < 2 ^ 64" using top by (simp add: tag_def)
  let ?f = "h + (sz - 16)"
  have w8: "8 dvd h" "8 dvd ?f"
    using h16(1) tc(4) by (auto intro!: dvd_add dvd_diff_nat intro: dvd_trans [of 8 16])
  obtain s1 where s1: "set_word h ?t s = Some s1" "upd s s1 [h \<mapsto> ?t]" "h_free s1 = h_free s"
    using set_word_upd [OF ok w8(1) tc(1) _ t64] top(1) tc(3) by auto
  have b1: "h_base s1 = h_base s" "h_end s1 = h_end s" "heap_ok s1" using updD(1-3) [OF s1(2)] .
  have g1: "get_word h s1 = Some ?t" using updD(5) [OF s1(2) w8(1)] by simp
  have csz: "csz h s1 = Some sz" using g1 tag_size [OF sz t64] by (simp add: csz_def)
  have "add64 h sz = h + sz" using top by (intro add64_exact) simp
  moreover have "sub64 (h + sz) 16 = ?f" using top tc(3) by (subst sub64_exact) auto
  ultimately have ftr: "ftr_of h s1 = Some ?f" using csz by (simp add: ftr_of_def)
  obtain s2 where s2: "set_word ?f ?t s1 = Some s2" "upd s1 s2 [?f \<mapsto> ?t]" "h_free s2 = h_free s1"
  proof -
    have "h_base s1 \<le> ?f" "?f + 8 \<le> h_end s1" using top(1) tc(1,3) b1 by auto
    from set_word_upd [OF b1(3) w8(2) this t64] that show thesis by blast
  qed
  have res: "set_size h sz f s = Some s2"
    using s1(1) ftr g1 s2(1) by (simp add: set_size_def or_tag [OF sz, simplified])
  have u: "upd s s2 ([h \<mapsto> ?t] ++ [?f \<mapsto> ?t])" by (rule upd_trans [OF s1(2) s2(2)])
  have get: "get_word b s2 = (if b = h \<or> b = ?f then Some ?t else get_word b s)" if "8 dvd b" for b
    using updD(4) [OF u that] updD(5) [OF u that] by (auto simp: map_add_def split: if_splits)
  have "tags s2 ((h, sz, f) # os)" unfolding tags_def
  proof clarify
    fix h' sz' f' assume c': "(h', sz', f') \<in> set ((h, sz, f) # os)"
    then have cc: "(h', sz', f') \<in> set cs" using os(1) c by auto
    note tc' = tiled_chunk [OF t cc]
    have a': "8 dvd h'" "8 dvd h' + (sz' - 16)"
      using tc'(4) tc'(5) [OF heap_okD(2) [OF ok]]
      by (auto intro!: dvd_add dvd_diff_nat intro: dvd_trans [of 8 16])
    show "get_word h' s2 = Some (tag sz' f') \<and> get_word (h' + (sz' - 16)) s2 = Some (tag sz' f')"
    proof (cases "(h', sz', f') = (h, sz, f)")
      case True
      then show ?thesis using get [OF w8(1)] get [OF w8(2)] by simp
    next
      case False
      then have "(h', sz', f') \<in> set os" "apart h' sz' h sz"
        using c' tiled_apart [OF t cc c] by auto
      moreover have "h' \<noteq> h" "h' \<noteq> ?f" "h' + (sz' - 16) \<noteq> h" "h' + (sz' - 16) \<noteq> ?f"
        using \<open>apart h' sz' h sz\<close> tc(3) tc'(3) unfolding apart_def by linarith+
      ultimately show ?thesis
        using get [OF a'(1)] get [OF a'(2)] os(2) unfolding tags_def by fastforce
    qed
  qed
  moreover have link: "get_word (x + k) s2 = get_word (x + k) s" if "x \<in> set xs" and k: "k = 8 \<or> k = 16" for x k
  proof -
    obtain sz' f' where x: "(x, sz', f') \<in> set cs" using xs \<open>x \<in> set xs\<close> by force
    have "8 dvd x" using start_range(1) [OF ok t, of x] x by (force intro: dvd_trans [of 8 16])
    then have "8 dvd x + k" using k by auto
    then show ?thesis using get [of "x + k"] link_not_tag [OF t x c k] by simp
  qed
  then have "dseg s2 0 xs 0 = dseg s 0 xs 0" by (intro dseg_cong) simp
  moreover have "h_mem s2 a = h_mem s a" if a: "a \<in> pay os" for a
  proof (rule updD(6) [OF u])
    fix w assume w: "w \<in> dom ([h \<mapsto> ?t] ++ [?f \<mapsto> ?t])"
    obtain h' sz' f' where h': "(h', sz', f') \<in> set os" "h' + 32 \<le> a" "a < h' + (sz' - 16)"
      using a unfolding pay_mem by blast
    then have "(h', sz', f') \<in> set cs" using os(1) by auto
    then have "apart h' sz' h sz \<or> (h', sz', f') = (h, sz, f)" using tiled_apart [OF t _ c] by blast
    then show "a < w \<or> w + 8 \<le> a" using h'(2,3) w tc(3) by (auto simp: apart_def split: if_splits)
  qed
  ultimately show ?thesis using res updD(1-3) [OF u] s2(3) s1(3)
    by (intro exI [of _ s2]) (simp add: same_bytes_def)
qed

lemma tags_Cons_append: "tags s (as @ c # bs) = tags s (c # as @ bs)"
  by (auto simp: tags_def)

lemma set_size_core:
  assumes "heap_ok s" "tiled (h_base s) (as @ (h, sz, f) # bs) (h_end s)"
    and "tags s (as @ bs)" and "dseg s 0 xs 0" "h_free s = first_of xs 0" "distinct xs"
    "set xs \<subseteq> fst ` set (as @ (h, sz, f) # bs)"
  shows "\<exists>s'. set_size h sz f s = Some s' \<and> core s' (as @ (h, sz, f) # bs) xs \<and>
    same_bytes s s' (pay (as @ bs))"
proof -
  obtain s' where "set_size h sz f s = Some s'" "heap_ok s'" "tags s' ((h, sz, f) # as @ bs)"
    "dseg s' 0 xs 0 = dseg s 0 xs 0" "h_free s' = h_free s" "same_bytes s s' (pay (as @ bs))"
  proof -
    have "(h, sz, f) \<in> set (as @ (h, sz, f) # bs)" "set (as @ bs) \<subseteq> set (as @ (h, sz, f) # bs)" by auto
    from set_size_upd [OF assms(1,2) this assms(3,7)] that show thesis by blast
  qed
  then show ?thesis using assms(2-7)
    by (intro exI [of _ s']) (simp add: core_def tags_Cons_append same_bytes_def)
qed

section \<open>Allocation\<close>

definition free_starts :: "chunk list \<Rightarrow> addr set" where
  "free_starts cs = {h. \<exists>sz. (h, sz, True) \<in> set cs}"

text \<open>No two neighbours are both free.\<close>

fun no_adj :: "chunk list \<Rightarrow> bool" where
  "no_adj ((h, sz, f) # (h', sz', f') # cs) = (\<not> (f \<and> f') \<and> no_adj ((h', sz', f') # cs))"
| "no_adj cs = True"

lemma no_adj_Cons: "no_adj (c # cs) \<longleftrightarrow> (snd (snd c) \<longrightarrow> cs = [] \<or> \<not> snd (snd (hd cs))) \<and> no_adj cs"
  by (cases "c # cs" rule: no_adj.cases) auto

lemma no_adj_append:
  "no_adj (as @ bs) \<longleftrightarrow> no_adj as \<and> no_adj bs \<and>
     (as \<noteq> [] \<longrightarrow> bs \<noteq> [] \<longrightarrow> \<not> (snd (snd (last as)) \<and> snd (snd (hd bs))))"
  by (induction as) (auto simp: no_adj_Cons)

definition heap_inv :: "heap \<Rightarrow> chunk list \<Rightarrow> addr list \<Rightarrow> bool" where
  "heap_inv s cs xs \<longleftrightarrow> core s cs xs \<and> set xs = free_starts cs \<and> no_adj cs"

lemma csz_core:
  assumes "core s cs xs" "(h, sz, f) \<in> set cs"
  shows "csz h s = Some sz" "cfree h s = Some f" "even sz" "h + sz \<le> h_end s" "tag sz f < 2 ^ 64"
    "get_word (h + (sz - 16)) s = Some (tag sz f)" "get_word h s = Some (tag sz f)"
proof -
  note t = tiled_chunk [OF heap_coreD(2) [OF assms(1)] assms(2)]
  have top: "h + sz \<le> h_end s" "h_end s < 2 ^ 48"
    using t(2) heap_okD(3) [OF heap_coreD(1) [OF assms(1)]] by (auto simp: USER_TOP_def)
  show ev: "even sz" using t(4) by (auto intro: dvd_trans [of 2 16])
  show t64: "tag sz f < 2 ^ 64" using top by (simp add: tag_def)
  show g: "get_word h s = Some (tag sz f)" "get_word (h + (sz - 16)) s = Some (tag sz f)"
    using heap_coreD(3) [OF assms(1)] assms(2) by (auto simp: tags_def)
  show "csz h s = Some sz" "cfree h s = Some f" "h + sz \<le> h_end s"
    using g tag_size [OF ev t64] tag_flag [OF ev] top(1) by (simp_all add: csz_def cfree_def)
qed

lemma next_of_core:
  assumes "core s cs xs" "(h, sz, f) \<in> set cs"
  shows "next_of h s = Some (h + sz)"
  using csz_core [OF assms] heap_okD(3) [OF heap_coreD(1) [OF assms(1)]]
  by (simp add: next_of_def add64_exact USER_TOP_def)

section \<open>The specification: the chunks in address order and the list of free ones\<close>

definition size_of :: "addr \<Rightarrow> chunk list \<Rightarrow> nat" where
  "size_of h cs = (case find (\<lambda>c. fst c = h) cs of None \<Rightarrow> 0 | Some c \<Rightarrow> fst (snd c))"

fun carve :: "addr \<Rightarrow> nat \<Rightarrow> chunk list \<Rightarrow> chunk list" where
  "carve h n [] = []"
| "carve h n ((h', sz, f) # cs) =
     (if h' = h
      then if n + 64 \<le> sz then (h, n, False) # (h + n, sz - n, True) # cs else (h, sz, False) # cs
      else (h', sz, f) # carve h n cs)"

definition spec_malloc :: "nat \<Rightarrow> chunk list \<times> addr list \<Rightarrow> addr \<times> chunk list \<times> addr list" where
  "spec_malloc req s =
     (let (cs, xs) = s; n = need_of req
      in case find (\<lambda>h. n \<le> size_of h cs) (if req = 0 then [] else xs) of
           None \<Rightarrow> (0, cs, xs)
         | Some h \<Rightarrow> (h + 32, carve h n cs,
             if n + 64 \<le> size_of h cs then (h + n) # remove1 h xs else remove1 h xs))"

fun join_after :: "nat \<Rightarrow> chunk list \<Rightarrow> addr list \<Rightarrow> nat \<times> chunk list \<times> addr list" where
  "join_after sz ((n, szn, True) # bs) xs = (sz + szn, bs, remove1 n xs)"
| "join_after sz bs xs = (sz, bs, xs)"

definition join_before ::
  "addr \<Rightarrow> nat \<Rightarrow> chunk list \<Rightarrow> addr list \<Rightarrow> addr \<times> nat \<times> chunk list \<times> addr list" where
  "join_before h sz as xs =
     (if as \<noteq> [] \<and> snd (snd (last as))
      then (fst (last as), fst (snd (last as)) + sz, butlast as, remove1 (fst (last as)) xs)
      else (h, sz, as, xs))"

definition spec_mfree :: "addr \<Rightarrow> chunk list \<times> addr list \<Rightarrow> chunk list \<times> addr list" where
  "spec_mfree p s =
     (let (cs, xs) = s; h = p - 32;
          as = takeWhile (\<lambda>c. fst c \<noteq> h) cs;
          (sz, bs, xs) = join_after (size_of h cs) (drop (Suc (length as)) cs) xs;
          (h, sz, as, xs) = join_before h sz as xs
      in (as @ (h, sz, True) # bs, h # xs))"

lemma size_of_split: "h \<notin> fst ` set as \<Longrightarrow> size_of h (as @ (h, sz, f) # bs) = sz"
  by (induction as) (auto simp: size_of_def)

lemma size_of_chunk: "tiled a cs e \<Longrightarrow> (h, sz, f) \<in> set cs \<Longrightarrow> size_of h cs = sz"
proof -
  assume t: "tiled a cs e" and c: "(h, sz, f) \<in> set cs"
  obtain sz' f' where x: "find (\<lambda>c. fst c = h) cs = Some (h, sz', f')"
  proof (cases "find (\<lambda>c. fst c = h) cs")
    case None
    then show ?thesis using c by (auto simp: find_None_iff)
  next
    case (Some x)
    then have "fst x = h" by (auto simp: find_Some_iff)
    then show ?thesis using that Some by (cases x) auto
  qed
  then have "(h, sz', f') \<in> set cs" by (auto simp: find_Some_iff)
  then show "size_of h cs = sz" using tiled_start_unique [OF t c] x by (simp add: size_of_def)
qed

text \<open>What an allocation does to the chunks.\<close>

definition taken :: "chunk list \<Rightarrow> chunk list \<Rightarrow> addr \<Rightarrow> nat \<Rightarrow> nat \<Rightarrow> chunk list" where
  "taken as bs h sz n =
     (if n + 64 \<le> sz then as @ (h, n, False) # (h + n, sz - n, True) # bs
      else as @ (h, sz, False) # bs)"

lemma carve_taken: "h \<notin> fst ` set as \<Longrightarrow> carve h n (as @ (h, sz, f) # bs) = taken as bs h sz n"
  by (induction as) (auto simp: taken_def)

lemma take_chunk_core:
  assumes core: "core s (as @ (h, sz, True) # bs) (ys @ h # zs)" and n: "64 \<le> n" "16 dvd n" "n \<le> sz"
  shows "\<exists>s'. take_chunk h n s = Some (h + 32, s') \<and>
    core s' (taken as bs h sz n) (if n + 64 \<le> sz then (h + n) # ys @ zs else ys @ zs) \<and>
    same_bytes s s' (pay (as @ bs))"
proof -
  let ?cs = "as @ (h, sz, True) # bs"
  obtain s1 where s1: "fl_unlink h s = Some s1" "core s1 ?cs (ys @ zs)" "same_bytes s s1 (pay ?cs)"
    using heap_unlink_core [OF core] by blast
  note c1 = heap_coreD [OF s1(2)]
  have c: "(h, sz, True) \<in> set ?cs" by simp
  note z = csz_core [OF s1(2) c]
  have top: "h + sz \<le> h_end s1" "h_end s1 < 2 ^ 48" using z(4) heap_okD(3) [OF c1(1)] by (auto simp: USER_TOP_def)
  have lo: "sub64 sz n = sz - n" using n top by (intro sub64_exact) auto
  have ret: "add64 h HDR_SZ = h + 32" using top n by (simp add: add64_exact)
  have sb: "same_bytes s s1 (pay (as @ bs))"
    using s1(3) by (rule same_bytes_mono) (auto simp: pay_append(1) pay_append(2) [of _ bs])
  have notin: "h \<notin> set (ys @ zs)" using heap_coreD(6) [OF core] by simp
  have sub: "set (ys @ zs) \<subseteq> fst ` set (as @ (h, k, f) # ds)" if "set bs \<subseteq> set ds" for k f ds
  proof -
    have "fst ` set ?cs \<subseteq> fst ` set (as @ (h, k, f) # ds)" using that by auto
    then show ?thesis using c1(7) by blast
  qed
  have tags1: "tags s1 (as @ bs)" using c1(3) by (auto simp: tags_def)
  show ?thesis
  proof (cases "n + 64 \<le> sz")
    case False
    have "tiled (h_base s1) (as @ (h, sz, False) # bs) (h_end s1)" by (rule tiled_change [OF c1(2)])
    from set_size_core [OF c1(1) this tags1 c1(4,5,6) sub] obtain s2 where
      s2: "set_size h sz False s1 = Some s2" "core s2 (as @ (h, sz, False) # bs) (ys @ zs)"
      "same_bytes s1 s2 (pay (as @ bs))" by blast
    have "\<not> MIN_CHUNK \<le> sz - n" using False by simp
    then have "take_chunk h n s = Some (h + 32, s2)"
      unfolding take_chunk_def s1(1) z(1) lo Let_def bind.bind_lunit using s2(1) ret by simp
    then show ?thesis using s2 False same_bytes_trans [OF sb s2(3)] by (simp add: taken_def)
  next
    case True
    let ?r = "(h + n, sz - n, True)"
    have t2: "tiled (h_base s1) (as @ (h, n, False) # ?r # bs) (h_end s1)"
      by (rule tiled_cut [OF c1(2) n(1,2) True])
    have sub1: "set (ys @ zs) \<subseteq> fst ` set (as @ (h, n, False) # ?r # bs)"
      by (rule sub) auto
    obtain s2 where s2: "set_size h n False s1 = Some s2" "heap_ok s2"
      "tags s2 ((h, n, False) # as @ bs)" "dseg s2 0 (ys @ zs) 0" "h_free s2 = h_free s1"
      "same_bytes s1 s2 (pay (as @ bs))"
    proof -
      have "(h, n, False) \<in> set (as @ (h, n, False) # ?r # bs)"
        "set (as @ bs) \<subseteq> set (as @ (h, n, False) # ?r # bs)" by auto
      from set_size_upd [OF c1(1) t2 this tags1 sub1] c1(4) that show thesis by blast
    qed
    have b2: "h_base s2 = h_base s1" "h_end s2 = h_end s1" using s2(6) by (simp_all add: same_bytes_def)
    have g: "get_word h s2 = Some (tag n False)" using s2(3) by (simp add: tags_def)
    have "even n" using n(2) by (auto intro: dvd_trans [of 2 16])
    then have "csz h s2 = Some n" using g tag_size [of n False] True top by (simp add: csz_def tag_def)
    then have nx: "next_of h s2 = Some (h + n)"
      using True top by (simp add: next_of_def add64_exact)
    have t2': "tiled (h_base s2) ((as @ [(h, n, False)]) @ ?r # bs) (h_end s2)" using t2 b2 by simp
    have tg2: "tags s2 ((as @ [(h, n, False)]) @ bs)" using s2(3) by (simp add: tags_Cons_append)
    have sub2: "set (ys @ zs) \<subseteq> fst ` set ((as @ [(h, n, False)]) @ ?r # bs)" using sub1 by simp
    obtain s3 where s3: "set_size (h + n) (sz - n) True s2 = Some s3"
      "core s3 ((as @ [(h, n, False)]) @ ?r # bs) (ys @ zs)"
      "same_bytes s2 s3 (pay ((as @ [(h, n, False)]) @ bs))"
      using set_size_core [OF s2(2) t2' tg2 s2(4) _ c1(6) sub2] s2(5) c1(5) by auto
    have new: "h + n \<notin> set (ys @ zs)"
    proof
      assume "h + n \<in> set (ys @ zs)"
      then have "h + n \<in> fst ` set ?cs" using c1(7) by blast
      from start_chunk [OF this] obtain sz' f' where x: "(h + n, sz', f') \<in> set ?cs" by blast
      then have "(h + n, sz', f') = (h, sz, True) \<or> apart (h + n) sz' h sz"
        using tiled_apart [OF c1(2) x c] by blast
      then show False using True n(1) tiled_chunk(3) [OF c1(2) x] by (auto simp: apart_def)
    qed
    obtain s4 where s4: "fl_insert (h + n) s3 = Some s4"
      "core s4 ((as @ [(h, n, False)]) @ ?r # bs) ((h + n) # ys @ zs)"
      "same_bytes s3 s4 (pay ((as @ [(h, n, False)]) @ ?r # bs))"
      using insert_core [OF s3(2) _ new] by force
    have "MIN_CHUNK \<le> sz - n" using True by simp
    then have "take_chunk h n s = Some (h + 32, s4)"
      unfolding take_chunk_def s1(1) z(1) lo Let_def bind.bind_lunit using s2(1) nx s3(1) s4(1) ret by simp
    moreover have "same_bytes s s4 (pay (as @ bs))"
    proof -
      have "pay (as @ bs) \<subseteq> pay ((as @ [(h, n, False)]) @ bs)"
        "pay (as @ bs) \<subseteq> pay ((as @ [(h, n, False)]) @ ?r # bs)" by (auto simp: pay_def)
      then show ?thesis using sb s2(6) s3(3) s4(3) by (meson same_bytes_mono same_bytes_trans)
    qed
    ultimately show ?thesis using s4(2) True by (simp add: taken_def)
  qed
qed

lemma find_fit_core:
  assumes inv: "heap_inv s cs (ys @ zs)"
  shows "if \<exists>h \<in> set zs. \<exists>sz \<ge> n. (h, sz, True) \<in> set cs
    then \<exists>us h vs sz. zs = us @ h # vs \<and> (h, sz, True) \<in> set cs \<and> n \<le> sz \<and>
      find_fit (first_of zs 0) n s = take_chunk h n s \<and> find (\<lambda>h. n \<le> size_of h cs) zs = Some h
    else find_fit (first_of zs 0) n s = Some (0, s) \<and> find (\<lambda>h. n \<le> size_of h cs) zs = None"
  using inv
proof (induction zs arbitrary: ys)
  case Nil
  then show ?case by (simp add: find_fit.simps)
next
  case (Cons z zs)
  have core: "core s cs (ys @ z # zs)" and fr: "z \<in> free_starts cs"
    using Cons.prems by (auto simp: heap_inv_def)
  obtain sz where z: "(z, sz, True) \<in> set cs" using fr by (auto simp: free_starts_def)
  have z0: "z \<noteq> 0" using dseg_nonzero [OF heap_coreD(4) [OF core]] by auto
  have nx: "get_word (z + 16) s = Some (first_of zs 0)"
    using heap_coreD(4) [OF core] by (simp add: dseg_append)
  have uniq: "sz' = sz" if "(z, sz', True) \<in> set cs" for sz'
    using tiled_start_unique [OF heap_coreD(2) [OF core] z that] by simp
  have so: "size_of z cs = sz" by (rule size_of_chunk [OF heap_coreD(2) [OF core] z])
  show ?case
  proof (cases "n \<le> sz")
    case True
    have "find_fit z n s = take_chunk z n s"
      using csz_core(1) [OF core z] True z0 by (subst find_fit.simps) simp
    moreover have "\<exists>h \<in> set (z # zs). \<exists>sz \<ge> n. (h, sz, True) \<in> set cs" using z True by auto
    ultimately show ?thesis using z True so by (subst if_P) fastforce+
  next
    case False
    then have step: "find_fit z n s = find_fit (first_of zs 0) n s"
      using csz_core(1) [OF core z] z0 nx by (subst find_fit.simps) simp
    have ih: "if \<exists>h \<in> set zs. \<exists>sz \<ge> n. (h, sz, True) \<in> set cs
      then \<exists>us h vs sz. zs = us @ h # vs \<and> (h, sz, True) \<in> set cs \<and> n \<le> sz \<and>
        find_fit (first_of zs 0) n s = take_chunk h n s \<and> find (\<lambda>h. n \<le> size_of h cs) zs = Some h
      else find_fit (first_of zs 0) n s = Some (0, s) \<and> find (\<lambda>h. n \<le> size_of h cs) zs = None"
      using Cons.IH [of "ys @ [z]"] Cons.prems by simp
    have ex: "(\<exists>h \<in> set (z # zs). \<exists>sz \<ge> n. (h, sz, True) \<in> set cs) \<longleftrightarrow>
        (\<exists>h \<in> set zs. \<exists>sz \<ge> n. (h, sz, True) \<in> set cs)"
      using False uniq by auto
    show ?thesis
    proof (cases "\<exists>h \<in> set zs. \<exists>sz \<ge> n. (h, sz, True) \<in> set cs")
      case True
      then obtain us h vs sz' where "zs = us @ h # vs" "(h, sz', True) \<in> set cs" "n \<le> sz'"
        "find_fit (first_of zs 0) n s = take_chunk h n s" "find (\<lambda>h. n \<le> size_of h cs) zs = Some h" using ih by auto
      then have "z # zs = (z # us) @ h # vs \<and> (h, sz', True) \<in> set cs \<and> n \<le> sz' \<and>
          find_fit (first_of (z # zs) 0) n s = take_chunk h n s \<and> find (\<lambda>h. n \<le> size_of h cs) (z # zs) = Some h"
        using step so \<open>\<not> n \<le> sz\<close> by simp
      then show ?thesis unfolding ex if_P [OF True] by blast
    next
      case False
      then have "find_fit (first_of (z # zs) 0) n s = Some (0, s) \<and> find (\<lambda>h. n \<le> size_of h cs) (z # zs) = None"
        using ih step so \<open>\<not> n \<le> sz\<close> by simp
      then show ?thesis using False unfolding ex by (simp only: if_False)
    qed
  qed
qed

lemma need_of_ok:
  assumes "req + 63 < 2 ^ 64"
  shows "64 \<le> need_of req" "16 dvd need_of req" "req + 48 \<le> need_of req" "need_of req < 2 ^ 64"
    "need_of req = max 64 ((req + 63) div 16 * 16)"
proof -
  have a: "add64 (add64 req 32) 16 = req + 48" using assms by (simp add: add64_exact)
  have b: "align_up (req + 48) = (req + 63) div 16 * 16" using assms by (simp add: align_up_exact)
  have ge: "req + 48 \<le> (req + 63) div 16 * 16" by simp
  have le: "(req + 63) div 16 * 16 \<le> req + 63" by simp
  show n: "need_of req = max 64 ((req + 63) div 16 * 16)"
    by (simp add: need_of_def a b max_def)
  show "64 \<le> need_of req" "16 dvd need_of req" "req + 48 \<le> need_of req" "need_of req < 2 ^ 64"
    unfolding n using ge le assms by (auto simp: max_def)
qed

lemma tiled_distinct: "tiled a cs e \<Longrightarrow> distinct (map fst cs)"
proof (induction cs arbitrary: a)
  case (Cons c cs)
  obtain h sz f where c: "c = (h, sz, f)" by (cases c)
  have t: "h = a" "64 \<le> sz" "tiled (a + sz) cs e" using Cons.prems by (simp_all add: c)
  have "h \<notin> fst ` set cs"
  proof
    assume "h \<in> fst ` set cs"
    then obtain sz' f' where "(h, sz', f') \<in> set cs" by force
    from tiled_after [OF t(3) this] show False using t(1,2) by simp
  qed
  then show ?case using Cons.IH [OF t(3)] by (simp add: c)
qed simp

lemma my_malloc_core:
  assumes inv: "heap_inv s cs xs" and req: "0 < req" "req + 63 < 2 ^ 64"
  shows "if \<exists>h sz. (h, sz, True) \<in> set cs \<and> need_of req \<le> sz
    then \<exists>h sz as bs xs' s'. cs = as @ (h, sz, True) # bs \<and> need_of req \<le> sz \<and>
      my_malloc req s = Some (h + 32, s') \<and> heap_inv s' (taken as bs h sz (need_of req)) xs' \<and>
      same_bytes s s' (pay (as @ bs)) \<and>
      spec_malloc req (cs, xs) = (h + 32, taken as bs h sz (need_of req), xs')
    else my_malloc req s = Some (0, s) \<and> spec_malloc req (cs, xs) = (0, cs, xs)"
proof -
  let ?n = "need_of req"
  note n = need_of_ok [OF req(2)]
  have core: "core s cs xs" and fs: "set xs = free_starts cs" and na: "no_adj cs"
    using inv by (simp_all add: heap_inv_def)
  have m: "my_malloc req s = find_fit (first_of xs 0) ?n s"
    using req(1) heap_coreD(5) [OF core] by (simp add: my_malloc_def)
  have ex: "(\<exists>h \<in> set xs. \<exists>sz \<ge> ?n. (h, sz, True) \<in> set cs) \<longleftrightarrow> (\<exists>h sz. (h, sz, True) \<in> set cs \<and> ?n \<le> sz)"
    by (auto simp: fs free_starts_def)
  note ff = find_fit_core [of s cs "[]" xs ?n, simplified, OF inv, unfolded ex]
  show ?thesis
  proof (cases "\<exists>h sz. (h, sz, True) \<in> set cs \<and> ?n \<le> sz")
    case False
    then show ?thesis using ff m req(1) by (simp add: spec_malloc_def)
  next
    case True
    then obtain us h vs sz where h: "xs = us @ h # vs" "(h, sz, True) \<in> set cs" "?n \<le> sz"
      "find_fit (first_of xs 0) ?n s = take_chunk h ?n s" "find (\<lambda>h. ?n \<le> size_of h cs) xs = Some h"
      using ff by (subst (asm) if_P [OF True]) blast
    obtain as bs where cs: "cs = as @ (h, sz, True) # bs" using h(2) by (metis split_list)
    let ?xs = "if ?n + 64 \<le> sz then (h + ?n) # us @ vs else us @ vs"
    obtain s' where s': "take_chunk h ?n s = Some (h + 32, s')" "core s' (taken as bs h sz ?n) ?xs"
      "same_bytes s s' (pay (as @ bs))"
      using take_chunk_core [OF core [unfolded cs h(1)] n(1,2) h(3)] by blast
    have dist: "distinct (map fst cs)" by (rule tiled_distinct [OF heap_coreD(2) [OF core]])
    have hn: "h \<notin> fst ` set (as @ bs)" using dist by (auto simp: cs)
    have "set (us @ vs) = free_starts (as @ bs)"
    proof -
      have "set (us @ vs) = set xs - {h}" using heap_coreD(6) [OF core] by (auto simp: h(1))
      also have "\<dots> = free_starts (as @ bs)"
        using hn unfolding fs by (force simp: free_starts_def cs image_iff)
      finally show ?thesis .
    qed
    then have "set ?xs = free_starts (taken as bs h sz ?n)"
      by (auto simp: taken_def free_starts_def)
    moreover have "no_adj (taken as bs h sz ?n)"
      using na by (auto simp: taken_def cs no_adj_append no_adj_Cons)
    ultimately have "heap_inv s' (taken as bs h sz ?n) ?xs" using s'(2) by (simp add: heap_inv_def)
    moreover have "spec_malloc req (cs, xs) = (h + 32, taken as bs h sz ?n, ?xs)"
    proof -
      have "size_of h cs = sz" by (rule size_of_chunk [OF heap_coreD(2) [OF core] h(2)])
      moreover have "remove1 h xs = us @ vs" using heap_coreD(6) [OF core] by (simp add: h(1) remove1_append)
      moreover have "carve h ?n cs = taken as bs h sz ?n" unfolding cs using hn by (intro carve_taken) auto
      ultimately show ?thesis using h(5) req(1) by (simp add: spec_malloc_def Let_def)
    qed
    ultimately show ?thesis using cs h(3,4) m s'(1,3) by (subst if_P [OF True]) metis
  qed
qed

section \<open>Freeing\<close>

definition live :: "chunk list \<Rightarrow> chunk list" where
  "live cs = filter (\<lambda>c. \<not> snd (snd c)) cs"

lemma live_simps [simp]:
  "live [] = []" "live ((h, sz, f) # cs) = (if f then live cs else (h, sz, f) # live cs)"
  "live (as @ bs) = live as @ live bs"
  by (simp_all add: live_def)

lemma pay_live: "pay (live cs) \<subseteq> pay cs"
  by (auto simp: pay_def live_def)

lemma free_starts_simps [simp]:
  "free_starts [] = {}" "free_starts ((h, sz, f) # cs) = (if f then insert h (free_starts cs) else free_starts cs)"
  "free_starts (as @ bs) = free_starts as \<union> free_starts bs"
  by (auto simp: free_starts_def)

lemma free_starts_sub: "free_starts cs \<subseteq> fst ` set cs"
  by (force simp: free_starts_def)

lemma core_distinct:
  assumes "core s (as @ (h, sz, f) # bs) xs"
  shows "h \<notin> fst ` set (as @ bs)" "h \<notin> free_starts (as @ bs)"
proof -
  show h: "h \<notin> fst ` set (as @ bs)" using tiled_distinct [OF heap_coreD(2) [OF assms]] by auto
  then show "h \<notin> free_starts (as @ bs)" using free_starts_sub by blast
qed

text \<open>Joining two neighbours, the second or the first of which is unlinked from the list.\<close>

lemma merge_core:
  assumes core: "core s (as @ (h, sz, f) # (n, szn, f') # bs) xs" and g: "g = h \<or> g = n"
    and xs: "set xs = insert g (free_starts (as @ bs))"
  shows "\<exists>s1 s'. fl_unlink g s = Some s1 \<and> csz h s1 = Some sz \<and> csz n s1 = Some szn \<and>
    set_size h (add64 sz szn) True s1 = Some s' \<and>
    core s' (as @ (h, sz + szn, True) # bs) (remove1 g xs) \<and>
    same_bytes s s' (pay (as @ bs)) \<and> set (remove1 g xs) = free_starts (as @ bs)"
proof -
  let ?cs = "as @ (h, sz, f) # (n, szn, f') # bs"
  have "g \<in> set xs" using xs by simp
  then obtain ys zs where xs': "xs = ys @ g # zs" by (metis split_list)
  obtain s1 where s1: "fl_unlink g s = Some s1" "core s1 ?cs (ys @ zs)" "same_bytes s s1 (pay ?cs)"
    using heap_unlink_core [OF core [unfolded xs']] by blast
  note c1 = heap_coreD [OF s1(2)]
  have ch: "csz h s1 = Some sz" "csz n s1 = Some szn"
    using csz_core(1) [OF s1(2), of h sz f] csz_core(1) [OF s1(2), of n szn f'] by simp_all
  have t: "tiled (h_base s1) (as @ (h, sz + szn, True) # bs) (h_end s1)"
    using tiled_join [OF c1(2)] by blast
  have "sz + szn < 2 ^ 64"
    using tiled_chunk(2) [OF t, of h "sz + szn" True] heap_okD(3) [OF c1(1)] by (simp add: USER_TOP_def)
  then have ad: "add64 sz szn = sz + szn" by (rule add64_exact)
  have dist: "g \<notin> set (ys @ zs)" using heap_coreD(6) [OF core] xs' by simp
  have hn: "h \<notin> fst ` set (as @ (n, szn, f') # bs)" "n \<notin> fst ` set ((as @ [(h, sz, f)]) @ bs)"
    using core_distinct(1) [OF core] core_distinct(1) [of s "as @ [(h, sz, f)]" n szn f' bs xs] core
    by simp_all
  have rm: "remove1 g xs = ys @ zs" using dist by (simp add: xs' remove1_append)
  have "g \<notin> free_starts (as @ bs)" using g hn free_starts_sub [of "as @ bs"] by auto
  then have fs: "set (ys @ zs) = free_starts (as @ bs)" using xs dist unfolding xs' by auto
  then have sub: "set (ys @ zs) \<subseteq> fst ` set (as @ (h, sz + szn, True) # bs)"
    using free_starts_sub [of "as @ bs"] by auto
  have "tags s1 (as @ bs)" using c1(3) by (auto simp: tags_def)
  from set_size_core [OF c1(1) t this c1(4-6) sub] obtain s' where
    s': "set_size h (sz + szn) True s1 = Some s'" "core s' (as @ (h, sz + szn, True) # bs) (ys @ zs)"
    "same_bytes s1 s' (pay (as @ bs))" by blast
  have "pay (as @ bs) \<subseteq> pay ?cs" by (auto simp: pay_def)
  then have "same_bytes s s' (pay (as @ bs))"
    using s1(3) s'(3) by (meson same_bytes_mono same_bytes_trans)
  then show ?thesis using s1(1) ch ad s'(1,2) rm fs by auto
qed

lemma join_next_core:
  assumes core: "core s (as @ (h, sz, True) # bs) xs" and xs: "set xs = free_starts (as @ bs)"
    and na: "no_adj bs"
  shows "\<exists>s' sz' bs' xs'. join_next h s = Some s' \<and> core s' (as @ (h, sz', True) # bs') xs' \<and>
    set xs' = free_starts (as @ bs') \<and> live bs' = live bs \<and> no_adj bs' \<and>
    (bs' \<noteq> [] \<longrightarrow> \<not> snd (snd (hd bs'))) \<and> same_bytes s s' (pay (as @ live bs)) \<and>
    join_after sz bs xs = (sz', bs', xs')"
proof -
  have c: "(h, sz, True) \<in> set (as @ (h, sz, True) # bs)" by simp
  have nx: "next_of h s = Some (h + sz)" by (rule next_of_core [OF core c])
  show ?thesis
  proof (cases "bs = [] \<or> \<not> snd (snd (hd bs))")
    case True
    have "join_next h s = Some s"
    proof (cases bs)
      case Nil
      then have "h + sz = h_end s" using heap_coreD(2) [OF core] by (auto simp: tiled_append)
      then show ?thesis by (simp add: join_next_def nx)
    next
      case (Cons b bs')
      then obtain n szn where b: "b = (n, szn, False)" using True by (cases b) auto
      have "n = h + sz" using heap_coreD(2) [OF core] Cons b by (auto simp: tiled_append)
      moreover have "cfree n s = Some False" using csz_core(2) [OF core, of n szn False] Cons b by simp
      ultimately show ?thesis by (simp add: join_next_def nx)
    qed
    moreover have "join_after sz bs xs = (sz, bs, xs)" using True by (cases "(sz, bs, xs)" rule: join_after.cases) auto
    ultimately show ?thesis using core xs na True
      by (intro exI [of _ s] exI [of _ sz] exI [of _ bs] exI [of _ xs]) (auto simp: same_bytes_def)
  next
    case False
    then obtain n szn bs' where bs: "bs = (n, szn, True) # bs'" by (cases bs) auto
    have n: "n = h + sz" "n < h_end s"
      using heap_coreD(2) [OF core] tiled_chunk(2,3) [OF heap_coreD(2) [OF core], of n szn True] bs
      by (auto simp: tiled_append)
    have fr: "cfree n s = Some True" using csz_core(2) [OF core, of n szn True] bs by simp
    have "set xs = insert n (free_starts (as @ bs'))" using xs bs by simp
    then obtain s1 s' where m: "fl_unlink n s = Some s1" "csz h s1 = Some sz" "csz n s1 = Some szn"
      "set_size h (add64 sz szn) True s1 = Some s'" "core s' (as @ (h, sz + szn, True) # bs') (remove1 n xs)"
      "same_bytes s s' (pay (as @ bs'))" "set (remove1 n xs) = free_starts (as @ bs')"
      using merge_core [OF core [unfolded bs], of n] by blast
    have "join_next h s = Some s'"
      using n fr m(1-4) by (simp add: join_next_def nx)
    moreover have "same_bytes s s' (pay (as @ live bs))"
      using m(6) by (rule same_bytes_mono) (use pay_live [of bs'] in \<open>auto simp: bs pay_append(1)\<close>)
    moreover have "no_adj bs'" "bs' \<noteq> [] \<longrightarrow> \<not> snd (snd (hd bs'))"
      using na by (auto simp: bs no_adj_Cons)
    ultimately show ?thesis using m(5,7) bs
      by (intro exI [of _ s'] exI [of _ "sz + szn"] exI [of _ bs'] exI [of _ "remove1 n xs"]) simp
  qed
qed

lemma join_prev_core:
  assumes core: "core s (as @ (h, sz, True) # bs) xs" and xs: "set xs = free_starts (as @ bs)"
    and na: "no_adj as"
  shows "\<exists>s' h' sz' as' xs'. join_prev h s = Some (h', s') \<and> core s' (as' @ (h', sz', True) # bs) xs' \<and>
    set xs' = free_starts (as' @ bs) \<and> live as' = live as \<and> no_adj as' \<and>
    (as' \<noteq> [] \<longrightarrow> \<not> snd (snd (last as'))) \<and> same_bytes s s' (pay (live as @ bs)) \<and>
    join_before h sz as xs = (h', sz', as', xs')"
proof (cases as rule: rev_cases)
  case Nil
  then have "h = h_base s" using heap_coreD(2) [OF core] by simp
  then have "join_prev h s = Some (h, s)" by (simp add: join_prev_def prev_of_def)
  then show ?thesis using core xs Nil
    by (intro exI [of _ s] exI [of _ h] exI [of _ sz] exI [of _ as] exI [of _ xs]) (simp add: same_bytes_def join_before_def)
next
  case (snoc as0 p0)
  then obtain p szp f where as: "as = as0 @ [(p, szp, f)]" by (cases p0) auto
  have cp: "(p, szp, f) \<in> set (as @ (h, sz, True) # bs)" using as by simp
  note t = tiled_chunk [OF heap_coreD(2) [OF core] cp]
  note z = csz_core [OF core cp]
  have hp: "h = p + szp" using heap_coreD(2) [OF core] as by (auto simp: tiled_append)
  have nb: "h \<noteq> h_base s" using t(1,3) hp by simp
  have h64: "h < 2 ^ 64" using z(4) hp heap_okD(3) [OF heap_coreD(1) [OF core]] by (simp add: USER_TOP_def)
  have "sub64 h 16 = p + (szp - 16)" using hp t(3) h64 by (subst sub64_exact) auto
  moreover have "sub64 h szp = p" using hp h64 by (simp add: sub64_exact)
  ultimately have pr: "prev_of h s = Some p"
    using nb z(6) tag_size [OF z(3,5)] by (simp add: prev_of_def)
  have p0: "p \<noteq> 0" using start_range(4) [OF heap_coreD(1,2) [OF core], of p] cp by force
  show ?thesis
  proof (cases f)
    case False
    then have "join_prev h s = Some (h, s)" using pr p0 z(2) by (simp add: join_prev_def)
    then show ?thesis using core xs as na False
      by (intro exI [of _ s] exI [of _ h] exI [of _ sz] exI [of _ as] exI [of _ xs]) (simp add: same_bytes_def join_before_def)
  next
    case True
    have core': "core s (as0 @ (p, szp, f) # (h, sz, True) # bs) xs" using core as by simp
    have "set xs = insert p (free_starts (as0 @ bs))" using xs as True by auto
    then obtain s1 s' where m: "fl_unlink p s = Some s1" "csz p s1 = Some szp" "csz h s1 = Some sz"
      "set_size p (add64 szp sz) True s1 = Some s'" "core s' (as0 @ (p, szp + sz, True) # bs) (remove1 p xs)"
      "same_bytes s s' (pay (as0 @ bs))" "set (remove1 p xs) = free_starts (as0 @ bs)"
      using merge_core [OF core', of p] by blast
    have "join_prev h s = Some (p, s')"
      using pr p0 z(2) True m(1-4) by (simp add: join_prev_def)
    moreover have "same_bytes s s' (pay (live as @ bs))"
      using m(6) by (rule same_bytes_mono) (use pay_live [of as0] True in \<open>auto simp: as pay_append(1)\<close>)
    moreover have "no_adj as0" "as0 \<noteq> [] \<longrightarrow> \<not> snd (snd (last as0))"
      using na True by (auto simp: as no_adj_append)
    ultimately show ?thesis using m(5,7) as True
      by (intro exI [of _ s'] exI [of _ p] exI [of _ "szp + sz"] exI [of _ as0] exI [of _ "remove1 p xs"])
        (simp add: join_before_def)
  qed
qed

lemma my_free_core:
  assumes inv: "heap_inv s (as @ (h, sz, False) # bs) xs"
  shows "\<exists>s' cs' xs'. my_free (h + 32) s = Some s' \<and> heap_inv s' cs' xs' \<and>
    live cs' = live (as @ bs) \<and> same_bytes s s' (pay (live (as @ bs))) \<and>
    spec_mfree (h + 32) (as @ (h, sz, False) # bs, xs) = (cs', xs')"
proof -
  let ?cs = "as @ (h, sz, False) # bs"
  have core: "core s ?cs xs" and xs: "set xs = free_starts (as @ bs)" and na: "no_adj as" "no_adj bs"
    using inv by (simp_all add: heap_inv_def no_adj_append no_adj_Cons)
  note c = heap_coreD [OF core]
  have ch: "(h, sz, False) \<in> set ?cs" by simp
  have "h < 2 ^ 64 - 32"
    using csz_core(4) [OF core ch] tiled_chunk(3) [OF c(2) ch] heap_okD(3) [OF c(1)] by (simp add: USER_TOP_def)
  then have sub: "sub64 (h + 32) 32 = h" by (simp add: sub64_exact)
  have z: "csz h s = Some sz" by (rule csz_core(1) [OF core ch])
  have "tags s (as @ bs)" using c(3) by (auto simp: tags_def)
  moreover have "set xs \<subseteq> fst ` set (as @ (h, sz, True) # bs)" using c(7) by simp
  ultimately obtain s1 where s1: "set_size h sz True s = Some s1" "core s1 (as @ (h, sz, True) # bs) xs"
    "same_bytes s s1 (pay (as @ bs))"
    using set_size_core [OF c(1) tiled_change [OF c(2)] _ c(4-6)] by blast
  obtain s2 sz2 bs2 xs2 where s2: "join_next h s1 = Some s2" "core s2 (as @ (h, sz2, True) # bs2) xs2"
    "set xs2 = free_starts (as @ bs2)" "live bs2 = live bs" "no_adj bs2"
    "bs2 \<noteq> [] \<longrightarrow> \<not> snd (snd (hd bs2))" "same_bytes s1 s2 (pay (as @ live bs))"
    "join_after sz bs xs = (sz2, bs2, xs2)"
    using join_next_core [OF s1(2) xs na(2)] by blast
  obtain s3 h3 sz3 as3 xs3 where s3: "join_prev h s2 = Some (h3, s3)"
    "core s3 (as3 @ (h3, sz3, True) # bs2) xs3" "set xs3 = free_starts (as3 @ bs2)" "live as3 = live as"
    "no_adj as3" "as3 \<noteq> [] \<longrightarrow> \<not> snd (snd (last as3))" "same_bytes s2 s3 (pay (live as @ bs2))"
    "join_before h sz2 as xs2 = (h3, sz3, as3, xs3)"
    using join_prev_core [OF s2(2,3) na(1)] by blast
  let ?cs3 = "as3 @ (h3, sz3, True) # bs2"
  have "h3 \<in> fst ` set ?cs3" "h3 \<notin> set xs3" using core_distinct(2) [OF s3(2)] s3(3) by auto
  then obtain s4 where s4: "fl_insert h3 s3 = Some s4" "core s4 ?cs3 (h3 # xs3)"
    "same_bytes s3 s4 (pay ?cs3)" using insert_core [OF s3(2)] by blast
  have res: "my_free (h + 32) s = Some s4"
    using sub z s1(1) s2(1) s3(1) s4(1) by (simp add: my_free_def Let_def)
  have "heap_inv s4 ?cs3 (h3 # xs3)"
    using s4(2) s3(3,5,6) s2(5,6) by (auto simp: heap_inv_def no_adj_append no_adj_Cons)
  moreover have lv: "live ?cs3 = live (as @ bs)" using s2(4) s3(4) by simp
  moreover have "same_bytes s s4 (pay (live (as @ bs)))"
  proof -
    have "pay (live (as @ bs)) \<subseteq> pay (as @ bs)" "pay (live (as @ bs)) \<subseteq> pay (as @ live bs)"
      using pay_live [of as] pay_live [of bs] by (auto simp: pay_append(1))
    moreover have "pay (live (as @ bs)) \<subseteq> pay (live as @ bs2)" "pay (live (as @ bs)) \<subseteq> pay ?cs3"
      using pay_live [of bs2] pay_live [of ?cs3] lv s2(4) by (auto simp: pay_append(1))
    ultimately show ?thesis using s1(3) s2(7) s3(7) s4(3) by (meson same_bytes_mono same_bytes_trans)
  qed
  moreover have "spec_mfree (h + 32) (?cs, xs) = (?cs3, h3 # xs3)"
  proof -
    have hn: "h \<notin> fst ` set as" using core_distinct(1) [OF core] by auto
    then have "takeWhile (\<lambda>c. fst c \<noteq> h) ?cs = as" by (subst takeWhile_append2) auto
    moreover have "size_of h ?cs = sz" by (rule size_of_split [OF hn])
    ultimately show ?thesis using s2(8) s3(8) by (simp add: spec_mfree_def)
  qed
  ultimately show ?thesis using res by blast
qed

section \<open>The contract\<close>

definition flist_extent :: "nat \<Rightarrow> nat" where "flist_extent req = req"

definition flist_legal :: "nat \<Rightarrow> bool" where
  "flist_legal req \<longleftrightarrow> req + 63 < 2 ^ 64"

definition flist_set_mem :: "mem \<Rightarrow> heap \<Rightarrow> heap" where
  "flist_set_mem m s = s\<lparr>h_mem := m\<rparr>"

definition flist_dealloc :: "addr \<Rightarrow> nat \<Rightarrow> heap \<Rightarrow> heap option" where
  "flist_dealloc p req s = my_free p s"

text \<open>The live blocks are the payloads of the chunks in use, each big enough for its request.\<close>

definition holds :: "chunk list \<Rightarrow> (addr \<times> nat) multiset \<Rightarrow> bool" where
  "holds cs L \<longleftrightarrow> image_mset fst L = mset (map (\<lambda>c. fst c + 32) (live cs)) \<and>
     (\<forall>(p, r) \<in># L. \<exists>h sz. p = h + 32 \<and> (h, sz, False) \<in> set cs \<and> r + 48 \<le> sz)"

definition flist_inv :: "addr \<Rightarrow> addr \<Rightarrow> heap \<Rightarrow> (addr \<times> nat) multiset \<Rightarrow> bool" where
  "flist_inv b e s L \<longleftrightarrow> h_base s = b \<and> h_end s = e \<and> (\<exists>cs xs. heap_inv s cs xs \<and> holds cs L)"

lemma holds_block:
  assumes "holds cs (add_mset (p, r) L)"
  obtains h sz as bs where "p = h + 32" "cs = as @ (h, sz, False) # bs" "r + 48 \<le> sz"
  using assms by (auto simp: holds_def) (metis split_list)

lemma heap_invD:
  assumes "heap_inv s cs xs"
  shows "core s cs xs" "heap_ok s" "tiled (h_base s) cs (h_end s)" "no_adj cs" "set xs = free_starts cs"
  using assms heap_coreD(1,2) by (auto simp: heap_inv_def)

lemma holds_distinct:
  assumes "holds cs (add_mset (p, r) (add_mset (q, t) L))" "tiled a cs e"
  shows "p \<noteq> q"
proof -
  have "distinct (map (\<lambda>c. fst c + 32) (live cs))"
    using tiled_distinct [OF assms(2)] by (auto simp: live_def distinct_map inj_on_def)
  moreover have "mset (map (\<lambda>c. fst c + 32) (live cs)) = add_mset p (add_mset q (image_mset fst L))"
    using assms(1) by (simp add: holds_def)
  ultimately show ?thesis
    by (auto simp: distinct_count_atmost_1 split: if_splits)
qed

lemma holds_apart:
  assumes "holds cs (add_mset (p, r) (add_mset (q, t) L))" "tiled a cs e"
  shows "apart p r q t"
proof -
  obtain h sz where h: "p = h + 32" "(h, sz, False) \<in> set cs" "r + 48 \<le> sz"
    using assms(1) by (auto simp: holds_def)
  obtain g sg where g: "q = g + 32" "(g, sg, False) \<in> set cs" "t + 48 \<le> sg"
    using assms(1) by (auto simp: holds_def)
  have "p \<noteq> q" by (rule holds_distinct [OF assms])
  then have "apart h sz g sg" using tiled_apart [OF assms(2) h(2) g(2)] h(1) g(1) by auto
  then show ?thesis using h(1,3) g(1,3) by (auto simp: apart_def)
qed

text \<open>A write inside a payload leaves the heap structure alone.\<close>

lemma payload_write_core:
  assumes core: "core s cs xs" and c: "(h, sz, f) \<in> set cs" "h + 32 \<le> a" "a < h + (sz - 16)"
  shows "core (s\<lparr>h_mem := (h_mem s)(a \<mapsto> b)\<rparr>) cs xs"
proof -
  note d = heap_coreD [OF core]
  let ?s = "s\<lparr>h_mem := (h_mem s)(a \<mapsto> b)\<rparr>"
  have get: "get_word w ?s = get_word w s" if "w + 8 \<le> a \<or> a < w" for w
    using that unfolding get_word_def by (auto intro!: load64_cong)
  have z: "64 \<le> sz" "h + sz \<le> h_end s" "h_base s \<le> h"
    using tiled_chunk [OF d(2) c(1)] by simp_all
  have out: "w + 8 \<le> a \<or> a < w"
    if x: "(h', sz', f') \<in> set cs" and w: "w = h' \<or> w = h' + 8 \<or> w = h' + 16 \<or> w = h' + (sz' - 16)"
    for w h' sz' f'
  proof -
    have "64 \<le> sz'" by (rule tiled_chunk(3) [OF d(2) x])
    moreover have "(h', sz', f') = (h, sz, f) \<or> apart h' sz' h sz"
      using tiled_apart [OF d(2) x c(1)] by blast
    ultimately show ?thesis using w c(2,3) z(1) by (auto simp: apart_def)
  qed
  have "tags ?s cs" using d(3) unfolding tags_def by (auto simp: get out)
  moreover have "dseg ?s 0 xs 0 = dseg s 0 xs 0"
  proof (rule dseg_cong)
    fix x assume "x \<in> set xs"
    then have "x \<in> fst ` set cs" using d(7) by blast
    from start_chunk [OF this] obtain szx fx where x: "(x, szx, fx) \<in> set cs" by blast
    show "get_word (x + 8) ?s = get_word (x + 8) s \<and> get_word (x + 16) ?s = get_word (x + 16) s"
      using get [OF out [OF x, of "x + 8"]] get [OF out [OF x, of "x + 16"]] by simp
  qed
  moreover have "mapped (h_mem ?s) (h_base s) (h_end s - h_base s)"
    using d(1) by (auto simp: heap_ok_def mapped_def)
  ultimately show ?thesis using d by (simp add: core_def heap_ok_def)
qed

lemma flist_frame:
  assumes "holds cs L" "(q, t) \<in># L" "k < t" "same_bytes s s' (pay (live cs))"
  shows "h_mem s' (q + k) = h_mem s (q + k)"
proof -
  obtain h sz where "q = h + 32" "(h, sz, False) \<in> set cs" "t + 48 \<le> sz"
    using assms(1,2) by (auto simp: holds_def)
  then have "(h, sz, False) \<in> set (live cs)" "h + 32 \<le> q + k" "q + k < h + (sz - 16)"
    using assms(3) by (auto simp: live_def)
  then have "q + k \<in> pay (live cs)" unfolding pay_mem by blast
  then show ?thesis using assms(4) by (simp add: same_bytes_def)
qed

interpretation flist: freeing_allocator "flist_inv b e" h_mem flist_set_mem flist_extent flist_legal
  my_malloc flist_dealloc for b e
proof unfold_locales
  fix s p r L assume "flist_inv b e s (add_mset (p, r) L)"
  then obtain cs xs where i: "heap_inv s cs xs" and h: "holds cs (add_mset (p, r) L)"
    by (auto simp: flist_inv_def)
  obtain q sz as bs where q: "p = q + 32" "cs = as @ (q, sz, False) # bs" "r + 48 \<le> sz"
    by (rule holds_block [OF h])
  have "h_base s \<le> q" "q + sz \<le> h_end s"
    using tiled_chunk(1,2) [OF heap_invD(3) [OF i], of q sz False] q(2) by simp_all
  moreover have "mapped (h_mem s) (h_base s) (h_end s - h_base s)"
    using heap_invD(2) [OF i] by (simp add: heap_ok_def)
  ultimately show "mapped (h_mem s) p (flist_extent r)"
    using q(1,3) by (auto simp: flist_extent_def elim!: mapped_mono)
next
  fix s p r q t L assume "flist_inv b e s (add_mset (p, r) (add_mset (q, t) L))"
  then obtain cs xs where i: "heap_inv s cs xs" and h: "holds cs (add_mset (p, r) (add_mset (q, t) L))"
    by (auto simp: flist_inv_def)
  from holds_apart [OF h heap_invD(3) [OF i]]
  show "apart p (flist_extent r) q (flist_extent t)" by (simp add: flist_extent_def)
next
  fix s p r L k v assume fi: "flist_inv b e s (add_mset (p, r) L)" and k: "k < flist_extent r"
  then obtain cs xs where i: "heap_inv s cs xs" and h: "holds cs (add_mset (p, r) L)"
    by (auto simp: flist_inv_def)
  obtain q sz as bs where q: "p = q + 32" "cs = as @ (q, sz, False) # bs" "r + 48 \<le> sz"
    by (rule holds_block [OF h])
  have "core (s\<lparr>h_mem := (h_mem s)(p + k \<mapsto> v)\<rparr>) cs xs"
    using q k by (intro payload_write_core [OF heap_invD(1) [OF i], of q sz False])
      (auto simp: flist_extent_def)
  then show "flist_inv b e (flist_set_mem ((h_mem s)(p + k \<mapsto> v)) s) (add_mset (p, r) L)"
    using fi i h by (auto simp: flist_inv_def flist_set_mem_def heap_inv_def)
next
  fix s L r assume fi: "flist_inv b e s L" and l: "flist_legal r"
  then obtain cs xs where i: "heap_inv s cs xs" and h: "holds cs L" by (auto simp: flist_inv_def)
  have r: "r + 63 < 2 ^ 64" using l by (simp add: flist_legal_def)
  show "\<exists>p s'. my_malloc r s = Some (p, s') \<and> flist_inv b e s' (if p = 0 then L else add_mset (p, r) L) \<and>
      (\<forall>q t k. (q, t) \<in># L \<longrightarrow> k < flist_extent t \<longrightarrow> h_mem s' (q + k) = h_mem s (q + k))"
  proof (cases "0 < r \<and> (\<exists>g sz. (g, sz, True) \<in> set cs \<and> need_of r \<le> sz)")
    case False
    then have "my_malloc r s = Some (0, s)"
      using my_malloc_core [OF i _ r] by (cases "r = 0") (auto simp: my_malloc_def split: if_splits)
    then show ?thesis using fi by simp
  next
    case True
    then obtain g sz as bs xs' s' where m: "cs = as @ (g, sz, True) # bs" "need_of r \<le> sz"
      "my_malloc r s = Some (g + 32, s')" "heap_inv s' (taken as bs g sz (need_of r)) xs'"
      "same_bytes s s' (pay (as @ bs))"
    proof -
      have "0 < r" and fit: "\<exists>g sz. (g, sz, True) \<in> set cs \<and> need_of r \<le> sz" using True by blast+
      from my_malloc_core [OF i this(1) r] show thesis unfolding if_P [OF fit] using that by blast
    qed
    let ?cs = "taken as bs g sz (need_of r)"
    obtain w where w: "live ?cs = live as @ (g, w, False) # live bs" "(g, w, False) \<in> set ?cs"
      "r + 48 \<le> w"
      using need_of_ok(3) [OF r] m(2) that [of "need_of r"] that [of sz]
      by (cases "need_of r + 64 \<le> sz") (simp_all add: taken_def)
    have keep: "c \<in> set ?cs" if "c \<in> set cs" "\<not> snd (snd c)" for c
      using that by (auto simp: taken_def m(1))
    have "holds ?cs (add_mset (g + 32, r) L)" unfolding holds_def
    proof
      have "live cs = live as @ live bs" by (simp add: m(1))
      then show "image_mset fst (add_mset (g + 32, r) L) = mset (map (\<lambda>c. fst c + 32) (live ?cs))"
        using h w(1) by (simp add: holds_def)
      show "\<forall>(p, t) \<in># add_mset (g + 32, r) L. \<exists>h sz. p = h + 32 \<and> (h, sz, False) \<in> set ?cs \<and> t + 48 \<le> sz"
        using h w(2,3) keep unfolding holds_def by fastforce
    qed
    then have inv: "flist_inv b e s' (add_mset (g + 32, r) L)"
      using m(4,5) fi by (auto simp: flist_inv_def same_bytes_def)
    have "same_bytes s s' (pay (live cs))"
      using m(5) by (rule same_bytes_mono)
        (use pay_live [of as] pay_live [of bs] in \<open>auto simp: m(1) pay_append(1)\<close>)
    then show ?thesis using m(3) inv flist_frame [OF h] by (auto simp: flist_extent_def)
  qed
next
  fix s p r L assume fi: "flist_inv b e s (add_mset (p, r) L)"
  then obtain cs xs where i: "heap_inv s cs xs" and h: "holds cs (add_mset (p, r) L)"
    by (auto simp: flist_inv_def)
  obtain q sz as bs where q: "p = q + 32" "cs = as @ (q, sz, False) # bs" "r + 48 \<le> sz"
    by (rule holds_block [OF h])
  obtain s' cs' xs' where f: "my_free (q + 32) s = Some s'" "heap_inv s' cs' xs'"
    "live cs' = live (as @ bs)" "same_bytes s s' (pay (live (as @ bs)))"
    using my_free_core [OF i [unfolded q(2)]] by blast
  have "holds cs' L" unfolding holds_def
  proof
    have "add_mset p (image_mset fst L) = add_mset (q + 32) (mset (map (\<lambda>c. fst c + 32) (live (as @ bs))))"
      using h by (simp add: holds_def q(2))
    then show "image_mset fst L = mset (map (\<lambda>c. fst c + 32) (live cs'))" using q(1) f(3) by simp
    show "\<forall>(g, t) \<in># L. \<exists>h sz. g = h + 32 \<and> (h, sz, False) \<in> set cs' \<and> t + 48 \<le> sz"
    proof clarify
      fix g t assume g: "(g, t) \<in># L"
      then obtain h' sz' where h': "g = h' + 32" "(h', sz', False) \<in> set cs" "t + 48 \<le> sz'"
        using h by (auto simp: holds_def)
      obtain L' where L: "L = add_mset (g, t) L'" using g by (metis multi_member_split)
      have "g \<noteq> p" using holds_distinct [OF h [unfolded L] heap_invD(3) [OF i]] by simp
      then have "(h', sz', False) \<in> set (live (as @ bs))" using h' q by (auto simp: live_def)
      then have "(h', sz', False) \<in> set cs'" using f(3) by (metis (no_types) filter_is_subset live_def subsetD)
      then show "\<exists>h sz. g = h + 32 \<and> (h, sz, False) \<in> set cs' \<and> t + 48 \<le> sz" using h'(1,3) by blast
    qed
  qed
  then have inv: "flist_inv b e s' L" using f(2,4) fi by (auto simp: flist_inv_def same_bytes_def)
  show "\<exists>s'. flist_dealloc p r s = Some s' \<and> flist_inv b e s' L \<and>
      (\<forall>q t k. (q, t) \<in># L \<longrightarrow> k < flist_extent t \<longrightarrow> h_mem s' (q + k) = h_mem s (q + k))"
    using f(1,3,4) inv q(1) flist_frame [OF \<open>holds cs' L\<close>, of _ _ _ s s']
    by (auto simp: flist_dealloc_def flist_extent_def)
qed (simp add: flist_set_mem_def)

section \<open>Initialisation\<close>

lemma my_init_inv:
  assumes "mmap_ok (Some b) (page_up cap) (h_mem s)" "0 < cap"
  shows "\<exists>s'. my_init (Some b) cap s = Some s' \<and>
    heap_inv s' [(b, page_up cap, True)] [b] \<and> flist_inv b (b + page_up cap) s' {#}"
proof -
  let ?c = "page_up cap"
  have pd: "4096 dvd ?c" by (simp add: page_up_def)
  have pu: "page_up ?c = ?c" by (rule page_up_id [OF pd])
  have ge: "4096 \<le> ?c" using assms(2) page_up_ge [of cap] pd by (auto elim!: dvdE)
  have ok: "0 < b" "4096 dvd b" "b + ?c \<le> USER_TOP" using assms(1) pu by (simp_all add: mmap_ok_def)
  have top: "cap \<le> ?c" "?c < 2 ^ 48" "b + ?c < 2 ^ 48" using page_up_ge [of cap] ok(3) by (auto simp: USER_TOP_def)
  have cap: "and_not64 (add64 cap 4095) 4095 = ?c"
    using top by (subst add64_exact) (simp_all add: and_not64_low page_up_def)
  obtain m where m: "sys_mmap (Some b) ?c (h_mem s) = (b, m)" by (simp add: sys_mmap_def)
  then have mp: "mapped m b ?c" using sys_mmap_mapped [OF m] pu by simp
  let ?s = "s\<lparr>h_base := b, h_end := b + ?c, h_mem := m\<rparr>"
  let ?cs = "[(b, ?c, True)]"
  have d16: "16 dvd b" "16 dvd ?c" using ok(2) pd by (auto intro: dvd_trans [of 16 4096])
  have hok: "heap_ok ?s" using ok mp d16 by (simp add: heap_ok_def)
  have t: "tiled (h_base ?s) ?cs (h_end ?s)" using ge d16 by simp
  obtain s1 where s1: "set_size b ?c True ?s = Some s1" "heap_ok s1" "tags s1 ?cs"
    "same_bytes ?s s1 (pay [])"
    using set_size_upd [OF hok t, of b ?c True "[]" "[]"] by (auto simp: tags_def)
  let ?s1 = "s1\<lparr>h_free := 0\<rparr>"
  have "core ?s1 ?cs []"
    using s1(2-4) t by (simp add: core_def tags_def same_bytes_def)
  then obtain s2 where s2: "fl_insert b ?s1 = Some s2" "core s2 ?cs [b]" "same_bytes ?s1 s2 (pay ?cs)"
    using insert_core [of ?s1 ?cs "[]" b] by auto
  have ad: "add64 b ?c = b + ?c" using top by (simp add: add64_exact)
  have "my_init (Some b) cap s = Some s2"
    using s1(1) s2(1) by (simp add: my_init_def cap m ad Let_def)
  moreover have inv: "heap_inv s2 ?cs [b]" using s2(2) by (simp add: heap_inv_def)
  moreover have "flist_inv b (b + ?c) s2 {#}"
  proof -
    have "h_base s2 = b" "h_end s2 = b + ?c" using s2(3) s1(4) by (simp_all add: same_bytes_def)
    moreover have "holds ?cs {#}" by (simp add: holds_def)
    ultimately show ?thesis using inv unfolding flist_inv_def by blast
  qed
  ultimately show ?thesis by blast
qed

section \<open>No free run is missed\<close>

lemma free_run_in_chunk:
  assumes "tiled a cs e" "no_adj cs" "a \<le> x" "x + n \<le> e" "0 < n"
    and "\<forall>(h, sz, f) \<in> set (live cs). apart x n h sz"
  shows "\<exists>h sz. (h, sz, True) \<in> set cs \<and> h \<le> x \<and> x + n \<le> h + sz"
  using assms
proof (induction cs arbitrary: a)
  case (Cons c cs)
  obtain h sz f where c: "c = (h, sz, f)" by (cases c)
  have t: "h = a" "64 \<le> sz" "tiled (a + sz) cs e" using Cons.prems(1) by (simp_all add: c)
  have na: "no_adj cs" using Cons.prems(2) by (simp add: no_adj_Cons)
  show ?case
  proof (cases "a + sz \<le> x")
    case True
    have "\<forall>(h, sz, f) \<in> set (live cs). apart x n h sz"
      using Cons.prems(6) by (auto simp: c split: if_splits)
    from Cons.IH [OF t(3) na True Cons.prems(4,5) this] show ?thesis by auto
  next
    case False
    have f: f
    proof (rule ccontr)
      assume "\<not> f"
      then have "apart x n h sz" using Cons.prems(6) by (simp add: c)
      then show False using False Cons.prems(3,5) t(1) by (auto simp: apart_def)
    qed
    show ?thesis
    proof (cases "x + n \<le> a + sz")
      case True
      then show ?thesis using f c t(1) Cons.prems(3) by auto
    next
      case big: False
      then obtain h2 sz2 f2 cs2 where cs: "cs = (h2, sz2, f2) # cs2"
        using t(3) Cons.prems(4) by (cases cs) auto
      then have "\<not> f2" "h2 = a + sz" "64 \<le> sz2" using Cons.prems(2) f t(3) by (simp_all add: c)
      then have "apart x n (a + sz) sz2" using Cons.prems(6) f by (simp add: c cs)
      then show ?thesis using big False \<open>64 \<le> sz2\<close> by (auto simp: apart_def)
    qed
  qed
qed simp

section \<open>Properties\<close>

abbreviation flist_run ::
  "nat cmd list \<Rightarrow> heap \<times> nat block list \<Rightarrow> (heap \<times> nat block list) option" where
  "flist_run \<equiv> run my_malloc flist_dealloc h_mem flist_set_mem flist_extent"

text \<open>C1. Any client of a freshly initialised free-list heap that allocates, frees and writes into
  its own blocks, in any order, never faults; live blocks never overlap and keep their bytes,
  although headers, footers and list links surround them and chunks are split and merged.\<close>

theorem freelist_client_safe:
  assumes "mmap_ok (Some b) (page_up cap) (h_mem s)" and "0 < cap"
    and "\<forall>c \<in> set cs. legal_cmd flist_legal c"
  shows "\<exists>s1. my_init (Some b) cap s = Some s1 \<and>
    (\<exists>s' bs. flist_run cs (s1, []) = Some (s', bs) \<and>
       blocks_apart flist_extent bs \<and> data_intact (h_mem s') flist_extent bs)"
proof -
  obtain s1 where s1: "my_init (Some b) cap s = Some s1" "flist_inv b (b + page_up cap) s1 {#}"
    using my_init_inv [OF assms(1,2)] by blast
  from flist.client_safe_free [OF s1(2) assms(3)] show ?thesis using s1(1) by fastforce
qed

definition demo_heap :: heap where
  "demo_heap = \<lparr>h_base = 0, h_end = 0, h_free = 0, h_mem = Map.empty\<rparr>"

lemma demo_heap_mmap: "mmap_ok (Some 4096) (page_up 8192) (h_mem demo_heap)"
  by (simp add: mmap_ok_def page_up_def USER_TOP_def demo_heap_def)

theorem freelist_client_safe_witness:
  "\<exists>s1. my_init (Some 4096) 8192 demo_heap = Some s1 \<and>
    (\<exists>s' bs. flist_run [Alloc 50, Alloc 1000, Alloc 20, Poke 0 49 65, Free 1, Alloc 900] (s1, []) =
        Some (s', bs) \<and> blocks_apart flist_extent bs \<and> data_intact (h_mem s') flist_extent bs)"
  by (rule freelist_client_safe [OF demo_heap_mmap]) (simp_all add: flist_legal_def)

text \<open>C2. Coalescing is complete: whatever a client did, once it has freed everything the heap is a
  single free chunk again, the only one on the list.\<close>

theorem freelist_coalesces:
  assumes "mmap_ok (Some b) (page_up cap) (h_mem s)" and "0 < cap"
    and "\<forall>c \<in> set cs. legal_cmd flist_legal c"
    and "my_init (Some b) cap s = Some s1" and "flist_run cs (s1, []) = Some (s', [])"
  shows "h_free s' = b \<and> csz b s' = Some (page_up cap) \<and> cfree b s' = Some True \<and>
    get_word (next_free b) s' = Some NULL"
proof -
  have "flist_inv b (b + page_up cap) s1 {#}" using my_init_inv [OF assms(1,2)] assms(4) by auto
  from flist.client_safe_free [OF this assms(3)] have "flist_inv b (b + page_up cap) s' {#}"
    using assms(5) by auto
  then obtain cs xs where i: "heap_inv s' cs xs" "live cs = []" and be: "h_base s' = b" "h_end s' = b + page_up cap"
    by (auto simp: flist_inv_def holds_def)
  note d = heap_invD [OF i(1)]
  have "0 < page_up cap" using assms(2) page_up_ge [of cap] by simp
  then obtain h sz f cs' where cs: "cs = (h, sz, f) # cs'" using d(3) be by (cases cs) auto
  have f: f using i(2) by (auto simp: cs split: if_splits)
  have "cs' = []"
  proof (cases cs')
    case (Cons c cs'')
    then have "\<not> snd (snd c)" "snd (snd c)"
      using d(4) f i(2) by (auto simp: cs no_adj_Cons live_def split: if_splits)
    then show ?thesis by simp
  qed simp
  then have cs1: "cs = [(b, page_up cap, True)]" using d(3) be f by (simp add: cs)
  then have "set xs = {b}" "distinct xs" using d(5) heap_coreD(6) [OF d(1)] by simp_all
  then have "xs = [b]" by (metis distinct.simps(2) empty_iff insert_iff list.set_cases list.set_intros(1)
        list.simps(15) set_ConsD singletonD set_empty neq_Nil_conv insert_not_empty)
  then show ?thesis
    using heap_coreD(4,5) [OF d(1)] csz_core(1,2) [OF d(1), of b "page_up cap" True] cs1 by simp
qed

lemma demo_alloc_free:
  assumes "flist_inv b e s {#}"
  shows "\<exists>s'. flist_run [Alloc 50, Free 0] (s, []) = Some (s', [])"
proof -
  obtain p s1 where a: "my_malloc 50 s = Some (p, s1)"
    "flist_inv b e s1 (if p = 0 then {#} else {#(p, 50)#})"
    using flist.alloc_ok [OF assms, of 50] by (auto simp: flist_legal_def)
  show ?thesis
  proof (cases "p = 0")
    case False
    then obtain s2 where "flist_dealloc p 50 s1 = Some s2"
      using flist.dealloc_ok [of b e s1 p 50 "{#}"] a(2) by auto
    then show ?thesis using a(1) False by (simp add: drop_nth_def)
  qed (simp add: a(1))
qed

theorem freelist_coalesces_witness:
  "\<exists>s1 s'. my_init (Some 4096) 8192 demo_heap = Some s1 \<and>
    flist_run [Alloc 50, Free 0] (s1, []) = Some (s', []) \<and> h_free s' = 4096 \<and>
    csz 4096 s' = Some 8192"
proof -
  obtain s1 where s1: "my_init (Some 4096) 8192 demo_heap = Some s1"
    "flist_inv 4096 (4096 + page_up 8192) s1 {#}"
    using my_init_inv [OF demo_heap_mmap] by auto
  obtain s' where s': "flist_run [Alloc 50, Free 0] (s1, []) = Some (s', [])"
    using demo_alloc_free [OF s1(2)] by blast
  have "\<forall>c \<in> set [Alloc 50, Free 0]. legal_cmd flist_legal c" by (simp add: flist_legal_def)
  from freelist_coalesces [OF demo_heap_mmap _ this s1(1) s'] show ?thesis
    using s1(1) s' by (auto simp: page_up_def)
qed

text \<open>C13. The result of my_malloc on every branch.  A non-null result is aligned to 16, and the
  req bytes with header and footer lie inside the heap and off every chunk in use; NULL changes
  nothing and means that every run of the needed bytes inside the heap meets a chunk in use, so
  no request fails because neighbouring free chunks were left unmerged.\<close>

theorem my_malloc_complete:
  assumes "heap_inv s cs xs" and "0 < req" and "req + 63 < 2 ^ 64"
  shows "\<exists>p s'. my_malloc req s = Some (p, s') \<and>
    (if p \<noteq> NULL
     then 16 dvd p \<and> h_base s + 32 \<le> p \<and> p + req + 16 \<le> h_end s \<and>
       (\<forall>(h, sz, f) \<in> set (live cs). apart (p - 32) (req + 48) h sz)
     else s' = s \<and> (\<forall>x. h_base s \<le> x \<longrightarrow> x + max 64 ((req + 63) div 16 * 16) \<le> h_end s \<longrightarrow>
       (\<exists>(h, sz, f) \<in> set (live cs). \<not> apart x (max 64 ((req + 63) div 16 * 16)) h sz)))"
proof -
  note n = need_of_ok [OF assms(3)]
  note d = heap_invD [OF assms(1)]
  note m = my_malloc_core [OF assms]
  show ?thesis
  proof (cases "\<exists>h sz. (h, sz, True) \<in> set cs \<and> need_of req \<le> sz")
    case True
    then obtain h sz as bs s' where r: "cs = as @ (h, sz, True) # bs" "need_of req \<le> sz"
      "my_malloc req s = Some (h + 32, s')"
      using m by (subst (asm) if_P [OF True]) blast
    have c: "(h, sz, True) \<in> set cs" using r(1) by simp
    note t = tiled_chunk [OF d(3) c]
    have h16: "16 dvd h" by (rule t(5) [OF heap_okD(2) [OF d(2)]])
    have "apart h (req + 48) h' sz'" if "(h', sz', f') \<in> set (live cs)" for h' sz' f'
      using tiled_apart [OF d(3) c, of h' sz' f'] that n(3) r(2)
      by (auto simp: live_def elim!: apart_mono)
    then show ?thesis using r(2,3) t(1,2) h16 n(3)
      by (intro exI [of _ "h + 32"] exI [of _ s']) auto
  next
    case False
    have "\<exists>(h, sz, f) \<in> set (live cs). \<not> apart x (need_of req) h sz"
      if "h_base s \<le> x" "x + need_of req \<le> h_end s" for x
    proof (rule ccontr)
      assume "\<not> ?thesis"
      then have "\<forall>(h, sz, f) \<in> set (live cs). apart x (need_of req) h sz" by auto
      from free_run_in_chunk [OF d(3,4) that _ this] n(1) obtain h sz where
        "(h, sz, True) \<in> set cs" "h \<le> x" "x + need_of req \<le> h + sz" by auto
      moreover from this have "need_of req \<le> sz" by linarith
      ultimately show False using False by blast
    qed
    moreover have "my_malloc req s = Some (0, s)" using m False by (simp only: if_False)
    ultimately show ?thesis unfolding n(5) by (intro exI [of _ 0] exI [of _ s]) simp
  qed
qed

theorem my_malloc_complete_witness:
  "\<exists>s1 p s'. my_init (Some 4096) 8192 demo_heap = Some s1 \<and> my_malloc 50 s1 = Some (p, s') \<and>
    p \<noteq> NULL \<and> 16 dvd p"
proof -
  obtain s1 where s1: "my_init (Some 4096) 8192 demo_heap = Some s1"
    "heap_inv s1 [(4096, page_up 8192, True)] [4096]" "flist_inv 4096 (4096 + page_up 8192) s1 {#}"
    using my_init_inv [OF demo_heap_mmap] by auto
  have be: "h_base s1 = 4096" "h_end s1 = 12288"
    using s1(3) by (simp_all add: flist_inv_def page_up_def)
  obtain p s' where m: "my_malloc 50 s1 = Some (p, s')" "p \<noteq> NULL \<longrightarrow> 16 dvd p"
    "p = NULL \<longrightarrow> (\<forall>x::nat. 4096 \<le> x \<longrightarrow> x + 112 \<le> 12288 \<longrightarrow> False)"
    using my_malloc_complete [OF s1(2), of 50] be by (auto split: if_splits)
  have "p \<noteq> NULL" using m(3) by (auto dest: spec [of _ 4096])
  then show ?thesis using s1(1) m by blast
qed

text \<open>C40. The size computation is not overflow-safe: for the last 63 values of size_t the header
  and footer make the sum wrap, and my_malloc serves the request as if one byte had been asked
  for, returning a chunk of 64 bytes.\<close>

theorem my_malloc_overflow:
  assumes "0 < k" and "k \<le> 63"
  shows "my_malloc (2 ^ 64 - k) s = my_malloc 1 s"
proof -
  have one: "need_of 1 = 64" by (simp add: need_of_def add64_def align_up_wrap)
  have "need_of (2 ^ 64 - k) = 64"
  proof (cases "48 < k")
    case True
    have "add64 (add64 (2 ^ 64 - k) 32) 16 = 2 ^ 64 - (k - 48)"
      using True assms by (subst add64_exact; (subst add64_exact)?) auto
    moreover have "(2 ^ 64 - (k - 48) + 15) mod 2 ^ 64 = 15 - (k - 48)"
    proof -
      have "2 ^ 64 - (k - 48) + 15 = 2 ^ 64 + (15 - (k - 48))" using assms True by simp
      then have "(2 ^ 64 - (k - 48) + 15) mod 2 ^ 64 = (15 - (k - 48)) mod 2 ^ 64"
        by (simp only: mod_add_self1)
      then show ?thesis by simp
    qed
    then have "align_up (2 ^ 64 - (k - 48)) = 0"
      unfolding align_up_wrap using True by (simp del: power_numeral)
    ultimately show ?thesis by (simp add: need_of_def)
  next
    case False
    have "add64 (add64 (2 ^ 64 - k) 32) 16 = 48 - k"
    proof (cases "32 < k")
      case True
      then have "add64 (2 ^ 64 - k) 32 = 2 ^ 64 - (k - 32)" using assms by (subst add64_exact) auto
      moreover have "2 ^ 64 - (k - 32) + 16 = 2 ^ 64 + (48 - k)" using True False by simp
      then have "add64 (2 ^ 64 - (k - 32)) 16 = (48 - k) mod 2 ^ 64"
        unfolding add64_def by (simp only: mod_add_self1)
      ultimately show ?thesis by simp
    next
      case False
      have "2 ^ 64 - k + 32 = 2 ^ 64 + (32 - k)" using False assms by simp
      then have "add64 (2 ^ 64 - k) 32 = (32 - k) mod 2 ^ 64"
        unfolding add64_def by (simp only: mod_add_self1)
      then show ?thesis using False by (simp add: add64_def)
    qed
    moreover have "48 - k + 15 < 2 ^ 64" by simp
    from align_up_less [OF this] have "align_up (48 - k) < 64" using assms by linarith
    ultimately show ?thesis by (simp add: need_of_def)
  qed
  then have "need_of (2 ^ 64 - k) = need_of 1" using one by simp
  moreover have "2 ^ 64 - k \<noteq> 0" using assms by simp
  ultimately show ?thesis unfolding my_malloc_def by (simp only: if_False one_neq_zero)
qed

theorem my_malloc_overflow_witness: "my_malloc (2 ^ 64 - 48) demo_heap = my_malloc 1 demo_heap"
  using my_malloc_overflow [of 48 demo_heap] by simp

text \<open>my_init does not check the result of mmap: when the call fails, the header of the first
  chunk is written through MAP_FAILED, which faults.\<close>

theorem my_init_unchecked:
  assumes "h_mem s MAP_FAILED = None"
  shows "my_init None cap s = None"
proof -
  have "\<not> mapped m MAP_FAILED 8" if "m MAP_FAILED = None" for m
    using that by (auto simp: mapped_def subset_eq intro!: bexI [of _ MAP_FAILED])
  then have "store64 (h_mem s) MAP_FAILED v = None" for v
    using assms by (simp add: store64_def store_bytes_char)
  then show ?thesis by (simp add: my_init_def sys_mmap_def set_size_def set_word_def Let_def)
qed

theorem my_init_unchecked_witness: "my_init None 8192 demo_heap = None"
  by (rule my_init_unchecked) (simp add: demo_heap_def)

end
