(* ===== verification/Buddy.thy ===== *)
theory Buddy
  imports Linked_List
begin

text \<open>
  \<open>14_putting_it_together/05_buddy.c\<close>: the buddy allocator over 2^8 pages.  The record
  \<open>buddy\<close> holds the two globals (base and the array fl of list heads) and the memory, in which
  struct Block lives: the link at offset 0, the int order at offset 8.  An index outside fl and a
  signed overflow, both undefined in C, are the value None, as a memory fault is; loops that walk
  memory or double an int are \<open>partial_function\<close>s, whose None also stands for not returning.
\<close>

definition PG_LOG2 :: nat where "PG_LOG2 = 12"
definition MAX_ORDER :: nat where "MAX_ORDER = 8"
definition TOTAL_PAGES :: nat where "TOTAL_PAGES = push_bit MAX_ORDER 1"
definition ARENA_BYTES :: nat where "ARENA_BYTES = push_bit PG_LOG2 TOTAL_PAGES"

record buddy =
  b_base :: addr
  b_fl :: "addr list"
  b_mem :: mem

section \<open>The operations\<close>

definition fl_get :: "nat \<Rightarrow> buddy \<Rightarrow> addr option" where
  "fl_get o' s = (if o' < length (b_fl s) then Some (b_fl s ! o') else None)"

definition fl_set :: "nat \<Rightarrow> addr \<Rightarrow> buddy \<Rightarrow> buddy option" where
  "fl_set o' b s = (if o' < length (b_fl s) then Some (s\<lparr>b_fl := (b_fl s)[o' := b]\<rparr>) else None)"

definition blk_next :: "addr \<Rightarrow> buddy \<Rightarrow> addr option" where
  "blk_next b s = load64 (b_mem s) (b + 0)"

definition set_blk_next :: "addr \<Rightarrow> addr \<Rightarrow> buddy \<Rightarrow> buddy option" where
  "set_blk_next b v s = map_option (\<lambda>m. s\<lparr>b_mem := m\<rparr>) (store64 (b_mem s) (b + 0) v)"

definition set_blk_order :: "addr \<Rightarrow> nat \<Rightarrow> buddy \<Rightarrow> buddy option" where
  "set_blk_order b v s = map_option (\<lambda>m. s\<lparr>b_mem := m\<rparr>) (store32 (b_mem s) (b + 8) v)"

definition fl_push :: "nat \<Rightarrow> addr \<Rightarrow> buddy \<Rightarrow> buddy option" where
  "fl_push o' b s = do {
     s1 \<leftarrow> set_blk_order b o' s;
     h \<leftarrow> fl_get o' s1;
     s2 \<leftarrow> set_blk_next b h s1;
     fl_set o' b s2 }"

definition fl_pop :: "nat \<Rightarrow> buddy \<Rightarrow> (addr \<times> buddy) option" where
  "fl_pop o' s = do {
     b \<leftarrow> fl_get o' s;
     if b \<noteq> NULL
     then do { n \<leftarrow> blk_next b s; s1 \<leftarrow> fl_set o' n s; Some (b, s1) }
     else Some (b, s) }"

text \<open>The pointer to a pointer \<open>Block **p\<close> of fl_remove: the head of a list or the link of a
  block.\<close>

datatype link = Head nat | Next addr

fun read_link :: "link \<Rightarrow> buddy \<Rightarrow> addr option" where
  "read_link (Head o') s = fl_get o' s"
| "read_link (Next b) s = blk_next b s"

fun write_link :: "link \<Rightarrow> addr \<Rightarrow> buddy \<Rightarrow> buddy option" where
  "write_link (Head o') v s = fl_set o' v s"
| "write_link (Next b) v s = set_blk_next b v s"

partial_function (option) fl_remove_loop :: "link \<Rightarrow> addr \<Rightarrow> buddy \<Rightarrow> (bool \<times> buddy) option" where
  "fl_remove_loop p target s = do {
     cur \<leftarrow> read_link p s;
     if cur = NULL then Some (False, s)
     else if cur = target
     then do { n \<leftarrow> blk_next cur s; s1 \<leftarrow> write_link p n s; Some (True, s1) }
     else fl_remove_loop (Next cur) target s }"

definition fl_remove :: "nat \<Rightarrow> addr \<Rightarrow> buddy \<Rightarrow> (bool \<times> buddy) option" where
  "fl_remove o' target s = fl_remove_loop (Head o') target s"

definition buddy_init :: "addr option \<Rightarrow> buddy \<Rightarrow> buddy option" where
  "buddy_init choice s =
     (let (p, m) = sys_mmap choice ARENA_BYTES (b_mem s)
      in fl_push MAX_ORDER p (s\<lparr>b_base := p, b_mem := m\<rparr>))"

text \<open>\<open>int order = 0; int sz = 1; while (sz < pages) { sz <<= 1; order++; }\<close>\<close>

definition shl_int :: "int \<Rightarrow> int option" where
  "shl_int x = (if 2 * x < 2 ^ 31 then Some (2 * x) else None)"

partial_function (option) order_loop :: "int \<Rightarrow> nat \<Rightarrow> int \<Rightarrow> nat option" where
  "order_loop sz order pages =
     (if sz < pages then do { sz' \<leftarrow> shl_int sz; order_loop sz' (order + 1) pages } else Some order)"

definition order_of :: "int \<Rightarrow> nat option" where
  "order_of pages = order_loop 1 0 pages"

text \<open>\<open>while (o <= MAX_ORDER && !fl[o]) o++\<close>\<close>

function find_order :: "nat \<Rightarrow> buddy \<Rightarrow> nat option" where
  "find_order o' s =
     (if o' \<le> MAX_ORDER
      then (case fl_get o' s of
              None \<Rightarrow> None
            | Some h \<Rightarrow> if h = NULL then find_order (Suc o') s else Some o')
      else Some o')"
  by pat_completeness auto
termination by (relation "measure (\<lambda>(o', s). Suc MAX_ORDER - o')") auto

declare find_order.simps [simp del]

fun split_loop :: "nat \<Rightarrow> addr \<Rightarrow> nat \<Rightarrow> buddy \<Rightarrow> buddy option" where
  "split_loop order b o' s =
     (if order < o'
      then (let half = push_bit PG_LOG2 (push_bit (o' - 1) 1);
                bud = add64 b half
            in (case fl_push (o' - 1) bud s of
                  None \<Rightarrow> None
                | Some s' \<Rightarrow> split_loop order b (o' - 1) s'))
      else Some s)"

declare split_loop.simps [simp del]

definition buddy_alloc :: "int \<Rightarrow> buddy \<Rightarrow> (addr \<times> buddy) option" where
  "buddy_alloc pages s = do {
     order \<leftarrow> order_of pages;
     if MAX_ORDER < order then Some (NULL, s)
     else do {
       o' \<leftarrow> find_order order s;
       if MAX_ORDER < o' then Some (NULL, s)
       else do {
         (b, s1) \<leftarrow> fl_pop o' s;
         s2 \<leftarrow> split_loop order b o' s1;
         s3 \<leftarrow> set_blk_order b order s2;
         Some (b, s3) } } }"

definition buddy_addr :: "addr \<Rightarrow> addr \<Rightarrow> nat \<Rightarrow> addr" where
  "buddy_addr base p order =
     (let off = sub64 p base;
          bsz = push_bit PG_LOG2 (push_bit order 1);
          buddyo = off XOR bsz
      in add64 base buddyo)"

function free_loop :: "nat \<Rightarrow> addr \<Rightarrow> buddy \<Rightarrow> (nat \<times> addr \<times> buddy) option" where
  "free_loop order p s =
     (if order < MAX_ORDER
      then (let bud = buddy_addr (b_base s) p order
            in (case fl_remove order bud s of
                  None \<Rightarrow> None
                | Some (found, s') \<Rightarrow>
                    if \<not> found then Some (order, p, s')
                    else free_loop (Suc order) (if bud < p then bud else p) s'))
      else Some (order, p, s))"
  by pat_completeness auto
termination by (relation "measure (\<lambda>(order, p, s). MAX_ORDER - order)") auto

declare free_loop.simps [simp del]

definition buddy_free :: "addr \<Rightarrow> int \<Rightarrow> buddy \<Rightarrow> buddy option" where
  "buddy_free p pages s = do {
     order \<leftarrow> order_of pages;
     (order', p', s') \<leftarrow> free_loop order p s;
     fl_push order' p' s' }"

text \<open>What \<open>dump\<close> prints for one order: the number of blocks on its list.\<close>

partial_function (option) list_length :: "addr \<Rightarrow> nat \<Rightarrow> buddy \<Rightarrow> nat option" where
  "list_length b n s =
     (if b = NULL then Some n else do { b' \<leftarrow> blk_next b s; list_length b' (n + 1) s })"

definition dump_count :: "nat \<Rightarrow> buddy \<Rightarrow> nat option" where
  "dump_count o' s = do { h \<leftarrow> fl_get o' s; list_length h 0 s }"


section \<open>Orders\<close>

lemma order_loop_pow:
  assumes "pages \<le> 2 ^ 30" "i \<le> 30"
  shows "\<exists>k \<ge> i. k \<le> 30 \<and> order_loop (2 ^ i) n pages = Some (n + (k - i)) \<and> pages \<le> 2 ^ k \<and>
    (k = i \<or> 2 ^ (k - 1) < pages)"
  using assms
proof (induction "30 - i" arbitrary: i n)
  case 0
  then show ?case by (intro exI [of _ i]) (simp add: order_loop.simps)
next
  case (Suc d)
  show ?case
  proof (cases "2 ^ i < pages")
    case True
    have i: "Suc i \<le> 30" and d: "d = 30 - Suc i" using Suc.hyps(2) by simp_all
    then have "(2::int) * 2 ^ i < 2 ^ 31"
      using power_strict_increasing [of "Suc i" 31 "2::int"] by simp
    then have shl: "shl_int (2 ^ i) = Some (2 ^ Suc i)" by (simp add: shl_int_def)
    obtain k where k: "Suc i \<le> k" "k \<le> 30"
      "order_loop (2 ^ Suc i) (n + 1) pages = Some (n + 1 + (k - Suc i))" "pages \<le> 2 ^ k"
      "k = Suc i \<or> 2 ^ (k - 1) < pages"
      using Suc.hyps(1) [OF d Suc.prems(1) i, of "n + 1"] by blast
    have "order_loop (2 ^ i) n pages = Some (n + (k - i))"
      using k(1,3) True by (subst order_loop.simps) (simp add: shl)
    with k True show ?thesis by (intro exI [of _ k]) auto
  next
    case False
    then show ?thesis using Suc.prems by (intro exI [of _ i]) (simp add: order_loop.simps)
  qed
qed

text \<open>The order the code computes is the least k with pages at most 2^k.\<close>

lemma order_of_least:
  assumes "pages \<le> 2 ^ 30"
  shows "\<exists>k \<le> 30. order_of pages = Some k \<and> pages \<le> 2 ^ k \<and> (k = 0 \<or> 2 ^ (k - 1) < pages)"
  using order_loop_pow [OF assms, of 0 0] by (auto simp: order_of_def)

definition pord :: "int \<Rightarrow> nat" where
  "pord pages = (case order_of pages of None \<Rightarrow> 0 | Some k \<Rightarrow> k)"

section \<open>Blocks and partitions of the arena\<close>

definition bsize :: "nat \<Rightarrow> nat" where
  "bsize o' = 2 ^ (12 + o')"

abbreviation arena_size :: nat where "arena_size \<equiv> 2 ^ 20"

definition blk_ok :: "addr \<Rightarrow> addr \<times> nat \<Rightarrow> bool" where
  "blk_ok base b \<longleftrightarrow> snd b \<le> 8 \<and> base \<le> fst b \<and> bsize (snd b) dvd fst b - base \<and>
     fst b + bsize (snd b) \<le> base + arena_size"

definition bcover :: "(addr \<times> nat) multiset \<Rightarrow> addr set" where
  "bcover M = (\<Union>b \<in> set_mset M. {fst b..<fst b + bsize (snd b)})"

definition part :: "addr \<Rightarrow> (addr \<times> nat) multiset \<Rightarrow> bool" where
  "part base M \<longleftrightarrow> (\<forall>b \<in># M. blk_ok base b) \<and> apart_mset bsize M \<and>
     bcover M = {base..<base + arena_size}"

definition fblocks :: "(nat \<Rightarrow> addr list) \<Rightarrow> (addr \<times> nat) multiset" where
  "fblocks F = (\<Sum>o' \<in> {..8}. image_mset (\<lambda>x. (x, o')) (mset (F o')))"

lemma bsize_bounds: "8 < bsize o'" "12 < bsize o'" "0 < bsize o'"
proof -
  have "(2::nat) ^ 12 \<le> bsize o'" unfolding bsize_def by (rule power_increasing) auto
  then show "8 < bsize o'" "12 < bsize o'" "0 < bsize o'" by simp_all
qed

lemma bsize_Suc: "bsize (Suc o') = 2 * bsize o'"
  by (simp add: bsize_def power_add)

lemma bsize_8: "bsize 8 = arena_size"
  by (simp add: bsize_def)

lemma push_bit_bsize: "push_bit PG_LOG2 (push_bit o' 1) = bsize o'"
  by (simp add: bsize_def PG_LOG2_def push_bit_eq_mult power_add)

lemma push_bit_bsize' [simp]: "push_bit PG_LOG2 (2 ^ o') = bsize o'"
  by (simp add: bsize_def PG_LOG2_def push_bit_eq_mult power_add)

lemma bcover_simps [simp]:
  "bcover {#} = {}"
  "bcover (add_mset b M) = {fst b..<fst b + bsize (snd b)} \<union> bcover M"
  "bcover (A + B) = bcover A \<union> bcover B"
  by (auto simp: bcover_def)

lemma fblocks_mem: "(x, o') \<in># fblocks F \<longleftrightarrow> o' \<le> 8 \<and> x \<in> set (F o')"
  by (auto simp: fblocks_def set_mset_sum)

lemma fblocks_upd:
  assumes "o' \<le> 8" "mset (F o') = M + mset xs"
  shows "fblocks F = image_mset (\<lambda>x. (x, o')) M + fblocks (F(o' := xs))"
proof -
  have fin: "finite {..8::nat}" "o' \<in> {..8}" using assms by auto
  have "fblocks F = image_mset (\<lambda>x. (x, o')) (mset (F o')) +
      (\<Sum>i \<in> {..8} - {o'}. image_mset (\<lambda>x. (x, i)) (mset (F i)))"
    unfolding fblocks_def by (rule sum.remove [OF fin])
  moreover have "fblocks (F(o' := xs)) = image_mset (\<lambda>x. (x, o')) (mset xs) +
      (\<Sum>i \<in> {..8} - {o'}. image_mset (\<lambda>x. (x, i)) (mset (F i)))"
    unfolding fblocks_def by (subst sum.remove [OF fin]) (auto intro!: sum.cong)
  ultimately show ?thesis using assms(2) by simp
qed

lemma fblocks_push: "o' \<le> 8 \<Longrightarrow> fblocks (F(o' := x # F o')) = add_mset (x, o') (fblocks F)"
  using fblocks_upd [of o' "F(o' := x # F o')" "{#x#}" "F o'"] by simp

lemma fblocks_pop: "o' \<le> 8 \<Longrightarrow> F o' = x # xs \<Longrightarrow> fblocks F = add_mset (x, o') (fblocks (F(o' := xs)))"
  using fblocks_upd [of o' F "{#x#}" xs] by simp

lemma fblocks_remove:
  "o' \<le> 8 \<Longrightarrow> x \<in> set (F o') \<Longrightarrow>
   fblocks F = add_mset (x, o') (fblocks (F(o' := remove1 x (F o'))))"
  using fblocks_upd [of o' F "{#x#}" "remove1 x (F o')"] by simp

lemma apart_mset_cover:
  assumes "apart_mset bsize (A + B)"
  shows "bcover A \<inter> bcover B = {}"
proof -
  have False if x: "x \<in> bcover A" "x \<in> bcover B" for x
  proof -
    obtain a b where "a \<in># A" "fst a \<le> x" "x < fst a + bsize (snd a)"
      "b \<in># B" "fst b \<le> x" "x < fst b + bsize (snd b)"
      using x unfolding bcover_def by auto
    with apart_mset_union [OF assms, of a b] show False by (auto simp: apart_def)
  qed
  then show ?thesis by blast
qed

lemma part_split:
  assumes "part base (add_mset (x, Suc o') M)"
  shows "part base (add_mset (x, o') (add_mset (x + bsize o', o') M))"
proof -
  have ok: "Suc o' \<le> 8" "base \<le> x" "2 * bsize o' dvd x - base" "x + 2 * bsize o' \<le> base + arena_size"
    using assms by (auto simp: part_def blk_ok_def bsize_Suc)
  have dv: "bsize o' dvd x - base" using ok(3) by (metis dvd_mult_right mult.commute dvd_trans)
  have "x + bsize o' - base = (x - base) + bsize o'" using ok(2) by simp
  with dv have dv2: "bsize o' dvd x + bsize o' - base" by simp
  have un: "{x..<x + bsize (Suc o')} = {x..<x + bsize o'} \<union> {x + bsize o'..<x + bsize o' + bsize o'}"
    by (auto simp: bsize_Suc)
  have ap: "apart x (2 * bsize o') (fst b) (bsize (snd b))" if "b \<in># M" for b
    using assms that by (auto simp: part_def apart_mset_add bsize_Suc)
  have "apart x (bsize o') (fst b) (bsize (snd b)) \<and>
      apart (x + bsize o') (bsize o') (fst b) (bsize (snd b))" if "b \<in># M" for b
    using ap [OF that] by (auto simp: apart_def)
  moreover have "apart x (bsize o') (x + bsize o') (bsize o')" by (simp add: apart_def)
  moreover have "apart_mset bsize M" "bcover (add_mset (x, Suc o') M) = {base..<base + arena_size}"
    using assms by (simp_all add: part_def apart_mset_add)
  ultimately have "apart_mset bsize (add_mset (x, o') (add_mset (x + bsize o', o') M))"
    "bcover (add_mset (x, o') (add_mset (x + bsize o', o') M)) = {base..<base + arena_size}"
    using un by (simp_all add: apart_mset_add Un_assoc)
  moreover have "blk_ok base (x, o')" "blk_ok base (x + bsize o', o')"
    using ok dv dv2 by (simp_all add: blk_ok_def)
  ultimately show ?thesis using assms by (simp add: part_def)
qed

lemma part_join:
  assumes "part base (add_mset (x, o') (add_mset (x + bsize o', o') M))"
    and "2 * bsize o' dvd x - base" "Suc o' \<le> 8"
  shows "part base (add_mset (x, Suc o') M)"
proof -
  have un: "{x..<x + bsize (Suc o')} = {x..<x + bsize o'} \<union> {x + bsize o'..<x + bsize o' + bsize o'}"
    by (auto simp: bsize_Suc)
  have "apart x (bsize (Suc o')) (fst b) (bsize (snd b))" if "b \<in># M" for b
  proof -
    have "apart x (bsize o') (fst b) (bsize (snd b))"
      "apart (x + bsize o') (bsize o') (fst b) (bsize (snd b))"
      using assms(1) that by (auto simp: part_def apart_mset_add)
    then show ?thesis using bsize_bounds(3) [of "snd b"] bsize_bounds(3) [of o']
      by (auto simp: apart_def bsize_Suc)
  qed
  then show ?thesis
    using assms un by (auto simp: part_def apart_mset_add blk_ok_def bsize_Suc)
qed


section \<open>The invariant\<close>

text \<open>\<open>F o'\<close> is the list of free blocks of order o', H the blocks that are not on a list.
  Free and held blocks together partition the arena, and every list of the code is exactly the
  corresponding list of F.\<close>

definition lists_ok :: "buddy \<Rightarrow> (nat \<Rightarrow> addr list) \<Rightarrow> bool" where
  "lists_ok s F \<longleftrightarrow> length (b_fl s) = 9 \<and>
     (\<forall>o' \<le> 8. chain 0 (b_mem s) (b_fl s ! o') (F o') \<and> b_fl s ! o' < 2 ^ 64)"

definition buddy_core :: "buddy \<Rightarrow> (nat \<Rightarrow> addr list) \<Rightarrow> (addr \<times> nat) multiset \<Rightarrow> bool" where
  "buddy_core s F H \<longleftrightarrow> 0 < b_base s \<and> b_base s + arena_size \<le> USER_TOP \<and>
     mapped (b_mem s) (b_base s) arena_size \<and> part (b_base s) (fblocks F + H) \<and> lists_ok s F"

lemma buddy_coreD:
  assumes "buddy_core s F H"
  shows "0 < b_base s" "b_base s + arena_size \<le> USER_TOP"
    "mapped (b_mem s) (b_base s) arena_size" "part (b_base s) (fblocks F + H)" "lists_ok s F"
  using assms by (simp_all add: buddy_core_def)

lemma core_block:
  assumes "buddy_core s F H" "b \<in># fblocks F + H"
  shows "blk_ok (b_base s) b" "0 < fst b" "fst b + bsize (snd b) < 2 ^ 64"
    and "n \<le> bsize (snd b) \<Longrightarrow> mapped (b_mem s) (fst b) n"
proof -
  show ok: "blk_ok (b_base s) b" using assms by (auto simp: buddy_core_def part_def)
  have le: "b_base s \<le> fst b" "fst b + bsize (snd b) \<le> b_base s + arena_size"
    using ok by (simp_all add: blk_ok_def)
  show "0 < fst b" using le(1) buddy_coreD(1) [OF assms(1)] by linarith
  have "USER_TOP < 2 ^ 64" by (simp add: USER_TOP_def)
  then show "fst b + bsize (snd b) < 2 ^ 64"
    using le(2) buddy_coreD(2) [OF assms(1)] by linarith
  assume "n \<le> bsize (snd b)"
  then show "mapped (b_mem s) (fst b) n"
    using le by (intro mapped_mono [OF buddy_coreD(3) [OF assms(1)]]) linarith+
qed

lemma core_disjoint:
  assumes "buddy_core s F H"
  shows "bcover (fblocks F) \<inter> bcover H = {}"
  using assms by (intro apart_mset_cover) (simp add: buddy_core_def part_def)

lemma held_disjoint:
  assumes "buddy_core s F (add_mset (x, o') H)"
  shows "a \<in> bcover H \<Longrightarrow> a < x \<or> x + bsize o' \<le> a"
    and "a \<in> bcover (fblocks F) \<Longrightarrow> a < x \<or> x + bsize o' \<le> a"
proof -
  have "apart_mset bsize (fblocks F + add_mset (x, o') H)"
    using buddy_coreD(4) [OF assms] by (simp add: part_def)
  then have "apart_mset bsize ({#(x, o')#} + H)" using apart_mset_union_right by fastforce
  from apart_mset_cover [OF this] have d: "{x..<x + bsize o'} \<inter> bcover H = {}" by simp
  have d': "{x..<x + bsize o'} \<inter> bcover (fblocks F) = {}"
    using core_disjoint [OF assms] by auto
  show "a \<in> bcover H \<Longrightarrow> a < x \<or> x + bsize o' \<le> a"
    using d by (meson atLeastLessThan_iff disjoint_iff not_le)
  show "a \<in> bcover (fblocks F) \<Longrightarrow> a < x \<or> x + bsize o' \<le> a"
    using d' by (meson atLeastLessThan_iff disjoint_iff not_le)
qed

lemma free_block_apart:
  assumes "buddy_core s F H" "o' \<le> 8" "y \<in> set (F o')" "b \<in># H"
  shows "apart y (bsize o') (fst b) (bsize (snd b))"
  using apart_mset_union [of bsize "fblocks F" H "(y, o')" b] buddy_coreD(4) [OF assms(1)] assms(2-4)
  by (simp add: part_def fblocks_mem)

text \<open>Memory may change anywhere but in the nodes of free blocks.\<close>

lemma chain_frame:
  assumes "chain 0 m p xs" "\<And>x a. x \<in> set xs \<Longrightarrow> x \<le> a \<Longrightarrow> a < x + 8 \<Longrightarrow> m' a = m a"
  shows "chain 0 m' p xs"
  using assms(1)
  by (rule chain_cong [THEN iffD1, rotated]) (auto intro!: load64_cong simp: assms(2))

lemma core_mem:
  assumes "buddy_core s F H" "\<And>a. a \<in> bcover (fblocks F) \<Longrightarrow> m' a = b_mem s a" "dom m' = dom (b_mem s)"
  shows "buddy_core (s\<lparr>b_mem := m'\<rparr>) F H"
proof -
  have "chain 0 m' (b_fl s ! o') (F o')" if "o' \<le> 8" for o'
  proof (rule chain_frame)
    show "chain 0 (b_mem s) (b_fl s ! o') (F o')"
      using buddy_coreD(5) [OF assms(1)] that by (simp add: lists_ok_def)
    fix x a assume x: "x \<in> set (F o')" "x \<le> a" "a < x + 8"
    then have "(x, o') \<in># fblocks F" using that by (simp add: fblocks_mem)
    then have "a \<in> bcover (fblocks F)"
      using x(2,3) bsize_bounds(1) [of o'] unfolding bcover_def by force
    then show "m' a = b_mem s a" by (rule assms(2))
  qed
  then show ?thesis using assms(1,3) by (simp add: buddy_core_def lists_ok_def mapped_def)
qed

lemma core_same_blocks:
  "buddy_core s F H \<Longrightarrow> part (b_base s) (fblocks F + H') \<Longrightarrow> buddy_core s F H'"
  by (simp add: buddy_core_def)

section \<open>The list operations\<close>

lemma fl_push_range: "length (b_fl s) \<le> o' \<Longrightarrow> fl_push o' b s = None"
  by (auto simp: fl_push_def set_blk_order_def fl_get_def bind_eq_None_conv)

lemma set_blk_order_core:
  assumes "buddy_core s F (add_mset (x, o') H)"
  shows "\<exists>s'. set_blk_order x v s = Some s' \<and> buddy_core s' F (add_mset (x, o') H) \<and>
    b_base s' = b_base s \<and> b_fl s' = b_fl s \<and> (\<forall>a \<in> bcover H. b_mem s' a = b_mem s a)"
proof -
  have "12 \<le> bsize o'" using bsize_bounds(2) [of o'] by simp
  then have "mapped (b_mem s) x 12"
    using core_block(4) [OF assms, of "(x, o')" 12] by simp
  then have mp: "mapped (b_mem s) (x + 8) 4" by (rule mapped_mono) simp_all
  have out: "put32 (b_mem s) (x + 8) v a = b_mem s a" if "a < x \<or> x + bsize o' \<le> a" for a
    using that bsize_bounds(2) [of o'] by (intro put_outside) auto
  have "buddy_core (s\<lparr>b_mem := put32 (b_mem s) (x + 8) v\<rparr>) F (add_mset (x, o') H)"
    using mp by (intro core_mem [OF assms] out held_disjoint(2) [OF assms])
      (auto simp: dom_put mapped_def)
  then show ?thesis using mp out held_disjoint(1) [OF assms]
    by (simp add: set_blk_order_def store32_mapped)
qed

lemma fl_push_core:
  assumes "buddy_core s F (add_mset (x, o') H)"
  shows "\<exists>s'. fl_push o' x s = Some s' \<and> buddy_core s' (F(o' := x # F o')) H \<and>
    b_base s' = b_base s \<and> (\<forall>a \<in> bcover H. b_mem s' a = b_mem s a)"
proof -
  obtain s1 where s1: "set_blk_order x o' s = Some s1" "buddy_core s1 F (add_mset (x, o') H)"
    "b_base s1 = b_base s" "b_fl s1 = b_fl s" "\<forall>a \<in> bcover H. b_mem s1 a = b_mem s a"
    using set_blk_order_core [OF assms] by blast
  note blk = core_block [OF s1(2), of "(x, o')", simplified]
  have o8: "o' \<le> 8" using blk(1) by (simp add: blk_ok_def)
  have len: "length (b_fl s1) = 9" and ch: "\<And>i. i \<le> 8 \<Longrightarrow> chain 0 (b_mem s1) (b_fl s1 ! i) (F i)"
    and hd: "\<And>i. i \<le> 8 \<Longrightarrow> b_fl s1 ! i < 2 ^ 64"
    using buddy_coreD(5) [OF s1(2)] by (auto simp: lists_ok_def)
  let ?m = "put64 (b_mem s1) (x + 0) (b_fl s1 ! o')"
  let ?s2 = "s1\<lparr>b_mem := ?m, b_fl := (b_fl s1)[o' := x]\<rparr>"
  have mp: "mapped (b_mem s1) x 8" using blk(4) [of 8] bsize_bounds(1) [of o'] by simp
  have res: "fl_push o' x s = Some ?s2"
    using mp o8 len by (simp add: fl_push_def s1(1) fl_get_def fl_set_def set_blk_next_def
      store64_mapped)
  have ap: "apart (y + 0) 8 (x + 0) 8" if "i \<le> 8" "y \<in> set (F i)" for i y
    using free_block_apart [OF s1(2) that, of "(x, o')"] bsize_bounds(1) [of i]
      bsize_bounds(1) [of o'] by (auto elim!: apart_mono)
  have "chain 0 ?m x (x # F o')"
    using chain_push [of 0 "b_mem s1" "b_fl s1 ! o'" "F o'" x] ch [OF o8] hd [OF o8] blk(2)
      ap [OF o8] by simp
  moreover have "chain 0 ?m (b_fl s1 ! i) (F i)" if "i \<le> 8" for i
    using ap [OF that] ch [OF that] by (subst chain_put) simp_all
  moreover have "x < 2 ^ 64" using blk(3) by simp
  ultimately have "lists_ok ?s2 (F(o' := x # F o'))"
    using len hd o8 by (auto simp: lists_ok_def nth_list_update)
  moreover have "part (b_base s1) (fblocks (F(o' := x # F o')) + H)"
    using buddy_coreD(4) [OF s1(2)] o8 by (simp add: fblocks_push)
  moreover have "mapped ?m (b_base s1) arena_size"
    using buddy_coreD(3) [OF s1(2)] mp by (simp add: mapped_put)
  ultimately have core: "buddy_core ?s2 (F(o' := x # F o')) H"
    using buddy_coreD(1,2) [OF s1(2)] by (simp add: buddy_core_def)
  have "?m a = b_mem s1 a" if "a \<in> bcover H" for a
    using held_disjoint(1) [OF s1(2) that] bsize_bounds(1) [of o'] by (intro put_outside) auto
  then show ?thesis using res core s1(3,5) by auto
qed

lemma fl_pop_core:
  assumes "buddy_core s F H" "o' \<le> 8" "F o' = x # xs"
  shows "\<exists>s'. fl_pop o' s = Some (x, s') \<and> buddy_core s' (F(o' := xs)) (add_mset (x, o') H) \<and>
    b_base s' = b_base s \<and> b_mem s' = b_mem s"
proof -
  have len: "length (b_fl s) = 9" and ch: "\<And>i. i \<le> 8 \<Longrightarrow> chain 0 (b_mem s) (b_fl s ! i) (F i)"
    and hd: "\<And>i. i \<le> 8 \<Longrightarrow> b_fl s ! i < 2 ^ 64"
    using buddy_coreD(5) [OF assms(1)] by (auto simp: lists_ok_def)
  obtain q where q: "b_fl s ! o' = x" "x \<noteq> 0" "load64 (b_mem s) x = Some q"
    "chain 0 (b_mem s) q xs" using ch [OF assms(2)] assms(3) by auto
  let ?s' = "s\<lparr>b_fl := (b_fl s)[o' := q]\<rparr>"
  have "q < 2 ^ 64" using load64_SomeD(2) [OF q(3)] .
  then have "lists_ok ?s' (F(o' := xs))"
    using len ch hd q(4) assms(2) by (auto simp: lists_ok_def nth_list_update)
  moreover have "part (b_base s) (fblocks (F(o' := xs)) + add_mset (x, o') H)"
    using buddy_coreD(4) [OF assms(1)] fblocks_pop [of o' F x xs] assms(2,3) by simp
  ultimately have "buddy_core ?s' (F(o' := xs)) (add_mset (x, o') H)"
    using assms(1) by (simp add: buddy_core_def)
  then show ?thesis
    using q len assms(2) by (simp add: fl_pop_def fl_get_def fl_set_def blk_next_def)
qed


definition link_of :: "nat \<Rightarrow> addr list \<Rightarrow> link" where
  "link_of o' ys = (if ys = [] then Head o' else Next (last ys))"

lemma free_blocks_apart:
  assumes "buddy_core s F H" "i \<le> 8" "x \<in> set (F i)" "j \<le> 8" "y \<in> set (F j)" "(x, i) \<noteq> (y, j)"
  shows "apart x (bsize i) y (bsize j)"
proof -
  have "apart_mset bsize (fblocks F + H)" using buddy_coreD(4) [OF assms(1)] by (simp add: part_def)
  from apart_mset_neq [OF this, of "(x, i)" "(y, j)"] assms(2-6) show ?thesis
    by (simp add: fblocks_mem)
qed

lemma free_nodes_apart:
  assumes "buddy_core s F H" "i \<le> 8" "x \<in> set (F i)" "j \<le> 8" "y \<in> set (F j)" "(x, i) \<noteq> (y, j)"
  shows "apart (x + 0) 8 (y + 0) 8"
  using free_blocks_apart [OF assms] bsize_bounds(1) [of i] bsize_bounds(1) [of j]
  by (auto elim!: apart_mono)

lemma unlink_core:
  assumes core: "buddy_core s F H" "o' \<le> 8" "F o' = ys @ z # zs"
  shows "\<exists>n s'. blk_next z s = Some n \<and> write_link (link_of o' ys) n s = Some s' \<and>
    buddy_core s' (F(o' := ys @ zs)) (add_mset (z, o') H) \<and> b_base s' = b_base s \<and>
    (\<forall>a \<in> bcover H. b_mem s' a = b_mem s a)"
proof (cases "ys = []")
  case True
  then have F: "F o' = z # zs" using core(3) by simp
  obtain s' where s': "fl_pop o' s = Some (z, s')" "buddy_core s' (F(o' := zs)) (add_mset (z, o') H)"
    "b_base s' = b_base s" "b_mem s' = b_mem s"
    using fl_pop_core [OF core(1,2) F] by blast
  have "z \<noteq> 0" using core_block(2) [OF core(1), of "(z, o')"] core(2) F by (simp add: fblocks_mem)
  then obtain n where "blk_next z s = Some n" "fl_set o' n s = Some s'"
    using s'(1) by (auto simp: fl_pop_def split: Option.bind_splits if_splits)
  then show ?thesis using s' True by (auto simp: link_of_def)
next
  case False
  have len: "length (b_fl s) = 9" and ch: "\<And>i. i \<le> 8 \<Longrightarrow> chain 0 (b_mem s) (b_fl s ! i) (F i)"
    and hd: "\<And>i. i \<le> 8 \<Longrightarrow> b_fl s ! i < 2 ^ 64"
    using buddy_coreD(5) [OF core(1)] by (auto simp: lists_ok_def)
  have cho: "chain 0 (b_mem s) (b_fl s ! o') (ys @ z # zs)" using ch [OF core(2)] core(3) by simp
  have "mapped (b_mem s) (z + 0) 8" by (rule chain_mapped [OF cho]) simp
  then obtain n where n: "load64 (b_mem s) (z + 0) = Some n" "n < 2 ^ 64"
    using load64_mapped by blast
  let ?l = "last ys"
  let ?m = "put64 (b_mem s) (?l + 0) n"
  have l: "?l \<in> set (F o')" using False core(3) by simp
  have mp: "mapped (b_mem s) (?l + 0) 8" by (rule chain_mapped [OF cho]) (use False in simp)
  have "chain 0 ?m (b_fl s ! o') (ys @ zs)"
    using free_nodes_apart [OF core(1,2) _ core(2)] core(3)
    by (intro chain_unlink [OF cho False n]) auto
  moreover have "chain 0 ?m (b_fl s ! i) (F i)" if "i \<le> 8" "i \<noteq> o'" for i
    using ch [OF that(1)] free_nodes_apart [OF core(1) that(1) _ core(2) l] that(2)
    by (subst chain_put) auto
  ultimately have lists: "lists_ok (s\<lparr>b_mem := ?m\<rparr>) (F(o' := ys @ zs))"
    using len hd by (simp add: lists_ok_def)
  have "fblocks F = add_mset (z, o') (fblocks (F(o' := ys @ zs)))"
    using fblocks_upd [of o' F "{#z#}" "ys @ zs"] core(2,3) by simp
  then have "part (b_base s) (fblocks (F(o' := ys @ zs)) + add_mset (z, o') H)"
    using buddy_coreD(4) [OF core(1)] by simp
  then have "buddy_core (s\<lparr>b_mem := ?m\<rparr>) (F(o' := ys @ zs)) (add_mset (z, o') H)"
    using lists core(1) mp by (simp add: buddy_core_def mapped_put)
  moreover have "?m a = b_mem s a" if a: "a \<in> bcover H" for a
  proof -
    have "(?l, o') \<in># fblocks F" using l core(2) by (simp add: fblocks_mem)
    then have "{?l..<?l + bsize o'} \<subseteq> bcover (fblocks F)" unfolding bcover_def by force
    then have "a \<notin> {?l..<?l + bsize o'}" using core_disjoint [OF core(1)] a by blast
    then show ?thesis using bsize_bounds(1) [of o'] by (intro put_outside) auto
  qed
  ultimately show ?thesis using n mp False
    by (auto simp: blk_next_def link_of_def set_blk_next_def store64_mapped)
qed

lemma fl_remove_loop_core:
  assumes "buddy_core s F H" "o' \<le> 8" "F o' = ys @ zs"
  shows "\<exists>s'. fl_remove_loop (link_of o' ys) target s = Some (target \<in> set zs, s') \<and>
    (if target \<in> set zs
     then buddy_core s' (F(o' := remove1 target (F o'))) (add_mset (target, o') H) else s' = s) \<and>
    b_base s' = b_base s \<and> (\<forall>a \<in> bcover H. b_mem s' a = b_mem s a)"
  using assms(3)
proof (induction zs arbitrary: ys)
  case Nil
  have cho: "chain 0 (b_mem s) (b_fl s ! o') (ys @ [])" "o' < length (b_fl s)"
    using buddy_coreD(5) [OF assms(1)] assms(2) Nil by (auto simp: lists_ok_def)
  then have "read_link (link_of o' ys) s = Some 0"
    using chain_last [OF cho(1)]
    by (auto simp: link_of_def blk_next_def fl_get_def)
  then show ?case by (subst fl_remove_loop.simps) simp
next
  case (Cons z zs)
  have cho: "chain 0 (b_mem s) (b_fl s ! o') (ys @ z # zs)" "o' < length (b_fl s)"
    using buddy_coreD(5) [OF assms(1)] assms(2) Cons.prems by (auto simp: lists_ok_def)
  then have rd: "read_link (link_of o' ys) s = Some z"
    using chain_last [OF cho(1)]
    by (auto simp: link_of_def blk_next_def fl_get_def)
  have z0: "z \<noteq> 0" using chain_nonzero [OF cho(1)] by auto
  have dist: "distinct (ys @ z # zs)" by (rule chain_distinct [OF cho(1)])
  show ?case
  proof (cases "z = target")
    case True
    then have "remove1 target (F o') = ys @ zs"
      using dist Cons.prems by (simp add: remove1_append)
    moreover obtain n s' where "blk_next z s = Some n" "write_link (link_of o' ys) n s = Some s'"
      "buddy_core s' (F(o' := ys @ zs)) (add_mset (z, o') H)" "b_base s' = b_base s"
      "\<forall>a \<in> bcover H. b_mem s' a = b_mem s a"
      using unlink_core [OF assms(1,2) Cons.prems] by blast
    ultimately show ?thesis using True z0 rd by (subst fl_remove_loop.simps) auto
  next
    case False
    have "link_of o' (ys @ [z]) = Next z" by (simp add: link_of_def)
    then have "fl_remove_loop (link_of o' ys) target s =
        fl_remove_loop (link_of o' (ys @ [z])) target s"
      using False z0 rd by (subst fl_remove_loop.simps) simp
    then show ?thesis using Cons.IH [of "ys @ [z]"] Cons.prems False by auto
  qed
qed

lemma fl_remove_core:
  assumes "buddy_core s F H" "o' \<le> 8"
  shows "\<exists>s'. fl_remove o' target s = Some (target \<in> set (F o'), s') \<and>
    (if target \<in> set (F o')
     then buddy_core s' (F(o' := remove1 target (F o'))) (add_mset (target, o') H) else s' = s) \<and>
    b_base s' = b_base s \<and> (\<forall>a \<in> bcover H. b_mem s' a = b_mem s a)"
  using fl_remove_loop_core [OF assms, of "[]"] by (simp add: fl_remove_def link_of_def)


section \<open>Buddies\<close>

lemma xor_one_nat: "(j::nat) XOR 1 = (if even j then j + 1 else j - 1)"
  unfolding xor_one_eq by (auto elim: oddE)

lemma xor_block: "(j * 2 ^ n :: nat) XOR 2 ^ n = (if even j then j * 2 ^ n + 2 ^ n else j * 2 ^ n - 2 ^ n)"
proof -
  have "push_bit n (j XOR 1) = push_bit n j XOR push_bit n 1" by (rule push_bit_xor)
  then have "j * 2 ^ n XOR 2 ^ n = push_bit n (j XOR 1)"
    by (simp only: push_bit_eq_mult mult_1)
  also have "j XOR 1 = (if even j then j + 1 else j - 1)" by (rule xor_one_nat)
  finally show ?thesis by (simp add: push_bit_eq_mult algebra_simps)
qed

lemma buddy_addr_cases:
  assumes "blk_ok base (p, o')" "o' < 8" "base + arena_size \<le> USER_TOP"
  shows "(2 * bsize o' dvd p - base \<and> buddy_addr base p o' = p + bsize o') \<or>
    (\<not> 2 * bsize o' dvd p - base \<and> base + bsize o' \<le> p \<and> buddy_addr base p o' = p - bsize o' \<and>
      2 * bsize o' dvd p - bsize o' - base)"
proof -
  have ok: "base \<le> p" "bsize o' dvd p - base" "p + bsize o' \<le> base + arena_size"
    using assms(1) by (simp_all add: blk_ok_def)
  then obtain j where j: "p - base = j * bsize o'" by (metis dvd_def mult.commute)
  have top: "base + arena_size < 2 ^ 64" using assms(3) by (simp add: USER_TOP_def)
  have off: "sub64 p base = j * bsize o'"
    using ok(1,3) top bsize_bounds(3) [of o'] by (subst sub64_exact) (auto simp: j)
  have ba: "buddy_addr base p o' = add64 base (if even j then j * bsize o' + bsize o' else j * bsize o' - bsize o')"
    unfolding buddy_addr_def off push_bit_bsize Let_def bsize_def by (simp only: xor_block)
  have dvd: "2 * bsize o' dvd j * bsize o' \<longleftrightarrow> even j" using bsize_bounds(3) [of o'] by simp
  show ?thesis
  proof (cases "even j")
    case True
    then have "2 * bsize o' dvd p - base" unfolding j dvd by simp
    moreover have "2 * bsize o' dvd arena_size"
    proof -
      have "2 * bsize o' = 2 ^ (13 + o')" by (simp add: bsize_def power_add)
      also have "(2::nat) ^ (13 + o') dvd 2 ^ 20" using assms(2) by (intro le_imp_power_dvd) simp
      finally show ?thesis .
    qed
    then have "j * bsize o' + bsize o' \<le> arena_size" using ok(1,3) j by linarith
    then have "add64 base (j * bsize o' + bsize o') = p + bsize o'"
      using top ok(1) j by (subst add64_exact) linarith+
    ultimately show ?thesis using ba True by simp
  next
    case False
    then have "0 < j" "\<not> 2 * bsize o' dvd p - base" unfolding j dvd by (auto elim: oddE)
    have le: "bsize o' \<le> p - base" unfolding j using \<open>0 < j\<close> by simp
    have "add64 base (j * bsize o' - bsize o') = p - bsize o'"
      using top ok(1,3) j le by (subst add64_exact) linarith+
    moreover have "p - bsize o' - base = (j - 1) * bsize o'"
      using j le by (simp add: diff_mult_distrib)
    then have "2 * bsize o' dvd p - bsize o' - base" using False \<open>0 < j\<close> by simp
    ultimately show ?thesis using ba False \<open>\<not> 2 * bsize o' dvd p - base\<close> le ok(1) by auto
  qed
qed

lemma buddy_addr_invol:
  assumes "blk_ok base (p, o')" "blk_ok base (buddy_addr base p o', o')" "o' < 8"
    "base + arena_size \<le> USER_TOP"
  shows "buddy_addr base (buddy_addr base p o') o' = p"
  using buddy_addr_cases [OF assms(1,3,4)] buddy_addr_cases [OF assms(2,3,4)]
proof (elim disjE conjE)
  assume "buddy_addr base p o' = p + bsize o'"
    and "buddy_addr base (buddy_addr base p o') o' = buddy_addr base p o' + bsize o'"
    and d: "2 * bsize o' dvd p - base" "2 * bsize o' dvd buddy_addr base p o' - base"
  have "base \<le> p" using assms(1) by (simp add: blk_ok_def)
  then have "buddy_addr base p o' - base = (p - base) + bsize o'"
    using \<open>buddy_addr base p o' = p + bsize o'\<close> by simp
  then have "2 * bsize o' dvd bsize o'" using d by (metis dvd_add_right_iff)
  then show ?thesis using bsize_bounds(3) [of o'] by (auto dest: dvd_imp_le)
qed auto

definition no_buddies :: "addr \<Rightarrow> (nat \<Rightarrow> addr list) \<Rightarrow> bool" where
  "no_buddies base F \<longleftrightarrow> (\<forall>o' < 8. \<forall>x \<in> set (F o'). buddy_addr base x o' \<notin> set (F o'))"

lemma no_buddies_sub:
  "no_buddies base F \<Longrightarrow> set xs \<subseteq> set (F o') \<Longrightarrow> no_buddies base (F(o' := xs))"
  by (auto simp: no_buddies_def)

lemma no_buddies_push:
  assumes "no_buddies base F" "buddy_core s F H" "base = b_base s" "blk_ok base (y, o')"
    and "o' < 8 \<longrightarrow> buddy_addr base y o' \<notin> set (F o') \<and> buddy_addr base y o' \<noteq> y"
  shows "no_buddies base (F(o' := y # F o'))"
proof -
  have top: "base + arena_size \<le> USER_TOP" using buddy_coreD(2) [OF assms(2)] assms(3) by simp
  have "buddy_addr base x o' \<noteq> y" if x: "x \<in> set (F o')" "o' < 8" for x
  proof
    assume y: "buddy_addr base x o' = y"
    have "blk_ok base (x, o')"
      using core_block(1) [OF assms(2), of "(x, o')"] x assms(3) by (simp add: fblocks_mem)
    then have "buddy_addr base y o' = x"
      using buddy_addr_invol [of base x o'] assms(4) y x(2) top by simp
    then show False using assms(5) x by simp
  qed
  then show ?thesis using assms(1,5) by (auto simp: no_buddies_def)
qed

lemma held_not_free:
  assumes "buddy_core s F (add_mset (b, o') H)" "i \<le> 8"
  shows "b \<notin> set (F i)"
  using free_block_apart [OF assms, of b "(b, o')"] bsize_bounds(3) [of i] bsize_bounds(3) [of o']
  by (auto simp: apart_def)

section \<open>The specification: nine lists of block addresses\<close>

fun spec_split :: "nat \<Rightarrow> addr \<Rightarrow> nat \<Rightarrow> (nat \<Rightarrow> addr list) \<Rightarrow> nat \<Rightarrow> addr list" where
  "spec_split order b 0 F = F"
| "spec_split order b (Suc i) F =
     (if order \<le> i then spec_split order b i (F(i := (b + bsize i) # F i)) else F)"

definition spec_alloc :: "int \<Rightarrow> (nat \<Rightarrow> addr list) \<Rightarrow> addr \<times> (nat \<Rightarrow> addr list)" where
  "spec_alloc pages F =
     (case find (\<lambda>i. F i \<noteq> []) [pord pages..<9] of
        None \<Rightarrow> (0, F)
      | Some i \<Rightarrow> (hd (F i), spec_split (pord pages) (hd (F i)) i (F(i := tl (F i)))))"

function spec_join ::
  "addr \<Rightarrow> nat \<Rightarrow> addr \<Rightarrow> (nat \<Rightarrow> addr list) \<Rightarrow> nat \<times> addr \<times> (nat \<Rightarrow> addr list)" where
  "spec_join base k p F =
     (let bud = buddy_addr base p k
      in if k < 8 \<and> bud \<in> set (F k)
         then spec_join base (Suc k) (if bud < p then bud else p) (F(k := remove1 bud (F k)))
         else (k, p, F))"
  by pat_completeness auto
termination by (relation "measure (\<lambda>(base, k, p, F). 8 - k)") auto

declare spec_join.simps [simp del]

definition spec_free :: "addr \<Rightarrow> addr \<Rightarrow> int \<Rightarrow> (nat \<Rightarrow> addr list) \<Rightarrow> nat \<Rightarrow> addr list" where
  "spec_free base p pages F = (let (k, q, F') = spec_join base (pord pages) p F in F'(k := q # F' k))"

lemma find_first: "k \<le> i \<Longrightarrow> i < n \<Longrightarrow> P i \<Longrightarrow> (\<And>j. k \<le> j \<Longrightarrow> j < i \<Longrightarrow> \<not> P j) \<Longrightarrow> find P [k..<n] = Some i"
  by (induction "i - k" arbitrary: k) (auto simp: upt_conv_Cons)

section \<open>Allocation\<close>

lemma split_loop_core:
  assumes "buddy_core s F (add_mset (b, o') H)" "order \<le> o'" "no_buddies (b_base s) F"
  shows "\<exists>s' F'. split_loop order b o' s = Some s' \<and> buddy_core s' F' (add_mset (b, order) H) \<and>
    no_buddies (b_base s) F' \<and> b_base s' = b_base s \<and> (\<forall>a \<in> bcover H. b_mem s' a = b_mem s a) \<and>
    spec_split order b o' F = F'"
  using assms
proof (induction "o' - order" arbitrary: o' s F)
  case 0
  then show ?case by (subst split_loop.simps) (cases o'; simp)
next
  case (Suc d)
  then obtain i where i: "o' = Suc i" "order \<le> i" "d = i - order" by (cases o') auto
  let ?y = "b + bsize i"
  have core: "buddy_core s F (add_mset (?y, i) (add_mset (b, i) H))"
    using part_split [of "b_base s" b i "fblocks F + H"] buddy_coreD(4) [OF Suc.prems(1)]
    by (intro core_same_blocks [OF Suc.prems(1)]) (simp add: i(1) add_mset_commute)
  note blk = core_block [OF core, of "(?y, i)", simplified]
  have blkb: "blk_ok (b_base s) (b, i)" using core_block(1) [OF core, of "(b, i)"] by simp
  have top: "b_base s + arena_size \<le> USER_TOP" by (rule buddy_coreD(2) [OF core])
  have okS: "blk_ok (b_base s) (b, Suc i)"
    using core_block(1) [OF Suc.prems(1), of "(b, o')"] i(1) by simp
  then have i8: "i < 8" by (simp add: blk_ok_def)
  have dv: "2 * bsize i dvd b - b_base s" using okS by (simp add: blk_ok_def bsize_Suc)
  have "buddy_addr (b_base s) b i = ?y" using buddy_addr_cases [OF blkb i8 top] dv by auto
  then have bk: "buddy_addr (b_base s) ?y i = b"
    using buddy_addr_invol [OF blkb _ i8 top] blk(1) by simp
  obtain s1 where s1: "fl_push i ?y s = Some s1"
    "buddy_core s1 (F(i := ?y # F i)) (add_mset (b, i) H)" "b_base s1 = b_base s"
    "\<forall>a \<in> bcover (add_mset (b, i) H). b_mem s1 a = b_mem s a"
    using fl_push_core [OF core] by blast
  have "b \<notin> set (F i)" using held_not_free [of s F b i "add_mset (?y, i) H" i] core i8
    by (simp add: add_mset_commute)
  then have nob: "no_buddies (b_base s) (F(i := ?y # F i))"
    using no_buddies_push [OF Suc.prems(3) core refl blk(1)] bk bsize_bounds(3) [of i] by simp
  have "add64 b (bsize i) = ?y" using blk(3) by (intro add64_exact) simp
  then have step: "split_loop order b o' s = split_loop order b i s1"
    using i(2) s1(1) unfolding i(1) by (subst split_loop.simps) simp
  have "no_buddies (b_base s1) (F(i := ?y # F i))" using nob s1(3) by simp
  from Suc.hyps(1) [OF i(3) s1(2) i(2) this] obtain s' F' where
    s': "split_loop order b i s1 = Some s'" "buddy_core s' F' (add_mset (b, order) H)"
    "no_buddies (b_base s1) F'" "b_base s' = b_base s1" "\<forall>a \<in> bcover H. b_mem s' a = b_mem s1 a"
    "spec_split order b i (F(i := ?y # F i)) = F'"
    by blast
  have "spec_split order b o' F = F'" using s'(6) i(1,2) by simp
  moreover have "\<forall>a \<in> bcover H. b_mem s' a = b_mem s a" using s'(5) s1(4) by simp
  moreover have "split_loop order b o' s = Some s'" using step s'(1) by simp
  moreover have "no_buddies (b_base s) F'" "b_base s' = b_base s" using s'(3,4) s1(3) by simp_all
  ultimately show ?case using s'(2) by blast
qed

lemma find_order_first:
  assumes "lists_ok s F" "k \<le> 9"
  shows "\<exists>i. find_order k s = Some i \<and> k \<le> i \<and> i \<le> 9 \<and> (\<forall>j. k \<le> j \<and> j < i \<longrightarrow> F j = []) \<and>
    (i \<le> 8 \<longrightarrow> F i \<noteq> [])"
  using assms(2)
proof (induction "9 - k" arbitrary: k)
  case 0
  then have "k = 9" by simp
  then show ?case by (intro exI [of _ 9]) (auto simp: find_order.simps MAX_ORDER_def)
next
  case (Suc d)
  then have k8: "k \<le> 8" by simp
  then have len: "fl_get k s = Some (b_fl s ! k)" and ch: "chain 0 (b_mem s) (b_fl s ! k) (F k)"
    using assms(1) by (auto simp: lists_ok_def fl_get_def)
  show ?case
  proof (cases "b_fl s ! k = 0")
    case True
    then have Fk: "F k = []" using ch by simp
    obtain i where i: "find_order (Suc k) s = Some i" "Suc k \<le> i" "i \<le> 9"
      "\<forall>j. Suc k \<le> j \<and> j < i \<longrightarrow> F j = []" "i \<le> 8 \<longrightarrow> F i \<noteq> []"
    proof -
      have "d = 9 - Suc k" "Suc k \<le> 9" using Suc.hyps(2) k8 by simp_all
      from Suc.hyps(1) [OF this] that show thesis by blast
    qed
    have "F j = []" if "k \<le> j" "j < i" for j
      using that i(4) Fk by (cases "j = k") auto
    then show ?thesis using i True len k8
      by (intro exI [of _ i]) (simp add: find_order.simps [of k] MAX_ORDER_def)
  next
    case False
    then have "F k \<noteq> []" using ch by (cases "F k") auto
    then show ?thesis using False len k8
      by (intro exI [of _ k]) (auto simp: find_order.simps [of k] MAX_ORDER_def)
  qed
qed

lemma pord_order_of: "pages \<le> 2 ^ 30 \<Longrightarrow> order_of pages = Some (pord pages)"
  using order_of_least [of pages] by (auto simp: pord_def)

lemma buddy_alloc_core:
  assumes "buddy_core s F H" "no_buddies (b_base s) F" "pages \<le> 2 ^ 30"
  shows "if \<exists>i. pord pages \<le> i \<and> i \<le> 8 \<and> F i \<noteq> []
    then \<exists>b s' F'. buddy_alloc pages s = Some (b, s') \<and> b \<noteq> 0 \<and>
      buddy_core s' F' (add_mset (b, pord pages) H) \<and> no_buddies (b_base s') F' \<and>
      b_base s' = b_base s \<and> (\<forall>a \<in> bcover H. b_mem s' a = b_mem s a) \<and> spec_alloc pages F = (b, F')
    else buddy_alloc pages s = Some (0, s) \<and> spec_alloc pages F = (0, F)"
proof (cases "pord pages \<le> 8")
  case False
  then show ?thesis by (simp add: buddy_alloc_def pord_order_of [OF assms(3)] MAX_ORDER_def spec_alloc_def)
next
  case True
  obtain i where i: "find_order (pord pages) s = Some i" "pord pages \<le> i" "i \<le> 9"
    "\<forall>j. pord pages \<le> j \<and> j < i \<longrightarrow> F j = []" "i \<le> 8 \<longrightarrow> F i \<noteq> []"
    using find_order_first [OF buddy_coreD(5) [OF assms(1)], of "pord pages"] True by auto
  show ?thesis
  proof (cases "i \<le> 8")
    case False
    then have no: "\<not> (\<exists>j. pord pages \<le> j \<and> j \<le> 8 \<and> F j \<noteq> [])" using i(3,4) by auto
    then have "find (\<lambda>i. F i \<noteq> []) [pord pages..<9] = None" by (auto simp: find_None_iff)
    with no show ?thesis using i(1) True False
      by (simp add: buddy_alloc_def pord_order_of [OF assms(3)] MAX_ORDER_def spec_alloc_def)
  next
    case i8: True
    then obtain b xs where F: "F i = b # xs" using i(5) by (cases "F i") auto
    obtain s1 where s1: "fl_pop i s = Some (b, s1)" "buddy_core s1 (F(i := xs)) (add_mset (b, i) H)"
      "b_base s1 = b_base s" "b_mem s1 = b_mem s"
      using fl_pop_core [OF assms(1) i8 F] by blast
    have "no_buddies (b_base s1) (F(i := xs))"
      using no_buddies_sub [OF assms(2), of xs i] F s1(3) by auto
    then obtain s2 F' where s2: "split_loop (pord pages) b i s1 = Some s2"
      "buddy_core s2 F' (add_mset (b, pord pages) H)" "no_buddies (b_base s1) F'"
      "b_base s2 = b_base s1" "\<forall>a \<in> bcover H. b_mem s2 a = b_mem s1 a"
      "spec_split (pord pages) b i (F(i := xs)) = F'"
      using split_loop_core [OF s1(2) i(2)] by blast
    obtain s3 where s3: "set_blk_order b (pord pages) s2 = Some s3"
      "buddy_core s3 F' (add_mset (b, pord pages) H)" "b_base s3 = b_base s2"
      "\<forall>a \<in> bcover H. b_mem s3 a = b_mem s2 a"
      using set_blk_order_core [OF s2(2)] by blast
    have al: "buddy_alloc pages s = Some (b, s3)"
      using True i(1) i8 s1(1) s2(1) s3(1)
      by (simp add: buddy_alloc_def pord_order_of [OF assms(3)] MAX_ORDER_def)
    have "b \<noteq> 0" using core_block(2) [OF s3(2), of "(b, pord pages)"] by simp
    moreover have "\<forall>a \<in> bcover H. b_mem s3 a = b_mem s a" using s3(4) s2(5) s1(4) by simp
    moreover have "b_base s3 = b_base s" "no_buddies (b_base s3) F'"
      using s3(3) s2(3,4) s1(3) by simp_all
    moreover have "find (\<lambda>i. F i \<noteq> []) [pord pages..<9] = Some i"
      using i(2,4,5) i8 by (intro find_first) auto
    then have "spec_alloc pages F = (b, F')" using s2(6) F by (simp add: spec_alloc_def)
    moreover have ex: "\<exists>j. pord pages \<le> j \<and> j \<le> 8 \<and> F j \<noteq> []" using i(2,5) i8 by blast
    ultimately show ?thesis using al s3(2) by (subst if_P [OF ex]) blast
  qed
qed

section \<open>Freeing\<close>

lemma free_loop_core:
  assumes "buddy_core s F (add_mset (p, o') H)" "no_buddies (b_base s) F"
  shows "\<exists>k q s' F'. free_loop o' p s = Some (k, q, s') \<and> buddy_core s' F' (add_mset (q, k) H) \<and>
    no_buddies (b_base s') F' \<and> b_base s' = b_base s \<and>
    (k < 8 \<longrightarrow> buddy_addr (b_base s') q k \<notin> set (F' k)) \<and>
    (\<forall>a \<in> bcover H. b_mem s' a = b_mem s a) \<and> spec_join (b_base s) o' p F = (k, q, F')"
  using assms
proof (induction "8 - o'" arbitrary: o' p s F)
  case 0
  then show ?case
    by (intro exI [of _ o'] exI [of _ p] exI [of _ s] exI [of _ F])
      (simp add: free_loop.simps spec_join.simps [of _ o'] MAX_ORDER_def)
next
  case (Suc d)
  then have o8: "o' < 8" by simp
  let ?bud = "buddy_addr (b_base s) p o'"
  obtain s1 where s1: "fl_remove o' ?bud s = Some (?bud \<in> set (F o'), s1)"
    "if ?bud \<in> set (F o')
     then buddy_core s1 (F(o' := remove1 ?bud (F o'))) (add_mset (?bud, o') (add_mset (p, o') H))
     else s1 = s"
    "b_base s1 = b_base s" "\<forall>a \<in> bcover (add_mset (p, o') H). b_mem s1 a = b_mem s a"
    using fl_remove_core [OF Suc.prems(1), of o' ?bud] o8 by auto
  show ?case
  proof (cases "?bud \<in> set (F o')")
    case False
    then show ?thesis using s1 Suc.prems o8
      by (intro exI [of _ o'] exI [of _ p] exI [of _ s] exI [of _ F])
        (simp add: free_loop.simps [of o'] spec_join.simps [of _ o'] MAX_ORDER_def)
  next
    case True
    let ?F = "F(o' := remove1 ?bud (F o'))"
    let ?q = "if ?bud < p then ?bud else p"
    have c: "buddy_core s1 ?F (add_mset (?bud, o') (add_mset (p, o') H))" using s1(2) True by simp
    have okp: "blk_ok (b_base s) (p, o')" using core_block(1) [OF Suc.prems(1), of "(p, o')"] by simp
    have top: "b_base s + arena_size \<le> USER_TOP" by (rule buddy_coreD(2) [OF Suc.prems(1)])
    have pt: "part (b_base s) (add_mset (?bud, o') (add_mset (p, o') (fblocks ?F + H)))"
      using buddy_coreD(4) [OF c] s1(3) by (simp add: add_mset_commute)
    have "part (b_base s) (add_mset (?q, Suc o') (fblocks ?F + H))"
    proof (cases "2 * bsize o' dvd p - b_base s")
      case True
      then have b: "?bud = p + bsize o'" using buddy_addr_cases [OF okp o8 top] by auto
      have "part (b_base s) (add_mset (p, o') (add_mset (p + bsize o', o') (fblocks ?F + H)))"
        using pt unfolding b by (simp add: add_mset_commute)
      from part_join [OF this True] o8 show ?thesis using b by simp
    next
      case False
      then have b: "b_base s + bsize o' \<le> p" "?bud = p - bsize o'"
        "2 * bsize o' dvd p - bsize o' - b_base s"
        using buddy_addr_cases [OF okp o8 top] by auto
      have le: "p - bsize o' + bsize o' = p" "p - bsize o' < p"
        using b(1) bsize_bounds(3) [of o'] by linarith+
      have "part (b_base s) (add_mset (p - bsize o', o')
          (add_mset (p - bsize o' + bsize o', o') (fblocks ?F + H)))"
        using pt unfolding b(2) le(1) .
      from part_join [OF this b(3)] o8 show ?thesis using b(2) le(2) by simp
    qed
    then have c2: "buddy_core s1 ?F (add_mset (?q, Suc o') H)"
      using s1(3) by (intro core_same_blocks [OF c]) simp
    have "no_buddies (b_base s1) ?F"
      using no_buddies_sub [OF Suc.prems(2) set_remove1_subset, of o' ?bud] by (simp add: s1(3))
    from Suc.hyps(1) [OF _ c2 this] Suc.hyps(2) obtain k q s' F' where
      r: "free_loop (Suc o') ?q s1 = Some (k, q, s')" "buddy_core s' F' (add_mset (q, k) H)"
      "no_buddies (b_base s') F'" "b_base s' = b_base s1"
      "k < 8 \<longrightarrow> buddy_addr (b_base s') q k \<notin> set (F' k)"
      "\<forall>a \<in> bcover H. b_mem s' a = b_mem s1 a" "spec_join (b_base s1) (Suc o') ?q ?F = (k, q, F')" by fastforce
    have "spec_join (b_base s) o' p F = (k, q, F')"
      using True o8 r(7) s1(3) by (subst spec_join.simps) (simp add: Let_def)
    moreover have "free_loop o' p s = Some (k, q, s')"
      using s1(1) True o8 r(1) by (subst free_loop.simps) (simp add: MAX_ORDER_def)
    moreover have "\<forall>a \<in> bcover H. b_mem s' a = b_mem s a" using r(6) s1(4) by simp
    ultimately show ?thesis using r s1(3)
      by (intro exI [of _ k] exI [of _ q] exI [of _ s'] exI [of _ F']) simp
  qed
qed

lemma buddy_addr_neq:
  assumes "blk_ok base (p, o')" "o' < 8" "base + arena_size \<le> USER_TOP"
  shows "buddy_addr base p o' \<noteq> p"
  using buddy_addr_cases [OF assms] bsize_bounds(3) [of o'] by auto

lemma buddy_free_core:
  assumes "buddy_core s F (add_mset (p, pord pages) H)" "no_buddies (b_base s) F" "pages \<le> 2 ^ 30"
  shows "\<exists>s' F'. buddy_free p pages s = Some s' \<and> buddy_core s' F' H \<and>
    no_buddies (b_base s') F' \<and> b_base s' = b_base s \<and> (\<forall>a \<in> bcover H. b_mem s' a = b_mem s a) \<and>
    spec_free (b_base s) p pages F = F'"
proof -
  obtain k q s1 F1 where r: "free_loop (pord pages) p s = Some (k, q, s1)"
    "buddy_core s1 F1 (add_mset (q, k) H)" "no_buddies (b_base s1) F1" "b_base s1 = b_base s"
    "k < 8 \<longrightarrow> buddy_addr (b_base s1) q k \<notin> set (F1 k)"
    "\<forall>a \<in> bcover H. b_mem s1 a = b_mem s a" "spec_join (b_base s) (pord pages) p F = (k, q, F1)"
    using free_loop_core [OF assms(1,2)] by blast
  have ok: "blk_ok (b_base s1) (q, k)" using core_block(1) [OF r(2), of "(q, k)"] by simp
  obtain s2 where s2: "fl_push k q s1 = Some s2" "buddy_core s2 (F1(k := q # F1 k)) H"
    "b_base s2 = b_base s1" "\<forall>a \<in> bcover H. b_mem s2 a = b_mem s1 a"
    using fl_push_core [OF r(2)] by blast
  have "no_buddies (b_base s2) (F1(k := q # F1 k))"
    using no_buddies_push [OF r(3,2) refl ok] r(5) s2(3)
      buddy_addr_neq [OF ok] buddy_coreD(2) [OF r(2)] by auto
  moreover have "buddy_free p pages s = Some s2"
    by (simp add: buddy_free_def pord_order_of [OF assms(3)] r(1) s2(1))
  moreover have "\<forall>a \<in> bcover H. b_mem s2 a = b_mem s a" using r(6) s2(4) by simp
  moreover have "spec_free (b_base s) p pages F = F1(k := q # F1 k)" by (simp add: spec_free_def r(7))
  ultimately show ?thesis using s2 r(4)
    by (intro exI [of _ s2] exI [of _ "F1(k := q # F1 k)"]) simp
qed

section \<open>Initialisation\<close>

definition buddy_start :: "mem \<Rightarrow> buddy" where
  "buddy_start m = \<lparr>b_base = NULL, b_fl = replicate (MAX_ORDER + 1) NULL, b_mem = m\<rparr>"

lemma fblocks_empty: "fblocks (\<lambda>_. []) = {#}"
  by (simp add: fblocks_def)

lemma ARENA_BYTES_eq: "ARENA_BYTES = arena_size"
  by (simp add: ARENA_BYTES_def TOTAL_PAGES_def MAX_ORDER_def PG_LOG2_def push_bit_eq_mult)

lemma buddy_init_core:
  assumes "mmap_ok (Some b) ARENA_BYTES m"
  shows "\<exists>s. buddy_init (Some b) (buddy_start m) = Some s \<and> b_base s = b \<and>
    buddy_core s ((\<lambda>_. [])(8 := [b])) {#} \<and> no_buddies b ((\<lambda>_. [])(8 := [b]))"
proof -
  have pu: "page_up ARENA_BYTES = arena_size" by (simp add: ARENA_BYTES_eq page_up_id)
  have ok: "0 < b" "b + arena_size \<le> USER_TOP" using assms pu by (simp_all add: mmap_ok_def)
  obtain m' where m': "sys_mmap (Some b) ARENA_BYTES m = (b, m')" by (simp add: sys_mmap_def)
  then have mp: "mapped m' b arena_size" using sys_mmap_mapped [OF m'] pu by simp
  let ?s = "(buddy_start m)\<lparr>b_base := b, b_mem := m'\<rparr>"
  have "part b {#(b, 8)#}"
    by (auto simp: part_def blk_ok_def bsize_8 apart_mset_add)
  moreover have "lists_ok ?s (\<lambda>_. [])"
    by (simp add: lists_ok_def buddy_start_def MAX_ORDER_def nth_Cons' less_Suc_eq
        del: replicate_Suc)
  ultimately have "buddy_core ?s (\<lambda>_. []) {#(b, 8)#}"
    using ok mp by (simp add: buddy_core_def fblocks_empty)
  from fl_push_core [OF this] obtain s where
    "fl_push 8 b ?s = Some s" "buddy_core s ((\<lambda>_. [])(8 := [b])) {#}" "b_base s = b" by auto
  moreover have "b_mem (buddy_start m) = m" by (simp add: buddy_start_def)
  ultimately show ?thesis using m' by (simp add: buddy_init_def MAX_ORDER_def no_buddies_def)
qed

section \<open>Complete coalescing\<close>

lemma multiples_step: "(d::nat) dvd u \<Longrightarrow> d dvd v \<Longrightarrow> u < v \<Longrightarrow> u + d \<le> v"
  by (auto elim!: dvdE) (metis Suc_leI mult_Suc_right mult_le_mono2 add.commute)

lemma bsize_dvd: "i \<le> k \<Longrightarrow> bsize i dvd bsize k"
  unfolding bsize_def by (rule le_imp_power_dvd) simp

lemma blocks_nested:
  assumes "blk_ok base (y, i)" "blk_ok base (x, k)" "i \<le> k" "\<not> apart y (bsize i) x (bsize k)"
  shows "x \<le> y" "y + bsize i \<le> x + bsize k"
proof -
  have d: "base \<le> x" "base \<le> y" "bsize i dvd y - base" "bsize i dvd x - base" "bsize i dvd bsize k"
    using assms(1-3) bsize_dvd [OF assms(3)] by (auto simp: blk_ok_def intro: dvd_trans)
  have o: "y < x + bsize k" "x < y + bsize i" using assms(4) by (auto simp: apart_def)
  show "x \<le> y" using multiples_step [OF d(3,4)] d(1,2) o by linarith
  have e: "x + bsize k - base = (x - base) + bsize k" using d(1) by simp
  have "bsize i dvd x + bsize k - base" unfolding e using d(4,5) by simp
  then show "y + bsize i \<le> x + bsize k" using multiples_step [OF d(3)] d(1,2) o by fastforce
qed

lemma buddy_pair:
  assumes "blk_ok base (y, i)" "i < 8" "base + arena_size \<le> USER_TOP"
  shows "\<exists>q. blk_ok base (q, Suc i) \<and>
    (y = q \<and> buddy_addr base y i = q + bsize i \<or> y = q + bsize i \<and> buddy_addr base y i = q)"
  using buddy_addr_cases [OF assms]
proof (elim disjE conjE)
  assume a: "2 * bsize i dvd y - base" "buddy_addr base y i = y + bsize i"
  have "2 * bsize i dvd arena_size" using bsize_dvd [of "Suc i" 8] assms(2) by (simp add: bsize_Suc bsize_8)
  moreover have "y - base < arena_size" "base \<le> y"
    using assms(1) bsize_bounds(3) [of i] by (auto simp: blk_ok_def)
  ultimately have "y - base + 2 * bsize i \<le> arena_size" by (intro multiples_step [OF a(1)])
  then have "blk_ok base (y, Suc i)"
    using a(1) assms(1,2) by (auto simp: blk_ok_def bsize_Suc)
  with a(2) show ?thesis by blast
next
  assume a: "base + bsize i \<le> y" "buddy_addr base y i = y - bsize i" "2 * bsize i dvd y - bsize i - base"
  then have "blk_ok base (y - bsize i, Suc i)"
    using assms(1,2) by (auto simp: blk_ok_def bsize_Suc)
  with a(1,2) show ?thesis by (intro exI [of _ "y - bsize i"]) auto
qed

text \<open>An aligned run of \<open>2^k\<close> pages that no held block touches lies in one free block.\<close>

lemma coalesced_run:
  assumes core: "buddy_core s F H" and nob: "no_buddies (b_base s) F"
    and R: "blk_ok (b_base s) (x, k)" "{x..<x + bsize k} \<inter> bcover H = {}"
  shows "\<exists>i \<ge> k. i \<le> 8 \<and> F i \<noteq> []"
proof -
  let ?base = "b_base s"
  let ?P = "\<lambda>i. i \<le> 8 \<and> (\<exists>y \<in> set (F i). \<not> apart y (bsize i) x (bsize k))"
  have cov: "\<exists>w j. j \<le> 8 \<and> w \<in> set (F j) \<and> w \<le> a \<and> a < w + bsize j"
    if a: "a \<in> {x..<x + bsize k}" for a
  proof -
    have "a \<in> bcover (fblocks F + H)"
      using buddy_coreD(4) [OF core] R(1) a by (auto simp: part_def blk_ok_def)
    then have "a \<in> bcover (fblocks F)" using R(2) a by auto
    then show ?thesis unfolding bcover_def by (force simp: fblocks_mem)
  qed
  have ex: "\<exists>i. ?P i"
  proof -
    have "x \<in> {x..<x + bsize k}" using bsize_bounds(3) [of k] by simp
    from cov [OF this] obtain w j where "j \<le> 8" "w \<in> set (F j)" "w \<le> x" "x < w + bsize j"
      by blast
    moreover from this have "\<not> apart w (bsize j) x (bsize k)"
      using bsize_bounds(3) [of k] by (auto simp: apart_def)
    ultimately show ?thesis by blast
  qed
  define i where "i = (LEAST i. ?P i)"
  have "?P i" unfolding i_def by (rule LeastI_ex [OF ex])
  then obtain y where y: "i \<le> 8" "y \<in> set (F i)" "\<not> apart y (bsize i) x (bsize k)" by blast
  have min: "i \<le> j" if "?P j" for j unfolding i_def using that by (rule Least_le)
  show ?thesis
  proof (cases "k \<le> i")
    case True
    then show ?thesis using y by (intro exI [of _ i]) auto
  next
    case False
    then have ik: "Suc i \<le> k" and i8: "i < 8" using R(1) by (auto simp: blk_ok_def)
    have oky: "blk_ok ?base (y, i)"
      using core_block(1) [OF core, of "(y, i)"] y by (simp add: fblocks_mem)
    let ?z = "buddy_addr ?base y i"
    obtain q where q: "blk_ok ?base (q, Suc i)"
      "y = q \<and> ?z = q + bsize i \<or> y = q + bsize i \<and> ?z = q"
      using buddy_pair [OF oky i8 buddy_coreD(2) [OF core]] by blast
    have "\<not> apart q (bsize (Suc i)) x (bsize k)"
      using y(3) q(2) by (auto simp: apart_def bsize_Suc)
    note nq = blocks_nested [OF q(1) R(1) ik this]
    have zR: "?z \<in> {x..<x + bsize k}" using nq q(2) bsize_bounds(3) [of i] by (auto simp: bsize_Suc)
    obtain w j where w: "j \<le> 8" "w \<in> set (F j)" "w \<le> ?z" "?z < w + bsize j"
      using cov [OF zR] by blast
    have okw: "blk_ok ?base (w, j)"
      using core_block(1) [OF core, of "(w, j)"] w by (simp add: fblocks_mem)
    have "\<not> apart w (bsize j) x (bsize k)" using w(3,4) zR by (auto simp: apart_def)
    then have "?P j" using w(1,2) by blast
    then have ij: "i \<le> j" by (rule min)
    have "?z \<notin> set (F i)" using nob i8 y(2) by (simp add: no_buddies_def)
    show ?thesis
    proof (cases "j = i")
      case True
      have "?base \<le> q" "2 * bsize i dvd q - ?base" using q(1) by (auto simp: blk_ok_def bsize_Suc)
      then have "bsize i dvd q - ?base" "q + bsize i - ?base = (q - ?base) + bsize i"
        by (auto intro: dvd_mult_right)
      then have "bsize i dvd ?z - ?base" using q(2) by auto
      then have "blk_ok ?base (?z, i)" using q by (auto simp: blk_ok_def bsize_Suc)
      moreover have "\<not> apart ?z (bsize i) w (bsize i)"
        using w(3,4) True bsize_bounds(3) [of i] by (auto simp: apart_def)
      ultimately have "?z = w"
        using blocks_nested [of ?base ?z i w i] okw w(3) True by auto
      then show ?thesis using \<open>?z \<notin> set (F i)\<close> w(2) True by simp
    next
      case False
      then have "Suc i \<le> j" using ij by simp
      moreover have "\<not> apart q (bsize (Suc i)) w (bsize j)"
        using w(3,4) q(2) bsize_bounds(3) [of i] by (auto simp: apart_def bsize_Suc)
      ultimately have "w \<le> q" "q + bsize (Suc i) \<le> w + bsize j"
        using blocks_nested [OF q(1) okw] by auto
      then have "\<not> apart y (bsize i) w (bsize j)"
        using q(2) bsize_bounds(3) [of i] by (auto simp: apart_def bsize_Suc)
      then show ?thesis using free_blocks_apart [OF core y(1,2) w(1,2)] False by auto
    qed
  qed
qed

lemma all_free:
  assumes core: "buddy_core s F {#}" and nob: "no_buddies (b_base s) F"
  shows "b_fl s = replicate 8 0 @ [b_base s]"
proof -
  have "blk_ok (b_base s) (b_base s, 8)" by (simp add: blk_ok_def bsize_8)
  from coalesced_run [OF assms this] obtain y where y: "y \<in> set (F 8)"
    by (auto simp: neq_Nil_conv) (metis le_antisym list.set_intros(1))
  have okb: "blk_ok (b_base s) (a, i) \<and> a \<noteq> 0" if "i \<le> 8" "a \<in> set (F i)" for a i
    using core_block(1,2) [OF core, of "(a, i)"] that by (simp add: fblocks_mem)
  have yb: "y = b_base s" using okb [OF _ y] by (simp add: blk_ok_def bsize_8)
  have only: "a = y \<and> i = 8" if "i \<le> 8" "a \<in> set (F i)" for a i
  proof (rule ccontr)
    assume "\<not> (a = y \<and> i = 8)"
    then have "apart a (bsize i) y (bsize 8)"
      using free_blocks_apart [OF core that _ y] by auto
    then show False using okb [OF that] bsize_bounds(3) [of i]
      by (auto simp: apart_def blk_ok_def yb bsize_8)
  qed
  have ch: "length (b_fl s) = 9" "\<And>i. i \<le> 8 \<Longrightarrow> chain 0 (b_mem s) (b_fl s ! i) (F i)"
    using buddy_coreD(5) [OF core] by (auto simp: lists_ok_def)
  have z: "b_fl s ! i = 0" if "i < 8" for i
  proof (cases "F i")
    case Nil
    then show ?thesis using ch(2) [of i] that by simp
  next
    case (Cons a as)
    then show ?thesis using only [of i a] that by simp
  qed
  have "b_fl s ! 8 = b_base s"
  proof (cases "F 8")
    case (Cons a as)
    then show ?thesis using only [of 8 a] ch(2) [of 8] yb by simp
  qed (use y in simp)
  then show ?thesis using z ch(1)
  proof (intro nth_equalityI)
    fix i assume "i < length (b_fl s)"
    then have "i < 8 \<or> i = 8" using ch(1) by auto
    then show "b_fl s ! i = (replicate 8 0 @ [b_base s]) ! i"
      using z \<open>b_fl s ! 8 = b_base s\<close> by (auto simp: nth_append)
  qed simp
qed


section \<open>The contract\<close>

definition buddy_extent :: "int \<Rightarrow> nat" where
  "buddy_extent pages = nat pages * 4096"

definition buddy_legal :: "int \<Rightarrow> bool" where
  "buddy_legal pages \<longleftrightarrow> pages \<le> 2 ^ 30"

definition held :: "(addr \<times> int) multiset \<Rightarrow> (addr \<times> nat) multiset" where
  "held L = image_mset (\<lambda>(p, r). (p, pord r)) L"

definition buddy_inv :: "addr \<Rightarrow> buddy \<Rightarrow> (addr \<times> int) multiset \<Rightarrow> bool" where
  "buddy_inv base s L \<longleftrightarrow> b_base s = base \<and> (\<exists>F. buddy_core s F (held L) \<and> no_buddies (b_base s) F) \<and>
     (\<forall>b \<in># L. buddy_legal (snd b))"

definition buddy_set_mem :: "mem \<Rightarrow> buddy \<Rightarrow> buddy" where
  "buddy_set_mem m s = s\<lparr>b_mem := m\<rparr>"

lemma held_simps [simp]: "held {#} = {#}" "held (add_mset (p, r) L) = add_mset (p, pord r) (held L)"
  by (simp_all add: held_def)

lemma pord_bounds:
  assumes "pages \<le> 2 ^ 30"
  shows "pages \<le> 2 ^ pord pages" "pord pages = 0 \<or> 2 ^ (pord pages - 1) < pages"
  using order_of_least [OF assms] by (auto simp: pord_def)

lemma buddy_extent_le: "buddy_legal r \<Longrightarrow> buddy_extent r \<le> bsize (pord r)"
proof -
  assume "buddy_legal r"
  then have "r \<le> 2 ^ pord r" by (intro pord_bounds) (simp add: buddy_legal_def)
  then have "nat r \<le> 2 ^ pord r" by (simp add: nat_le_iff)
  then show "buddy_extent r \<le> bsize (pord r)"
    by (simp add: buddy_extent_def bsize_def power_add)
qed

lemma buddy_inv_frame:
  assumes "\<forall>a \<in> bcover (held L). m' a = m a" "(q, t) \<in># L" "buddy_legal t" "k < buddy_extent t"
  shows "m' (q + k) = m (q + k)"
proof -
  have "(q, pord t) \<in># held L" using assms(2) by (force simp: held_def)
  moreover have "k < bsize (pord t)" using buddy_extent_le [OF assms(3)] assms(4) by simp
  ultimately have "q + k \<in> bcover (held L)" by (force simp: bcover_def)
  then show ?thesis using assms(1) by blast
qed

interpretation buddy: freeing_allocator "buddy_inv base" b_mem buddy_set_mem buddy_extent buddy_legal
  buddy_alloc buddy_free for base
proof unfold_locales
  fix s p r L assume "buddy_inv base s (add_mset (p, r) L)"
  then obtain F where F: "buddy_core s F (add_mset (p, pord r) (held L))" "buddy_legal r"
    by (auto simp: buddy_inv_def)
  show "mapped (b_mem s) p (buddy_extent r)"
    using core_block(4) [OF F(1), of "(p, pord r)"] buddy_extent_le [OF F(2)] by simp
next
  fix s p r q t L assume "buddy_inv base s (add_mset (p, r) (add_mset (q, t) L))"
  then obtain F where F: "buddy_core s F (add_mset (p, pord r) (add_mset (q, pord t) (held L)))"
    and l: "buddy_legal r" "buddy_legal t" by (auto simp: buddy_inv_def)
  have "apart_mset bsize (add_mset (p, pord r) (add_mset (q, pord t) (held L)))"
    using buddy_coreD(4) [OF F] apart_mset_union_right unfolding part_def by blast
  then show "apart p (buddy_extent r) q (buddy_extent t)"
    using buddy_extent_le [OF l(1)] buddy_extent_le [OF l(2)]
    by (auto simp: apart_mset_add elim!: apart_mono)
next
  fix s p r L k b assume i: "buddy_inv base s (add_mset (p, r) L)" and k: "k < buddy_extent r"
  then obtain F where F: "buddy_core s F (add_mset (p, pord r) (held L))" "no_buddies (b_base s) F"
    and l: "buddy_legal r" by (auto simp: buddy_inv_def)
  have kb: "k < bsize (pord r)" using k buddy_extent_le [OF l] by simp
  let ?m = "(b_mem s)(p + k \<mapsto> b)"
  have "mapped (b_mem s) p (bsize (pord r))" using core_block(4) [OF F(1), of "(p, pord r)"] by simp
  then have "b_mem s (p + k) \<noteq> None" using kb by (auto simp: mapped_def subset_eq)
  then have dom: "dom ?m = dom (b_mem s)" by auto
  have "?m a = b_mem s a" if "a \<in> bcover (fblocks F)" for a
    using held_disjoint(2) [OF F(1) that] kb by auto
  then have "buddy_core (s\<lparr>b_mem := ?m\<rparr>) F (add_mset (p, pord r) (held L))"
    using core_mem [OF F(1) _ dom] by blast
  then show "buddy_inv base (buddy_set_mem ?m s) (add_mset (p, r) L)"
    using i F(2) by (auto simp: buddy_inv_def buddy_set_mem_def)
next
  fix s L r assume i: "buddy_inv base s L" and l: "buddy_legal r"
  then obtain F where F: "buddy_core s F (held L)" "no_buddies (b_base s) F"
    by (auto simp: buddy_inv_def)
  have r: "r \<le> 2 ^ 30" using l by (simp add: buddy_legal_def)
  show "\<exists>p s'. buddy_alloc r s = Some (p, s') \<and>
      buddy_inv base s' (if p = 0 then L else add_mset (p, r) L) \<and>
      (\<forall>q t k. (q, t) \<in># L \<longrightarrow> k < buddy_extent t \<longrightarrow> b_mem s' (q + k) = b_mem s (q + k))"
  proof (cases "\<exists>i. pord r \<le> i \<and> i \<le> 8 \<and> F i \<noteq> []")
    case True
    then obtain b s' F' where a: "buddy_alloc r s = Some (b, s')" "b \<noteq> 0"
      "buddy_core s' F' (add_mset (b, pord r) (held L))" "no_buddies (b_base s') F'"
      "b_base s' = b_base s" "\<forall>a \<in> bcover (held L). b_mem s' a = b_mem s a"
      using buddy_alloc_core [OF F r] by (subst (asm) if_P [OF True]) blast
    have "buddy_inv base s' (add_mset (b, r) L)" using a(3,4,5) i l by (auto simp: buddy_inv_def)
    moreover have "\<forall>q t k. (q, t) \<in># L \<longrightarrow> k < buddy_extent t \<longrightarrow> b_mem s' (q + k) = b_mem s (q + k)"
      using i by (auto intro!: buddy_inv_frame [OF a(6)] simp: buddy_inv_def)
    ultimately show ?thesis using a(1,2) by simp
  next
    case False
    then have "buddy_alloc r s = Some (0, s)" using buddy_alloc_core [OF F r] by (simp only: if_False)
    then show ?thesis using i by simp
  qed
next
  fix s p r L assume i: "buddy_inv base s (add_mset (p, r) L)"
  then obtain F where F: "buddy_core s F (add_mset (p, pord r) (held L))" "no_buddies (b_base s) F"
    and r: "r \<le> 2 ^ 30" by (auto simp: buddy_inv_def buddy_legal_def)
  obtain s' F' where a: "buddy_free p r s = Some s'" "buddy_core s' F' (held L)"
    "no_buddies (b_base s') F'" "b_base s' = b_base s" "\<forall>a \<in> bcover (held L). b_mem s' a = b_mem s a"
    using buddy_free_core [OF F r] by blast
  have "buddy_inv base s' L" using a(2,3,4) i by (auto simp: buddy_inv_def)
  moreover have "\<forall>q t k. (q, t) \<in># L \<longrightarrow> k < buddy_extent t \<longrightarrow> b_mem s' (q + k) = b_mem s (q + k)"
    using i by (auto intro!: buddy_inv_frame [OF a(5)] simp: buddy_inv_def)
  ultimately show "\<exists>s'. buddy_free p r s = Some s' \<and> buddy_inv base s' L \<and>
      (\<forall>q t k. (q, t) \<in># L \<longrightarrow> k < buddy_extent t \<longrightarrow> b_mem s' (q + k) = b_mem s (q + k))"
    using a(1) by blast
qed (simp add: buddy_set_mem_def)

lemma buddy_init_inv:
  assumes "mmap_ok (Some b) ARENA_BYTES m"
  shows "\<exists>s. buddy_init (Some b) (buddy_start m) = Some s \<and> buddy_inv b s {#}"
  using buddy_init_core [OF assms] by (fastforce simp: buddy_inv_def)


section \<open>Properties\<close>

abbreviation buddy_run ::
  "int cmd list \<Rightarrow> buddy \<times> int block list \<Rightarrow> (buddy \<times> int block list) option" where
  "buddy_run \<equiv> run buddy_alloc buddy_free b_mem buddy_set_mem buddy_extent"

abbreviation at_most_2_30 :: "int cmd \<Rightarrow> bool" where
  "at_most_2_30 c \<equiv> legal_cmd buddy_legal c"

text \<open>C3. Any client of a freshly initialised buddy allocator that allocates, frees with the page
  count it asked for, and writes into its own pages, in any order, never faults; live blocks never
  overlap and keep their bytes while the allocator splits and merges the blocks around them.\<close>

theorem buddy_client_safe:
  assumes "mmap_ok (Some b) ARENA_BYTES m" and "\<forall>c \<in> set cs. at_most_2_30 c"
  shows "\<exists>s. buddy_init (Some b) (buddy_start m) = Some s \<and>
    (\<exists>s' bs. buddy_run cs (s, []) = Some (s', bs) \<and>
       blocks_apart buddy_extent bs \<and> data_intact (b_mem s') buddy_extent bs)"
proof -
  obtain s where s: "buddy_init (Some b) (buddy_start m) = Some s" "buddy_inv b s {#}"
    using buddy_init_inv [OF assms(1)] by blast
  from buddy.client_safe_free [OF s(2) assms(2)] show ?thesis using s(1) by fastforce
qed

lemma demo_buddy_mmap: "mmap_ok (Some 4096) ARENA_BYTES Map.empty"
  by (simp add: mmap_ok_def ARENA_BYTES_eq page_up_def USER_TOP_def)

definition demo_script :: "int cmd list" where
  "demo_script = [Alloc 3, Alloc 1, Alloc 8, Poke 2 9 65, Free 0, Free 0, Free 0]"

lemma demo_script_legal: "\<forall>c \<in> set demo_script. at_most_2_30 c"
  by (simp add: demo_script_def buddy_legal_def)

theorem buddy_client_safe_witness:
  "\<exists>s. buddy_init (Some 4096) (buddy_start Map.empty) = Some s \<and>
    (\<exists>s' bs. buddy_run demo_script (s, []) = Some (s', bs) \<and> blocks_apart buddy_extent bs \<and>
      data_intact (b_mem s') buddy_extent bs)"
  by (rule buddy_client_safe [OF demo_buddy_mmap demo_script_legal])

text \<open>C4. Coalescing is complete: whatever a client did, once it has freed everything the arena is
  one free block of order 8 again, and every other free list is empty.\<close>

theorem buddy_coalesces:
  assumes "mmap_ok (Some b) ARENA_BYTES m" and "\<forall>c \<in> set cs. at_most_2_30 c"
    and "buddy_init (Some b) (buddy_start m) = Some s" and "buddy_run cs (s, []) = Some (s', [])"
  shows "b_fl s' = replicate 8 NULL @ [b]"
proof -
  have "buddy_inv b s {#}" using buddy_init_inv [OF assms(1)] assms(3) by auto
  from buddy.client_safe_free [OF this assms(2)] have "buddy_inv b s' {#}"
    using assms(4) by auto
  then show ?thesis using all_free by (auto simp: buddy_inv_def)
qed

lemma demo_script_empty:
  assumes "buddy_inv b s {#}"
  shows "\<exists>s'. buddy_run [Alloc 3, Free 0] (s, []) = Some (s', [])"
proof -
  obtain p s1 where a: "buddy_alloc 3 s = Some (p, s1)"
    "buddy_inv b s1 (if p = 0 then {#} else {#(p, 3)#})"
    using buddy.alloc_ok [OF assms, of 3] by (auto simp: buddy_legal_def)
  show ?thesis
  proof (cases "p = 0")
    case False
    then obtain s2 where "buddy_free p 3 s1 = Some s2"
      using buddy.dealloc_ok [of b s1 p 3 "{#}"] a(2) by auto
    then show ?thesis using a(1) False by (simp add: drop_nth_def)
  qed (simp add: a(1))
qed

theorem buddy_coalesces_witness:
  "\<exists>s s'. buddy_init (Some 4096) (buddy_start Map.empty) = Some s \<and>
    buddy_run [Alloc 3, Free 0] (s, []) = Some (s', []) \<and> b_fl s' = replicate 8 0 @ [4096]"
proof -
  obtain s where s: "buddy_init (Some 4096) (buddy_start Map.empty) = Some s" "buddy_inv 4096 s {#}"
    using buddy_init_inv [OF demo_buddy_mmap] by blast
  obtain s' where s': "buddy_run [Alloc 3, Free 0] (s, []) = Some (s', [])"
    using demo_script_empty [OF s(2)] by blast
  have "\<forall>c \<in> set [Alloc 3, Free 0]. at_most_2_30 c" by (simp add: buddy_legal_def)
  from buddy_coalesces [OF demo_buddy_mmap this s(1) s'] show ?thesis using s(1) s' by blast
qed

text \<open>C14. The result of buddy_alloc in any reachable state.  With k the least order whose block holds
  the pages asked for: a non-null result is a block of 2^k pages, aligned to its size within the
  arena and disjoint from every live block; and NULL is returned only when k exceeds MAX_ORDER or
  when every aligned run of 2^k pages of the arena meets a block that is in use, so that no
  request fails for lack of merging.\<close>

theorem buddy_alloc_complete:
  assumes "buddy_inv b s L" and "pages \<le> 2 ^ 30"
  shows "\<exists>k p s'. order_of pages = Some k \<and> pages \<le> 2 ^ k \<and> (k = 0 \<or> 2 ^ (k - 1) < pages) \<and>
    buddy_alloc pages s = Some (p, s') \<and>
    (if p \<noteq> NULL
     then k \<le> MAX_ORDER \<and> b \<le> p \<and> 2 ^ k * 4096 dvd p - b \<and> p + 2 ^ k * 4096 \<le> b + ARENA_BYTES \<and>
       {p..<p + 2 ^ k * 4096} \<inter> bcover (held L) = {}
     else s' = s \<and> (MAX_ORDER < k \<or>
       (\<forall>x. b \<le> x \<and> 2 ^ k * 4096 dvd x - b \<and> x + 2 ^ k * 4096 \<le> b + ARENA_BYTES \<longrightarrow>
          {x..<x + 2 ^ k * 4096} \<inter> bcover (held L) \<noteq> {})))"
proof -
  let ?k = "pord pages"
  have bs: "2 ^ ?k * 4096 = bsize ?k" by (simp add: bsize_def power_add)
  obtain F where F: "buddy_core s F (held L)" "no_buddies (b_base s) F" and base: "b_base s = b"
    using assms(1) by (auto simp: buddy_inv_def)
  note core = buddy_alloc_core [OF F assms(2)]
  show ?thesis
  proof (cases "\<exists>i. ?k \<le> i \<and> i \<le> 8 \<and> F i \<noteq> []")
    case True
    then obtain p s' F' where a: "buddy_alloc pages s = Some (p, s')" "p \<noteq> 0"
      "buddy_core s' F' (add_mset (p, ?k) (held L))" "b_base s' = b_base s"
      using core by (subst (asm) if_P [OF True]) blast
    have "{p..<p + bsize ?k} \<inter> bcover (held L) = {}"
      using held_disjoint(1) [OF a(3)] by fastforce
    moreover have "blk_ok b (p, ?k)" using core_block(1) [OF a(3), of "(p, ?k)"] a(4) base by simp
    ultimately have "?k \<le> MAX_ORDER \<and> b \<le> p \<and> bsize ?k dvd p - b \<and> p + bsize ?k \<le> b + ARENA_BYTES \<and>
       {p..<p + bsize ?k} \<inter> bcover (held L) = {}"
      by (simp add: blk_ok_def MAX_ORDER_def ARENA_BYTES_eq)
    then show ?thesis using a(1,2) pord_order_of [OF assms(2)] pord_bounds [OF assms(2)]
      by (intro exI [of _ ?k] exI [of _ p] exI [of _ s']) (simp add: bs)
  next
    case False
    have "{x..<x + bsize ?k} \<inter> bcover (held L) \<noteq> {}"
      if "?k \<le> 8" "b \<le> x" "bsize ?k dvd x - b" "x + bsize ?k \<le> b + ARENA_BYTES" for x
      using coalesced_run [OF F, of x ?k] that False base
      by (auto simp: blk_ok_def ARENA_BYTES_eq)
    moreover have "buddy_alloc pages s = Some (0, s)" using core False by (simp only: if_False)
    ultimately show ?thesis using pord_order_of [OF assms(2)] pord_bounds [OF assms(2)]
      by (intro exI [of _ ?k] exI [of _ 0] exI [of _ s]) (auto simp: bs MAX_ORDER_def)
  qed
qed

theorem buddy_alloc_complete_witness:
  "\<exists>s. buddy_init (Some 4096) (buddy_start Map.empty) = Some s \<and>
    (\<exists>p s'. buddy_alloc 3 s = Some (p, s') \<and> p \<noteq> 0)"
proof -
  obtain s where s: "buddy_init (Some 4096) (buddy_start Map.empty) = Some s" "buddy_inv 4096 s {#}"
    using buddy_init_inv [OF demo_buddy_mmap] by blast
  obtain k p s' where a: "order_of 3 = Some k" "(3::int) \<le> 2 ^ k" "k = 0 \<or> (2::int) ^ (k - 1) < 3"
    "buddy_alloc 3 s = Some (p, s')"
    and n: "p = 0 \<Longrightarrow> MAX_ORDER < k \<or> (\<forall>x. 4096 \<le> x \<and> 2 ^ k * 4096 dvd x - 4096 \<and>
          x + 2 ^ k * 4096 \<le> 4096 + ARENA_BYTES \<longrightarrow> {x..<x + 2 ^ k * 4096} \<inter> bcover {#} \<noteq> {})"
    using buddy_alloc_complete [OF s(2), of 3] by (auto split: if_splits)
  have k: "k \<le> 8"
  proof (rule ccontr)
    assume "\<not> k \<le> 8"
    then have "(2::int) ^ 8 \<le> 2 ^ (k - 1)" by (intro power_increasing) auto
    with a(3) \<open>\<not> k \<le> 8\<close> show False by simp
  qed
  have "(2::nat) ^ k \<le> 2 ^ 8" by (rule power_increasing) (use k in auto)
  then have "p = 0 \<Longrightarrow> False" using n k by (force simp: MAX_ORDER_def ARENA_BYTES_eq)
  then show ?thesis using s(1) a(4) by blast
qed

text \<open>What the int arithmetic and the missing range checks cost outside the supported sizes:
  beyond 2^30 pages the doubling of sz overflows (undefined behaviour) although the function means
  to return NULL, and buddy_free with more than 256 pages indexes past the array of lists.\<close>

theorem buddy_out_of_range:
  assumes "length (b_fl s) = 9"
  shows "(2 ^ 30 < pages \<longrightarrow> buddy_alloc pages s = None) \<and>
    (256 < pages \<longrightarrow> buddy_free p pages s = None)"
proof -
  have ov: "order_loop (2 ^ i) n pages = None" if "2 ^ 30 < pages" "i \<le> 30" for i n
    using that(2)
  proof (induction "30 - i" arbitrary: i n)
    case 0
    then have "i = 30" by simp
    then show ?case using that(1) by (subst order_loop.simps) (simp add: shl_int_def)
  next
    case (Suc d)
    then have i: "Suc i \<le> 30" "d = 30 - Suc i" by simp_all
    have "(2::int) ^ i < 2 ^ 30" by (rule power_strict_increasing) (use i in auto)
    then have "2 ^ i < pages" using that(1) by simp
    moreover have "order_loop (2 ^ Suc i) (n + 1) pages = None" by (rule Suc.hyps(1) [OF i(2,1)])
    ultimately show ?case
      by (subst order_loop.simps) (auto simp: shl_int_def split: Option.bind_splits)
  qed
  have none: "order_of pages = None" if "2 ^ 30 < pages"
    using ov [OF that, of 0] by (simp add: order_of_def)
  have "buddy_free p pages s = None" if big: "256 < pages" "pages \<le> 2 ^ 30"
  proof -
    have "8 < pord pages"
    proof (rule ccontr)
      assume "\<not> 8 < pord pages"
      then have "(2::int) ^ pord pages \<le> 2 ^ 8" by (intro power_increasing) auto
      then show False using pord_bounds(1) [OF big(2)] big(1) by simp
    qed
    then have "fl_push (pord pages) p s = None" using assms by (intro fl_push_range) simp
    then show ?thesis using \<open>8 < pord pages\<close>
      by (simp add: buddy_free_def pord_order_of [OF big(2)] free_loop.simps MAX_ORDER_def)
  qed
  moreover have "buddy_free p pages s = None" "buddy_alloc pages s = None" if "2 ^ 30 < pages"
    using none [OF that] by (simp_all add: buddy_alloc_def buddy_free_def)
  ultimately show ?thesis by (meson not_le)
qed

theorem buddy_out_of_range_witness:
  "buddy_alloc (2 ^ 30 + 1) (buddy_start Map.empty) = None \<and>
   buddy_free 4096 257 (buddy_start Map.empty) = None"
  using buddy_out_of_range [of "buddy_start Map.empty" "2 ^ 30 + 1"]
    buddy_out_of_range [of "buddy_start Map.empty" 257 4096]
  by (simp add: buddy_start_def MAX_ORDER_def)

end
