(* ===== verification/World.thy ===== *)
theory World
  imports Memory
begin

text \<open>
  The world the demonstration programs run in: the memory with its page protections, the log
  of everything the program asked of the system or printed, and the answers of the system.

  \<^item> An \<open>event\<close> is a system or library call with its arguments, a line printed to stdout
    (the printf format without its final newline and its
    double quotes, and the arguments), or one printed to
    stderr.
  \<^item> The answers are two functions of the whole log, \<open>os\<close> for numbers and \<open>reply\<close> for texts: a
    property that holds for every world holds for every behaviour of the kernel, also for one
    that answers the same call differently the second time.
  \<^item> A program is a function from the world to \<open>(int \<times> world) option\<close>: the exit status and
    the world at the end.  None is a memory fault (a load, store or jump the protections do
    not allow) or another step the C standard leaves undefined.
\<close>

datatype arg = I int | S string

datatype event = Sys string "arg list" | Out string "arg list" | Err string "arg list"

record world =
  ram :: mem
  perm :: "addr \<Rightarrow> nat"
  log :: "event list"
  os :: "event list \<Rightarrow> int"
  reply :: "event list \<Rightarrow> string"

definition sys :: "string \<Rightarrow> arg list \<Rightarrow> world \<Rightarrow> int \<times> world" where
  "sys name args w = (let l = log w @ [Sys name args] in (os w l, w\<lparr>log := l\<rparr>))"

definition call :: "string \<Rightarrow> arg list \<Rightarrow> world \<Rightarrow> world" where
  "call name args w = snd (sys name args w)"

definition printf :: "string \<Rightarrow> arg list \<Rightarrow> world \<Rightarrow> world" where
  "printf fmt args w = w\<lparr>log := log w @ [Out fmt args]\<rparr>"

definition eprintf :: "string \<Rightarrow> arg list \<Rightarrow> world \<Rightarrow> world" where
  "eprintf fmt args w = w\<lparr>log := log w @ [Err fmt args]\<rparr>"

definition perror :: "string \<Rightarrow> world \<Rightarrow> world" where
  "perror s = eprintf s []"

abbreviation puts :: "string \<Rightarrow> world \<Rightarrow> world" where
  "puts s \<equiv> printf s []"

section \<open>Protected memory\<close>

definition PROT_NONE :: nat where "PROT_NONE = 0"
definition PROT_READ :: nat where "PROT_READ = 1"
definition PROT_WRITE :: nat where "PROT_WRITE = 2"
definition PROT_EXEC :: nat where "PROT_EXEC = 4"

definition can_read :: "nat \<Rightarrow> bool" where "can_read p \<longleftrightarrow> odd p"
definition can_write :: "nat \<Rightarrow> bool" where "can_write p \<longleftrightarrow> odd (p div 2)"
definition can_exec :: "nat \<Rightarrow> bool" where "can_exec p \<longleftrightarrow> odd (p div 4)"

definition readable :: "world \<Rightarrow> mem" where
  "readable w = (\<lambda>a. if can_read (perm w a) then ram w a else None)"

definition peek :: "addr \<Rightarrow> world \<Rightarrow> u8 option" where
  "peek a w = readable w a"

definition poke :: "addr \<Rightarrow> u8 \<Rightarrow> world \<Rightarrow> world option" where
  "poke a b w =
     (if ram w a \<noteq> None \<and> can_write (perm w a) then Some (w\<lparr>ram := (ram w)(a \<mapsto> b)\<rparr>) else None)"

text \<open>memset and memcpy, and the printf conversions of bytes.\<close>

definition writable :: "world \<Rightarrow> addr \<Rightarrow> nat \<Rightarrow> bool" where
  "writable w a n \<longleftrightarrow> (\<forall>i < n. ram w (a + i) \<noteq> None \<and> can_write (perm w (a + i)))"

definition mem_set :: "addr \<Rightarrow> u8 \<Rightarrow> nat \<Rightarrow> world \<Rightarrow> world option" where
  "mem_set a b n w =
     (if writable w a n
      then Some (w\<lparr>ram := (\<lambda>x. if a \<le> x \<and> x < a + n then Some b else ram w x)\<rparr>) else None)"

definition mem_cpy :: "addr \<Rightarrow> u8 list \<Rightarrow> world \<Rightarrow> world option" where
  "mem_cpy a bs w =
     (if writable w a (length bs) then Some (w\<lparr>ram := put (ram w) a bs\<rparr>) else None)"

text \<open>A C string in memory: the bytes up to the first NUL.\<close>

definition bytes_of :: "string \<Rightarrow> u8 list" where
  "bytes_of s = map (\<lambda>c. of_nat (of_char c)) s @ [0]"

fun read_str :: "nat \<Rightarrow> addr \<Rightarrow> world \<Rightarrow> string option" where
  "read_str 0 a w = None"
| "read_str (Suc n) a w = do {
     b \<leftarrow> peek a w;
     if b = 0 then Some [] else do {
       s \<leftarrow> read_str n (Suc a) w;
       Some (char_of (unat b) # s)}}"

section \<open>Mappings\<close>

text \<open>An anonymous mapping reads as zero and has the protection asked for; mprotect changes the
  protection of the range when it succeeds; MADV_DONTNEED on an anonymous private range makes it
  read as zero again; munmap removes it.  The kernel decides whether a call succeeds and where a
  mapping goes: -1 is MAP_FAILED.\<close>

definition map_zero :: "addr \<Rightarrow> nat \<Rightarrow> nat \<Rightarrow> world \<Rightarrow> world" where
  "map_zero a n p w =
     w\<lparr>ram := (\<lambda>x. if a \<le> x \<and> x < a + n then Some 0 else ram w x),
       perm := (\<lambda>x. if a \<le> x \<and> x < a + n then p else perm w x)\<rparr>"

definition mmap_anon :: "string \<Rightarrow> nat \<Rightarrow> nat \<Rightarrow> world \<Rightarrow> addr option \<times> world" where
  "mmap_anon flags n p w =
     (let (r, w) = sys ''mmap'' [I (int n), I (int p), S flags] w
      in if r = -1 then (None, w) else (Some (nat r), map_zero (nat r) n p w))"

definition munmap :: "addr \<Rightarrow> nat \<Rightarrow> world \<Rightarrow> int \<times> world" where
  "munmap a n w =
     (let (r, w) = sys ''munmap'' [I (int a), I (int n)] w
      in if r < 0 then (r, w)
         else (r, w\<lparr>ram := (\<lambda>x. if a \<le> x \<and> x < a + n then None else ram w x)\<rparr>))"

definition mprotect :: "addr \<Rightarrow> nat \<Rightarrow> nat \<Rightarrow> world \<Rightarrow> int \<times> world" where
  "mprotect a n p w =
     (let (r, w) = sys ''mprotect'' [I (int a), I (int n), I (int p)] w
      in if r < 0 then (r, w)
         else (r, w\<lparr>perm := (\<lambda>x. if a \<le> x \<and> x < a + n then p else perm w x)\<rparr>))"

definition madvise_dontneed :: "addr \<Rightarrow> nat \<Rightarrow> world \<Rightarrow> int \<times> world" where
  "madvise_dontneed a n w =
     (let (r, w) = sys ''madvise'' [I (int a), I (int n), S ''MADV_DONTNEED''] w
      in if r < 0 then (r, w)
         else (r, w\<lparr>ram := (\<lambda>x. if a \<le> x \<and> x < a + n then Some 0 else ram w x)\<rparr>))"

section \<open>Memory from malloc, fields of structs, loops over pages\<close>

text \<open>malloc returns the null pointer or a block whose bytes are indeterminate: they are answers
  of the system too.  free only appears in the log.\<close>

definition malloc :: "nat \<Rightarrow> world \<Rightarrow> addr \<times> world" where
  "malloc n w =
     (let (r, w) = sys ''malloc'' [I (int n)] w
      in if r = 0 then (NULL, w)
         else (nat r,
           w\<lparr>ram := (\<lambda>x. if nat r \<le> x \<and> x < nat r + n
                       then Some (of_int (os w (log w @ [Sys ''byte'' [I (int x)]]))) else ram w x),
             perm := (\<lambda>x. if nat r \<le> x \<and> x < nat r + n then PROT_READ + PROT_WRITE
                       else perm w x)\<rparr>))"

definition free :: "addr \<Rightarrow> world \<Rightarrow> world" where
  "free p = call ''free'' [I (int p)]"

text \<open>A field of the struct a call fills in: the answer of the system for that call and field.\<close>

definition field :: "string \<Rightarrow> string \<Rightarrow> world \<Rightarrow> int" where
  "field name fld w = os w (log w @ [Sys name [S fld]])"

text \<open>\<open>for (size_t i = 0; i < n; i += pg)\<close> with a step that is a long: the addition wraps, and a
  step of 0 never ends.\<close>

partial_function (option) for_step ::
  "(nat \<Rightarrow> world \<Rightarrow> world option) \<Rightarrow> nat \<Rightarrow> nat \<Rightarrow> nat \<Rightarrow> world \<Rightarrow> world option" where
  [code]: "for_step body n pg i w =
     (if i < n then do { w \<leftarrow> body i w; for_step body n pg (add64 i pg) w } else Some w)"

definition size_of_long :: "int \<Rightarrow> nat" where
  "size_of_long v = nat (v mod 2 ^ 64)"

text \<open>\<open>for (int i = 0; i < n; ++i)\<close> over a body that may fault.\<close>

fun for_list :: "('a \<Rightarrow> 's \<Rightarrow> 's option) \<Rightarrow> 'a list \<Rightarrow> 's \<Rightarrow> 's option" where
  "for_list body [] s = Some s"
| "for_list body (x # xs) s = do { s \<leftarrow> body x s; for_list body xs s }"

section \<open>What the log says\<close>

fun outs :: "event list \<Rightarrow> (string \<times> arg list) list" where
  "outs [] = []"
| "outs (Out f as # l) = (f, as) # outs l"
| "outs (Sys f as # l) = outs l"
| "outs (Err f as # l) = outs l"

definition printed :: "world \<Rightarrow> (string \<times> arg list) list" where
  "printed w = outs (log w)"

lemma outs_append [simp]: "outs (l @ l') = outs l @ outs l'"
  by (induction l rule: outs.induct) auto

named_theorems world_simps

lemma sys_simp [world_simps]:
  "sys name args w = (os w (log w @ [Sys name args]), w\<lparr>log := log w @ [Sys name args]\<rparr>)"
  by (simp add: sys_def Let_def)

lemma call_simp [world_simps]: "call name args w = w\<lparr>log := log w @ [Sys name args]\<rparr>"
  by (simp add: call_def world_simps)

lemma printf_simp [world_simps]: "printf f as w = w\<lparr>log := log w @ [Out f as]\<rparr>"
  by (simp add: printf_def)

lemma perror_simp [world_simps]: "perror s w = w\<lparr>log := log w @ [Err s []]\<rparr>"
  by (simp add: perror_def eprintf_def)

declare printed_def [world_simps]

text \<open>A loop with a positive step ends, and keeps what its body keeps.\<close>

lemma for_step_runs:
  assumes pg: "0 < pg" "n + pg \<le> 2 ^ 64"
    and body: "\<And>i w. i < n \<Longrightarrow> P w \<Longrightarrow> \<exists>w'. body i w = Some w' \<and> P w'"
  shows "P w \<Longrightarrow> \<exists>w'. for_step body n pg i w = Some w' \<and> P w'"
proof (induction "n - i" arbitrary: i w rule: less_induct)
  case less
  show ?case
  proof (cases "i < n")
    case False with less.prems show ?thesis by (subst for_step.simps) simp
  next
    case True
    from body [OF True less.prems] obtain w1 where w1: "body i w = Some w1" "P w1" by blast
    have a: "add64 i pg = i + pg" using True pg by (simp add: add64_def)
    from True pg have "n - add64 i pg < n - i" by (simp add: a)
    from less.hyps [OF this w1(2)] w1(1) True show ?thesis by (subst for_step.simps) simp
  qed
qed

lemma for_list_runs:
  assumes "\<And>x s. x \<in> set xs \<Longrightarrow> P s \<Longrightarrow> \<exists>s'. body x s = Some s' \<and> P s'" "P s"
  shows "\<exists>s'. for_list body xs s = Some s' \<and> P s'"
  using assms
proof (induction xs arbitrary: s)
  case (Cons x xs)
  from Cons.prems(1) [of x s] Cons.prems(2) obtain s1 where s1: "body x s = Some s1" "P s1" by auto
  from Cons.IH [OF _ s1(2)] Cons.prems(1) obtain s2 where "for_list body xs s1 = Some s2" "P s2"
    by (metis list.set_intros(2))
  with s1 show ?case by simp
qed simp

lemma peek_mapped: "ram w a \<noteq> None \<Longrightarrow> can_read (perm w a) \<Longrightarrow> \<exists>b. peek a w = Some b"
  by (simp add: peek_def readable_def)

lemma prot_simps [simp]:
  "can_read 0 = False" "can_write 0 = False" "can_exec 0 = False"
  "can_read (PROT_READ + PROT_WRITE)" "can_write (PROT_READ + PROT_WRITE)"
  "can_exec (PROT_READ + PROT_WRITE) = False"
  "can_read (PROT_READ + PROT_EXEC)" "can_write (PROT_READ + PROT_EXEC) = False"
  "can_exec (PROT_READ + PROT_EXEC)"
  "can_read PROT_READ" "can_write PROT_READ = False" "can_exec PROT_READ = False"
  "can_read PROT_NONE = False" "can_write PROT_NONE = False" "can_exec PROT_NONE = False"
  by (simp_all add: can_read_def can_write_def can_exec_def PROT_READ_def PROT_WRITE_def
      PROT_EXEC_def PROT_NONE_def)

end
