(* ===== verification/Cstring.thy ===== *)
theory Cstring
  imports World
begin

text \<open>
  The part of <stdio.h> and <string.h> the programs read text files with.  A FILE opened for
  reading is the text that is still to be read; a char array holds a C string, the characters
  before its first NUL.

  \<^item> \<open>fgets cap\<close> returns at most cap - 1 characters, up to and with the first newline;
    \<open>buffers cap\<close> are the successive contents of the array in \<open>while (fgets(...))\<close>.
  \<^item> \<open>strncmp_eq\<close>, \<open>strstr\<close>, \<open>until_newline\<close> are the tests and cuts of the programs.
  \<^item> \<open>scanf\<close> interprets a list of conversions; the values it returns are the ones sscanf
    assigns, so their number is sscanf's result.
\<close>

abbreviation newline :: char where "newline \<equiv> CHR 0x0A"
abbreviation nul :: char where "nul \<equiv> CHR 0x00"

definition cstr :: "string \<Rightarrow> string" where
  "cstr = takeWhile (\<lambda>c. c \<noteq> nul)"

fun get_line :: "nat \<Rightarrow> string \<Rightarrow> string \<times> string" where
  "get_line 0 s = ([], s)"
| "get_line (Suc n) [] = ([], [])"
| "get_line (Suc n) (c # s) =
     (if c = newline then ([c], s) else (let (l, r) = get_line n s in (c # l, r)))"

definition fgets :: "nat \<Rightarrow> string \<Rightarrow> (string \<times> string) option" where
  "fgets cap s = (if s = [] then None else Some (map_prod cstr id (get_line (cap - 1) s)))"

lemma get_line_length:
  "length (snd (get_line (Suc n) (c # s))) < length (c # s)"
proof -
  have "length (snd (get_line m t)) \<le> length t" for m t
    by (induction m t rule: get_line.induct) (auto split: prod.splits)
  from this [of n s] show ?thesis by (auto split: prod.splits)
qed

text \<open>The arrays of the programs have at least two elements; with a smaller one fgets makes no
  progress.\<close>

function buffers :: "nat \<Rightarrow> string \<Rightarrow> string list" where
  "buffers cap s =
     (case fgets (max 2 cap) s of None \<Rightarrow> [] | Some (l, r) \<Rightarrow> l # buffers cap r)"
  by pat_completeness auto
termination
proof (relation "measure (\<lambda>(cap, s). length s)")
  fix cap s p l r
  assume p: "fgets (max 2 cap) s = Some p" "(l, r) = p"
  then obtain c s' where s: "s = c # s'" by (cases s) (auto simp: fgets_def)
  obtain n where n: "max 2 cap - 1 = Suc n" by (cases "max 2 cap - 1") auto
  from p have "r = snd (get_line (Suc n) (c # s'))"
    unfolding s fgets_def n by (auto simp del: get_line.simps simp: map_prod_def split: prod.splits)
  with get_line_length [of n c s'] show "((cap, r), (cap, s)) \<in> measure (\<lambda>(cap, s). length s)"
    by (simp add: s del: get_line.simps)
qed simp

declare buffers.simps [simp del]

definition strncmp_eq :: "string \<Rightarrow> string \<Rightarrow> bool" where
  "strncmp_eq line prefix \<longleftrightarrow> take (length prefix) line = prefix"

fun strstr :: "string \<Rightarrow> string \<Rightarrow> bool" where
  "strstr [] t = (t = [])"
| "strstr (c # s) t = (take (length t) (c # s) = t \<or> strstr s t)"

definition until_newline :: "string \<Rightarrow> string" where
  "until_newline = takeWhile (\<lambda>c. c \<noteq> newline)"

section \<open>Formatted input\<close>

definition is_space :: "char \<Rightarrow> bool" where
  "is_space c \<longleftrightarrow> c \<in> {CHR 0x20, CHR 0x09, CHR 0x0A, CHR 0x0B, CHR 0x0C, CHR 0x0D}"

definition skip_ws :: "string \<Rightarrow> string" where
  "skip_ws = dropWhile is_space"

definition digit_val :: "char \<Rightarrow> nat option" where
  "digit_val c =
     (let n = of_char c :: nat in
      if 48 \<le> n \<and> n \<le> 57 then Some (n - 48)
      else if 97 \<le> n \<and> n \<le> 102 then Some (n - 87)
      else if 65 \<le> n \<and> n \<le> 70 then Some (n - 55) else None)"

definition is_digit :: "nat \<Rightarrow> char \<Rightarrow> bool" where
  "is_digit base c \<longleftrightarrow> (case digit_val c of None \<Rightarrow> False | Some d \<Rightarrow> d < base)"

definition digits_val :: "nat \<Rightarrow> string \<Rightarrow> nat" where
  "digits_val base = foldl (\<lambda>a c. base * a + the (digit_val c)) 0"

text \<open>strtol and strtoul as the conversions use them: white space, an optional sign, in base 16
  an optional 0x, and the longest run of digits; the value is clamped to the range of the type,
  and strtoul negates in the type.\<close>

definition skip_0x :: "nat \<Rightarrow> string \<Rightarrow> string" where
  "skip_0x base s =
     (case s of a # b # c # r \<Rightarrow>
        if base = 16 \<and> a = CHR ''0'' \<and> b \<in> {CHR ''x'', CHR ''X''} \<and> is_digit 16 c then c # r else s
      | _ \<Rightarrow> s)"

definition scan_digits :: "nat \<Rightarrow> string \<Rightarrow> (bool \<times> nat \<times> string) option" where
  "scan_digits base s =
     (let s1 = skip_ws s;
          neg = (s1 \<noteq> [] \<and> hd s1 = CHR ''-'');
          s2 = (if neg \<or> (s1 \<noteq> [] \<and> hd s1 = CHR ''+'') then tl s1 else s1);
          s3 = skip_0x base s2;
          ds = takeWhile (is_digit base) s3
      in if ds = [] then None
         else Some (neg, digits_val base ds, dropWhile (is_digit base) s3))"

definition LONG_MAX :: int where "LONG_MAX = 2 ^ 63 - 1"
definition LONG_MIN :: int where "LONG_MIN = - (2 ^ 63)"

definition clamp_long :: "bool \<Rightarrow> nat \<Rightarrow> int" where
  "clamp_long neg v = (if neg then max LONG_MIN (- int v) else min LONG_MAX (int v))"

definition clamp_ulong :: "bool \<Rightarrow> nat \<Rightarrow> int" where
  "clamp_ulong neg v = (if v \<ge> 2 ^ 64 then 2 ^ 64 - 1 else if neg then (- int v) mod 2 ^ 64 else int v)"

datatype conv = Long nat | Ulong nat | Word nat | Line nat | Lit char | Ws

fun scanf :: "conv list \<Rightarrow> string \<Rightarrow> arg list" where
  "scanf [] s = []"
| "scanf (Ws # f) s = scanf f (skip_ws s)"
| "scanf (Lit c # f) s = (case s of [] \<Rightarrow> [] | d # r \<Rightarrow> if c = d then scanf f r else [])"
| "scanf (Long base # f) s =
     (case scan_digits base s of None \<Rightarrow> [] | Some (neg, v, r) \<Rightarrow> I (clamp_long neg v) # scanf f r)"
| "scanf (Ulong base # f) s =
     (case scan_digits base s of None \<Rightarrow> [] | Some (neg, v, r) \<Rightarrow> I (clamp_ulong neg v) # scanf f r)"
| "scanf (Word n # f) s =
     (let t = takeWhile (\<lambda>c. \<not> is_space c) (take n (skip_ws s)) in
      if t = [] then [] else S t # scanf f (drop (length t) (skip_ws s)))"
| "scanf (Line n # f) s =
     (let t = takeWhile (\<lambda>c. c \<noteq> newline) (take n s) in
      if t = [] then [] else S t # scanf f (drop (length t) s))"

text \<open>\<open>sscanf(line, "%ld", &v)\<close>: v is unchanged when nothing is converted.\<close>

definition sscanf_ld :: "string \<Rightarrow> int \<Rightarrow> int" where
  "sscanf_ld s v = (case scanf [Long 10] s of I n # _ \<Rightarrow> n | _ \<Rightarrow> v)"

section \<open>Formatted output\<close>

definition hex_digit :: "nat \<Rightarrow> char" where
  "hex_digit d = char_of (if d < 10 then 48 + d else 87 + d)"

fun show_nat :: "nat \<Rightarrow> nat \<Rightarrow> string" where
  "show_nat base n =
     (if n < base \<or> base < 2 then [hex_digit n]
      else show_nat base (n div base) @ [hex_digit (n mod base)])"

declare show_nat.simps [simp del]

section \<open>Opening a text file\<close>

definition fopen_r :: "string \<Rightarrow> world \<Rightarrow> string option \<times> world" where
  "fopen_r path w =
     (let (r, w) = sys ''fopen'' [S path] w in (if r = 0 then None else Some (reply w (log w)), w))"

definition fclose :: "world \<Rightarrow> world" where
  "fclose = call ''fclose'' []"

section \<open>Reading a file line by line\<close>

text \<open>A line as the kernel prints it: no newline, no NUL inside.\<close>

definition plain :: "string \<Rightarrow> bool" where
  "plain l \<longleftrightarrow> newline \<notin> set l \<and> nul \<notin> set l"

definition text_of :: "string list \<Rightarrow> string" where
  "text_of ls = concat (map (\<lambda>l. l @ [newline]) ls)"

lemma text_of_simps [simp]:
  "text_of [] = []"
  "text_of (l # ls) = l @ newline # text_of ls"
  "text_of (ls @ ls') = text_of ls @ text_of ls'"
  by (simp_all add: text_of_def)

lemma plain_simps [simp]:
  "plain []"
  "plain (c # l) \<longleftrightarrow> c \<noteq> newline \<and> c \<noteq> nul \<and> plain l"
  "plain (l @ l') \<longleftrightarrow> plain l \<and> plain l'"
  by (auto simp: plain_def)

lemma cstr_plain: "plain l \<Longrightarrow> cstr l = l"
  by (induction l) (auto simp: cstr_def)

lemma cstr_line: "plain l \<Longrightarrow> cstr (l @ [newline]) = l @ [newline]"
  by (induction l) (auto simp: cstr_def)

lemma get_line_line: "plain l \<Longrightarrow> length l < n \<Longrightarrow> get_line n (l @ newline # s) = (l @ [newline], s)"
proof (induction l arbitrary: n)
  case Nil then show ?case by (cases n) auto
next
  case (Cons c l) then show ?case by (cases n) auto
qed

text \<open>A line that does not fit the array is read in pieces of n = cap - 1 characters, each of them one content of the
  array; the newline counts as a character of the line.\<close>

function pieces :: "nat \<Rightarrow> string \<Rightarrow> string list" where
  "pieces n l = (if l = [] then [] else take (Suc n) l # pieces n (drop (Suc n) l))"
  by pat_completeness auto
termination by (relation "measure (length \<circ> snd)") simp_all

declare pieces.simps [simp del]

abbreviation pieces_of :: "nat \<Rightarrow> string \<Rightarrow> string list" where
  "pieces_of cap l \<equiv> pieces (cap - 2) (l @ [newline])"

lemma get_line_long: "newline \<notin> set l \<Longrightarrow> n \<le> length l \<Longrightarrow> get_line n (l @ r) = (take n l, drop n l @ r)"
proof (induction l arbitrary: n)
  case (Cons c l) then show ?case by (cases n) auto
qed simp

lemma pieces_short: "l \<noteq> [] \<Longrightarrow> length l \<le> Suc n \<Longrightarrow> pieces n l = [l]"
  by (subst pieces.simps) (simp add: pieces.simps [of n "[]"])

lemma buffers_line: "plain l \<Longrightarrow> buffers cap (l @ newline # s) = pieces (max 2 cap - 2) (l @ [newline]) @ buffers cap s"
proof (induction l rule: length_induct)
  case (1 l)
  let ?n = "max 2 cap - 2"
  have n: "max 2 cap - 1 = Suc ?n" by simp
  show ?case
  proof (cases "length l < Suc ?n")
    case True
    then have "fgets (max 2 cap) (l @ newline # s) = Some (l @ [newline], s)"
      unfolding fgets_def n by (simp add: get_line_line "1.prems" cstr_line)
    then show ?thesis using True by (subst buffers.simps) (simp add: pieces_short)
  next
    case False
    let ?t = "take (Suc ?n) l" let ?d = "drop (Suc ?n) l"
    have p: "plain ?t" "plain ?d" using "1.prems" append_take_drop_id [of "Suc ?n" l] plain_simps(3) by metis+
    have "get_line (Suc ?n) (l @ newline # s) = (?t, ?d @ newline # s)"
      using False "1.prems" by (intro get_line_long) (simp_all add: plain_def)
    then have "fgets (max 2 cap) (l @ newline # s) = Some (?t, ?d @ newline # s)"
      unfolding fgets_def n by (simp add: cstr_plain p(1))
    then have "buffers cap (l @ newline # s) = ?t # buffers cap (?d @ newline # s)" by (subst buffers.simps) simp
    also have "buffers cap (?d @ newline # s) = pieces ?n (?d @ [newline]) @ buffers cap s"
      using "1.IH" p(2) False by simp
    also have "?t # \<dots> = pieces ?n (l @ [newline]) @ buffers cap s"
      using False by (subst (2) pieces.simps) simp
    finally show ?thesis .
  qed
qed

lemma buffers_pieces:
  assumes "\<And>l. l \<in> set ls \<Longrightarrow> plain l" and "2 \<le> cap"
  shows "buffers cap (text_of ls) = concat (map (pieces_of cap) ls)"
  using assms
proof (induction ls)
  case Nil show ?case by (subst buffers.simps) (simp add: fgets_def)
next
  case (Cons l ls)
  then have "plain l" "max 2 cap = cap" by simp_all
  then show ?case using buffers_line [of l cap "text_of ls"] Cons by simp
qed

lemma buffers_text:
  assumes "\<And>l. l \<in> set ls \<Longrightarrow> plain l \<and> length l + 2 \<le> cap"
  shows "buffers cap (text_of ls) = map (\<lambda>l. l @ [newline]) ls"
proof (cases "ls = []")
  case True
  then show ?thesis by (subst buffers.simps) (simp add: fgets_def)
next
  case False
  then have "2 \<le> cap" using assms by (metis add_leD2 last_in_set)
  then have "buffers cap (text_of ls) = concat (map (pieces_of cap) ls)" using assms by (intro buffers_pieces) simp_all
  also have "map (pieces_of cap) ls = map (\<lambda>l. [l @ [newline]]) ls"
  proof (intro map_cong refl)
    fix l assume "l \<in> set ls"
    then have "length l + 2 \<le> cap" using assms by blast
    then have "length (l @ [newline]) \<le> Suc (cap - 2)" by simp
    then show "pieces_of cap l = [l @ [newline]]" by (intro pieces_short) simp_all
  qed
  finally show ?thesis by (simp add: o_def)
qed

text \<open>Whatever the capacity, the buffers put together are the whole file.\<close>

lemma get_line_append: "fst (get_line n s) @ snd (get_line n s) = s"
  by (induction n s rule: get_line.induct) (auto split: prod.splits)

lemma concat_buffers: "nul \<notin> set s \<Longrightarrow> concat (buffers cap s) = s"
proof (induction cap s rule: buffers.induct)
  case (1 cap s)
  show ?case
  proof (cases "fgets (max 2 cap) s")
    case None then show ?thesis by (subst buffers.simps) (auto simp: fgets_def split: if_splits)
  next
    case (Some p)
    obtain l r where p: "get_line (max 2 cap - 1) s = (l, r)" by fastforce
    from Some have f: "fgets (max 2 cap) s = Some (cstr l, r)"
      by (auto simp: fgets_def p simp del: One_nat_def split: if_splits)
    have lr: "l @ r = s" using get_line_append [of "max 2 cap - 1" s] by (simp only: p fst_conv snd_conv)
    then have "nul \<notin> set l" "nul \<notin> set r" using "1.prems" by auto
    then have "cstr l = l" by (auto simp: cstr_def takeWhile_eq_all_conv)
    then show ?thesis using "1.IH" [OF f refl \<open>nul \<notin> set r\<close>] f lr by (subst buffers.simps) simp
  qed
qed

section \<open>Numbers\<close>

lemma digit_val_hex_digit: "d < 16 \<Longrightarrow> digit_val (hex_digit d) = Some d"
  by (auto simp: digit_val_def hex_digit_def Let_def of_char_of)

lemma hex_digit_not_space: "d < 16 \<Longrightarrow> \<not> is_space (hex_digit d)"
proof -
  assume d: "d < 16"
  have "\<forall>d \<in> set [0..<16]. \<not> is_space (hex_digit d)" by code_simp
  with d show ?thesis by auto
qed

lemma hex_digit_plain: "d < 16 \<Longrightarrow> plain [hex_digit d]"
proof -
  assume d: "d < 16"
  have "\<forall>d \<in> set [0..<16]. hex_digit d \<noteq> newline \<and> hex_digit d \<noteq> nul" by code_simp
  with d show ?thesis by (auto simp: plain_def)
qed

lemma hex_digit_not:
  assumes "d < 16"
  shows "hex_digit d \<noteq> CHR ''-''" "hex_digit d \<noteq> CHR ''+''" "hex_digit d \<noteq> CHR ''x''" "hex_digit d \<noteq> CHR ''X''"
proof -
  have "\<forall>d \<in> set [0..<16]. hex_digit d \<noteq> CHR ''-'' \<and> hex_digit d \<noteq> CHR ''+''
      \<and> hex_digit d \<noteq> CHR ''x'' \<and> hex_digit d \<noteq> CHR ''X''" by code_simp
  with assms show "hex_digit d \<noteq> CHR ''-''" "hex_digit d \<noteq> CHR ''+''" "hex_digit d \<noteq> CHR ''x''" "hex_digit d \<noteq> CHR ''X''"
    by auto
qed

lemma digits_val_snoc: "digits_val base (s @ [c]) = base * digits_val base s + the (digit_val c)"
  by (simp add: digits_val_def)

lemma show_nat_chars:
  assumes base: "1 < base" "base \<le> 16"
  shows "show_nat base n \<noteq> []
    \<and> (\<forall>c \<in> set (show_nat base n). \<exists>d < base. c = hex_digit d)
    \<and> digits_val base (show_nat base n) = n"
proof (induction n rule: less_induct)
  case (less n)
  show ?case
  proof (cases "n < base")
    case True
    then have "digit_val (hex_digit n) = Some n" using base by (intro digit_val_hex_digit) simp
    with True show ?thesis by (subst (1 2 3) show_nat.simps) (auto simp: digits_val_def)
  next
    case False
    then have n: "n div base < n" using base by (intro div_less_dividend) auto
    have m: "n mod base < base" using base by simp
    then have "digit_val (hex_digit (n mod base)) = Some (n mod base)"
      using base by (intro digit_val_hex_digit) linarith
    moreover have "show_nat base n = show_nat base (n div base) @ [hex_digit (n mod base)]"
      using False base by (subst show_nat.simps) simp
    ultimately show ?thesis using less [OF n] m by (auto simp: digits_val_snoc)
  qed
qed

lemma is_digit_hex_digit: "d < base \<Longrightarrow> base \<le> 16 \<Longrightarrow> is_digit base (hex_digit d)"
  by (simp add: is_digit_def digit_val_hex_digit)

lemma show_nat_plain:
  assumes "1 < base" "base \<le> 16"
  shows "plain (show_nat base n)"
proof -
  have "newline \<noteq> c \<and> nul \<noteq> c" if "c \<in> set (show_nat base n)" for c
  proof -
    from that obtain d where "d < base" "c = hex_digit d"
      using show_nat_chars [OF assms, of n] by blast
    with hex_digit_plain [of d] assms(2) show ?thesis by (auto simp: plain_def)
  qed
  then show ?thesis by (auto simp: plain_def)
qed

lemma show_nat_hd:
  assumes "1 < base" "base \<le> 16"
  obtains d ds where "show_nat base n = hex_digit d # ds" "d < base"
    "\<forall>c \<in> set ds. \<exists>d < base. c = hex_digit d"
  using show_nat_chars [OF assms, of n] by (cases "show_nat base n") auto

lemma show_nat_length: "1 < base \<Longrightarrow> n < base ^ Suc k \<Longrightarrow> length (show_nat base n) \<le> Suc k"
proof (induction k arbitrary: n)
  case 0 then show ?case by (subst show_nat.simps) simp
next
  case (Suc k)
  have "n div base < base ^ Suc k" using Suc.prems by (simp add: less_mult_imp_div_less mult.commute)
  from Suc.IH [OF Suc.prems(1) this] show ?case by (subst show_nat.simps) simp
qed

lemma span_digits:
  assumes "1 < base" "base \<le> 16" "r = [] \<or> \<not> is_digit base (hd r)"
  shows "takeWhile (is_digit base) (show_nat base n @ r) = show_nat base n"
    "dropWhile (is_digit base) (show_nat base n @ r) = r"
proof -
  have all: "\<forall>c \<in> set (show_nat base n). is_digit base c"
    using show_nat_chars [OF assms(1,2), of n] is_digit_hex_digit assms(2) by fastforce
  from assms(3) have "takeWhile (is_digit base) r = []" "dropWhile (is_digit base) r = r"
    by (cases r; auto)+
  with all show "takeWhile (is_digit base) (show_nat base n @ r) = show_nat base n"
    "dropWhile (is_digit base) (show_nat base n @ r) = r"
    by (simp_all add: takeWhile_append2 dropWhile_append2)
qed

text \<open>A printed number is read back: decimal with %ld and %lu, hexadecimal with %lx.\<close>

lemma scan_digits_show:
  assumes base: "1 < base" "base \<le> 16" and r: "r = [] \<or> \<not> is_digit base (hd r)"
    and x: "r = [] \<or> hd r \<noteq> CHR ''x'' \<and> hd r \<noteq> CHR ''X''" and ws: "\<forall>c \<in> set ws. is_space c"
  shows "scan_digits base (ws @ show_nat base n @ r) = Some (False, n, r)"
proof -
  obtain d ds where s: "show_nat base n = hex_digit d # ds" and d: "d < base"
    and ds: "\<forall>c \<in> set ds. \<exists>d < base. c = hex_digit d"
    using show_nat_hd [OF base] .
  have d16: "d < 16" using d base by simp
  have sk: "skip_ws (ws @ show_nat base n @ r) = show_nat base n @ r"
    unfolding skip_ws_def using ws hex_digit_not_space [OF d16] by (simp add: s dropWhile_append2)
  have nx: "hd (ds @ r) \<notin> {CHR ''x'', CHR ''X''}" if "ds @ r \<noteq> []"
  proof (cases ds)
    case Nil with that x show ?thesis by auto
  next
    case (Cons c cs)
    with ds obtain d where "d < base" "c = hex_digit d" by auto
    with Cons hex_digit_not [of d] base show ?thesis by auto
  qed
  have sx: "skip_0x base (show_nat base n @ r) = show_nat base n @ r"
  proof (cases "ds @ r")
    case Nil then show ?thesis by (simp add: s skip_0x_def)
  next
    case (Cons c cs)
    with nx have "c \<noteq> CHR ''x''" "c \<noteq> CHR ''X''" by auto
    with Cons show ?thesis by (simp add: s skip_0x_def split: list.split)
  qed
  show ?thesis
    unfolding scan_digits_def Let_def sk
    using sx span_digits [OF base r, of n] hex_digit_not [OF d16] show_nat_chars [OF base, of n]
      is_digit_hex_digit [OF d base(2)]
    by (simp add: s)
qed

lemma scan_digits_show':
  assumes "1 < base" "base \<le> 16" "r = [] \<or> \<not> is_digit base (hd r)"
    "r = [] \<or> hd r \<noteq> CHR ''x'' \<and> hd r \<noteq> CHR ''X''"
  shows "scan_digits base (show_nat base n @ r) = Some (False, n, r)"
  using scan_digits_show [OF assms, of "[]"] by simp

lemma sscanf_ld_show:
  assumes "\<forall>c \<in> set ws. is_space c" "r = [] \<or> is_space (hd r)" "int n \<le> LONG_MAX"
  shows "sscanf_ld (ws @ show_nat 10 n @ r) v = int n"
proof -
  have sp: "\<not> is_digit 10 c \<and> c \<noteq> CHR ''x'' \<and> c \<noteq> CHR ''X''" if "is_space c" for c
    using that by (auto simp: is_space_def is_digit_def digit_val_def)
  have "scan_digits 10 (ws @ show_nat 10 n @ r) = Some (False, n, r)"
    using assms sp by (intro scan_digits_show) auto
  with assms(3) show ?thesis by (simp add: sscanf_ld_def clamp_long_def)
qed

lemma strncmp_eq_append [simp]: "strncmp_eq (p @ s) p"
  by (simp add: strncmp_eq_def)

lemma strncmp_eq_line: "newline \<notin> set p \<Longrightarrow> strncmp_eq (l @ [newline]) p = strncmp_eq l p"
proof (induction p arbitrary: l)
  case (Cons c p) then show ?case by (cases l) (auto simp: strncmp_eq_def)
qed (simp add: strncmp_eq_def)

lemma fopen_r_simp [world_simps]:
  "fopen_r path w =
     (let l = log w @ [Sys ''fopen'' [S path]] in
      (if os w l = 0 then None else Some (reply w l), w\<lparr>log := l\<rparr>))"
  by (simp add: fopen_r_def world_simps Let_def)

lemma fclose_simp [world_simps]: "fclose w = w\<lparr>log := log w @ [Sys ''fclose'' []]\<rparr>"
  by (simp add: fclose_def world_simps)

section \<open>One field of a status file\<close>

text \<open>\<open>status_value key v s\<close>: one line of the file s has the key, and it shows the value v the way proc(5) documents:
  white space, the number, a unit.  The other lines may have any length; none of the contents of the 256-character array that
  they give, the pieces of longer lines included, begins with the key.\<close>

definition status_value :: "string \<Rightarrow> nat \<Rightarrow> string \<Rightarrow> bool" where
  "status_value key v s \<longleftrightarrow>
     (\<exists>as ws bs. s = text_of (as @ (key @ ws @ show_nat 10 v @ '' kB'') # bs)
        \<and> (\<forall>l \<in> set as \<union> set bs. plain l \<and> (\<forall>p \<in> set (pieces_of 256 l). \<not> strncmp_eq p key))
        \<and> plain key \<and> plain ws \<and> length (key @ ws @ show_nat 10 v) \<le> 251
        \<and> (\<forall>c \<in> set ws. is_space c) \<and> int v \<le> LONG_MAX)"

definition scan_field :: "string \<Rightarrow> string list \<Rightarrow> int \<Rightarrow> int" where
  "scan_field key = fold (\<lambda>l v. if strncmp_eq l key then sscanf_ld (drop (length key) l) v else v)"

lemma scan_field_none:
  "(\<And>l. l \<in> set ls \<Longrightarrow> \<not> strncmp_eq l key) \<Longrightarrow> scan_field key ls v = v"
  by (induction ls arbitrary: v) (auto simp: scan_field_def)

lemma scan_field_value:
  assumes "status_value key v s"
  shows "scan_field key (buffers 256 s) x = int v"
proof -
  from assms obtain as ws bs
    where s: "s = text_of (as @ (key @ ws @ show_nat 10 v @ '' kB'') # bs)"
    and pl: "\<And>l. l \<in> set as \<union> set bs \<Longrightarrow> plain l"
    and nk: "\<And>l p. l \<in> set as \<union> set bs \<Longrightarrow> p \<in> set (pieces_of 256 l) \<Longrightarrow> \<not> strncmp_eq p key"
    and k: "plain key" "plain ws" "length (key @ ws @ show_nat 10 v) \<le> 251"
    and sp: "\<forall>c \<in> set ws. is_space c" and v: "int v \<le> LONG_MAX"
    unfolding status_value_def by blast
  let ?nl = "\<lambda>ls. concat (map (pieces_of 256) ls)"
  let ?k = "key @ ws @ show_nat 10 v @ '' kB'' @ [newline]"
  have "plain (show_nat 10 v)" by (rule show_nat_plain) simp_all
  with k pl have "buffers 256 s = ?nl (as @ (key @ ws @ show_nat 10 v @ '' kB'') # bs)"
    unfolding s by (intro buffers_pieces) auto
  moreover have "pieces_of 256 (key @ ws @ show_nat 10 v @ '' kB'') = [?k]"
    using k(3) pieces_short [of ?k 254] by simp
  ultimately have b: "buffers 256 s = ?nl as @ ?k # ?nl bs" by simp
  have "\<not> strncmp_eq p key" if "p \<in> set (?nl as) \<union> set (?nl bs)" for p
    using that nk by (elim UnE) (unfold set_concat set_map, blast+)
  then have no: "scan_field key (?nl as) x = x" "scan_field key (?nl bs) y = y" for x y
    by (blast intro!: scan_field_none)+
  have "sscanf_ld (ws @ show_nat 10 v @ '' kB'' @ [newline]) x = int v" for x
    using sscanf_ld_show [OF sp _ v, of "'' kB'' @ [newline]"] by (simp add: is_space_def)
  then have "scan_field key (?nl as @ ?k # ?nl bs) x = int v"
    using no by (simp add: scan_field_def fold_append)
  then show ?thesis by (simp only: b)
qed

lemma fold_pair:
  "fold (\<lambda>l (a, b). (f l a, g l b)) xs (a, b) = (fold f xs a, fold g xs b)"
  by (induction xs arbitrary: a b) auto

section \<open>Numbers with leading zeros and a whole sscanf format\<close>

lemma is_digit_char:
  assumes "is_digit base c" "base \<le> 16"
  shows "\<not> is_space c \<and> c \<notin> {CHR ''-'', CHR ''+'', CHR ''x'', CHR ''X'', CHR '':'', newline, nul}"
proof -
  have none: "digit_val d = None" if "is_space d \<or> d \<in> {CHR ''-'', CHR ''+'', CHR ''x'', CHR ''X'', CHR '':'', newline, nul}" for d
    using that by (auto simp: is_space_def digit_val_def)
  have some: "digit_val c \<noteq> None" using assms(1) by (simp add: is_digit_def split: option.splits)
  show ?thesis
  proof (rule ccontr)
    assume "\<not> ?thesis"
    then have "is_space c \<or> c \<in> {CHR ''-'', CHR ''+'', CHR ''x'', CHR ''X'', CHR '':'', newline, nul}"
      by (simp only: de_Morgan_conj not_not)
    from none [OF this] some show False by simp
  qed
qed

lemma scan_digits_ds:
  assumes b: "base \<le> 16" and ds: "ds \<noteq> []" "\<forall>c \<in> set ds. is_digit base c"
    and r: "r = [] \<or> \<not> is_digit base (hd r) \<and> hd r \<noteq> CHR ''x'' \<and> hd r \<noteq> CHR ''X''"
    and ws: "\<forall>c \<in> set ws. is_space c"
  shows "scan_digits base (ws @ ds @ r) = Some (False, digits_val base ds, r)"
proof -
  obtain c cs where c: "ds = c # cs" using ds(1) by (cases ds) auto
  have nc: "\<not> is_space c" "c \<noteq> CHR ''-''" "c \<noteq> CHR ''+''"
    using is_digit_char [of base c] ds(2) b c by auto
  have sk: "skip_ws (ws @ ds @ r) = ds @ r"
    unfolding skip_ws_def using ws nc(1) by (simp add: c dropWhile_append2)
  have sx: "skip_0x base (ds @ r) = ds @ r"
  proof (cases "cs @ r")
    case Nil then show ?thesis by (simp add: c skip_0x_def)
  next
    case (Cons e es)
    have "e \<noteq> CHR ''x'' \<and> e \<noteq> CHR ''X''"
      using Cons r is_digit_char [of base e] ds(2) b c by (cases cs) auto
    with Cons show ?thesis by (simp add: c skip_0x_def split: list.split)
  qed
  have "takeWhile (is_digit base) r = []" "dropWhile (is_digit base) r = r"
    using r by (cases r; auto)+
  then have "takeWhile (is_digit base) (ds @ r) = ds" "dropWhile (is_digit base) (ds @ r) = r"
    using ds(2) by (simp_all add: takeWhile_append2 dropWhile_append2)
  then show ?thesis
    unfolding scan_digits_def Let_def sk using nc ds(1) sx by (simp add: c)
qed

definition pad_nat :: "nat \<Rightarrow> nat \<Rightarrow> nat \<Rightarrow> string" where
  "pad_nat width base n = replicate (width - length (show_nat base n)) (CHR ''0'') @ show_nat base n"

lemma digits_val_zeros: "digits_val base (replicate k (CHR ''0'') @ s) = digits_val base s"
proof -
  have "digit_val (CHR ''0'') = Some 0" by code_simp
  then have "foldl (\<lambda>a c. base * a + the (digit_val c)) 0 (replicate k (CHR ''0'')) = 0"
    by (induction k) auto
  then show ?thesis by (simp add: digits_val_def)
qed

lemma pad_nat_digits:
  assumes "1 < base" "base \<le> 16"
  shows "pad_nat width base n \<noteq> []" "\<forall>c \<in> set (pad_nat width base n). is_digit base c"
    "digits_val base (pad_nat width base n) = n"
proof -
  have "is_digit base (CHR ''0'')"
  proof -
    have "digit_val (CHR ''0'') = Some 0" by code_simp
    with assms(1) show ?thesis by (simp add: is_digit_def)
  qed
  then show "pad_nat width base n \<noteq> []" "\<forall>c \<in> set (pad_nat width base n). is_digit base c"
    "digits_val base (pad_nat width base n) = n"
    using show_nat_chars [OF assms, of n] is_digit_hex_digit assms(2)
    by (auto simp: pad_nat_def digits_val_zeros)
qed

lemma pad_nat_plain:
  assumes "1 < base" "base \<le> 16"
  shows "plain (pad_nat width base n)"
  using pad_nat_digits(2) [OF assms, of width n] is_digit_char [OF _ assms(2)]
  by (fastforce simp: plain_def)

text \<open>The conversions step by step over a rendered text.\<close>

lemma scanf_ulong:
  assumes "1 < base" "base \<le> 16" "n < 2 ^ 64"
    "r = [] \<or> \<not> is_digit base (hd r) \<and> hd r \<noteq> CHR ''x'' \<and> hd r \<noteq> CHR ''X''"
  shows "scanf (Ulong base # f) (pad_nat width base n @ r) = I (int n) # scanf f r"
  using scan_digits_ds [OF assms(2) pad_nat_digits(1,2) [OF assms(1,2)] assms(4), of "[]" width n] assms
  by (simp add: pad_nat_digits(3) [OF assms(1,2)] clamp_ulong_def)

lemma scanf_ws:
  "\<forall>c \<in> set ws. is_space c \<Longrightarrow> r = [] \<or> \<not> is_space (hd r) \<Longrightarrow> scanf (Ws # f) (ws @ r) = scanf f r"
proof -
  assume ws: "\<forall>c \<in> set ws. is_space c" and r: "r = [] \<or> \<not> is_space (hd r)"
  have "dropWhile is_space (ws @ r) = dropWhile is_space r" using ws by (simp add: dropWhile_append2)
  moreover have "dropWhile is_space r = r" using r by (cases r) auto
  ultimately show ?thesis by (simp add: skip_ws_def)
qed

lemma scanf_word:
  assumes t: "t \<noteq> []" "\<forall>c \<in> set t. \<not> is_space c" "length t \<le> n" and r: "r = [] \<or> is_space (hd r)"
  shows "scanf (Word n # f) (t @ r) = S t # scanf f r"
proof -
  have sk: "skip_ws (t @ r) = t @ r" using t by (cases t) (auto simp: skip_ws_def)
  have "takeWhile (\<lambda>c. \<not> is_space c) (take n (t @ r)) = t"
    using t r by (cases r; cases "n - length t") (auto simp: takeWhile_append2)
  then show ?thesis using t(1) by (simp add: sk Let_def)
qed

lemma scanf_line:
  assumes "t \<noteq> []" "newline \<notin> set t" "length t \<le> n"
  shows "scanf (Line n # f) (t @ newline # r) = S t # scanf f (newline # r)"
proof -
  have all: "\<And>c. c \<in> set t \<Longrightarrow> c \<noteq> newline" using assms(2) by auto
  have "takeWhile (\<lambda>c. c \<noteq> newline) (take n (t @ newline # r)) = t"
  proof (cases "n - length t")
    case 0 with assms(3) all show ?thesis by (simp add: takeWhile_eq_all_conv)
  next
    case (Suc m) with assms(3) all show ?thesis by (simp add: takeWhile_append2)
  qed
  then show ?thesis using assms(1) by (simp add: Let_def)
qed

end
