(* ===== verification/Proc_Status.thy ===== *)
theory Proc_Status
  imports Cstring
begin

text \<open>
  The programs that report their memory use from /proc/self/status and /proc/meminfo:
  src/01_virtual_memory/02_lazy_allocation.c, src/04_heap_malloc/13_malloc_trim.c,
  src/05_mmap/06_madvise_dontneed.c, src/07_paging_swapping/01_meminfo.c, 02_mlock.c,
  03_madvise_pageout.c, 05_overcommit.c and src/12_debugging_tools/03_status_summary.c.
\<close>

section \<open>02_lazy_allocation.c\<close>

definition lazy_show :: "string \<Rightarrow> world \<Rightarrow> world option" where
  "lazy_show tag w = do {
     let (f, w) = fopen_r ''/proc/self/status'' w;
     s \<leftarrow> f;
     let (vm, rss) = fold (\<lambda>line (vm, rss).
        (if strncmp_eq line ''VmSize:'' then sscanf_ld (drop 7 line) vm else vm,
         if strncmp_eq line ''VmRSS:'' then sscanf_ld (drop 6 line) rss else rss))
        (buffers 256 s) (0, 0);
     let w = fclose w;
     let minflt = field ''getrusage'' ''ru_minflt'' w;
     let majflt = field ''getrusage'' ''ru_majflt'' w;
     let w = call ''getrusage'' [] w;
     Some (printf ''[%-15s] VmSize=%6ld KiB  VmRSS=%6ld KiB  minflt=%-5ld majflt=%ld''
       [S tag, I vm, I rss, I minflt, I majflt] w)}"

definition lazy_main :: "world \<Rightarrow> (int \<times> world) option" where
  "lazy_main w = do {
     let BYTES = 1024 * 1024 * 1024;
     let (pg, w) = sys ''sysconf'' [S ''_SC_PAGESIZE''] w;
     w \<leftarrow> lazy_show ''start'' w;
     let (p, w) = mmap_anon ''MAP_PRIVATE | MAP_ANONYMOUS'' BYTES (PROT_READ + PROT_WRITE) w;
     case p of None \<Rightarrow> Some (1, perror ''mmap'' w)
     | Some p \<Rightarrow> do {
       w \<leftarrow> lazy_show ''after mmap'' w;
       w \<leftarrow> for_step (\<lambda>i w. do { sink \<leftarrow> peek (p + i) w; Some w }) BYTES (size_of_long pg) 0 w;
       w \<leftarrow> lazy_show ''after reads'' w;
       w \<leftarrow> for_step (\<lambda>i w. poke (p + i) (of_nat i) w) BYTES (size_of_long pg) 0 w;
       w \<leftarrow> lazy_show ''after writes'' w;
       let (r, w) = madvise_dontneed p BYTES w;
       w \<leftarrow> lazy_show ''after DONTNEED'' w;
       let (r, w) = munmap p BYTES w;
       w \<leftarrow> lazy_show ''after munmap'' w;
       Some (0, w)}}"

section \<open>13_malloc_trim.c\<close>

definition trim_show :: "string \<Rightarrow> world \<Rightarrow> world option" where
  "trim_show t w = do {
     let (f, w) = fopen_r ''/proc/self/status'' w;
     s \<leftarrow> f;
     let (vm, rss) = fold (\<lambda>line (vm, rss).
        (if strncmp_eq line ''VmSize:'' then sscanf_ld (drop 7 line) vm else vm,
         if strncmp_eq line ''VmRSS:'' then sscanf_ld (drop 6 line) rss else rss))
        (buffers 256 s) (0, 0);
     let w = fclose w;
     Some (printf ''[%-18s] VmSize=%ld KiB  VmRSS=%ld KiB'' [S t, I vm, I rss] w)}"

fun malloc_each :: "nat list \<Rightarrow> world \<Rightarrow> addr list \<times> world" where
  "malloc_each [] w = ([], w)"
| "malloc_each (n # ns) w =
     (let (p, w) = malloc n w; (ps, w) = malloc_each ns w in (p # ps, w))"

definition trim_main :: "world \<Rightarrow> (int \<times> world) option" where
  "trim_main w = do {
     w \<leftarrow> trim_show ''start'' w;
     let (p, w) = malloc_each (replicate 200 (64 * 1024)) w;
     w \<leftarrow> for_list (\<lambda>p. mem_set p 1 (64 * 1024)) p w;
     w \<leftarrow> trim_show ''after 200x64K'' w;
     let w = fold free p w;
     w \<leftarrow> trim_show ''after free'' w;
     let w = call ''malloc_trim'' [I 0] w;
     w \<leftarrow> trim_show ''after malloc_trim'' w;
     Some (0, w)}"

section \<open>06_madvise_dontneed.c\<close>

definition rss_kib :: "world \<Rightarrow> (int \<times> world) option" where
  "rss_kib w = do {
     let (f, w) = fopen_r ''/proc/self/status'' w;
     s \<leftarrow> f;
     let rss = fold (\<lambda>line rss.
        if strncmp_eq line ''VmRSS:'' then sscanf_ld (drop 6 line) rss else rss)
        (buffers 256 s) 0;
     Some (rss, fclose w)}"

definition dontneed_main :: "world \<Rightarrow> (int \<times> world) option" where
  "dontneed_main w = do {
     let len = 256 * 1024 * 1024;
     let (p, w) = mmap_anon ''MAP_PRIVATE | MAP_ANONYMOUS'' len (PROT_READ + PROT_WRITE) w;
     case p of None \<Rightarrow> Some (1, perror ''mmap'' w)
     | Some p \<Rightarrow> do {
       (r, w) \<leftarrow> rss_kib w;
       let w = printf ''after mmap        : RSS = %ld KiB'' [I r] w;
       w \<leftarrow> mem_set p 1 len w;
       (r, w) \<leftarrow> rss_kib w;
       let w = printf ''after memset      : RSS = %ld KiB'' [I r] w;
       let (r, w) = madvise_dontneed p len w;
       (r, w) \<leftarrow> rss_kib w;
       let w = printf ''after DONTNEED    : RSS = %ld KiB'' [I r] w;
       x \<leftarrow> peek p w;
       y \<leftarrow> peek (p + 1024 * 1024) w;
       let w = printf ''p[0]=%d (zeroed)  p[1MB]=%d'' [I (sint x), I (sint y)] w;
       (r, w) \<leftarrow> rss_kib w;
       let w = printf ''after one read    : RSS = %ld KiB (zero page mapped RO)'' [I r] w;
       let (r, w) = munmap p len w;
       Some (0, w)}}"

section \<open>02_mlock.c\<close>

definition mlock_show :: "string \<Rightarrow> world \<Rightarrow> world option" where
  "mlock_show t w = do {
     let (f, w) = fopen_r ''/proc/self/status'' w;
     s \<leftarrow> f;
     let (lck, rss) = fold (\<lambda>l (lck, rss).
        (if strncmp_eq l ''VmLck:'' then sscanf_ld (drop 6 l) lck else lck,
         if strncmp_eq l ''VmRSS:'' then sscanf_ld (drop 6 l) rss else rss))
        (buffers 256 s) (0, 0);
     let w = fclose w;
     Some (printf ''[%-20s] VmLck=%ld KiB  VmRSS=%ld KiB'' [S t, I lck, I rss] w)}"

definition mlock_main :: "world \<Rightarrow> (int \<times> world) option" where
  "mlock_main w = do {
     let cur = field ''getrlimit'' ''rlim_cur'' w;
     let max = field ''getrlimit'' ''rlim_max'' w;
     let w = call ''getrlimit'' [S ''RLIMIT_MEMLOCK''] w;
     let w = printf ''RLIMIT_MEMLOCK soft=%lu hard=%lu (bytes)'' [I cur, I max] w;
     w \<leftarrow> mlock_show ''start'' w;
     let n = 32 * 1024;
     let (p, w) = malloc n w;
     w \<leftarrow> mem_set p 1 n w;
     w \<leftarrow> mlock_show ''after malloc+touch'' w;
     let (r, w) = sys ''mlock'' [I (int p), I (int n)] w;
     if r < 0 then Some (1, free p (perror ''mlock'' w)) else do {
       w \<leftarrow> mlock_show ''after mlock'' w;
       let w = call ''munlock'' [I (int p), I (int n)] w;
       w \<leftarrow> mlock_show ''after munlock'' w;
       Some (0, free p w)}}"

section \<open>03_madvise_pageout.c\<close>

definition pageout_rss :: "world \<Rightarrow> (int \<times> world) option" where
  "pageout_rss w = do {
     let (f, w) = fopen_r ''/proc/self/status'' w;
     s \<leftarrow> f;
     let r = fold (\<lambda>l r. if strncmp_eq l ''VmRSS:'' then sscanf_ld (drop 6 l) r else r) (buffers 256 s) 0;
     Some (r, fclose w)}"

text \<open>The result of mmap is not checked here: MAP_FAILED is the address 2^64 - 1, and memset
  through it faults.\<close>

definition MAP_FAILED :: addr where "MAP_FAILED = 2 ^ 64 - 1"

definition or_failed :: "addr option \<Rightarrow> addr" where
  "or_failed p = (case p of None \<Rightarrow> MAP_FAILED | Some a \<Rightarrow> a)"

definition pageout_main :: "world \<Rightarrow> (int \<times> world) option" where
  "pageout_main w = do {
     let n = 64 * 2 ^ 20;
     let (p, w) = mmap_anon ''MAP_PRIVATE | MAP_ANONYMOUS'' n (PROT_READ + PROT_WRITE) w;
     let p = or_failed p;
     w \<leftarrow> mem_set p 0xAA n w;
     (r, w) \<leftarrow> pageout_rss w;
     let w = printf ''touched: RSS=%ld KiB'' [I r] w;
     let (e, w) = sys ''madvise'' [I (int p), I (int n), S ''MADV_PAGEOUT''] w;
     let w = (if e < 0 then perror ''madvise(PAGEOUT) -- need swap and Linux 5.4+'' w else w);
     (r, w) \<leftarrow> pageout_rss w;
     let w = printf ''after MADV_PAGEOUT: RSS=%ld KiB (may take a moment)'' [I r] w;
     x \<leftarrow> peek (p + 1024 * 1024) w;
     (r, w) \<leftarrow> pageout_rss w;
     let w = printf ''after touch: RSS=%ld KiB'' [I r] w;
     let (r, w) = munmap p n w;
     Some (0, w)}"

section \<open>05_overcommit.c\<close>

text \<open>fputs writes the characters of the line, its newline included.\<close>

definition fputs :: "string \<Rightarrow> world \<Rightarrow> world" where
  "fputs l = printf ''%s'' [S l]"

definition overcommit_main :: "world \<Rightarrow> (int \<times> world) option" where
  "overcommit_main w = do {
     let n = 256 * 1024 * 1024 * 1024;
     let (p, w) = mmap_anon ''MAP_PRIVATE | MAP_ANONYMOUS | MAP_NORESERVE'' n
                    (PROT_READ + PROT_WRITE) w;
     case p of None \<Rightarrow> Some (1, perror ''mmap'' w)
     | Some p \<Rightarrow> do {
       let w = printf ''mmap'd 256 GiB virtual at %p (no physical RAM used yet)'' [I (int p)] w;
       let (f, w) = fopen_r ''/proc/self/status'' w;
       s \<leftarrow> f;
       let w = fold (\<lambda>l w. if strncmp_eq l ''VmSize:'' \<or> strncmp_eq l ''VmRSS:''
                             \<or> strncmp_eq l ''VmData:'' then fputs l w else w) (buffers 256 s) w;
       let w = fclose w;
       let w = puts ''Now touching just 64 MiB (not 256 GiB)...'' w;
       w \<leftarrow> mem_set p 0x42 (64 * 2 ^ 20) w;
       let (f, w) = fopen_r ''/proc/self/status'' w;
       s \<leftarrow> f;
       let w = fold (\<lambda>l w. if strncmp_eq l ''VmRSS:'' then fputs l w else w) (buffers 256 s) w;
       let w = fclose w;
       let (r, w) = munmap p n w;
       Some (0, w)}}"

section \<open>01_meminfo.c\<close>

definition wanted :: "(string \<times> string) list" where
  "wanted =
  [(''MemTotal:'', ''total usable RAM''),
   (''MemFree:'', ''untouched RAM (on buddy free lists)''),
   (''MemAvailable:'', ''what userspace could allocate without swap''),
   (''Buffers:'', ''page cache for raw block devices''),
   (''Cached:'', ''page cache for files (mmap + read)''),
   (''SwapTotal:'', ''size of swap''),
   (''SwapFree:'', ''unused swap''),
   (''Dirty:'', ''dirty pages (not yet written back)''),
   (''Writeback:'', ''pages being written back now''),
   (''AnonPages:'', ''non-file backed (heap/stack/anon mmap)''),
   (''Mapped:'', ''mapped via mmap''),
   (''Shmem:'', ''tmpfs + shared anon''),
   (''KReclaimable:'', ''slab/etc that could be reclaimed''),
   (''Slab:'', ''kernel slab (kmalloc internals)''),
   (''PageTables:'', ''memory used by page tables themselves''),
   (''CommitLimit:'', ''max committable bytes (overcommit_memory=2)''),
   (''Committed_AS:'', ''current committed memory''),
   (''HugePages_Total:'', ''huge pages reserved''),
   (''HugePages_Free:'', ''huge pages free''),
   (''Hugepagesize:'', ''huge page size'')]"

definition meminfo_line :: "string \<Rightarrow> world \<Rightarrow> world" where
  "meminfo_line line w =
     snd (fold (\<lambda>(prefix, desc) (line, w).
       if strncmp_eq line prefix
       then (let line = until_newline line in
             (line, printf ''  %-50s  -- %s'' [S line, S desc] w))
       else (line, w)) wanted (line, w))"

definition meminfo_main :: "world \<Rightarrow> int \<times> world" where
  "meminfo_main w =
     (let (f, w) = fopen_r ''/proc/meminfo'' w in
      case f of None \<Rightarrow> (1, w)
      | Some s \<Rightarrow> (0, fclose (fold meminfo_line (buffers 256 s) w)))"

section \<open>03_status_summary.c\<close>

definition entries :: "(string \<times> string) list" where
  "entries =
  [(''VmPeak:'', ''peak VSZ since exec''),
   (''VmSize:'', ''current VSZ (sum of VMAs)''),
   (''VmLck:'', ''mlocked''),
   (''VmHWM:'', ''peak RSS since exec''),
   (''VmRSS:'', ''current resident set''),
   (''RssAnon:'', ''anon resident''),
   (''RssFile:'', ''file-backed resident''),
   (''RssShmem:'', ''shmem resident''),
   (''VmData:'', ''data segments (heap + bss)''),
   (''VmStk:'', ''main thread stack''),
   (''VmExe:'', ''text''),
   (''VmLib:'', ''shared libraries (text only)''),
   (''VmPTE:'', ''page tables themselves''),
   (''VmSwap:'', ''in swap''),
   (''Threads:'', ''thread count'')]"

definition status_line :: "string \<Rightarrow> world \<Rightarrow> world" where
  "status_line line w =
     snd (fold (\<lambda>(key, desc) (line, w).
       if strncmp_eq line key
       then (let line = until_newline line in
             (line, printf ''  %-40s  -- %s'' [S line, S desc] w))
       else (line, w)) entries (line, w))"

definition status_main :: "world \<Rightarrow> (int \<times> world) option" where
  "status_main w = do {
     let (f, w) = fopen_r ''/proc/self/status'' w;
     s \<leftarrow> f;
     Some (0, fclose (fold status_line (buffers 256 s) w))}"

section \<open>What the readers of /proc/self/status print\<close>

abbreviation status_file :: "world \<Rightarrow> string option" where
  "status_file w \<equiv> fst (fopen_r ''/proc/self/status'' w)"

abbreviation opened :: "world \<Rightarrow> world" where
  "opened w \<equiv> snd (fopen_r ''/proc/self/status'' w)"

lemma scan_keys:
  "scan_field ''VmSize:'' = fold (\<lambda>l v. if strncmp_eq l ''VmSize:'' then sscanf_ld (drop 7 l) v else v)"
  "scan_field ''VmRSS:'' = fold (\<lambda>l v. if strncmp_eq l ''VmRSS:'' then sscanf_ld (drop 6 l) v else v)"
  "scan_field ''VmLck:'' = fold (\<lambda>l v. if strncmp_eq l ''VmLck:'' then sscanf_ld (drop 6 l) v else v)"
proof -
  have "length ''VmSize:'' = 7" "length ''VmRSS:'' = 6" "length ''VmLck:'' = 6" by simp_all
  then show
    "scan_field ''VmSize:'' = fold (\<lambda>l v. if strncmp_eq l ''VmSize:'' then sscanf_ld (drop 7 l) v else v)"
    "scan_field ''VmRSS:'' = fold (\<lambda>l v. if strncmp_eq l ''VmRSS:'' then sscanf_ld (drop 6 l) v else v)"
    "scan_field ''VmLck:'' = fold (\<lambda>l v. if strncmp_eq l ''VmLck:'' then sscanf_ld (drop 6 l) v else v)"
    by (simp_all only: scan_field_def)
qed

lemma two_fields:
  "fold (\<lambda>l (a, b). (if strncmp_eq l k then sscanf_ld (drop n l) a else a,
                      if strncmp_eq l k' then sscanf_ld (drop n' l) b else b)) xs (a, b) =
   (fold (\<lambda>l v. if strncmp_eq l k then sscanf_ld (drop n l) v else v) xs a,
    fold (\<lambda>l v. if strncmp_eq l k' then sscanf_ld (drop n' l) v else v) xs b)"
  by (rule fold_pair)

lemma lazy_show_fold:
  "status_file w = Some s \<Longrightarrow>
   lazy_show tag w =
     (let w = fclose (opened w); m = field ''getrusage'' ''ru_minflt'' w;
          j = field ''getrusage'' ''ru_majflt'' w
      in Some (printf ''[%-15s] VmSize=%6ld KiB  VmRSS=%6ld KiB  minflt=%-5ld majflt=%ld''
        [S tag, I (scan_field ''VmSize:'' (buffers 256 s) 0), I (scan_field ''VmRSS:'' (buffers 256 s) 0),
         I m, I j] (call ''getrusage'' [] w)))"
  by (cases "fopen_r ''/proc/self/status'' w") (simp add: lazy_show_def two_fields scan_keys Let_def)

lemma trim_show_fold:
  "status_file w = Some s \<Longrightarrow>
   trim_show t w = Some (printf ''[%-18s] VmSize=%ld KiB  VmRSS=%ld KiB''
     [S t, I (scan_field ''VmSize:'' (buffers 256 s) 0), I (scan_field ''VmRSS:'' (buffers 256 s) 0)]
     (fclose (opened w)))"
  by (cases "fopen_r ''/proc/self/status'' w") (simp add: trim_show_def two_fields scan_keys Let_def)

lemma mlock_show_fold:
  "status_file w = Some s \<Longrightarrow>
   mlock_show t w = Some (printf ''[%-20s] VmLck=%ld KiB  VmRSS=%ld KiB''
     [S t, I (scan_field ''VmLck:'' (buffers 256 s) 0), I (scan_field ''VmRSS:'' (buffers 256 s) 0)]
     (fclose (opened w)))"
  by (cases "fopen_r ''/proc/self/status'' w") (simp add: mlock_show_def two_fields scan_keys Let_def)

lemma rss_fold:
  "status_file w = Some s \<Longrightarrow>
   rss_kib w = Some (scan_field ''VmRSS:'' (buffers 256 s) 0, fclose (opened w))"
  "status_file w = Some s \<Longrightarrow>
   pageout_rss w = Some (scan_field ''VmRSS:'' (buffers 256 s) 0, fclose (opened w))"
  by (simp_all add: rss_kib_def pageout_rss_def scan_keys Let_def case_prod_unfold)

lemmas status_folds = lazy_show_fold trim_show_fold mlock_show_fold rss_fold

lemma status_readers_correct_parts:
  assumes "status_file w = Some s" "status_value ''VmSize:'' vm s" "status_value ''VmRSS:'' rss s"
    "status_value ''VmLck:'' lck s"
  shows "map_option (last \<circ> printed) (lazy_show tag w) =
      Some (''[%-15s] VmSize=%6ld KiB  VmRSS=%6ld KiB  minflt=%-5ld majflt=%ld'',
        [S tag, I (int vm), I (int rss), I (field ''getrusage'' ''ru_minflt'' (fclose (opened w))),
         I (field ''getrusage'' ''ru_majflt'' (fclose (opened w)))])"
    and "map_option (last \<circ> printed) (trim_show tag w) =
      Some (''[%-18s] VmSize=%ld KiB  VmRSS=%ld KiB'', [S tag, I (int vm), I (int rss)])"
    and "map_option (last \<circ> printed) (mlock_show tag w) =
      Some (''[%-20s] VmLck=%ld KiB  VmRSS=%ld KiB'', [S tag, I (int lck), I (int rss)])"
    and "map_option fst (rss_kib w) = Some (int rss)"
    and "map_option fst (pageout_rss w) = Some (int rss)"
  using assms(2-) by (simp_all add: status_folds [OF assms(1)] scan_field_value world_simps Let_def)

text \<open>C37. Every reader of /proc/self/status reports the values the file shows: when the file has
  one VmSize, one VmRSS and one VmLck line in the documented format, at any place among other lines of
  any length, the programs print or return exactly those numbers.  A line that does not fit the array
  arrives in pieces of 255 characters; no piece of another line may begin with one of the three keys, which a line
  of digits and commas such as Mems_allowed cannot.\<close>

theorem status_readers_correct:
  assumes "status_file w = Some s" "status_value ''VmSize:'' vm s" "status_value ''VmRSS:'' rss s"
    "status_value ''VmLck:'' lck s"
  shows "map_option (last \<circ> printed) (lazy_show tag w) =
      Some (''[%-15s] VmSize=%6ld KiB  VmRSS=%6ld KiB  minflt=%-5ld majflt=%ld'',
        [S tag, I (int vm), I (int rss), I (field ''getrusage'' ''ru_minflt'' (fclose (opened w))),
         I (field ''getrusage'' ''ru_majflt'' (fclose (opened w)))])
    \<and> map_option (last \<circ> printed) (trim_show tag w) =
      Some (''[%-18s] VmSize=%ld KiB  VmRSS=%ld KiB'', [S tag, I (int vm), I (int rss)])
    \<and> map_option (last \<circ> printed) (mlock_show tag w) =
      Some (''[%-20s] VmLck=%ld KiB  VmRSS=%ld KiB'', [S tag, I (int lck), I (int rss)])
    \<and> map_option fst (rss_kib w) = Some (int rss) \<and> map_option fst (pageout_rss w) = Some (int rss)"
  by (intro conjI status_readers_correct_parts [OF assms])

text \<open>The sample has a line of 301 characters, as a kernel for 1024 memory nodes writes.\<close>

definition mems_line :: string where
  "mems_line = ''Mems_allowed:'' @ [CHR 0x09] @ concat (replicate 31 ''00000000,'') @ ''00000001''"

definition sample_status :: string where
  "sample_status = text_of ([''Name:'' @ [CHR 0x09] @ ''a.out'', ''VmSize:'' @ [CHR 0x09] @ ''    2784 kB'',
     ''VmLck:'' @ [CHR 0x09] @ ''       0 kB'', ''VmRSS:'' @ [CHR 0x09] @ ''    1536 kB'', ''Threads: 1'',
     mems_line])"

definition status_world :: world where
  "status_world = \<lparr>ram = Map.empty, perm = (\<lambda>_. 0), log = [], os = (\<lambda>_. 4096), reply = (\<lambda>_. sample_status)\<rparr>"

lemma sample_status_values:
  "status_value ''VmSize:'' 2784 sample_status" "status_value ''VmRSS:'' 1536 sample_status"
  "status_value ''VmLck:'' 0 sample_status"
proof -
  let ?t = "CHR 0x09 # ''    ''"
  have n: "show_nat 10 2784 = ''2784''" "show_nat 10 1536 = ''1536''" "show_nat 10 0 = ''0''"
    by code_simp+
  let ?l1 = "''Name:'' @ [CHR 0x09] @ ''a.out''" and ?l2 = "''VmSize:'' @ [CHR 0x09] @ ''    2784 kB''"
  let ?l3 = "''VmLck:'' @ [CHR 0x09] @ ''       0 kB''" and ?l4 = "''VmRSS:'' @ [CHR 0x09] @ ''    1536 kB''"
  have mems: "plain mems_line" "\<forall>k \<in> {''VmSize:'', ''VmRSS:'', ''VmLck:''}. \<forall>p \<in> set (pieces_of 256 mems_line). \<not> strncmp_eq p k"
    by code_simp+
  note sample = sample_status_def strncmp_eq_def is_space_def LONG_MAX_def pieces_short mems [unfolded strncmp_eq_def, simplified]
  show "status_value ''VmSize:'' 2784 sample_status"
    unfolding status_value_def n
    by (rule exI [of _ "[?l1]"], rule exI [of _ ?t], rule exI [of _ "[?l3, ?l4, ''Threads: 1'', mems_line]"])
       (simp add: sample)
  show "status_value ''VmRSS:'' 1536 sample_status"
    unfolding status_value_def n
    by (rule exI [of _ "[?l1, ?l2, ?l3]"], rule exI [of _ ?t], rule exI [of _ "[''Threads: 1'', mems_line]"])
       (simp add: sample)
  show "status_value ''VmLck:'' 0 sample_status"
    unfolding status_value_def n
    by (rule exI [of _ "[?l1, ?l2]"], rule exI [of _ "?t @ ''   ''"], rule exI [of _ "[?l4, ''Threads: 1'', mems_line]"])
       (simp add: sample)
qed

lemma status_world_file: "status_file status_world = Some sample_status"
  by (simp add: world_simps status_world_def Let_def)

theorem status_readers_correct_witness:
  "map_option (last \<circ> printed) (trim_show ''start'' status_world) =
     Some (''[%-18s] VmSize=%ld KiB  VmRSS=%ld KiB'', [S ''start'', I 2784, I 1536])
   \<and> map_option fst (rss_kib status_world) = Some 1536"
  using status_readers_correct [OF status_world_file sample_status_values(1,2,3), of "''start''"] by simp

definition tags :: "world \<Rightarrow> arg list" where
  "tags w = map (hd \<circ> snd) (printed w)"

definition lazy_keeps :: "addr \<Rightarrow> arg list \<Rightarrow> world \<Rightarrow> bool" where
  "lazy_keeps p ts w \<longleftrightarrow>
     (\<forall>x. p \<le> x \<and> x < p + 2 ^ 30 \<longrightarrow> ram w x \<noteq> None \<and> perm w x = PROT_READ + PROT_WRITE)
     \<and> (\<forall>l. os w (l @ [Sys ''fopen'' [S ''/proc/self/status'']]) \<noteq> 0) \<and> tags w = ts"

lemma lazy_show_log:
  assumes "\<forall>l. os w (l @ [Sys ''fopen'' [S ''/proc/self/status'']]) \<noteq> 0"
  shows "\<exists>l. lazy_show tag w = Some (w\<lparr>log := l\<rparr>) \<and> tags (w\<lparr>log := l\<rparr>) = tags w @ [S tag]"
proof -
  obtain s where "status_file w = Some s" using assms by (auto simp: world_simps Let_def)
  from lazy_show_fold [OF this, of tag] show ?thesis
    by (intro exI conjI) (simp add: world_simps Let_def tags_def)+
qed

lemma lazy_keeps_show:
  assumes "lazy_keeps p ts w"
  shows "\<exists>w'. lazy_show tag w = Some w' \<and> lazy_keeps p (ts @ [S tag]) w'"
proof -
  from assms obtain l where l: "lazy_show tag w = Some (w\<lparr>log := l\<rparr>)" "tags (w\<lparr>log := l\<rparr>) = tags w @ [S tag]"
    using lazy_show_log [of w tag] by (auto simp: lazy_keeps_def)
  from assms l have "lazy_keeps p (ts @ [S tag]) (w\<lparr>log := l\<rparr>)" by (simp add: lazy_keeps_def)
  with l(1) show ?thesis by blast
qed

lemma lazy_keeps_reads:
  assumes "lazy_keeps p ts w" "0 < pg" "pg \<le> 2 ^ 30"
  shows "\<exists>w'. for_step (\<lambda>i w. do { sink \<leftarrow> peek (p + i) w; Some w }) (2 ^ 30) pg 0 w = Some w'
    \<and> lazy_keeps p ts w'"
proof (rule for_step_runs [where P = "lazy_keeps p ts", OF assms(2) _ _ assms(1)])
  fix i :: nat and w :: world
  assume i: "i < 2 ^ 30" and w: "lazy_keeps p ts w"
  then have "ram w (p + i) \<noteq> None" "can_read (perm w (p + i))" by (auto simp: lazy_keeps_def)
  then obtain b where "peek (p + i) w = Some b" using peek_mapped by blast
  with w show "\<exists>w'. (do { sink \<leftarrow> peek (p + i) w; Some w }) = Some w' \<and> lazy_keeps p ts w'" by simp
qed (use assms(3) in simp)

lemma lazy_keeps_writes:
  assumes "lazy_keeps p ts w" "0 < pg" "pg \<le> 2 ^ 30"
  shows "\<exists>w'. for_step (\<lambda>i. poke (p + i) (of_nat i)) (2 ^ 30) pg 0 w = Some w' \<and> lazy_keeps p ts w'"
proof (rule for_step_runs [where P = "lazy_keeps p ts", OF assms(2) _ _ assms(1)])
  fix i :: nat and w :: world
  assume i: "i < 2 ^ 30" and w: "lazy_keeps p ts w"
  let ?w = "w\<lparr>ram := (ram w)(p + i \<mapsto> of_nat i)\<rparr>"
  from i w have "ram w (p + i) \<noteq> None" "can_write (perm w (p + i))" by (auto simp: lazy_keeps_def)
  then have "poke (p + i) (of_nat i) w = Some ?w" by (simp add: poke_def)
  moreover have "lazy_keeps p ts ?w" using w by (simp add: lazy_keeps_def tags_def world_simps)
  ultimately show "\<exists>w'. poke (p + i) (of_nat i) w = Some w' \<and> lazy_keeps p ts w'" by blast
qed (use assms(3) in simp)

definition opens_status :: "world \<Rightarrow> bool" where
  "opens_status w \<longleftrightarrow> (\<forall>l. os w (l @ [Sys ''fopen'' [S ''/proc/self/status'']]) \<noteq> 0)"

lemma lazy_keeps_map:
  assumes "opens_status w"
  shows "lazy_keeps p (tags w) (map_zero p (2 ^ 30) (PROT_READ + PROT_WRITE) w)"
  using assms by (simp add: lazy_keeps_def opens_status_def map_zero_def tags_def printed_def)

lemma lazy_keeps_dontneed:
  "lazy_keeps p ts w \<Longrightarrow> lazy_keeps p ts (snd (madvise_dontneed p (2 ^ 30) w))"
  by (simp add: madvise_dontneed_def lazy_keeps_def tags_def world_simps)

lemma lazy_keeps_munmap:
  assumes "lazy_keeps p ts w"
  shows "\<exists>w'. lazy_show tag (snd (munmap p n w)) = Some w' \<and> tags w' = ts @ [S tag]"
proof -
  have "\<forall>l. os (snd (munmap p n w)) (l @ [Sys ''fopen'' [S ''/proc/self/status'']]) \<noteq> 0"
    and t: "tags (snd (munmap p n w)) = ts"
    using assms by (auto simp: munmap_def lazy_keeps_def tags_def world_simps)
  from lazy_show_log [OF this(1), of tag] t show ?thesis by auto
qed

text \<open>The paging demonstration runs to its end without a fault, whatever the kernel answers,
  provided /proc/self/status can be opened and the page size is positive and at most 1 GiB: the
  loops over the pages end and stay inside the mapping.  It prints the six reports in order, or
  the first one and exit status 1 when mmap fails.\<close>

theorem lazy_main_runs:
  assumes "opens_status w"
    and "0 < os w (log w @ [Sys ''sysconf'' [S ''_SC_PAGESIZE'']])"
    and "os w (log w @ [Sys ''sysconf'' [S ''_SC_PAGESIZE'']]) \<le> 2 ^ 30"
  shows "\<exists>w'. (lazy_main w = Some (1, w') \<and> tags w' = tags w @ [S ''start''])
    \<or> (lazy_main w = Some (0, w')
       \<and> tags w' = tags w @ [S ''start'', S ''after mmap'', S ''after reads'', S ''after writes'',
           S ''after DONTNEED'', S ''after munmap''])"
proof -
  let ?pg = "os w (log w @ [Sys ''sysconf'' [S ''_SC_PAGESIZE'']])"
  let ?w = "call ''sysconf'' [S ''_SC_PAGESIZE''] w"
  have s: "size_of_long ?pg = nat ?pg" "0 < nat ?pg" "nat ?pg \<le> 2 ^ 30"
    using assms(2,3) by (simp_all add: size_of_long_def)
  have "\<forall>l. os ?w (l @ [Sys ''fopen'' [S ''/proc/self/status'']]) \<noteq> 0" and "tags ?w = tags w"
    using assms(1) by (simp_all add: opens_status_def world_simps tags_def)
  then obtain l where l: "lazy_show ''start'' ?w = Some (?w\<lparr>log := l\<rparr>)"
    "tags (?w\<lparr>log := l\<rparr>) = tags w @ [S ''start'']" using lazy_show_log [of ?w "''start''"] by auto
  let ?w1 = "?w\<lparr>log := l\<rparr>"
  let ?m = "mmap_anon ''MAP_PRIVATE | MAP_ANONYMOUS'' (2 ^ 30) (PROT_READ + PROT_WRITE) ?w1"
  show ?thesis
  proof (cases "fst ?m")
    case None
    then have "snd ?m = call ''mmap'' [I (2 ^ 30), I (int (PROT_READ + PROT_WRITE)), S ''MAP_PRIVATE | MAP_ANONYMOUS''] ?w1"
      by (simp add: mmap_anon_def world_simps Let_def split: if_splits)
    then have "tags (perror ''mmap'' (snd ?m)) = tags w @ [S ''start'']"
      using l(2) by (simp add: world_simps tags_def)
    moreover have "lazy_main w = Some (1, perror ''mmap'' (snd ?m))"
      using None l(1) by (simp add: lazy_main_def sys_simp call_simp Let_def case_prod_unfold)
    ultimately show ?thesis by blast
  next
    case (Some p)
    have "lazy_keeps p (tags w @ [S ''start'']) (snd ?m)"
      using Some l(2) assms(1)
        lazy_keeps_map [of "call ''mmap'' [I (2 ^ 30), I (int (PROT_READ + PROT_WRITE)), S ''MAP_PRIVATE | MAP_ANONYMOUS''] ?w1" p]
      by (simp add: mmap_anon_def world_simps Let_def opens_status_def tags_def split: if_splits)
    from lazy_keeps_show [OF this] obtain w2
      where w2: "lazy_show ''after mmap'' (snd ?m) = Some w2" "lazy_keeps p (tags w @ [S ''start'', S ''after mmap'']) w2"
      by fastforce
    from lazy_keeps_reads [OF this(2) s(2,3)] obtain w3
      where w3: "for_step (\<lambda>i w. do { sink \<leftarrow> peek (p + i) w; Some w }) (2 ^ 30) (nat ?pg) 0 w2 = Some w3"
      "lazy_keeps p (tags w @ [S ''start'', S ''after mmap'']) w3" by blast
    from lazy_keeps_show [OF w3(2)] obtain w4
      where w4: "lazy_show ''after reads'' w3 = Some w4"
      "lazy_keeps p (tags w @ [S ''start'', S ''after mmap'', S ''after reads'']) w4" by fastforce
    from lazy_keeps_writes [OF w4(2) s(2,3)] obtain w5
      where w5: "for_step (\<lambda>i. poke (p + i) (of_nat i)) (2 ^ 30) (nat ?pg) 0 w4 = Some w5"
      "lazy_keeps p (tags w @ [S ''start'', S ''after mmap'', S ''after reads'']) w5" by blast
    from lazy_keeps_show [OF w5(2)] obtain w6
      where w6: "lazy_show ''after writes'' w5 = Some w6"
      "lazy_keeps p (tags w @ [S ''start'', S ''after mmap'', S ''after reads'', S ''after writes'']) w6"
      by fastforce
    from lazy_keeps_show [OF lazy_keeps_dontneed [OF w6(2)]] obtain w7
      where w7: "lazy_show ''after DONTNEED'' (snd (madvise_dontneed p (2 ^ 30) w6)) = Some w7"
      "lazy_keeps p (tags w @ [S ''start'', S ''after mmap'', S ''after reads'', S ''after writes'', S ''after DONTNEED'']) w7"
      by fastforce
    from lazy_keeps_munmap [OF w7(2), of "''after munmap''" "2 ^ 30"] obtain w8
      where w8: "lazy_show ''after munmap'' (snd (munmap p (2 ^ 30) w7)) = Some w8"
      "tags w8 = tags w @ [S ''start'', S ''after mmap'', S ''after reads'', S ''after writes'', S ''after DONTNEED'', S ''after munmap'']"
      by auto
    have "lazy_main w = Some (0, w8)"
      using Some l(1) w2(1) w3(1) w4(1) w5(1) w6(1) w7(1) w8(1) s(1)
      by (simp add: lazy_main_def sys_simp call_simp Let_def case_prod_unfold)
    with w8(2) show ?thesis by blast
  qed
qed

theorem lazy_main_runs_witness:
  "\<exists>w'. (lazy_main status_world = Some (1, w') \<and> tags w' = tags status_world @ [S ''start''])
    \<or> (lazy_main status_world = Some (0, w')
       \<and> tags w' = tags status_world @ [S ''start'', S ''after mmap'', S ''after reads'', S ''after writes'',
           S ''after DONTNEED'', S ''after munmap''])"
  by (rule lazy_main_runs) (simp_all add: opens_status_def status_world_def)

section \<open>The key tables\<close>

text \<open>Both table programs run through their table for every line, cutting the line at its
  newline when an entry matches and going on with the cut line.  The contract of a table is that
  its keys are different words ending in their only colon; then a line is printed at most once,
  for the entry whose key it starts with.\<close>

definition report :: "string \<Rightarrow> (string \<times> string) list \<Rightarrow> string \<Rightarrow> world \<Rightarrow> world" where
  "report fmt tab line w =
     snd (fold (\<lambda>(key, desc) (line, w).
       if strncmp_eq line key
       then (let line = until_newline line in (line, printf fmt [S line, S desc] w))
       else (line, w)) tab (line, w))"

definition key_of :: "string \<Rightarrow> string option" where
  "key_of l = (if CHR '':'' \<in> set l then Some (takeWhile (\<lambda>c. c \<noteq> CHR '':'') l @ '':'') else None)"

definition is_key :: "string \<Rightarrow> bool" where
  "is_key k \<longleftrightarrow> k \<noteq> [] \<and> last k = CHR '':'' \<and> CHR '':'' \<notin> set (butlast k) \<and> newline \<notin> set k"

lemma strncmp_eq_key: "is_key k \<Longrightarrow> strncmp_eq l k \<longleftrightarrow> key_of l = Some k"
proof (induction k arbitrary: l)
  case (Cons c k)
  show ?case
  proof (cases k)
    case Nil
    with Cons.prems show ?thesis by (cases l) (auto simp: is_key_def strncmp_eq_def key_of_def)
  next
    case (Cons d k')
    with Cons.prems have c: "c \<noteq> CHR '':''" "is_key k" by (auto simp: is_key_def)
    show ?thesis
    proof (cases l)
      case (Cons e l')
      have "strncmp_eq l (c # k) \<longleftrightarrow> e = c \<and> strncmp_eq l' k" by (simp add: Cons strncmp_eq_def)
      also have "\<dots> \<longleftrightarrow> e = c \<and> key_of l' = Some k" using Cons.IH [OF c(2)] by simp
      also have "\<dots> \<longleftrightarrow> key_of l = Some (c # k)" using c(1) \<open>k = d # k'\<close> by (auto simp: key_of_def Cons)
      finally show ?thesis .
    qed (simp add: strncmp_eq_def key_of_def)
  qed
qed (simp add: is_key_def)

lemma key_of_line: "key_of (l @ [newline]) = key_of l"
  by (auto simp: key_of_def takeWhile_append)

lemma until_newline_line: "newline \<notin> set l \<Longrightarrow> until_newline (l @ [newline]) = l"
  by (induction l) (auto simp: until_newline_def)

locale key_table =
  fixes tab :: "(string \<times> string) list" and fmt :: string
  assumes keys: "k \<in> fst ` set tab \<Longrightarrow> is_key k"
    and short_keys: "k \<in> fst ` set tab \<Longrightarrow> length k \<le> 255"
    and distinct_keys: "distinct (map fst tab)"
begin

lemma no_match:
  assumes "set t \<subseteq> set tab" "\<forall>k \<in> fst ` set t. key_of l \<noteq> Some k"
  shows "fold (\<lambda>(key, desc) (line, w).
       if strncmp_eq line key
       then (let line = until_newline line in (line, printf fmt [S line, S desc] w))
       else (line, w)) t (l, w) = (l, w)"
  using assms
proof (induction t)
  case (Cons kd t)
  obtain k d where kd: "kd = (k, d)" by fastforce
  with Cons.prems keys [of k] have "is_key k" by force
  with Cons.prems kd have "\<not> strncmp_eq l k" by (simp add: strncmp_eq_key)
  with Cons kd show ?case by simp
qed simp

text \<open>One content of the array: a line with its newline, or a piece of a line without it.\<close>

lemma report_piece:
  assumes l: "newline \<notin> set l" and p: "p = l \<or> p = l @ [newline]"
  shows "report fmt tab p w =
    (case key_of l of None \<Rightarrow> w
     | Some k \<Rightarrow> (case map_of tab k of None \<Rightarrow> w | Some d \<Rightarrow> printf fmt [S l, S d] w))"
proof (cases "\<exists>k d. key_of l = Some k \<and> map_of tab k = Some d")
  case False
  then have "\<forall>k \<in> fst ` set tab. key_of p \<noteq> Some k"
    using p by (auto simp: key_of_line map_of_eq_None_iff [symmetric] dest: weak_map_of_SomeI)
  from no_match [OF subset_refl this] False show ?thesis
    by (auto simp: report_def split: option.splits)
next
  case True
  then obtain k d where k: "key_of l = Some k" "map_of tab k = Some d" by blast
  from k(2) have "(k, d) \<in> set tab" by (rule map_of_SomeD)
  then obtain as bs where tab: "tab = as @ (k, d) # bs" by (meson split_list)
  have nk: "k \<notin> fst ` set as" "k \<notin> fst ` set bs" using distinct_keys by (auto simp: tab)
  have "is_key k" using keys [of k] by (simp add: tab)
  then have m: "strncmp_eq p k" using k(1) p by (auto simp: strncmp_eq_key key_of_line)
  have u: "until_newline p = l" using p until_newline_line [OF l] l by (auto simp: until_newline_def takeWhile_eq_all_conv)
  have "set as \<subseteq> set tab" "set bs \<subseteq> set tab" by (auto simp: tab)
  moreover have kp: "key_of p = Some k" using p k(1) by (auto simp: key_of_line)
  have "\<forall>k' \<in> fst ` set as. key_of p \<noteq> Some k'" "\<forall>k' \<in> fst ` set bs. key_of l \<noteq> Some k'"
    unfolding kp k(1) using nk by blast+
  ultimately show ?thesis
    using k m no_match [of as] no_match [of bs]
    by (simp only: report_def tab [THEN arg_cong [where f = "\<lambda>t. fold _ t _"]]) (simp add: u Let_def)
qed

text \<open>The keys are shorter than the array, so the first piece of a line is reported if the line has a key of the table.\<close>

lemma lookup_take: "Option.bind (key_of (take 255 l)) (map_of tab) = Option.bind (key_of l) (map_of tab)"
proof -
  have "key_of (take 255 l) = Some k \<longleftrightarrow> key_of l = Some k" if "map_of tab k = Some d" for k d
  proof -
    have k: "k \<in> fst ` set tab" using map_of_SomeD [OF that] by force
    have "strncmp_eq (take 255 l) k \<longleftrightarrow> strncmp_eq l k" using short_keys [OF k] by (simp add: strncmp_eq_def min_def)
    then show ?thesis using strncmp_eq_key [OF keys [OF k]] by simp
  qed
  then have "Option.bind (key_of (take 255 l)) (map_of tab) = Some d \<longleftrightarrow> Option.bind (key_of l) (map_of tab) = Some d" for d
    by (auto simp: bind_eq_Some_conv)
  then show ?thesis by (metis not_Some_eq)
qed

lemma report_lookup:
  assumes "newline \<notin> set l" "p = l \<or> p = l @ [newline]"
  shows "report fmt tab p w = (case Option.bind (key_of l) (map_of tab) of None \<Rightarrow> w | Some d \<Rightarrow> printf fmt [S l, S d] w)"
  unfolding report_piece [OF assms] by (simp split: option.splits)

text \<open>A whole file: one printed line for every line of the file with a key of the table, of which at most 255 characters
  are shown, as long as the pieces of longer lines that follow the first do not begin with a key.\<close>

definition row :: "string \<Rightarrow> (string \<times> arg list) option" where
  "row l = map_option (\<lambda>d. (fmt, [S (take 255 l), S d])) (Option.bind (key_of l) (map_of tab))"

definition rest_ok :: "string \<Rightarrow> bool" where
  "rest_ok l \<longleftrightarrow> (\<forall>p \<in> set (tl (pieces_of 256 l)). \<forall>k \<in> fst ` set tab. \<not> strncmp_eq p k)"

lemma report_rest: "\<forall>p \<in> set ps. \<forall>k \<in> fst ` set tab. \<not> strncmp_eq p k \<Longrightarrow> fold (report fmt tab) ps w = w"
proof (induction ps)
  case (Cons p ps)
  then have "report fmt tab p w = w"
    using no_match [OF subset_refl, of p] strncmp_eq_key [OF keys] by (simp add: report_def)
  then show ?case using Cons by simp
qed simp

lemma report_whole_line:
  assumes "plain l" "rest_ok l"
  shows "printed (fold (report fmt tab) (pieces_of 256 l) w) = printed w @ (case row l of None \<Rightarrow> [] | Some x \<Rightarrow> [x])"
proof -
  have ne: "pieces_of 256 l = take 255 (l @ [newline]) # tl (pieces_of 256 l)"
    by (subst (1 2) pieces.simps) simp
  have n: "newline \<notin> set l" using assms(1) by (simp add: plain_def)
  then have t: "newline \<notin> set (take 255 l)" by (meson in_set_takeD)
  have "take 255 (l @ [newline]) = take 255 l \<or> take 255 (l @ [newline]) = take 255 l @ [newline]"
    by (cases "length l < 255") simp_all
  note r = report_lookup [OF t this]
  have "fold (report fmt tab) (pieces_of 256 l) w = report fmt tab (take 255 (l @ [newline])) w"
    by (subst ne, simp, rule report_rest) (use assms(2) in \<open>simp add: rest_ok_def\<close>)
  then show ?thesis unfolding r lookup_take by (simp add: row_def world_simps split: option.splits)
qed

lemma report_file:
  assumes "\<And>l. l \<in> set ls \<Longrightarrow> plain l \<and> rest_ok l"
  shows "printed (fold (report fmt tab) (buffers 256 (text_of ls)) w) = printed w @ List.map_filter row ls"
proof -
  have "buffers 256 (text_of ls) = concat (map (pieces_of 256) ls)" using assms by (intro buffers_pieces) auto
  moreover have "printed (fold (report fmt tab) (concat (map (pieces_of 256) ls)) w) = printed w @ List.map_filter row ls"
    using assms
  proof (induction ls arbitrary: w)
    case (Cons l ls)
    then show ?case using report_whole_line [of l w] by (simp add: map_filter_def fold_append split: option.splits)
  qed (simp add: map_filter_def)
  ultimately show ?thesis by simp
qed

end

interpretation meminfo: key_table wanted "''  %-50s  -- %s''"
proof
  have "\<forall>k \<in> fst ` set wanted. is_key k" "\<forall>k \<in> fst ` set wanted. length k \<le> 255" by code_simp+
  then show "\<And>k. k \<in> fst ` set wanted \<Longrightarrow> is_key k" "\<And>k. k \<in> fst ` set wanted \<Longrightarrow> length k \<le> 255" by blast+
  show "distinct (map fst wanted)" by code_simp
qed

interpretation status: key_table entries "''  %-40s  -- %s''"
proof
  have "\<forall>k \<in> fst ` set entries. is_key k" "\<forall>k \<in> fst ` set entries. length k \<le> 255" by code_simp+
  then show "\<And>k. k \<in> fst ` set entries \<Longrightarrow> is_key k" "\<And>k. k \<in> fst ` set entries \<Longrightarrow> length k \<le> 255" by blast+
  show "distinct (map fst entries)" by code_simp
qed

lemma line_reports:
  "meminfo_line = report ''  %-50s  -- %s'' wanted" "status_line = report ''  %-40s  -- %s'' entries"
  by (simp_all add: fun_eq_iff meminfo_line_def status_line_def report_def)

text \<open>What a table program prints of a line, and what is asked of the pieces of a long line.\<close>

definition table_row :: "string \<Rightarrow> (string \<times> string) list \<Rightarrow> string \<Rightarrow> (string \<times> arg list) option" where
  "table_row fmt tab l = map_option (\<lambda>d. (fmt, [S (take 255 l), S d])) (Option.bind (key_of l) (map_of tab))"

definition later_pieces_ok :: "(string \<times> string) list \<Rightarrow> string \<Rightarrow> bool" where
  "later_pieces_ok tab l \<longleftrightarrow> (\<forall>p \<in> set (tl (pieces_of 256 l)). \<forall>k \<in> fst ` set tab. \<not> strncmp_eq p k)"

lemma later_pieces_short: "length l \<le> 254 \<Longrightarrow> later_pieces_ok tab l"
  by (simp add: later_pieces_ok_def pieces_short)

lemma table_rows:
  "meminfo.row = table_row ''  %-50s  -- %s'' wanted" "status.row = table_row ''  %-40s  -- %s'' entries"
  "meminfo.rest_ok = later_pieces_ok wanted" "status.rest_ok = later_pieces_ok entries"
  by (simp_all add: fun_eq_iff table_row_def meminfo.row_def status.row_def later_pieces_ok_def meminfo.rest_ok_def status.rest_ok_def)

lemma meminfo_prints:
  assumes "\<forall>l \<in> set ls. plain l \<and> later_pieces_ok wanted l" "fst (fopen_r ''/proc/meminfo'' w) = Some (text_of ls)"
  shows "fst (meminfo_main w) = 0 \<and>
    printed (snd (meminfo_main w)) = printed w @ List.map_filter (table_row ''  %-50s  -- %s'' wanted) ls"
  using assms meminfo.report_file [of ls, unfolded table_rows] line_reports(1)
  by (simp add: meminfo_main_def Let_def case_prod_unfold) (simp add: world_simps Let_def)

lemma status_prints:
  assumes "\<forall>l \<in> set ls. plain l \<and> later_pieces_ok entries l" "fst (fopen_r ''/proc/self/status'' w) = Some (text_of ls)"
  shows "map_option fst (status_main w) = Some 0 \<and>
    map_option (printed \<circ> snd) (status_main w) = Some (printed w @ List.map_filter (table_row ''  %-40s  -- %s'' entries) ls)"
  using assms status.report_file [of ls, unfolded table_rows] line_reports(2)
  by (simp add: status_main_def Let_def case_prod_unfold) (simp add: world_simps Let_def)

text \<open>C38. meminfo and status_summary print, in file order, exactly the lines whose key (the text up
  to and with the first colon) is in their table, each once, cut to 255 characters, and with the description of
  that key.  Lines may have any length: of one that does not fit the array only the pieces after the first must not begin with
  a key of the table, which the digits and commas of the long lines of these files cannot.\<close>

theorem table_programs_correct:
  assumes "\<forall>l \<in> set ls. plain l \<and> later_pieces_ok wanted l" "fst (fopen_r ''/proc/meminfo'' w) = Some (text_of ls)"
    and "\<forall>l \<in> set ms. plain l \<and> later_pieces_ok entries l" "fst (fopen_r ''/proc/self/status'' v) = Some (text_of ms)"
  shows "fst (meminfo_main w) = 0 \<and>
      printed (snd (meminfo_main w)) = printed w @ List.map_filter (table_row ''  %-50s  -- %s'' wanted) ls
    \<and> map_option fst (status_main v) = Some 0 \<and>
      map_option (printed \<circ> snd) (status_main v) = Some (printed v @ List.map_filter (table_row ''  %-40s  -- %s'' entries) ms)"
  using meminfo_prints [OF assms(1,2)] status_prints [OF assms(3,4)] by blast

definition meminfo_world :: world where
  "meminfo_world = status_world\<lparr>reply := \<lambda>_. text_of [''MemTotal:       16303428 kB'', ''MemFree:          345678 kB'',
     ''Active:          4711 kB'', ''HugePages_Free:        0'']\<rparr>"

theorem table_programs_correct_witness:
  "printed (snd (meminfo_main meminfo_world)) = map (\<lambda>(l, d). (''  %-50s  -- %s'', [S l, S d]))
     [(''MemTotal:       16303428 kB'', ''total usable RAM''),
      (''MemFree:          345678 kB'', ''untouched RAM (on buddy free lists)''),
      (''HugePages_Free:        0'', ''huge pages free'')]
   \<and> map_option (printed \<circ> snd) (status_main status_world) =
     Some (map (\<lambda>(l, d). (''  %-40s  -- %s'', [S l, S d]))
       [(''VmSize:'' @ [CHR 0x09] @ ''    2784 kB'', ''current VSZ (sum of VMAs)''),
        (''VmLck:'' @ [CHR 0x09] @ ''       0 kB'', ''mlocked''),
        (''VmRSS:'' @ [CHR 0x09] @ ''    1536 kB'', ''current resident set''),
        (''Threads: 1'', ''thread count'')])"
proof -
  let ?ls = "[''MemTotal:       16303428 kB'', ''MemFree:          345678 kB'',
     ''Active:          4711 kB'', ''HugePages_Free:        0'']"
  let ?ms = "[''Name:'' @ [CHR 0x09] @ ''a.out'', ''VmSize:'' @ [CHR 0x09] @ ''    2784 kB'',
     ''VmLck:'' @ [CHR 0x09] @ ''       0 kB'', ''VmRSS:'' @ [CHR 0x09] @ ''    1536 kB'', ''Threads: 1'', mems_line]"
  have ls: "\<forall>l \<in> set ?ls. plain l \<and> later_pieces_ok wanted l" by (simp add: later_pieces_short)
  have "plain mems_line" "later_pieces_ok entries mems_line" by code_simp+
  then have ms: "\<forall>l \<in> set ?ms. plain l \<and> later_pieces_ok entries l" by (simp add: later_pieces_short)
  have f: "fst (fopen_r p meminfo_world) = Some (text_of ?ls)" "fst (fopen_r p status_world) = Some (text_of ?ms)" for p
    by (simp_all add: world_simps status_world_def meminfo_world_def sample_status_def Let_def)
  have pr: "printed status_world = []" "printed meminfo_world = []" by (simp_all add: printed_def status_world_def meminfo_world_def)
  have "List.map_filter (table_row ''  %-50s  -- %s'' wanted) ?ls = map (\<lambda>(l, d). (''  %-50s  -- %s'', [S l, S d]))
     [(''MemTotal:       16303428 kB'', ''total usable RAM''),
      (''MemFree:          345678 kB'', ''untouched RAM (on buddy free lists)''),
      (''HugePages_Free:        0'', ''huge pages free'')]"
    by code_simp
  moreover have "List.map_filter (table_row ''  %-40s  -- %s'' entries) ?ms =
     map (\<lambda>(l, d). (''  %-40s  -- %s'', [S l, S d]))
       [(''VmSize:'' @ [CHR 0x09] @ ''    2784 kB'', ''current VSZ (sum of VMAs)''),
        (''VmLck:'' @ [CHR 0x09] @ ''       0 kB'', ''mlocked''),
        (''VmRSS:'' @ [CHR 0x09] @ ''    1536 kB'', ''current resident set''),
        (''Threads: 1'', ''thread count'')]"
    by code_simp
  ultimately show ?thesis
    using table_programs_correct [OF ls f(1) ms f(2)] pr by (simp only: append_Nil)
qed

end
