(* ===== verification/Proc_Maps.thy ===== *)
theory Proc_Maps
  imports Proc_Status
begin

text \<open>
  The programs that read the memory map of their process from /proc/self/maps, smaps and
  numa_maps: src/02_process_address_space/01_segments_addresses.c (its dump loop),
  03_dump_maps.c, src/04_heap_malloc/03_brk_vs_mmap.c, 08_arenas_threads.c,
  src/12_debugging_tools/01_proc_maps_dump.c, 02_proc_smaps.c and
  src/13_advanced/01_thp_madvise.c, 04_numa_inspect.c.
\<close>

text \<open>The format \<open>"%lx-%lx %5s %lx %7s %lu %255[^\n]"\<close> of both map dumps.\<close>

definition maps_fmt :: "conv list" where
  "maps_fmt = [Ulong 16, Lit (CHR ''-''), Ulong 16, Ws, Word 5, Ws, Ulong 16, Ws, Word 7, Ws,
     Ulong 10, Ws, Line 255]"

definition path_of :: "arg list \<Rightarrow> string" where
  "path_of rest = (case rest of S p # _ \<Rightarrow> p | _ \<Rightarrow> '''')"

section \<open>12_debugging_tools/01_proc_maps_dump.c\<close>

definition dump_kind :: "string \<Rightarrow> string" where
  "dump_kind path =
     (if path \<noteq> [] \<and> hd path = CHR ''['' then path else if path = [] then ''(anon)'' else ''file'')"

definition dump_line :: "string \<Rightarrow> int \<times> world \<Rightarrow> int \<times> world" where
  "dump_line line = (\<lambda>(total, w).
     (case scanf maps_fmt line of
        I a # I b # S perms # I off # S dev # I inode # rest \<Rightarrow>
          (let path = path_of rest; sz = (b - a) mod 2 ^ 64 in
           ((total + sz) mod 2 ^ 64,
            printf ''%012lx-%012lx %-5s %10lu  %-25.25s  %-10s''
              [I a, I b, S perms, I (sz div 2 ^ 10), S path, S (dump_kind path)] w))
      | _ \<Rightarrow> (total, w)))"

definition dump_main :: "world \<Rightarrow> (int \<times> world) option" where
  "dump_main w = do {
     let (f, w) = fopen_r ''/proc/self/maps'' w;
     let w = printf ''%-30s %-5s %-10s  %-25s  %-10s''
               [S ''range'', S ''perm'', S ''size(KiB)'', S ''path'', S ''kind''] w;
     s \<leftarrow> f;
     let (total, w) = fold dump_line (buffers 512 s) (0, w);
     let w = fclose w;
     Some (0, printf ''VSZ total = %lu KiB (%lu MiB)'' [I (total div 2 ^ 10), I (total div 2 ^ 20)] w)}"

section \<open>02_process_address_space/03_dump_maps.c\<close>

definition vss_line :: "string \<Rightarrow> int \<times> world \<Rightarrow> int \<times> world" where
  "vss_line line = (\<lambda>(total, w).
     (case scanf maps_fmt line of
        I start # I end # S perms # I off # S dev # I inode # rest \<Rightarrow>
          (let path = path_of rest; sz = (end - start) mod 2 ^ 64 in
           ((total + sz) mod 2 ^ 64,
            printf ''0x%012lx-0x%012lx %-5s %08lx %-7s %-7lu  %s  (%lu KiB)''
              [I start, I end, S perms, I off, S dev, I inode,
               S (if path \<noteq> [] then path else ''(anon)''), I (sz div 2 ^ 10)] w))
      | _ \<Rightarrow> (total, w)))"

definition rule_line :: string where
  "rule_line = ''---------------------------------------------------------------------''"

definition vss_main :: "world \<Rightarrow> int \<times> world" where
  "vss_main w =
     (let (f, w) = fopen_r ''/proc/self/maps'' w in
      case f of None \<Rightarrow> (1, perror ''open'' w)
      | Some s \<Rightarrow>
        (let w = printf ''%-37s %-5s %-9s %-7s %-7s  %s''
                   [S ''range'', S ''perm'', S ''offset'', S ''dev'', S ''inode'', S ''path''] w;
             w = puts rule_line w;
             (total, w) = fold vss_line (buffers 512 s) (0, w);
             w = fclose w;
             w = puts rule_line w
         in (0, printf ''VSS (all VMAs)  = %lu KiB  (%lu MiB)''
               [I (total div 2 ^ 10), I (total div 2 ^ 20)] w)))"

section \<open>12_debugging_tools/02_proc_smaps.c\<close>

text \<open>\<open>sscanf(line, "Key: %ld kB", &v) == 1\<close>.  A sum that leaves the range of long is undefined.\<close>

definition kb_fmt :: "string \<Rightarrow> conv list" where
  "kb_fmt key = List.map Lit key @ [Lit (CHR '':''), Ws, Long 10, Ws, Lit (CHR ''k''), Lit (CHR ''B'')]"

definition scan_kb :: "string \<Rightarrow> string \<Rightarrow> int option" where
  "scan_kb key line = (case scanf (kb_fmt key) line of I v # _ \<Rightarrow> Some v | _ \<Rightarrow> None)"

definition add_long :: "int \<Rightarrow> int \<Rightarrow> int option" where
  "add_long a b = (if LONG_MIN \<le> a + b \<and> a + b \<le> LONG_MAX then Some (a + b) else None)"

record smaps_sums =
  sum_rss :: int
  sum_pss :: int
  sum_swap :: int
  sum_priv_dirty :: int
  sum_priv_clean :: int

definition smaps_line :: "string \<Rightarrow> smaps_sums \<Rightarrow> smaps_sums option" where
  "smaps_line line t =
     (case scan_kb ''Rss'' line of Some v \<Rightarrow> map_option (\<lambda>x. t\<lparr>sum_rss := x\<rparr>) (add_long (sum_rss t) v)
      | None \<Rightarrow>
     (case scan_kb ''Pss'' line of Some v \<Rightarrow> map_option (\<lambda>x. t\<lparr>sum_pss := x\<rparr>) (add_long (sum_pss t) v)
      | None \<Rightarrow>
     (case scan_kb ''Swap'' line of Some v \<Rightarrow> map_option (\<lambda>x. t\<lparr>sum_swap := x\<rparr>) (add_long (sum_swap t) v)
      | None \<Rightarrow>
     (case scan_kb ''Private_Dirty'' line of
        Some v \<Rightarrow> map_option (\<lambda>x. t\<lparr>sum_priv_dirty := x\<rparr>) (add_long (sum_priv_dirty t) v)
      | None \<Rightarrow>
     (case scan_kb ''Private_Clean'' line of
        Some v \<Rightarrow> map_option (\<lambda>x. t\<lparr>sum_priv_clean := x\<rparr>) (add_long (sum_priv_clean t) v)
      | None \<Rightarrow> Some t)))))"

definition smaps_main :: "world \<Rightarrow> (int \<times> world) option" where
  "smaps_main w = do {
     let (f, w) = fopen_r ''/proc/self/smaps'' w;
     s \<leftarrow> f;
     t \<leftarrow> for_list smaps_line (buffers 512 s)
            \<lparr>sum_rss = 0, sum_pss = 0, sum_swap = 0, sum_priv_dirty = 0, sum_priv_clean = 0\<rparr>;
     let w = fclose w;
     let w = printf ''RSS           = %8ld KiB'' [I (sum_rss t)] w;
     let w = printf ''PSS           = %8ld KiB  (your fair share)'' [I (sum_pss t)] w;
     let w = printf ''Swap          = %8ld KiB'' [I (sum_swap t)] w;
     let w = printf ''Private_Dirty = %8ld KiB  (would survive across exec)'' [I (sum_priv_dirty t)] w;
     let w = printf ''Private_Clean = %8ld KiB  (can be dropped freely)'' [I (sum_priv_clean t)] w;
     Some (0, w)}"

section \<open>04_heap_malloc/03_brk_vs_mmap.c\<close>

definition dump_maps_filtered :: "world \<Rightarrow> world option" where
  "dump_maps_filtered w = do {
     let (f, w) = fopen_r ''/proc/self/maps'' w;
     s \<leftarrow> f;
     let w = fold (\<lambda>line w.
               if strstr line ''[heap]'' \<or> strstr line ''(anon)'' \<or> strstr line ''00:00 0''
               then fputs line w else w) (buffers 512 s) w;
     Some (fclose w)}"

definition sbrk0 :: "world \<Rightarrow> int \<times> world" where
  "sbrk0 = sys ''sbrk'' [I 0]"

fun print_blocks :: "string \<Rightarrow> nat \<Rightarrow> addr list \<Rightarrow> world \<Rightarrow> world" where
  "print_blocks fmt i [] w = w"
| "print_blocks fmt i (p # ps) w = print_blocks fmt (Suc i) ps (printf fmt [I (int i), I (int p)] w)"

definition brk_mmap_main :: "world \<Rightarrow> (int \<times> world) option" where
  "brk_mmap_main w = do {
     let w = call ''mallopt'' [S ''M_MMAP_THRESHOLD'', I (64 * 1024)] w;
     let (b, w) = sbrk0 w;
     let w = printf ''program break (sbrk(0)) = %p'' [I b] w;
     let (small, w) = malloc_each (replicate 4 1024) w;
     let (big, w) = malloc_each (replicate 4 (200 * 1024)) w;
     let w = puts ''small allocations (1 KiB each):'' w;
     let w = print_blocks ''  small[%d] = %p'' 0 small w;
     let w = puts ''big   allocations (200 KiB each):'' w;
     let w = print_blocks ''  big[%d]   = %p'' 0 big w;
     let (b1, w) = sbrk0 w;
     let (b2, w) = sbrk0 w;
     let w = printf ''new program break        = %p   (grew? %s)''
               [I b1, S (if b2 > int (small ! 0) then ''yes'' else ''maybe'')] w;
     let w = puts ''/proc/self/maps (filtered):'' w;
     w \<leftarrow> dump_maps_filtered w;
     let w = fold (\<lambda>(s, b) w. free b (free s w)) (zip small big) w;
     Some (0, w)}"

section \<open>04_heap_malloc/08_arenas_threads.c\<close>

definition count_anon_vmas :: "string \<Rightarrow> world \<Rightarrow> world option" where
  "count_anon_vmas tag w = do {
     let (f, w) = fopen_r ''/proc/self/maps'' w;
     s \<leftarrow> f;
     let (anon, file) = fold (\<lambda>line (anon, file).
            if strstr line ''00:00 0'' then (anon + 1, file) else (anon, file + 1))
            (buffers 512 s) (0, 0 :: int);
     let w = fclose w;
     Some (printf ''[%s] anonymous VMAs=%d  file-backed VMAs=%d'' [S tag, I anon, I file] w)}"

section \<open>13_advanced/04_numa_inspect.c and the dump loop of 01_segments_addresses.c\<close>

definition numa_main :: "world \<Rightarrow> int \<times> world" where
  "numa_main w =
     (let (f, w) = fopen_r ''/proc/self/numa_maps'' w in
      case f of None \<Rightarrow> (1, perror ''open'' w)
      | Some s \<Rightarrow> (0, fclose (fold fputs (buffers 1024 s) w)))"

definition segments_dump :: "world \<Rightarrow> world" where
  "segments_dump w =
     (let w = puts ''=== /proc/self/maps ==='' w;
          (f, w) = fopen_r ''/proc/self/maps'' w
      in case f of None \<Rightarrow> w | Some s \<Rightarrow> fclose (fold fputs (buffers 512 s) w))"

section \<open>13_advanced/01_thp_madvise.c\<close>

text \<open>The loop over the lines with its two breaks: the lines it prints.\<close>

fun thp_scan :: "string \<Rightarrow> bool \<Rightarrow> string list \<Rightarrow> world \<Rightarrow> world" where
  "thp_scan our in_ours [] w = w"
| "thp_scan our in_ours (line # ls) w =
     (let in_ours = (in_ours \<or> strstr line our) in
      if in_ours then
        (let w = fputs line w in
         if (line = [] \<or> hd line \<noteq> CHR '' '') \<and> CHR ''-'' \<notin> set line \<and> in_ours then w
         else if strncmp_eq line ''VmFlags:'' then w
         else thp_scan our in_ours ls w)
      else thp_scan our in_ours ls w)"

definition thp_main :: "world \<Rightarrow> (int \<times> world) option" where
  "thp_main w = do {
     let len = 64 * 2 ^ 20;
     let (p, w) = mmap_anon ''MAP_PRIVATE | MAP_ANONYMOUS'' len (PROT_READ + PROT_WRITE) w;
     case p of None \<Rightarrow> Some (1, perror ''mmap'' w)
     | Some p \<Rightarrow> do {
       let (e, w) = sys ''madvise'' [I (int p), I (int len), S ''MADV_HUGEPAGE''] w;
       let w = (if e < 0 then perror ''madvise(HUGEPAGE)'' w else w);
       w \<leftarrow> mem_set p 0x41 len w;
       let w = call ''sleep'' [I 3] w;
       let our = show_nat 16 p @ ''-'' @ show_nat 16 (add64 p len);
       let (f, w) = fopen_r ''/proc/self/smaps'' w;
       s \<leftarrow> f;
       let w = thp_scan our False (buffers 512 s) w;
       let w = fclose w;
       let (r, w) = munmap p len w;
       Some (0, w)}}"

section \<open>The kernel's format of a mapping\<close>

text \<open>What proc(5) documents of a line of maps: the address range in hexadecimal, at least eight
  digits each, the permissions, the offset, the device, the inode, and the path padded with
  blanks, absent for an anonymous mapping.\<close>

record vma =
  vm_start :: nat
  vm_end :: nat
  vm_perms :: string
  vm_off :: nat
  vm_dev :: string
  vm_inode :: nat
  vm_pad :: nat
  vm_path :: string

definition vma_head :: "vma \<Rightarrow> string" where
  "vma_head v = pad_nat 8 16 (vm_start v) @ ''-'' @ pad_nat 8 16 (vm_end v) @ '' '' @ vm_perms v @ '' ''
     @ pad_nat 8 16 (vm_off v) @ '' '' @ vm_dev v @ '' '' @ pad_nat 0 10 (vm_inode v)"

definition vma_line :: "vma \<Rightarrow> string" where
  "vma_line v = vma_head v @ '' '' @ replicate (vm_pad v) (CHR '' '') @ vm_path v"

text \<open>Where the path begins in the line.\<close>

definition path_column :: "vma \<Rightarrow> nat" where
  "path_column v = length (vma_head v) + 1 + vm_pad v"

definition word_like :: "nat \<Rightarrow> string \<Rightarrow> bool" where
  "word_like n t \<longleftrightarrow> t \<noteq> [] \<and> length t \<le> n \<and> (\<forall>c \<in> set t. \<not> is_space c) \<and> plain t"

text \<open>Any mapping: the numbers are 64-bit values, the permissions are the four documented characters (five would
  do), the device is a word of at most nine characters (the hexadecimal digits of a 12-bit major and a 20-bit minor
  number, and the colon), and the path, of any length, is escaped so that it has no newline and begins with a character
  that is no blank.\<close>

definition kernel_vma :: "vma \<Rightarrow> bool" where
  "kernel_vma v \<longleftrightarrow> vm_start v \<le> vm_end v \<and> vm_end v < 2 ^ 64 \<and> vm_off v < 2 ^ 64 \<and> vm_inode v < 2 ^ 64
     \<and> word_like 5 (vm_perms v) \<and> word_like 9 (vm_dev v)
     \<and> plain (vm_path v) \<and> (vm_path v = [] \<or> \<not> is_space (hd (vm_path v)))"

text \<open>A mapping whose line fits the array and whose device and path fit the conversions.\<close>

definition wf_vma :: "vma \<Rightarrow> bool" where
  "wf_vma v \<longleftrightarrow> kernel_vma v \<and> length (vm_dev v) \<le> 7 \<and> length (vm_path v) \<le> 255 \<and> length (vma_line v) \<le> 510"

definition vma_fields :: "vma \<Rightarrow> arg list" where
  "vma_fields v = [I (int (vm_start v)), I (int (vm_end v)), S (vm_perms v), I (int (vm_off v)),
     S (vm_dev v), I (int (vm_inode v))] @ (if vm_path v = [] then [] else [S (vm_path v)])"

lemma blank_props:
  "is_space (CHR '' '')" "\<not> is_digit base (CHR '' '')" "\<not> is_digit base (CHR ''-'')"
  "is_space newline" "\<not> is_digit base newline"
  by (simp_all add: is_space_def is_digit_def digit_val_def)

lemma scanf_blank:
  assumes "r = [] \<or> \<not> is_space (hd r)"
  shows "scanf (Ws # f) (CHR '' '' # r) = scanf f r"
  using scanf_ws [of "'' ''" r f] assms by (simp add: blank_props)

lemma scanf_blank_word:
  assumes "t \<noteq> []" "\<forall>c \<in> set t. \<not> is_space c"
  shows "scanf (Ws # f) ('' '' @ t @ r) = scanf f (t @ r)"
proof -
  obtain c cs where "t = c # cs" "\<not> is_space c" using assms by (cases t) auto
  with scanf_blank [of "t @ r" f] show ?thesis by (simp del: scanf.simps)
qed

lemma scanf_blank_nat:
  assumes "1 < base" "base \<le> 16"
  shows "scanf (Ws # f) ('' '' @ pad_nat width base n @ r) = scanf f (pad_nat width base n @ r)"
proof (rule scanf_blank_word)
  show "pad_nat width base n \<noteq> []" by (rule pad_nat_digits(1) [OF assms])
  show "\<forall>c \<in> set (pad_nat width base n). \<not> is_space c"
    using pad_nat_digits(2) [OF assms, of width n] is_digit_char [OF _ assms(2)] by blast
qed

text \<open>The end of what the array holds of a line: blanks, as much of the path as it has room for, and perhaps the newline.\<close>

lemma scanf_line_cut:
  assumes "newline \<notin> set q" "q \<noteq> []" "0 < n" "r = [] \<or> r = [newline]"
  shows "scanf [Line n] (q @ r) = [S (take n q)]"
proof -
  have "\<forall>c \<in> set (take n q). c \<noteq> newline" using assms(1) by (auto dest: in_set_takeD)
  then have "takeWhile (\<lambda>c. c \<noteq> newline) (take n (q @ r)) = take n q @ takeWhile (\<lambda>c. c \<noteq> newline) (take (n - length q) r)"
    by (simp add: takeWhile_append2)
  moreover have "takeWhile (\<lambda>c. c \<noteq> newline) (take (n - length q) r) = []"
    using assms(4) by (cases "n - length q") auto
  ultimately have "takeWhile (\<lambda>c. c \<noteq> newline) (take n (q @ r)) = take n q" by simp
  then show ?thesis using assms(2,3) by (simp add: Let_def)
qed

lemma scanf_tail:
  assumes "plain q" "q = [] \<or> \<not> is_space (hd q)" "r = [] \<or> r = [newline]"
  shows "scanf [Ws, Line 255] ('' '' @ replicate k (CHR '' '') @ q @ r) = (if q = [] then [] else [S (take 255 q)])"
proof (cases "q = []")
  case True
  have "skip_ws ('' '' @ replicate k (CHR '' '') @ r) = []"
    using assms(3) by (auto simp: skip_ws_def blank_props)
  with True show ?thesis by simp
next
  case False
  have "scanf [Ws, Line 255] (('' '' @ replicate k (CHR '' '')) @ q @ r) = scanf [Line 255] (q @ r)"
    using False assms(2) by (intro scanf_ws) (auto simp: blank_props)
  also have "scanf [Line 255] (q @ r) = [S (take 255 q)]"
    using assms(1,3) False by (intro scanf_line_cut) (simp_all add: plain_def)
  finally show ?thesis using False by simp
qed

lemma pad_nat_length:
  "1 < base \<Longrightarrow> n < base ^ Suc k \<Longrightarrow> length (pad_nat width base n) \<le> max width (Suc k)"
  using show_nat_length [of base n k] by (simp add: pad_nat_def)

lemma scanf_long_word:
  assumes "\<forall>c \<in> set t. \<not> is_space c" "n < length t" "0 < n"
  shows "scanf (Word n # f) (t @ r) = S (take n t) # scanf f (drop n t @ r)"
proof -
  obtain c cs where t: "t = c # cs" "\<not> is_space c" using assms by (cases t) auto
  then have "skip_ws (t @ r) = t @ r" by (simp add: skip_ws_def)
  moreover have "takeWhile (\<lambda>c. \<not> is_space c) (take n t) = take n t"
    using assms(1) by (auto simp: takeWhile_eq_all_conv dest: in_set_takeD)
  moreover have "take n t \<noteq> []" using assms(2,3) by auto
  ultimately show ?thesis using assms(2,3) by (simp add: Let_def min_def del: takeWhile_eq_all_conv)
qed

definition head_fields :: "vma \<Rightarrow> arg list" where
  "head_fields v = [I (int (vm_start v)), I (int (vm_end v)), S (vm_perms v), I (int (vm_off v))]"

text \<open>The fields before the path, whatever follows the inode.\<close>

lemma scan_head:
  assumes "kernel_vma v"
  shows "scanf maps_fmt (vma_head v @ '' '' @ T) = head_fields v @
    (if length (vm_dev v) \<le> 7 then S (vm_dev v) # I (int (vm_inode v)) # scanf [Ws, Line 255] ('' '' @ T)
     else S (take 7 (vm_dev v)) # scanf [Ws, Ulong 10, Ws, Line 255] (drop 7 (vm_dev v) @ '' '' @ pad_nat 0 10 (vm_inode v) @ '' '' @ T))"
proof -
  note wf = assms [unfolded kernel_vma_def word_like_def]
  have b: "1 < (16 :: nat)" "(16 :: nat) \<le> 16" "1 < (10 :: nat)" "(10 :: nat) \<le> 16" by simp_all
  let ?t5 = "pad_nat 0 10 (vm_inode v) @ '' '' @ T"
  let ?t4 = "vm_dev v @ '' '' @ ?t5"
  let ?t3 = "pad_nat 8 16 (vm_off v) @ '' '' @ ?t4"
  let ?t2 = "vm_perms v @ '' '' @ ?t3"
  let ?t1 = "pad_nat 8 16 (vm_end v) @ '' '' @ ?t2"
  have s1: "scanf (Ulong 16 # f) (pad_nat 8 16 (vm_start v) @ ''-'' @ r) = I (int (vm_start v)) # scanf f (''-'' @ r)" for f r
    using wf by (intro scanf_ulong b) (auto simp: blank_props)
  have s2: "scanf (Ulong 16 # f) (pad_nat 8 16 n @ '' '' @ r) = I (int n) # scanf f ('' '' @ r)" if "n < 2 ^ 64" for f r n
    using that by (intro scanf_ulong b) (auto simp: blank_props)
  have s3: "scanf (Ulong 10 # f) (pad_nat 0 10 (vm_inode v) @ '' '' @ r) = I (int (vm_inode v)) # scanf f ('' '' @ r)" for f r
    using wf by (intro scanf_ulong b) (auto simp: blank_props)
  have s4: "scanf (Word 5 # f) (vm_perms v @ '' '' @ r) = S (vm_perms v) # scanf f ('' '' @ r)" for f r
    using wf by (intro scanf_word) (auto simp: blank_props)
  have pw: "vm_perms v \<noteq> []" "\<forall>c \<in> set (vm_perms v). \<not> is_space c"
    and dw: "vm_dev v \<noteq> []" "\<forall>c \<in> set (vm_dev v). \<not> is_space c" using wf by blast+
  have h: "scanf (Ws # f) ('' '' @ ?t2) = scanf f ?t2" "scanf (Ws # f) ('' '' @ ?t4) = scanf f ?t4" for f
    by (rule scanf_blank_word [OF pw] scanf_blank_word [OF dw])+
  have h': "scanf (Ws # f) ('' '' @ pad_nat w 16 n @ r) = scanf f (pad_nat w 16 n @ r)"
    "scanf (Ws # f) ('' '' @ pad_nat w 10 n @ r) = scanf f (pad_nat w 10 n @ r)" for f r w n
    by (rule scanf_blank_nat; simp)+
  have l: "vma_head v @ '' '' @ T = pad_nat 8 16 (vm_start v) @ ''-'' @ ?t1" by (simp add: vma_head_def)
  have lit: "scanf (Lit (CHR ''-'') # f) (''-'' @ r) = scanf f r" for f r by simp
  have upto: "scanf maps_fmt (vma_head v @ '' '' @ T) = head_fields v @ scanf [Word 7, Ws, Ulong 10, Ws, Line 255] ?t4"
    unfolding maps_fmt_def l s1 lit s2 [OF wf [THEN conjunct2, THEN conjunct1]] h s4 h'
      s2 [OF wf [THEN conjunct2, THEN conjunct2, THEN conjunct1]] by (simp only: head_fields_def append.simps)
  show ?thesis
  proof (cases "length (vm_dev v) \<le> 7")
    case True
    have "scanf (Word 7 # f) (vm_dev v @ '' '' @ r) = S (vm_dev v) # scanf f ('' '' @ r)" for f r
      using wf True by (intro scanf_word) (auto simp: blank_props)
    then show ?thesis using True unfolding upto by (simp only: h' s3 if_True)
  next
    case False
    then have "scanf [Word 7, Ws, Ulong 10, Ws, Line 255] ?t4 =
        S (take 7 (vm_dev v)) # scanf [Ws, Ulong 10, Ws, Line 255] (drop 7 (vm_dev v) @ '' '' @ ?t5)"
      using dw(2) by (intro scanf_long_word) simp_all
    then show ?thesis using False unfolding upto by (simp only: if_False)
  qed
qed

lemma vma_head_length:
  assumes "kernel_vma v"
  shows "length (vma_head v) \<le> 87"
proof -
  have h: "length (pad_nat 8 16 n) \<le> 16" if "n < 2 ^ 64" for n
    using pad_nat_length [of 16 n 15 8] that by simp
  have "vm_start v < 2 ^ 64" using assms by (simp add: kernel_vma_def)
  moreover have "length (pad_nat 0 10 (vm_inode v)) \<le> 20"
    using pad_nat_length [of 10 "vm_inode v" 19 0] assms by (simp add: kernel_vma_def)
  ultimately have "length (pad_nat 8 16 (vm_start v)) \<le> 16" "length (pad_nat 8 16 (vm_end v)) \<le> 16"
    "length (pad_nat 8 16 (vm_off v)) \<le> 16" "length (pad_nat 0 10 (vm_inode v)) \<le> 20" "length (vm_perms v) \<le> 5" "length (vm_dev v) \<le> 9"
    using assms h by (simp_all add: kernel_vma_def word_like_def)
  then show ?thesis by (simp add: vma_head_def)
qed

lemma vma_line_plain: "kernel_vma v \<Longrightarrow> plain (vma_line v)"
  using pad_nat_plain [of 16] pad_nat_plain [of 10]
  by (auto simp: kernel_vma_def word_like_def vma_line_def vma_head_def) (auto simp: plain_def)

lemma first_buffer:
  assumes "plain l"
  shows "hd (buffers 512 (l @ newline # rest)) = take 511 (l @ [newline])"
proof -
  have "buffers 512 (l @ newline # rest) = pieces 510 (l @ [newline]) @ buffers 512 rest" using buffers_line [OF assms] by simp
  then show ?thesis by (subst (asm) pieces.simps) simp
qed

text \<open>The array holds the whole head of a line.\<close>

lemma buffer_head:
  assumes "kernel_vma v"
  obtains k q r where "take 511 (vma_line v @ [newline]) = vma_head v @ '' '' @ replicate k (CHR '' '') @ q @ r"
    "q = take (511 - path_column v) (vm_path v)" "r = [] \<or> r = [newline]"
proof -
  define m where "m = 510 - length (vma_head v)"
  have m: "511 - length (vma_head v) = Suc m" using vma_head_length [OF assms] by (simp add: m_def)
  have "take 511 (vma_line v @ [newline]) = vma_head v @ take (Suc m) ('' '' @ replicate (vm_pad v) (CHR '' '') @ vm_path v @ [newline])"
    using vma_head_length [OF assms] by (simp add: vma_line_def m)
  also have "\<dots> = vma_head v @ '' '' @ replicate (min m (vm_pad v)) (CHR '' '') @ take (m - vm_pad v) (vm_path v)
      @ take (m - vm_pad v - length (vm_path v)) [newline]" by simp
  finally show thesis
  proof (rule that)
    show "take (m - vm_pad v) (vm_path v) = take (511 - path_column v) (vm_path v)"
      by (simp add: m_def path_column_def)
    show "take (m - vm_pad v - length (vm_path v)) [newline] = [] \<or> take (m - vm_pad v - length (vm_path v)) [newline] = [newline]"
      by (cases "m - vm_pad v - length (vm_path v)") simp_all
  qed
qed

text \<open>What is read of a mapping whose device has at most seven characters, and of one with a longer device.\<close>

lemma scan_short_dev:
  assumes v: "kernel_vma v" and d: "length (vm_dev v) \<le> 7"
  shows "scanf maps_fmt (take 511 (vma_line v @ [newline])) = head_fields v @ [S (vm_dev v), I (int (vm_inode v))] @
    (let q = take (min 255 (511 - path_column v)) (vm_path v) in if q = [] then [] else [S q])"
proof -
  obtain k q r where l: "take 511 (vma_line v @ [newline]) = vma_head v @ '' '' @ replicate k (CHR '' '') @ q @ r"
    and q: "q = take (511 - path_column v) (vm_path v)" and r: "r = [] \<or> r = [newline]" by (rule buffer_head [OF v])
  have "plain (vm_path v)" "vm_path v = [] \<or> \<not> is_space (hd (vm_path v))" using v by (simp_all add: kernel_vma_def)
  then have "plain q" "q = [] \<or> \<not> is_space (hd q)"
    unfolding q by (auto simp: plain_def hd_take dest: in_set_takeD)
  from scanf_tail [OF this r, of k] have t: "scanf [Ws, Line 255] ('' '' @ replicate k (CHR '' '') @ q @ r) = (if q = [] then [] else [S (take 255 q)])" .
  have "take 255 q = take (min 255 (511 - path_column v)) (vm_path v)" by (simp add: q)
  moreover have "q = [] \<longleftrightarrow> take 255 q = []" by simp
  ultimately show ?thesis unfolding l scan_head [OF v] t using d by (simp only: Let_def if_True append.simps)
qed

lemma scan_long_dev:
  assumes v: "kernel_vma v" and d: "\<not> length (vm_dev v) \<le> 7"
  shows "take 5 (scanf maps_fmt (take 511 (vma_line v @ [newline]))) = head_fields v @ [S (take 7 (vm_dev v))]"
proof -
  obtain k q r where l: "take 511 (vma_line v @ [newline]) = vma_head v @ '' '' @ replicate k (CHR '' '') @ q @ r"
    by (rule buffer_head [OF v])
  show ?thesis unfolding l scan_head [OF v] using d by (simp add: head_fields_def)
qed

text \<open>C36. The sscanf format of the two map dumps, on what fgets with the 512-character array hands it of any line the
  kernel writes.  If the device has at most seven characters (minor numbers below 65536), all
  numbers, the permissions and the device are read back, and of the path the first 255
  characters, or as many as the array has room for: all of it, and all seven fields (six for a mapping
  without a path), when the path has at most 255 characters and begins before column 256, where the
  kernel puts it.  A longer device is cut after seven characters, and what is left of it is read as the inode.\<close>

theorem maps_line_roundtrip:
  assumes "kernel_vma v"
  shows "let line = hd (buffers 512 (vma_line v @ newline # rest)) in
    if length (vm_dev v) \<le> 7
    then scanf maps_fmt line = head_fields v @ [S (vm_dev v), I (int (vm_inode v))] @
           (let q = take (min 255 (511 - path_column v)) (vm_path v) in if q = [] then [] else [S q]) \<and>
         (length (vm_path v) \<le> 255 \<and> path_column v \<le> 256 \<longrightarrow> scanf maps_fmt line = vma_fields v)
    else take 5 (scanf maps_fmt line) = head_fields v @ [S (take 7 (vm_dev v))]"
proof -
  have b: "hd (buffers 512 (vma_line v @ newline # rest)) = take 511 (vma_line v @ [newline])"
    by (rule first_buffer [OF vma_line_plain [OF assms]])
  show ?thesis
  proof (cases "length (vm_dev v) \<le> 7")
    case True
    note r = scan_short_dev [OF assms True]
    have "scanf maps_fmt (take 511 (vma_line v @ [newline])) = vma_fields v" if "length (vm_path v) \<le> 255" "path_column v \<le> 256"
    proof -
      have "take (min 255 (511 - path_column v)) (vm_path v) = vm_path v" using that by simp
      then show ?thesis unfolding r by (simp add: vma_fields_def head_fields_def)
    qed
    then show ?thesis unfolding b Let_def [of "take 511 (vma_line v @ [newline])"] using True r by (simp only: if_True) blast
  next
    case False
    then show ?thesis unfolding b Let_def [of "take 511 (vma_line v @ [newline])"] using scan_long_dev [OF assms False] by (simp only: if_False)
  qed
qed

definition sample_vmas :: "vma list" where
  "sample_vmas =
    [\<lparr>vm_start = 0x55d0c0a00000, vm_end = 0x55d0c0a02000, vm_perms = ''r-xp'', vm_off = 0, vm_dev = ''08:02'',
      vm_inode = 173521, vm_pad = 20, vm_path = ''/usr/bin/dd''\<rparr>,
     \<lparr>vm_start = 0x7f0000000000, vm_end = 0x7f0000100000, vm_perms = ''rw-p'', vm_off = 0, vm_dev = ''00:00'',
      vm_inode = 0, vm_pad = 0, vm_path = []\<rparr>]"

lemma sample_vmas_wf: "\<forall>v \<in> set sample_vmas. wf_vma v"
proof -
  have "length (pad_nat 8 16 n) \<le> 16" if "n < 2 ^ 64" for n
    using pad_nat_length [of 16 n 15 8] that by simp
  then have "length (pad_nat 8 16 0x55d0c0a00000) \<le> 16" "length (pad_nat 8 16 0x55d0c0a02000) \<le> 16"
    "length (pad_nat 8 16 0x7f0000000000) \<le> 16" "length (pad_nat 8 16 0x7f0000100000) \<le> 16"
    "length (pad_nat 8 16 0) \<le> 16" by simp_all
  moreover have "length (pad_nat 0 10 173521) \<le> 6" "length (pad_nat 0 10 0) \<le> 6"
    using pad_nat_length [of 10 _ 5 0] by simp_all
  ultimately show ?thesis
    by (simp add: sample_vmas_def wf_vma_def kernel_vma_def word_like_def is_space_def vma_line_def vma_head_def)
qed

theorem maps_line_roundtrip_witness:
  "scanf maps_fmt (hd (buffers 512 (vma_line (sample_vmas ! 1) @ newline # ''rest''))) =
     [I 0x7f0000000000, I 0x7f0000100000, S ''rw-p'', I 0, S ''00:00'', I 0] \<and>
   take 5 (scanf maps_fmt (hd (buffers 512 (vma_line ((sample_vmas ! 0)\<lparr>vm_dev := ''103:10000''\<rparr>) @ newline # ''rest'')))) =
     [I 0x55d0c0a00000, I 0x55d0c0a02000, S ''r-xp'', I 0, S ''103:100'']"
proof -
  have "sample_vmas ! 1 \<in> set sample_vmas" "sample_vmas ! 0 \<in> set sample_vmas" by (simp_all add: sample_vmas_def)
  then have "kernel_vma (sample_vmas ! 1)" "kernel_vma (sample_vmas ! 0)" using sample_vmas_wf by (auto simp: wf_vma_def)
  then have k: "kernel_vma (sample_vmas ! 1)" "kernel_vma ((sample_vmas ! 0)\<lparr>vm_dev := ''103:10000''\<rparr>)"
    by (simp_all add: kernel_vma_def word_like_def is_space_def)
  have f: "vm_dev (sample_vmas ! 1) = ''00:00''" "vm_path (sample_vmas ! 1) = []"
    "head_fields (sample_vmas ! 1) = [I 0x7f0000000000, I 0x7f0000100000, S ''rw-p'', I 0]" "vm_inode (sample_vmas ! 1) = 0"
    "head_fields ((sample_vmas ! 0)\<lparr>vm_dev := ''103:10000''\<rparr>) = [I 0x55d0c0a00000, I 0x55d0c0a02000, S ''r-xp'', I 0]"
    by (simp_all add: sample_vmas_def head_fields_def)
  show ?thesis using maps_line_roundtrip [OF k(1), of "''rest''"] maps_line_roundtrip [OF k(2), of "''rest''"]
    unfolding Let_def by (simp add: f del: One_nat_def)
qed

section \<open>The totals of the map dumps\<close>

lemma maps_line_scan:
  assumes "wf_vma v"
  shows "scanf maps_fmt (vma_line v @ [newline]) =
    I (int (vm_start v)) # I (int (vm_end v)) # S (vm_perms v) # I (int (vm_off v)) # S (vm_dev v)
      # I (int (vm_inode v)) # (if vm_path v = [] then [] else [S (vm_path v)])"
proof -
  have "length (vma_line v @ [newline]) \<le> 511" using assms by (simp add: wf_vma_def)
  then have l: "take 511 (vma_line v @ [newline]) = vma_line v @ [newline]" by (rule take_all)
  have "length (vma_line v) = path_column v + length (vm_path v)" by (simp add: vma_line_def path_column_def)
  then have "length (vm_path v) \<le> 255" "length (vm_path v) \<le> 511 - path_column v" using assms unfolding wf_vma_def by arith+
  then have "take (min 255 (511 - path_column v)) (vm_path v) = vm_path v" by simp
  then show ?thesis using scan_short_dev [of v] assms unfolding l by (simp add: wf_vma_def head_fields_def)
qed

definition vm_size :: "vma \<Rightarrow> nat" where
  "vm_size v = vm_end v - vm_start v"

lemma vma_size_int: "wf_vma v \<Longrightarrow> (int (vm_end v) - int (vm_start v)) mod 2 ^ 64 = int (vm_size v)"
  by (simp add: wf_vma_def kernel_vma_def vm_size_def of_nat_diff)

lemma path_of_simps [simp]: "path_of [] = []" "path_of (S p # r) = p"
  by (simp_all add: path_of_def)

lemma dump_line_vma:
  assumes "wf_vma v"
  shows "dump_line (vma_line v @ [newline]) (t, w) =
    ((t + int (vm_size v)) mod 2 ^ 64,
     printf ''%012lx-%012lx %-5s %10lu  %-25.25s  %-10s''
       [I (int (vm_start v)), I (int (vm_end v)), S (vm_perms v), I (int (vm_size v) div 2 ^ 10),
        S (vm_path v), S (dump_kind (vm_path v))] w)"
  using maps_line_scan [OF assms] vma_size_int [OF assms] by (simp add: dump_line_def Let_def)

lemma vss_line_vma:
  assumes "wf_vma v"
  shows "vss_line (vma_line v @ [newline]) (t, w) =
    ((t + int (vm_size v)) mod 2 ^ 64,
     printf ''0x%012lx-0x%012lx %-5s %08lx %-7s %-7lu  %s  (%lu KiB)''
       [I (int (vm_start v)), I (int (vm_end v)), S (vm_perms v), I (int (vm_off v)), S (vm_dev v),
        I (int (vm_inode v)), S (if vm_path v \<noteq> [] then vm_path v else ''(anon)''),
        I (int (vm_size v) div 2 ^ 10)] w)"
  using maps_line_scan [OF assms] vma_size_int [OF assms] by (simp add: vss_line_def Let_def)

text \<open>Both loops have the same shape: they print a line per mapping and add the sizes up.\<close>

lemma fold_total:
  assumes step: "\<And>v t w. v \<in> set vs \<Longrightarrow> f (g v) (t, w) = ((t + int (vm_size v)) mod 2 ^ 64, printf fmt (row v) w)"
    and "0 \<le> t" "t + int (sum_list (map vm_size vs)) < 2 ^ 64"
  shows "fold f (map g vs) (t, w) =
    (t + int (sum_list (map vm_size vs)), w\<lparr>log := log w @ map (\<lambda>v. Out fmt (row v)) vs\<rparr>)"
  using assms
proof (induction vs arbitrary: t w)
  case (Cons v vs)
  from Cons.prems have m: "(t + int (vm_size v)) mod 2 ^ 64 = t + int (vm_size v)" by simp
  have "fold f (map g vs) (t + int (vm_size v), printf fmt (row v) w) =
    (t + int (vm_size v) + int (sum_list (map vm_size vs)),
     (printf fmt (row v) w)\<lparr>log := log (printf fmt (row v) w) @ map (\<lambda>v. Out fmt (row v)) vs\<rparr>)"
    using Cons.prems by (intro Cons.IH) auto
  with m Cons.prems(1) [of v t w] show ?case by (simp add: world_simps)
qed simp

lemma outs_rows: "outs (map (\<lambda>v. Out fmt (row v)) vs) = map (\<lambda>v. (fmt, row v)) vs"
  by (induction vs) auto

lemma maps_buffers:
  "\<forall>v \<in> set vs. wf_vma v \<Longrightarrow>
   buffers 512 (text_of (map vma_line vs)) = map (\<lambda>v. vma_line v @ [newline]) vs"
proof -
  assume wf: "\<forall>v \<in> set vs. wf_vma v"
  have "plain l \<and> length l + 2 \<le> 512" if "l \<in> set (map vma_line vs)" for l
  proof -
    from that wf obtain v where "l = vma_line v" "wf_vma v" by auto
    then show ?thesis using vma_line_plain [of v] by (simp add: wf_vma_def)
  qed
  with buffers_text [of "map vma_line vs" 512] show ?thesis by (simp add: o_def)
qed

lemma maps_totals_parts:
  assumes "fst (fopen_r ''/proc/self/maps'' w) = Some (text_of (map vma_line vs))"
    and "\<forall>v \<in> set vs. wf_vma v" "sum_list (map vm_size vs) < 2 ^ 64"
  shows "map_option (\<lambda>(r, w'). (r, drop (length (printed w) + 1) (printed w'))) (dump_main w) = Some (0,
      map (\<lambda>v. (''%012lx-%012lx %-5s %10lu  %-25.25s  %-10s'',
        [I (int (vm_start v)), I (int (vm_end v)), S (vm_perms v), I (int (vm_size v) div 2 ^ 10),
         S (vm_path v), S (dump_kind (vm_path v))])) vs
      @ [(''VSZ total = %lu KiB (%lu MiB)'',
          [I (int (sum_list (map vm_size vs)) div 2 ^ 10), I (int (sum_list (map vm_size vs)) div 2 ^ 20)])])"
    and "fst (vss_main w) = 0 \<and> drop (length (printed w) + 2) (printed (snd (vss_main w))) =
      map (\<lambda>v. (''0x%012lx-0x%012lx %-5s %08lx %-7s %-7lu  %s  (%lu KiB)'',
        [I (int (vm_start v)), I (int (vm_end v)), S (vm_perms v), I (int (vm_off v)), S (vm_dev v),
         I (int (vm_inode v)), S (if vm_path v \<noteq> [] then vm_path v else ''(anon)''),
         I (int (vm_size v) div 2 ^ 10)])) vs
      @ [(rule_line, []), (''VSS (all VMAs)  = %lu KiB  (%lu MiB)'',
          [I (int (sum_list (map vm_size vs)) div 2 ^ 10), I (int (sum_list (map vm_size vs)) div 2 ^ 20)])]"
proof -
  have sum: "(0 :: int) \<le> 0" "0 + int (sum_list (map vm_size vs)) < 2 ^ 64"
    using assms(3) by (simp_all add: of_nat_less_iff [of _ "2 ^ 64", symmetric, simplified])
  have d: "fold dump_line (map (\<lambda>v. vma_line v @ [newline]) vs) (0, v) =
      (0 + int (sum_list (map vm_size vs)), v\<lparr>log := log v @ map (\<lambda>v. Out ''%012lx-%012lx %-5s %10lu  %-25.25s  %-10s''
        [I (int (vm_start v)), I (int (vm_end v)), S (vm_perms v), I (int (vm_size v) div 2 ^ 10),
         S (vm_path v), S (dump_kind (vm_path v))]) vs\<rparr>)" for v
    using assms(2) by (intro fold_total dump_line_vma sum) auto
  have v: "fold vss_line (map (\<lambda>v. vma_line v @ [newline]) vs) (0, v) =
      (0 + int (sum_list (map vm_size vs)), v\<lparr>log := log v @ map (\<lambda>v. Out ''0x%012lx-0x%012lx %-5s %08lx %-7s %-7lu  %s  (%lu KiB)''
       [I (int (vm_start v)), I (int (vm_end v)), S (vm_perms v), I (int (vm_off v)), S (vm_dev v),
        I (int (vm_inode v)), S (if vm_path v \<noteq> [] then vm_path v else ''(anon)''),
        I (int (vm_size v) div 2 ^ 10)]) vs\<rparr>)" for v
    using assms(2) by (intro fold_total vss_line_vma sum) auto
  obtain s w1 where f: "fopen_r ''/proc/self/maps'' w = (Some s, w1)" and w1: "outs (log w1) = outs (log w)"
    and s: "s = text_of (map vma_line vs)"
    using assms(1) by (cases "fopen_r ''/proc/self/maps'' w")
      (auto simp: fopen_r_simp Let_def split: if_splits)
  note b = maps_buffers [OF assms(2)]
  show "map_option (\<lambda>(r, w'). (r, drop (length (printed w) + 1) (printed w'))) (dump_main w) = Some (0,
      map (\<lambda>v. (''%012lx-%012lx %-5s %10lu  %-25.25s  %-10s'',
        [I (int (vm_start v)), I (int (vm_end v)), S (vm_perms v), I (int (vm_size v) div 2 ^ 10),
         S (vm_path v), S (dump_kind (vm_path v))])) vs
      @ [(''VSZ total = %lu KiB (%lu MiB)'',
          [I (int (sum_list (map vm_size vs)) div 2 ^ 10), I (int (sum_list (map vm_size vs)) div 2 ^ 20)])])"
    by (simp add: dump_main_def f s b d Let_def printf_simp fclose_simp printed_def w1 outs_rows)
  show "fst (vss_main w) = 0 \<and> drop (length (printed w) + 2) (printed (snd (vss_main w))) =
      map (\<lambda>v. (''0x%012lx-0x%012lx %-5s %08lx %-7s %-7lu  %s  (%lu KiB)'',
        [I (int (vm_start v)), I (int (vm_end v)), S (vm_perms v), I (int (vm_off v)), S (vm_dev v),
         I (int (vm_inode v)), S (if vm_path v \<noteq> [] then vm_path v else ''(anon)''),
         I (int (vm_size v) div 2 ^ 10)])) vs
      @ [(rule_line, []), (''VSS (all VMAs)  = %lu KiB  (%lu MiB)'',
          [I (int (sum_list (map vm_size vs)) div 2 ^ 10), I (int (sum_list (map vm_size vs)) div 2 ^ 20)])]"
    by (simp add: vss_main_def f s b v Let_def printf_simp fclose_simp printed_def w1 outs_rows)
qed

text \<open>On a maps file with any mappings (in the kernel's format, together less than 2^64 bytes) both
  dumps print one line per mapping, with its fields, and a total that is exactly the sum of the
  sizes of the mappings.\<close>

theorem maps_totals:
  assumes "fst (fopen_r ''/proc/self/maps'' w) = Some (text_of (map vma_line vs))"
    and "\<forall>v \<in> set vs. wf_vma v" "sum_list (map vm_size vs) < 2 ^ 64"
  shows "map_option (\<lambda>(r, w'). (r, drop (length (printed w) + 1) (printed w'))) (dump_main w) = Some (0,
      map (\<lambda>v. (''%012lx-%012lx %-5s %10lu  %-25.25s  %-10s'',
        [I (int (vm_start v)), I (int (vm_end v)), S (vm_perms v), I (int (vm_size v) div 2 ^ 10),
         S (vm_path v), S (dump_kind (vm_path v))])) vs
      @ [(''VSZ total = %lu KiB (%lu MiB)'',
          [I (int (sum_list (map vm_size vs)) div 2 ^ 10), I (int (sum_list (map vm_size vs)) div 2 ^ 20)])])
    \<and> fst (vss_main w) = 0 \<and> drop (length (printed w) + 2) (printed (snd (vss_main w))) =
      map (\<lambda>v. (''0x%012lx-0x%012lx %-5s %08lx %-7s %-7lu  %s  (%lu KiB)'',
        [I (int (vm_start v)), I (int (vm_end v)), S (vm_perms v), I (int (vm_off v)), S (vm_dev v),
         I (int (vm_inode v)), S (if vm_path v \<noteq> [] then vm_path v else ''(anon)''),
         I (int (vm_size v) div 2 ^ 10)])) vs
      @ [(rule_line, []), (''VSS (all VMAs)  = %lu KiB  (%lu MiB)'',
          [I (int (sum_list (map vm_size vs)) div 2 ^ 10), I (int (sum_list (map vm_size vs)) div 2 ^ 20)])]"
  by (intro conjI [OF maps_totals_parts(1) [OF assms]] maps_totals_parts(2) [OF assms])

definition maps_world :: world where
  "maps_world = \<lparr>ram = Map.empty, perm = (\<lambda>_. 0), log = [], os = (\<lambda>_. 1),
     reply = (\<lambda>_. text_of (map vma_line sample_vmas))\<rparr>"

theorem maps_totals_witness:
  "map_option (last \<circ> printed \<circ> snd) (dump_main maps_world) =
    Some (''VSZ total = %lu KiB (%lu MiB)'', [I 1032, I 1])"
proof -
  have f: "fst (fopen_r ''/proc/self/maps'' maps_world) = Some (text_of (map vma_line sample_vmas))"
    by (simp add: world_simps maps_world_def Let_def)
  have n: "sum_list (map vm_size sample_vmas) = 1056768" by (simp add: sample_vmas_def vm_size_def)
  have "\<exists>w'. dump_main maps_world = Some (0, w')
      \<and> drop (length (printed maps_world) + 1) (printed w') \<noteq> []
      \<and> last (drop (length (printed maps_world) + 1) (printed w')) =
        (''VSZ total = %lu KiB (%lu MiB)'', [I (int (sum_list (map vm_size sample_vmas)) div 2 ^ 10),
           I (int (sum_list (map vm_size sample_vmas)) div 2 ^ 20)])"
    using maps_totals [OF f sample_vmas_wf] n by auto
  then obtain w' where w: "dump_main maps_world = Some (0, w')"
    "drop (length (printed maps_world) + 1) (printed w') \<noteq> []"
    "last (drop (length (printed maps_world) + 1) (printed w')) =
        (''VSZ total = %lu KiB (%lu MiB)'', [I (int (sum_list (map vm_size sample_vmas)) div 2 ^ 10),
           I (int (sum_list (map vm_size sample_vmas)) div 2 ^ 20)])" by blast
  then have "last (printed w') = (''VSZ total = %lu KiB (%lu MiB)'', [I 1032, I 1])"
    by (simp add: n last_drop)
  with w(1) show ?thesis by simp
qed

section \<open>Copying a file\<close>

lemma fold_fputs: "printed (fold fputs ls w) = printed w @ map (\<lambda>l. (''%s'', [S l])) ls"
  by (induction ls arbitrary: w) (simp_all add: fputs_def printf_def printed_def)

definition text_printed :: "(string \<times> arg list) list \<Rightarrow> string" where
  "text_printed ps = concat (map (\<lambda>(f, as). case as of [S t] \<Rightarrow> t | _ \<Rightarrow> []) ps)"

lemma copies_whole_file_parts:
  assumes "nul \<notin> set s"
  shows "fst (fopen_r ''/proc/self/numa_maps'' w) = Some s \<Longrightarrow>
      fst (numa_main w) = 0 \<and> text_printed (drop (length (printed w)) (printed (snd (numa_main w)))) = s"
    and "fst (fopen_r ''/proc/self/maps'' (puts ''=== /proc/self/maps ==='' w)) = Some s \<Longrightarrow>
      text_printed (drop (length (printed w) + 1) (printed (segments_dump w))) = s"
proof -
  have c: "text_printed (map (\<lambda>l. (''%s'', [S l])) (buffers cap s)) = s" for cap
    using concat_buffers [OF assms] by (simp add: text_printed_def o_def)
  have f: "printed (fclose v) = printed v" "printed (snd (fopen_r p v)) = printed v" for v p
    by (simp_all add: world_simps Let_def)
  show "fst (fopen_r ''/proc/self/numa_maps'' w) = Some s \<Longrightarrow>
      fst (numa_main w) = 0 \<and> text_printed (drop (length (printed w)) (printed (snd (numa_main w)))) = s"
    by (simp add: numa_main_def Let_def case_prod_unfold f fold_fputs c)
  show "fst (fopen_r ''/proc/self/maps'' (puts ''=== /proc/self/maps ==='' w)) = Some s \<Longrightarrow>
      text_printed (drop (length (printed w) + 1) (printed (segments_dump w))) = s"
    by (simp add: segments_dump_def Let_def case_prod_unfold f fold_fputs c)
      (simp add: printf_def printed_def c)
qed

text \<open>The programs that print a whole file print exactly its text, in order, whatever the length
  of its lines: a line longer than the array goes through in pieces.\<close>

theorem copies_whole_file:
  assumes "nul \<notin> set s" "fst (fopen_r ''/proc/self/numa_maps'' w) = Some s"
    "fst (fopen_r ''/proc/self/maps'' (puts ''=== /proc/self/maps ==='' v)) = Some s"
  shows "fst (numa_main w) = 0 \<and> text_printed (drop (length (printed w)) (printed (snd (numa_main w)))) = s
    \<and> text_printed (drop (length (printed v) + 1) (printed (segments_dump v))) = s"
  using copies_whole_file_parts(1) [OF assms(1,2)] copies_whole_file_parts(2) [OF assms(1,3)] by blast

theorem copies_whole_file_witness:
  "text_printed (drop 0 (printed (snd (numa_main
     (maps_world\<lparr>reply := \<lambda>_. ''7f00 default''\<rparr>))))) = ''7f00 default''"
proof -
  let ?w = "maps_world\<lparr>reply := \<lambda>_. ''7f00 default''\<rparr>"
  have "nul \<notin> set ''7f00 default''" by simp
  moreover have "fst (fopen_r ''/proc/self/numa_maps'' ?w) = Some ''7f00 default''"
    by (simp add: world_simps maps_world_def Let_def)
  moreover have "fst (fopen_r ''/proc/self/maps'' (puts ''=== /proc/self/maps ==='' ?w)) = Some ''7f00 default''"
    by (simp add: world_simps maps_world_def Let_def)
  ultimately have "text_printed (drop (length (printed ?w)) (printed (snd (numa_main ?w)))) = ''7f00 default''"
    using copies_whole_file [of "''7f00 default''" ?w ?w] by blast
  then show ?thesis by (simp add: printed_def maps_world_def)
qed

section \<open>The scan for huge pages\<close>

text \<open>The transparent-huge-page scan prints the header line of the mapping and the Size line after
  it, and stops there: the first line that does not begin with a blank and has no dash ends the
  loop, and in smaps every attribute line is one.  So the AnonHugePages line it looks for, and
  everything else of the entry, is never printed.\<close>

theorem thp_scan_stops:
  assumes "\<forall>l \<in> set before. \<not> strstr l our" "strstr header our" "CHR ''-'' \<in> set header"
    and "\<not> strncmp_eq header ''VmFlags:''" "size_line \<noteq> []" "hd size_line \<noteq> CHR '' ''" "CHR ''-'' \<notin> set size_line"
  shows "printed (thp_scan our False (before @ header # size_line # rest) w) =
    printed w @ [(''%s'', [S header]), (''%s'', [S size_line])]"
  using assms(1)
proof (induction before)
  case Nil
  show ?case using assms(2-) by (simp add: Let_def fputs_def printf_def printed_def)
next
  case (Cons l before) then show ?case by (simp add: Let_def)
qed

theorem thp_scan_stops_witness:
  "printed (thp_scan ''7f00-7f80'' False
     ([] @ ''7f00-7f80 rw-p 0 00:00 0'' # ''Size: 65536 kB'' # [''AnonHugePages: 65536 kB'']) maps_world) =
   printed maps_world @ [(''%s'', [S ''7f00-7f80 rw-p 0 00:00 0'']), (''%s'', [S ''Size: 65536 kB''])]"
  by (rule thp_scan_stops) (simp_all add: strncmp_eq_def)

section \<open>The sums over smaps\<close>

text \<open>A line of smaps is a header line, which begins with a hexadecimal digit in lower case, or an
  attribute: a key without a colon, a colon, blanks, a number and kB.\<close>

datatype smaps_entry = Header string | Attr string nat nat

fun entry_line :: "smaps_entry \<Rightarrow> string" where
  "entry_line (Header l) = l"
| "entry_line (Attr k pad v) = k @ '':'' @ replicate pad (CHR '' '') @ show_nat 10 v @ '' kB''"

fun wf_entry :: "smaps_entry \<Rightarrow> bool" where
  "wf_entry (Header l) \<longleftrightarrow> l \<noteq> [] \<and> is_digit 16 (hd l) \<and> hd l \<notin> set ''ABCDEF'' \<and> plain l \<and> length l \<le> 510"
| "wf_entry (Attr k pad v) \<longleftrightarrow> CHR '':'' \<notin> set k \<and> plain k \<and> int v \<le> LONG_MAX
     \<and> length (entry_line (Attr k pad v)) \<le> 510"

fun attr_value :: "string \<Rightarrow> smaps_entry \<Rightarrow> nat" where
  "attr_value key (Header l) = 0"
| "attr_value key (Attr k pad v) = (if k = key then v else 0)"

lemma scanf_key:
  assumes "CHR '':'' \<notin> set key" "CHR '':'' \<notin> set k"
  shows "scanf (map Lit key @ Lit (CHR '':'') # f) (k @ CHR '':'' # r) = (if k = key then scanf f r else [])"
  using assms
proof (induction key arbitrary: k)
  case Nil then show ?case by (cases k) auto
next
  case (Cons c key) then show ?case by (cases k) auto
qed

lemma scan_kb_attr:
  assumes "CHR '':'' \<notin> set key" "CHR '':'' \<notin> set k" "int v \<le> LONG_MAX"
  shows "scan_kb key (entry_line (Attr k pad v) @ [newline]) = (if k = key then Some (int v) else None)"
proof -
  have b: "1 < (10 :: nat)" "(10 :: nat) \<le> 16" by simp_all
  have show_pad: "show_nat 10 v = pad_nat 0 10 v" by (simp add: pad_nat_def)
  let ?r = "'' kB'' @ [newline]"
  have "scanf (Ws # f) (replicate pad (CHR '' '') @ pad_nat 0 10 v @ ?r) = scanf f (pad_nat 0 10 v @ ?r)" for f
  proof (rule scanf_ws)
    show "pad_nat 0 10 v @ ?r = [] \<or> \<not> is_space (hd (pad_nat 0 10 v @ ?r))"
      using pad_nat_digits(1,2) [OF b, of 0 v] is_digit_char [OF _ b(2)]
      by (cases "pad_nat 0 10 v") auto
  qed (simp add: blank_props)
  moreover have "scan_digits 10 (pad_nat 0 10 v @ ?r) = Some (False, v, ?r)"
    using scan_digits_ds [OF b(2) pad_nat_digits(1,2) [OF b], of ?r "[]" 0 v]
    by (simp add: pad_nat_digits(3) [OF b] blank_props)
  ultimately show ?thesis
    using assms scanf_key [OF assms(1,2), of "[Ws, Long 10, Ws, Lit (CHR ''k''), Lit (CHR ''B'')]"
        "replicate pad (CHR '' '') @ pad_nat 0 10 v @ ?r"]
    by (simp add: scan_kb_def kb_fmt_def show_pad clamp_long_def)
qed

lemma scan_kb_header:
  assumes "wf_entry (Header l)" "key \<noteq> []" "hd key \<in> {CHR ''R'', CHR ''P'', CHR ''S''}"
  shows "scan_kb key (entry_line (Header l) @ [newline]) = None"
proof -
  have no: "\<not> is_digit 16 c" if "c \<in> {CHR ''R'', CHR ''P'', CHR ''S''}" for c
    using that by (elim insertE) (simp_all add: is_digit_def digit_val_def)
  have "is_digit 16 (hd l)" using assms(1) by simp
  then have "hd l \<noteq> hd key" using no [OF assms(3)] by metis
  moreover obtain d ls where "l = d # ls" using assms(1) by (cases l) auto
  moreover obtain c ks where "key = c # ks" using assms(2) by (cases key) auto
  ultimately show ?thesis by (simp add: scan_kb_def kb_fmt_def)
qed

lemma entry_plain: "wf_entry e \<Longrightarrow> plain (entry_line e)"
  using show_nat_plain [of 10] by (cases e) (auto simp: plain_def)

definition sums_of :: "smaps_entry list \<Rightarrow> smaps_sums" where
  "sums_of es = \<lparr>sum_rss = int (sum_list (map (attr_value ''Rss'') es)),
     sum_pss = int (sum_list (map (attr_value ''Pss'') es)),
     sum_swap = int (sum_list (map (attr_value ''Swap'') es)),
     sum_priv_dirty = int (sum_list (map (attr_value ''Private_Dirty'') es)),
     sum_priv_clean = int (sum_list (map (attr_value ''Private_Clean'') es))\<rparr>"

definition sums_fit :: "smaps_entry list \<Rightarrow> bool" where
  "sums_fit es \<longleftrightarrow> (\<forall>key \<in> {''Rss'', ''Pss'', ''Swap'', ''Private_Dirty'', ''Private_Clean''}.
     int (sum_list (map (attr_value key) es)) \<le> LONG_MAX)"

lemma smaps_line_entry:
  assumes "wf_entry e" "sums_fit (es @ [e])"
  shows "smaps_line (entry_line e @ [newline]) (sums_of es) = Some (sums_of (es @ [e]))"
proof (cases e)
  case (Header l)
  with assms(1) show ?thesis
    using scan_kb_header [of l] by (simp add: smaps_line_def sums_of_def)
next
  case (Attr k pad v)
  with assms(1) have k: "CHR '':'' \<notin> set k" "int v \<le> LONG_MAX" by simp_all
  have fit: "int (sum_list (map (attr_value key) es)) + (if k = key then int v else 0) \<le> LONG_MAX"
    if "key \<in> {''Rss'', ''Pss'', ''Swap'', ''Private_Dirty'', ''Private_Clean''}" for key
    using assms(2) that by (auto simp: sums_fit_def Attr)
  have add: "add_long (int n) (int v) = Some (int (n + v))" if "int n + int v \<le> LONG_MAX" for n
    using that by (simp add: add_long_def LONG_MIN_def)
  have f: "int (sum_list (map (attr_value ''Rss'') es)) + (if k = ''Rss'' then int v else 0) \<le> LONG_MAX"
    "int (sum_list (map (attr_value ''Pss'') es)) + (if k = ''Pss'' then int v else 0) \<le> LONG_MAX"
    "int (sum_list (map (attr_value ''Swap'') es)) + (if k = ''Swap'' then int v else 0) \<le> LONG_MAX"
    "int (sum_list (map (attr_value ''Private_Dirty'') es)) + (if k = ''Private_Dirty'' then int v else 0) \<le> LONG_MAX"
    "int (sum_list (map (attr_value ''Private_Clean'') es)) + (if k = ''Private_Clean'' then int v else 0) \<le> LONG_MAX"
    by (rule fit; simp)+
  have sc: "scan_kb ''Rss'' (entry_line e @ [newline]) = (if k = ''Rss'' then Some (int v) else None)"
    "scan_kb ''Pss'' (entry_line e @ [newline]) = (if k = ''Pss'' then Some (int v) else None)"
    "scan_kb ''Swap'' (entry_line e @ [newline]) = (if k = ''Swap'' then Some (int v) else None)"
    "scan_kb ''Private_Dirty'' (entry_line e @ [newline]) = (if k = ''Private_Dirty'' then Some (int v) else None)"
    "scan_kb ''Private_Clean'' (entry_line e @ [newline]) = (if k = ''Private_Clean'' then Some (int v) else None)"
    unfolding Attr by (rule scan_kb_attr [OF _ k]; simp)+
  have av: "attr_value key e = (if k = key then v else 0)" for key by (simp add: Attr)
  consider "k = ''Rss''" | "k = ''Pss''" | "k = ''Swap''" | "k = ''Private_Dirty''" | "k = ''Private_Clean''"
    | "k \<noteq> ''Rss''" "k \<noteq> ''Pss''" "k \<noteq> ''Swap''" "k \<noteq> ''Private_Dirty''" "k \<noteq> ''Private_Clean''" by blast
  then show ?thesis
    by cases (use f in \<open>simp_all add: smaps_line_def sc sums_of_def av add\<close>)
qed

lemma smaps_lines:
  assumes "\<forall>e \<in> set es'. wf_entry e" "sums_fit (es @ es')"
  shows "for_list smaps_line (map (\<lambda>e. entry_line e @ [newline]) es') (sums_of es) = Some (sums_of (es @ es'))"
  using assms
proof (induction es' arbitrary: es)
  case (Cons e es')
  have "sums_fit (es @ [e])"
    using Cons.prems(2) by (auto simp: sums_fit_def)
  with Cons.prems(1) have "smaps_line (entry_line e @ [newline]) (sums_of es) = Some (sums_of (es @ [e]))"
    by (intro smaps_line_entry) auto
  with Cons.IH [of "es @ [e]"] Cons.prems show ?case by simp
qed simp

text \<open>The five totals of the smaps program are the sums of the Rss, Pss, Swap, Private_Dirty and
  Private_Clean attributes over all mappings, no other attribute counts (not Pss_Dirty or
  SwapPss), and nothing overflows as long as the sums are longs.\<close>

theorem smaps_totals:
  assumes "fst (fopen_r ''/proc/self/smaps'' w) = Some (text_of (map entry_line es))"
    and "\<forall>e \<in> set es. wf_entry e" "sums_fit es"
  shows "map_option (\<lambda>(r, w'). (r, drop (length (printed w)) (printed w'))) (smaps_main w) = Some (0,
    [(''RSS           = %8ld KiB'', [I (int (sum_list (map (attr_value ''Rss'') es)))]),
     (''PSS           = %8ld KiB  (your fair share)'', [I (int (sum_list (map (attr_value ''Pss'') es)))]),
     (''Swap          = %8ld KiB'', [I (int (sum_list (map (attr_value ''Swap'') es)))]),
     (''Private_Dirty = %8ld KiB  (would survive across exec)'',
        [I (int (sum_list (map (attr_value ''Private_Dirty'') es)))]),
     (''Private_Clean = %8ld KiB  (can be dropped freely)'',
        [I (int (sum_list (map (attr_value ''Private_Clean'') es)))])])"
proof -
  have pl: "plain l \<and> length l + 2 \<le> 512" if "l \<in> set (map entry_line es)" for l
  proof -
    from that assms(2) obtain e where "l = entry_line e" "wf_entry e" by auto
    then show ?thesis using entry_plain [of e] by (cases e) auto
  qed
  have b: "buffers 512 (text_of (map entry_line es)) = map (\<lambda>e. entry_line e @ [newline]) es"
    using buffers_text [of "map entry_line es" 512] pl by (simp add: o_def)
  have "for_list smaps_line (map (\<lambda>e. entry_line e @ [newline]) es) (sums_of []) = Some (sums_of es)"
    using smaps_lines [of es "[]"] assms by simp
  then have s: "for_list smaps_line (map (\<lambda>e. entry_line e @ [newline]) es)
    \<lparr>sum_rss = 0, sum_pss = 0, sum_swap = 0, sum_priv_dirty = 0, sum_priv_clean = 0\<rparr> = Some (sums_of es)"
    by (simp add: sums_of_def)
  obtain s w1 where f: "fopen_r ''/proc/self/smaps'' w = (Some s, w1)" "outs (log w1) = outs (log w)"
    and s1: "s = text_of (map entry_line es)"
    using assms(1) by (cases "fopen_r ''/proc/self/smaps'' w")
      (auto simp: fopen_r_simp Let_def split: if_splits)
  show ?thesis
    by (simp add: smaps_main_def f s1 b s Let_def printf_simp fclose_simp printed_def) (simp add: sums_of_def)
qed

definition sample_smaps :: "smaps_entry list" where
  "sample_smaps = [Header ''7f00-7f80 rw-p 0 00:00 0'', Attr ''Size'' 1 512, Attr ''Rss'' 2 12, Attr ''Pss'' 2 6,
     Attr ''Pss_Dirty'' 1 5, Header ''8000-8080 rw-p 0 00:00 0'', Attr ''Rss'' 2 30, Attr ''Pss'' 2 30,
     Attr ''Private_Dirty'' 1 30, Attr ''SwapPss'' 1 9]"

theorem smaps_totals_witness:
  "map_option (\<lambda>(r, w'). (r, map snd (printed w'))) (smaps_main (maps_world\<lparr>reply := \<lambda>_. text_of (map entry_line sample_smaps)\<rparr>))
   = Some (0, [[I 42], [I 36], [I 0], [I 30], [I 0]])"
proof -
  let ?w = "maps_world\<lparr>reply := \<lambda>_. text_of (map entry_line sample_smaps)\<rparr>"
  have f: "fst (fopen_r ''/proc/self/smaps'' ?w) = Some (text_of (map entry_line sample_smaps))"
    by (simp add: world_simps maps_world_def Let_def)
  have len: "length (show_nat 10 n) \<le> 4" if "n < 10 ^ 4" for n
    using show_nat_length [of 10 n 3] that by simp
  have wf: "\<forall>e \<in> set sample_smaps. wf_entry e"
    using len [of 512] len [of 12] len [of 6] len [of 5] len [of 30] len [of 9]
    by (simp add: sample_smaps_def LONG_MAX_def is_digit_def digit_val_def)
  have fit: "sums_fit sample_smaps" by (simp add: sample_smaps_def sums_fit_def LONG_MAX_def)
  have "printed ?w = []" by (simp add: printed_def maps_world_def)
  with smaps_totals [OF f wf fit] show ?thesis
    by (cases "smaps_main ?w") (auto simp: sample_smaps_def)
qed

section \<open>02_process_address_space/01_segments_addresses.c\<close>

text \<open>The addresses of functions, constants and locals are arguments; argv0 is the program's name.\<close>

record segment_addrs =
  at_main :: nat
  at_some_function :: nat
  at_literal :: nat
  at_rodata_const :: nat
  at_data_int :: nat
  at_bss_int :: nat
  at_stack_int :: nat
  at_argv :: nat
  at_argv0 :: nat
  at_printf :: nat

definition segments_main :: "segment_addrs \<Rightarrow> string \<Rightarrow> world \<Rightarrow> int \<times> world" where
  "segments_main a argv0 w =
     (let (heap_buf, w) = malloc 64 w;
          (mmap_buf, w) = mmap_anon ''MAP_PRIVATE | MAP_ANONYMOUS'' 4096 (PROT_READ + PROT_WRITE) w;
          mmap_buf = or_failed mmap_buf;
          w = puts ''=== Segment addresses ==='' w;
          w = printf ''  text   (main)            : %p'' [I (int (at_main a))] w;
          w = printf ''  text   (some_function)   : %p'' [I (int (at_some_function a))] w;
          w = printf ''  rodata (literal)         : %p'' [I (int (at_literal a))] w;
          w = printf ''  rodata (const array)     : %p'' [I (int (at_rodata_const a))] w;
          w = printf ''  data   (init global)     : %p  (val=%d)'' [I (int (at_data_int a)), I 42] w;
          w = printf ''  bss    (uninit global)   : %p  (val=%d)'' [I (int (at_bss_int a)), I 0] w;
          w = printf ''  heap   (malloc)          : %p'' [I (int heap_buf)] w;
          w = printf ''  mmap   (anonymous)       : %p'' [I (int mmap_buf)] w;
          w = printf ''  stack  (local var)       : %p'' [I (int (at_stack_int a))] w;
          w = printf ''  stack  (argv ptr array)  : %p'' [I (int (at_argv a))] w;
          w = printf ''  stack  (argv[0] string)  : %p  (= %s)'' [I (int (at_argv0 a)), S argv0] w;
          w = printf ''  libc   (printf)          : %p'' [I (int (at_printf a))] w;
          w = segments_dump w;
          w = free heap_buf w
      in (0, snd (munmap mmap_buf 4096 w)))"

end
