(* ===== verification/Fundamentals.thy ===== *)
theory Fundamentals
  imports Cstring "HOL-Library.Multiset"
begin

unbundle bit_operations_syntax

text \<open>
  The programs of src/00_fundamentals and the small computations of src/01_virtual_memory,
  src/02_process_address_space, src/03_stack and src/04_heap_malloc:
  \<^item> 00_fundamentals/01_memory_hierarchy.c: the shuffle and the pointer chase;
  \<^item> 02_word_alignment.c, 03_endianness.c, 04_cacheline_falsesharing.c: object layout;
  \<^item> 01_virtual_memory/04_pagemap.c: a pagemap entry and its bits;
  \<^item> 02_process_address_space/02_environ.c, 05_rlimit.c: the initial stack and the limits;
  \<^item> 03_stack/01_stack_growth.c, 04_heap_malloc/02_chunk_layout.c, 06_alignment.c.
\<close>

section \<open>01_memory_hierarchy.c\<close>

text \<open>\<open>rnd i\<close> is the value rand() returns in the iteration with index i.  An array is a list;
  an index past its end is undefined.\<close>

definition swap_at :: "nat list \<Rightarrow> nat \<Rightarrow> nat \<Rightarrow> nat list option" where
  "swap_at a i j =
     (if i < length a \<and> j < length a then Some (a[i := a ! j, j := a ! i]) else None)"

fun shuffle_loop :: "(nat \<Rightarrow> nat) \<Rightarrow> nat \<Rightarrow> nat list \<Rightarrow> nat list option" where
  "shuffle_loop rnd 0 a = Some a"
| "shuffle_loop rnd (Suc i) a = do {
     a \<leftarrow> swap_at a (Suc i) (rnd (Suc i) mod add64 (Suc i) 1);
     shuffle_loop rnd i a}"

definition shuffle :: "(nat \<Rightarrow> nat) \<Rightarrow> nat list \<Rightarrow> nat \<Rightarrow> nat list option" where
  "shuffle rnd a n = shuffle_loop rnd (sub64 n 1) a"

fun chain_loop :: "nat list \<Rightarrow> nat \<Rightarrow> nat list \<Rightarrow> nat list \<Rightarrow> nat list option" where
  "chain_loop idx n [] buf = Some buf"
| "chain_loop idx n (i # is) buf =
     (if idx ! i < length buf then chain_loop idx n is (buf[idx ! i := idx ! ((i + 1) mod n)]) else None)"

fun chase :: "nat list \<Rightarrow> nat \<Rightarrow> nat \<Rightarrow> nat option" where
  "chase buf 0 k = Some k"
| "chase buf (Suc m) k = (if k < length buf then chase buf m (buf ! k) else None)"

text \<open>buf is the block with its indeterminate contents.  Benchmarks has measure and main.\<close>

definition build_chain :: "(nat \<Rightarrow> nat) \<Rightarrow> nat \<Rightarrow> nat list \<Rightarrow> nat list \<Rightarrow> nat list option" where
  "build_chain rnd n idx buf = do {
     idx \<leftarrow> shuffle rnd idx n;
     chain_loop idx n [0..<n] buf}"

definition sizes :: "nat list" where
  "sizes = [16 * 1024, 64 * 1024, 256 * 1024, 1 * 1024 * 1024, 8 * 1024 * 1024, 64 * 1024 * 1024,
     256 * 1024 * 1024]"

definition iters_of :: "nat \<Rightarrow> nat" where
  "iters_of sz = (if sz > 16 * 1024 * 1024 then 100 * 1000 * 1000 div 10 else 100 * 1000 * 1000)"

lemma swap_at_mset:
  "swap_at a i j = Some b \<Longrightarrow> length b = length a \<and> mset b = mset a"
  by (auto simp: swap_at_def mset_swap split: if_splits)

lemma shuffle_loop_perm:
  "i < length a \<Longrightarrow> length a \<le> 2 ^ 63 \<Longrightarrow> \<exists>b. shuffle_loop rnd i a = Some b \<and> mset b = mset a"
proof (induction i arbitrary: a)
  case (Suc i)
  have m: "add64 (Suc i) 1 = i + 2" using Suc.prems by (simp add: add64_def)
  have "rnd (Suc i) mod (i + 2) < i + 2" by simp
  then have j: "rnd (Suc i) mod add64 (Suc i) 1 < length a" using Suc.prems unfolding m by linarith
  with Suc.prems obtain c where c: "swap_at a (Suc i) (rnd (Suc i) mod add64 (Suc i) 1) = Some c"
    by (simp add: swap_at_def)
  from swap_at_mset [OF c] Suc.prems Suc.IH [of c] obtain b
    where "shuffle_loop rnd i c = Some b" "mset b = mset a" by auto
  moreover have "shuffle_loop rnd (Suc i) a = shuffle_loop rnd i c"
    by (simp only: shuffle_loop.simps c Option.bind.simps)
  ultimately show ?case by auto
qed simp

lemma shuffle_perm:
  assumes "0 < n" "n = length a" "n \<le> 2 ^ 63"
  shows "\<exists>b. shuffle rnd a n = Some b \<and> mset b = mset a"
proof -
  have "n < 2 ^ 64" by (rule le_less_trans [OF assms(3)]) simp
  then have "sub64 n 1 = n - 1" using assms(1) by (intro sub64_exact) linarith+
  with assms show ?thesis using shuffle_loop_perm [of "n - 1" a rnd] by (simp add: shuffle_def)
qed

lemma chain_loop_result:
  assumes "distinct idx" "length idx = n" "set idx \<subseteq> {..<length buf}" "distinct is" "set is \<subseteq> {..<n}"
  shows "\<exists>b. chain_loop idx n is buf = Some b \<and> length b = length buf
    \<and> (\<forall>i \<in> set is. b ! (idx ! i) = idx ! ((i + 1) mod n))
    \<and> (\<forall>x. x \<notin> (!) idx ` set is \<longrightarrow> b ! x = buf ! x)"
  using assms
proof (induction "is" arbitrary: buf)
  case (Cons i js)
  from Cons.prems have i: "i < n" "idx ! i < length buf" by (auto dest: nth_mem)
  let ?buf = "buf[idx ! i := idx ! ((i + 1) mod n)]"
  from Cons.prems Cons.IH [of ?buf] obtain b where b: "chain_loop idx n js ?buf = Some b"
    "length b = length buf" "\<forall>j \<in> set js. b ! (idx ! j) = idx ! ((j + 1) mod n)"
    "\<forall>x. x \<notin> (!) idx ` set js \<longrightarrow> b ! x = ?buf ! x" by auto
  have "idx ! i \<notin> (!) idx ` set js"
    using Cons.prems i by (auto simp: nth_eq_iff_index_eq subset_eq)
  with b i Cons.prems(3) have "b ! (idx ! i) = idx ! ((i + 1) mod n)" by simp
  moreover have "b ! x = buf ! x" if "x \<notin> (!) idx ` set (i # js)" for x
    using that b(4) by simp
  ultimately show ?case using b i by (simp del: image_insert list.set(2)) simp
qed simp

definition follows :: "nat list \<Rightarrow> nat list \<Rightarrow> bool" where
  "follows idx b \<longleftrightarrow> distinct idx \<and> set idx = {..<length b} \<and> length idx = length b
     \<and> (\<forall>i < length b. b ! (idx ! i) = idx ! ((i + 1) mod length b))"

lemma chase_follows:
  "follows idx b \<Longrightarrow> p < length b \<Longrightarrow> chase b m (idx ! p) = Some (idx ! ((p + m) mod length b))"
proof (induction m arbitrary: p)
  case 0 then show ?case by simp
next
  case (Suc m)
  then have k: "idx ! p < length b" by (auto simp: follows_def dest: nth_mem)
  have n: "(p + 1) mod length b < length b" using Suc.prems(2) by (intro mod_less_divisor) linarith
  have "chase b (Suc m) (idx ! p) = chase b m (idx ! ((p + 1) mod length b))"
    using k Suc.prems by (simp add: follows_def)
  also have "\<dots> = Some (idx ! (((p + 1) mod length b + m) mod length b))"
    by (rule Suc.IH [OF Suc.prems(1) n])
  also have "((p + 1) mod length b + m) mod length b = (p + Suc m) mod length b"
    by (simp add: mod_simps)
  finally show ?case .
qed

lemma build_chain_follows:
  assumes "0 < n" "n \<le> 2 ^ 61" "length buf = n"
  shows "\<exists>idx b. build_chain rnd n [0..<n] buf = Some b \<and> length b = n \<and> follows idx b"
proof -
  from shuffle_perm [of n "[0..<n]" rnd] assms obtain idx
    where idx: "shuffle rnd [0..<n] n = Some idx" "mset idx = mset [0..<n]" by auto
  have d: "distinct idx" "set idx = {..<n}" "length idx = n"
    using mset_eq_imp_distinct_iff [OF idx(2)] mset_eq_setD [OF idx(2)] mset_eq_length [OF idx(2)]
    by (simp_all add: atLeast0LessThan)
  have "set idx \<subseteq> {..<length buf}" "distinct [0..<n]" "set [0..<n] \<subseteq> {..<n}"
    by (simp_all add: d assms(3) atLeast0LessThan)
  from chain_loop_result [OF d(1,3) this] obtain b where b: "chain_loop idx n [0..<n] buf = Some b"
    "length b = n" "\<forall>i \<in> set [0..<n]. b ! (idx ! i) = idx ! ((i + 1) mod n)" using assms(3) by blast
  then have "follows idx b" using d by (auto simp: follows_def)
  with idx(1) b show ?thesis by (auto simp: build_chain_def)
qed

lemma chase_stays:
  assumes "follows idx b" "k < length b"
  shows "\<exists>j < length b. chase b m k = Some j"
proof -
  from assms obtain p where p: "p < length b" "k = idx ! p" by (metis follows_def in_set_conv_nth lessThan_iff)
  have "(p + m) mod length b < length b" by (rule mod_less_divisor) (use p(1) in linarith)
  then have "(p + m) mod length b < length idx" using assms(1) by (simp add: follows_def)
  then have "idx ! ((p + m) mod length b) \<in> set idx" by (rule nth_mem)
  then show ?thesis using chase_follows [OF assms(1) p(1), of m] p(2) assms(1) by (simp add: follows_def)
qed

text \<open>From slot 0, as measure starts, for any contents and any random numbers.\<close>

lemma chain_chased:
  assumes "0 < n" "n \<le> 2 ^ 61" "length buf = n"
  obtains b k where "build_chain rnd n [0..<n] buf = Some b" "chase b iters 0 = Some k" "k < n"
  using build_chain_follows [OF assms] chase_stays assms(1) by metis

lemma chain_single_cycle_parts:
  assumes "0 < n" "n \<le> 2 ^ 61" "length buf = n"
  shows "\<exists>b. build_chain rnd n [0..<n] buf = Some b \<and> length b = n
    \<and> (\<forall>k < n. distinct (map (\<lambda>m. chase b m k) [0..<n])
        \<and> (\<lambda>m. chase b m k) ` {..<n} = Some ` {..<n} \<and> chase b n k = Some k \<and> (\<forall>m. \<exists>j < n. chase b m k = Some j))"
proof -
  from build_chain_follows [OF assms] obtain idx b where b: "build_chain rnd n [0..<n] buf = Some b"
    "length b = n" "follows idx b" by blast
  have cyc: "distinct (map (\<lambda>m. chase b m k) [0..<n])
        \<and> (\<lambda>m. chase b m k) ` {..<n} = Some ` {..<n} \<and> chase b n k = Some k \<and> (\<forall>m. \<exists>j < n. chase b m k = Some j)" if "k < n" for k
  proof -
    from that b obtain p where p: "p < n" "k = idx ! p"
      by (metis follows_def in_set_conv_nth lessThan_iff)
    have ch: "chase b m k = Some (idx ! ((p + m) mod n))" for m
      using chase_follows [OF b(3), of p m] p b(2) by simp
    have inj: "inj_on (\<lambda>m. (p + m) mod n) {..<n}"
    proof (rule inj_onI)
      fix x y assume "x \<in> {..<n}" "y \<in> {..<n}" "(p + x) mod n = (p + y) mod n"
      then show "x = y" using p(1) by (simp add: mod_if split: if_splits)
    qed
    have "(\<lambda>m. (p + m) mod n) ` {..<n} \<subseteq> {..<n}" using assms(1) by auto
    then have img: "(\<lambda>m. (p + m) mod n) ` {..<n} = {..<n}"
      using inj by (intro card_subset_eq) (auto simp: card_image)
    have l: "length idx = n" "set idx = {..<n}" "distinct idx" using b(2,3) by (simp_all add: follows_def)
    have "(!) idx ` {..<n} = set idx" unfolding l(1) [symmetric] by (auto simp: set_conv_nth)
    then have id: "inj_on ((!) idx) {..<n}" "(!) idx ` {..<n} = {..<n}"
      using l by (simp_all add: inj_on_nth)
    have i2: "inj_on (\<lambda>m. idx ! ((p + m) mod n)) {..<n}"
      using comp_inj_on [OF inj] id(1) img by (simp add: o_def)
    have "(\<lambda>m. chase b m k) ` {..<n} = Some ` ((!) idx ` ((\<lambda>m. (p + m) mod n) ` {..<n}))"
      by (auto simp: ch image_image)
    moreover have "distinct (map (\<lambda>m. chase b m k) [0..<n])"
      using i2 by (auto simp: distinct_map ch inj_on_def atLeast0LessThan)
    moreover have "chase b n k = Some k" using ch [of n] p by simp
    moreover have "\<exists>j < n. chase b m k = Some j" for m using chase_stays [OF b(3)] that b(2) by simp
    ultimately show ?thesis by (simp add: img id(2))
  qed
  with b show "\<exists>b. build_chain rnd n [0..<n] buf = Some b \<and> length b = n
    \<and> (\<forall>k < n. distinct (map (\<lambda>m. chase b m k) [0..<n])
        \<and> (\<lambda>m. chase b m k) ` {..<n} = Some ` {..<n} \<and> chase b n k = Some k \<and> (\<forall>m. \<exists>j < n. chase b m k = Some j))" by blast
qed

text \<open>C35. For every random sequence and every positive array size the shuffled chain is a single cycle
  through all slots: from any slot the first n steps visit every slot exactly once and the n-th
  returns to it.  So a chase of any length stays inside the array.\<close>

theorem chain_single_cycle:
  assumes "0 < n" "n \<le> 2 ^ 61" "length buf = n"
  shows "\<exists>b. build_chain rnd n [0..<n] buf = Some b \<and> length b = n
    \<and> (\<forall>k < n. distinct (map (\<lambda>m. chase b m k) [0..<n])
        \<and> (\<lambda>m. chase b m k) ` {..<n} = Some ` {..<n} \<and> chase b n k = Some k \<and> (\<forall>m. \<exists>j < n. chase b m k = Some j))"
  by (rule chain_single_cycle_parts [OF assms])

theorem chain_single_cycle_witness:
  "(\<exists>b. build_chain (\<lambda>_. 0) 4 [0..<4] [7, 7, 7, 7] = Some b \<and> chase b 4 3 = Some 3)
   \<and> build_chain (\<lambda>_. 0) 4 [0..<4] [7, 7, 7, 7] = Some [1, 2, 3, 0]"
proof
  show "\<exists>b. build_chain (\<lambda>_. 0) 4 [0..<4] [7, 7, 7, 7] = Some b \<and> chase b 4 3 = Some 3"
    using chain_single_cycle [of 4 "[7, 7, 7, 7]" "\<lambda>_. 0"] by auto
  show "build_chain (\<lambda>_. 0) 4 [0..<4] [7, 7, 7, 7] = Some [1, 2, 3, 0]"
  proof -
    have "sub64 4 1 = Suc (Suc (Suc 0))" by (simp add: sub64_exact)
    then show ?thesis by (simp add: build_chain_def shuffle_def upt_conv_Cons swap_at_def add64_def)
  qed
qed

text \<open>An array of less than eight bytes has no slot: n - 1 wraps and the shuffle runs past the array.
  The sizes of the program are never that small.\<close>

lemma shuffle_empty: "shuffle rnd [] 0 = None"
proof -
  have "sub64 0 1 = Suc (2 ^ 64 - 2)" by (simp add: sub64_def unsigned_minus_1_eq_mask mask_eq_exp_minus_1)
  then show ?thesis by (simp only: shuffle_def shuffle_loop.simps) (simp add: swap_at_def)
qed

section \<open>02_word_alignment.c\<close>

text \<open>A field is its name with the size and alignment of its type.  The compiler puts each field at
  the next multiple of its alignment, and rounds the whole size up to the largest alignment.\<close>

type_synonym ctype = "nat \<times> nat"

definition char_t :: ctype where "char_t = (1, 1)"
definition int_t :: ctype where "int_t = (4, 4)"

definition base_types :: "(string \<times> ctype) list" where
  "base_types = [(''char'', 1, 1), (''short'', 2, 2), (''int'', 4, 4), (''long'', 8, 8), (''long long'', 8, 8),
     (''void *'', 8, 8), (''float'', 4, 4), (''double'', 8, 8), (''long double'', 16, 16)]"

definition max_align :: nat where "max_align = 16"

definition round_up :: "nat \<Rightarrow> nat \<Rightarrow> nat" where
  "round_up x a = (x + a - 1) div a * a"

fun offsets :: "nat \<Rightarrow> (string \<times> ctype) list \<Rightarrow> (string \<times> nat) list \<times> nat" where
  "offsets off [] = ([], off)"
| "offsets off ((f, sz, al) # fs) =
     (let at = round_up off al; (offs, e) = offsets (at + sz) fs in ((f, at) # offs, e))"

definition struct_align :: "(string \<times> ctype) list \<Rightarrow> nat" where
  "struct_align fs = Max (insert 1 (set (map (snd \<circ> snd) fs)))"

definition struct_size :: "(string \<times> ctype) list \<Rightarrow> nat" where
  "struct_size fs = round_up (snd (offsets 0 fs)) (struct_align fs)"

definition pack :: "(string \<times> ctype) list \<Rightarrow> (string \<times> ctype) list" where
  "pack = map (\<lambda>(f, sz, al). (f, sz, 1))"

definition struct_s :: "(string \<times> ctype) list" where
  "struct_s = [(''a'', char_t), (''b'', int_t), (''c'', char_t)]"

definition struct_packed :: "(string \<times> ctype) list" where
  "struct_packed = pack [(''a'', char_t), (''b'', int_t), (''c'', char_t)]"

definition struct_good :: "(string \<times> ctype) list" where
  "struct_good = [(''b'', int_t), (''a'', char_t), (''c'', char_t)]"

definition offset_of :: "(string \<times> ctype) list \<Rightarrow> string \<Rightarrow> nat" where
  "offset_of fs f = the (map_of (fst (offsets 0 fs)) f)"

definition alignment_main :: "world \<Rightarrow> int \<times> world" where
  "alignment_main w =
     (let w = puts ''Type sizes on this machine:'' w;
          w = fold (\<lambda>(n, sz, al). printf (n @ '' = %zu  align=%zu'') [I (int sz), I (int al)]) base_types w;
          w = printf ''  max_align_t= %zu'' [I (int max_align)] w;
          w = printf ''struct s (default layout): sizeof=%zu align=%zu''
                [I (int (struct_size struct_s)), I (int (struct_align struct_s))] w;
          w = printf ''  offsetof(a) = %zu'' [I (int (offset_of struct_s ''a''))] w;
          w = printf ''  offsetof(b) = %zu'' [I (int (offset_of struct_s ''b''))] w;
          w = printf ''  offsetof(c) = %zu'' [I (int (offset_of struct_s ''c''))] w;
          w = printf ''struct packed (no padding): sizeof=%zu align=%zu''
                [I (int (struct_size struct_packed)), I (int (struct_align struct_packed))] w;
          w = printf ''  offsetof(a) = %zu'' [I (int (offset_of struct_packed ''a''))] w;
          w = printf ''  offsetof(b) = %zu'' [I (int (offset_of struct_packed ''b''))] w;
          w = printf ''  offsetof(c) = %zu'' [I (int (offset_of struct_packed ''c''))] w;
          w = printf ''struct good (reordered): sizeof=%zu'' [I (int (struct_size struct_good))] w
      in (0, w))"

lemma round_up_dvd: "a dvd round_up x a"
  by (simp add: round_up_def)

lemma round_up_ge: "0 < a \<Longrightarrow> x \<le> round_up x a"
proof -
  assume a: "0 < a"
  have "x + a - 1 = (x + a - 1) div a * a + (x + a - 1) mod a" by (simp add: div_mult_mod_eq)
  moreover have "(x + a - 1) mod a < a" using a by simp
  ultimately show ?thesis unfolding round_up_def using a by linarith
qed

text \<open>In the natural layout every field lies on a multiple of its alignment, no two fields overlap,
  and the fields fit the struct, in every element of an array of it.\<close>

lemma offsets_bounds:
  "\<forall>(f, sz, al) \<in> set fs. 0 < al \<Longrightarrow> off \<le> snd (offsets off fs)
    \<and> (\<forall>(f, at) \<in> set (fst (offsets off fs)). off \<le> at \<and> at \<le> snd (offsets off fs))"
proof (induction off fs rule: offsets.induct)
  case (2 off f sz al fs)
  let ?o = "round_up off al"
  have "off \<le> ?o" using 2(2) by (intro round_up_ge) auto
  with 2 show ?case by (fastforce simp: Let_def split: prod.splits)
qed simp

lemma offsets_aligned:
  "list_all2 (\<lambda>(f, sz, al) (g, at). f = g \<and> al dvd at) fs (fst (offsets off fs))"
  by (induction off fs rule: offsets.induct) (auto simp: round_up_dvd Let_def split: prod.splits)

lemma struct_layouts:
  "fst (offsets 0 struct_s) = [(''a'', 0), (''b'', 4), (''c'', 8)]" "struct_size struct_s = 12" "struct_align struct_s = 4"
  "fst (offsets 0 struct_packed) = [(''a'', 0), (''b'', 1), (''c'', 5)]" "struct_size struct_packed = 6"
  "struct_align struct_packed = 1" "struct_size struct_good = 8"
  by code_simp+

section \<open>03_endianness.c\<close>

definition endian_word :: nat where "endian_word = 0x11223344"

definition endian_main :: "(nat \<Rightarrow> u8 list) \<Rightarrow> addr \<Rightarrow> world \<Rightarrow> int \<times> world" where
  "endian_main repr x w =
     (let p = repr endian_word;
          w = printf ''uint32_t x = 0x%08x at %p'' [I (int endian_word), I (int x)] w;
          w = fold (\<lambda>i. printf ''  byte at +%zu = 0x%02x'' [I (int i), I (uint (p ! i))]) [0..<4] w;
          w = (if p ! 0 = 0x44 then puts ''=> LITTLE endian'' w
               else if p ! 0 = 0x11 then puts ''=> BIG endian'' w
               else puts ''=> exotic endian (PDP?)'' w)
      in (0, w))"

lemma endian_main_cases:
  "last (printed (snd (endian_main (le_bytes 4) x w))) = (''=> LITTLE endian'', [])"
  "last (printed (snd (endian_main (rev \<circ> le_bytes 4) x w))) = (''=> BIG endian'', [])"
proof -
  have "(4 :: nat) = Suc (Suc (Suc (Suc 0)))" by simp
  then have r: "le_bytes 4 endian_word = [0x44, 0x33, 0x22, 0x11]"
    by (simp only: le_bytes.simps) (simp add: endian_word_def)
  show "last (printed (snd (endian_main (le_bytes 4) x w))) = (''=> LITTLE endian'', [])"
    "last (printed (snd (endian_main (rev \<circ> le_bytes 4) x w))) = (''=> BIG endian'', [])"
    by (simp_all add: endian_main_def r Let_def printf_simp printed_def)
qed

section \<open>04_cacheline_falsesharing.c\<close>

definition ITERS :: nat where "ITERS = 200 * 1000 * 1000"

definition shared_bad :: "(string \<times> ctype) list" where
  "shared_bad = [(''a'', 8, 8), (''b'', 8, 8)]"

definition shared_good :: "(string \<times> ctype) list" where
  "shared_good = [(''a'', 8, 64), (''b'', 8, 64)]"

definition alloc_size :: "nat \<Rightarrow> nat" where
  "alloc_size sz = and_not64 (add64 sz 63) 63"

text \<open>The two counters of the bad layout share a line of 64 bytes, those of the good one do not, and
  the sizes passed to aligned_alloc are multiples of 64.\<close>

lemma cache_lines:
  "offset_of shared_bad ''a'' div 64 = offset_of shared_bad ''b'' div 64"
  "offset_of shared_good ''a'' div 64 \<noteq> offset_of shared_good ''b'' div 64"
  "alloc_size (struct_size shared_bad) = 64" "alloc_size (struct_size shared_good) = 128"
proof -
  have "struct_size shared_bad = 16" "struct_size shared_good = 128" by code_simp+
  then show "alloc_size (struct_size shared_bad) = 64" "alloc_size (struct_size shared_good) = 128"
    by (simp_all add: alloc_size_def add64_def and_not64_low)
  show "offset_of shared_bad ''a'' div 64 = offset_of shared_bad ''b'' div 64"
    "offset_of shared_good ''a'' div 64 \<noteq> offset_of shared_good ''b'' div 64" by code_simp+
qed

section \<open>01_virtual_memory/04_pagemap.c\<close>

text \<open>\<open>Inl\<close> is the exit of the process with a status, \<open>Inr\<close> the value returned; a page size of 0
  would be a division by zero.\<close>

definition pa_of :: "nat \<Rightarrow> world \<Rightarrow> ((int \<times> world) + (nat \<times> world)) option" where
  "pa_of va w =
     (let (pg, w) = sys ''sysconf'' [S ''_SC_PAGESIZE''] w in
      if size_of_long pg = 0 then None else
      let vpn = va div size_of_long pg;
          (fd, w) = sys ''open'' [S ''/proc/self/pagemap'', S ''O_RDONLY''] w in
      if fd < 0 then Some (Inl (1, perror ''open'' w)) else
      let entry = nat (field ''pread'' ''entry'' w mod 2 ^ 64);
          (r, w) = sys ''pread'' [I fd, I 8, I (int (mul64 vpn 8))] w in
      if r \<noteq> 8 then Some (Inl (1, perror ''pread'' w)) else
      Some (Inr (entry, call ''close'' [I fd] w)))"

definition describe_entry :: "string \<Rightarrow> nat \<Rightarrow> nat \<Rightarrow> world \<Rightarrow> world" where
  "describe_entry label va e =
     (let present = drop_bit 63 e AND 1;
          swp = drop_bit 62 e AND 1;
          filebak = drop_bit 61 e AND 1;
          excl = drop_bit 56 e AND 1;
          pfn = e AND (2 ^ 55 - 1)
      in printf ''%-22s  va=%p  present=%d swap=%d filebak=%d excl=%d  pfn=0x%lx''
           [S label, I (int va), I (int present), I (int swp), I (int filebak), I (int excl), I (int pfn)])"

definition describe :: "string \<Rightarrow> nat \<Rightarrow> world \<Rightarrow> ((int \<times> world) + world) option" where
  "describe label va w = do {
     r \<leftarrow> pa_of va w;
     Some (case r of Inl x \<Rightarrow> Inl x | Inr (e, w) \<Rightarrow> Inr (describe_entry label va e w))}"

fun describe_all :: "(string \<times> nat) list \<Rightarrow> world \<Rightarrow> ((int \<times> world) + world) option" where
  "describe_all [] w = Some (Inr w)"
| "describe_all ((l, va) # vs) w = do {
     r \<leftarrow> describe l va w;
     case r of Inl x \<Rightarrow> Some (Inl x) | Inr w \<Rightarrow> describe_all vs w}"

definition pagemap_main :: "nat \<Rightarrow> nat \<Rightarrow> nat \<Rightarrow> nat \<Rightarrow> world \<Rightarrow> (int \<times> world) option" where
  "pagemap_main stack_var bss_var data_var main_addr w = do {
     let (heap, w) = malloc 4096 w;
     w \<leftarrow> poke heap 1 w;
     let (anon, w) = mmap_anon ''MAP_PRIVATE | MAP_ANONYMOUS'' 4096 (PROT_READ + PROT_WRITE) w;
     let anon = (case anon of None \<Rightarrow> 2 ^ 64 - 1 | Some a \<Rightarrow> a);
     w \<leftarrow> poke anon 1 w;
     r \<leftarrow> describe_all [(''stack'', stack_var), (''bss'', bss_var), (''data'', data_var),
            (''malloc heap'', heap), (''mmap anon'', anon), (''text (main)'', main_addr)] w;
     Some (case r of Inl x \<Rightarrow> x | Inr w \<Rightarrow> (0, snd (munmap anon 4096 (free heap w))))}"

section \<open>04_heap_malloc/02_chunk_layout.c and 06_alignment.c\<close>

definition chunk_line :: "string \<Rightarrow> nat \<Rightarrow> nat \<Rightarrow> nat \<Rightarrow> world \<Rightarrow> world" where
  "chunk_line t p prev_size sz_flags =
     (let sz = and_not64 sz_flags 7;
          A = drop_bit 2 sz_flags AND 1;
          M = drop_bit 1 sz_flags AND 1;
          P = drop_bit 0 sz_flags AND 1
      in printf ''%-25s p=%p  prev_size=%-6lu  chunk_size=%-6lu  A=%d M=%d P=%d''
           [S t, I (int p), I (int prev_size), I (int sz), I (int A), I (int M), I (int P)])"

definition chunk_show :: "string \<Rightarrow> nat \<Rightarrow> world \<Rightarrow> world option" where
  "chunk_show t p w = do {
     prev_size \<leftarrow> load64 (readable w) (sub64 p 16);
     sz_flags \<leftarrow> load64 (readable w) (sub64 p 8);
     Some (chunk_line t p prev_size sz_flags w)}"

fun chunk_demo :: "(string \<times> nat) list \<Rightarrow> world \<Rightarrow> (nat list \<times> world) option" where
  "chunk_demo [] w = Some ([], w)"
| "chunk_demo ((t, n) # ts) w = do {
     let (p, w) = malloc n w;
     w \<leftarrow> chunk_show t p w;
     (ps, w) \<leftarrow> chunk_demo ts w;
     Some (p # ps, w)}"

definition chunk_main :: "world \<Rightarrow> (int \<times> world) option" where
  "chunk_main w = do {
     (ps, w) \<leftarrow> chunk_demo [(''malloc(1)'', 1), (''malloc(17)'', 17), (''malloc(40)'', 40), (''malloc(64)'', 64),
        (''malloc(1000)'', 1000), (''malloc(200K)'', 200 * 1024)] w;
     Some (0, fold free ps w)}"

definition aligned :: "nat \<Rightarrow> nat \<Rightarrow> int" where
  "aligned p a = (if p AND (a - 1) = 0 then 1 else 0)"

definition lib_alloc :: "string \<Rightarrow> arg list \<Rightarrow> world \<Rightarrow> nat \<times> world" where
  "lib_alloc name args w = (let (r, w) = sys name args w in (nat r, w))"

definition alignment_demo :: "world \<Rightarrow> int \<times> world" where
  "alignment_demo w =
     (let (p, w) = malloc 64 w;
          w = printf ''malloc(64)              = %p  16-aligned? %d  64-aligned? %d''
                [I (int p), I (aligned p 16), I (aligned p 64)] w;
          w = free p w;
          (p, w) = lib_alloc ''aligned_alloc'' [I 64, I 128] w;
          w = printf ''aligned_alloc(64, 128)  = %p  64-aligned? %d'' [I (int p), I (aligned p 64)] w;
          w = free p w;
          p = nat (field ''posix_memalign'' ''p'' w);
          (r, w) = sys ''posix_memalign'' [I 4096, I 4096] w;
          w = (if r = 0 then
                 free p (printf ''posix_memalign(4096,4K) = %p  page-aligned? %d''
                           [I (int p), I (aligned p 4096)] w)
               else w);
          (p, w) = lib_alloc ''memalign'' [I 32, I 100] w;
          w = printf ''memalign(32, 100)       = %p  32-aligned? %d'' [I (int p), I (aligned p 32)] w;
          w = free p w;
          (p, w) = lib_alloc ''aligned_alloc'' [I 64, I 100] w;
          w = printf ''aligned_alloc(64, 100)  = %p  (UB, may be NULL)'' [I (int p)] w;
          w = (if p \<noteq> 0 then free p w else w)
      in (0, w))"

section \<open>Bits and masks\<close>

lemma bit_of: "drop_bit k e AND 1 = e div 2 ^ k mod (2 :: nat)"
  by (simp add: drop_bit_eq_div and_one_eq)

lemma low_bits: "e AND (2 ^ k - 1) = (e :: nat) mod 2 ^ k"
  by (metis mask_eq_exp_minus_1 take_bit_eq_mask take_bit_eq_mod)

lemma flag_top: "r < 2 ^ k \<Longrightarrow> (of_bool b * 2 ^ k + r) div 2 ^ k mod 2 = (of_bool b :: nat)"
  by (cases b) (simp_all add: div_add_self1)

lemma flag_below:
  fixes r :: nat
  assumes "j < k"
  shows "(of_bool b * 2 ^ k + r) div 2 ^ j mod 2 = r div 2 ^ j mod 2"
    "(of_bool b * 2 ^ k + r) mod 2 ^ j = r mod 2 ^ j"
proof -
  obtain d where k: "k = j + Suc d" using assms less_iff_Suc_add by auto
  have "(of_bool b * 2 ^ k + r) div 2 ^ j = of_bool b * 2 ^ d * 2 + r div 2 ^ j"
  proof -
    have "of_bool b * 2 ^ k + r = r + of_bool b * 2 ^ d * 2 * 2 ^ j" by (simp add: k power_add)
    then show ?thesis by (simp only: div_mult_self1 power_not_zero) simp
  qed
  then show "(of_bool b * 2 ^ k + r) div 2 ^ j mod 2 = r div 2 ^ j mod 2" by simp
  have "of_bool b * 2 ^ k + r = r + of_bool b * 2 ^ d * 2 * 2 ^ j" by (simp add: k power_add)
  then show "(of_bool b * 2 ^ k + r) mod 2 ^ j = r mod 2 ^ j" by (simp only: mod_mult_self1)
qed

lemma flag_less: "r < 2 ^ k \<Longrightarrow> k < j \<Longrightarrow> of_bool b * 2 ^ k + r < (2 ^ j :: nat)"
proof -
  assume "r < 2 ^ k" "k < j"
  then have "of_bool b * 2 ^ k + r < 2 ^ Suc k" by (cases b) simp_all
  also have "\<dots> \<le> 2 ^ j" using \<open>k < j\<close> by (intro power_increasing) simp_all
  finally show ?thesis .
qed

text \<open>The entry the kernel documents for a page (pagemap.rst): three flags at the top, the
  exclusive bit 56, soft-dirty 55, and 55 bits of frame number.\<close>

definition pagemap_entry :: "bool \<Rightarrow> bool \<Rightarrow> bool \<Rightarrow> bool \<Rightarrow> bool \<Rightarrow> nat \<Rightarrow> nat" where
  "pagemap_entry present swp filebak excl dirty pfn =
     of_bool present * 2 ^ 63 + (of_bool swp * 2 ^ 62 + (of_bool filebak * 2 ^ 61 + (of_bool excl * 2 ^ 56
     + (of_bool dirty * 2 ^ 55 + pfn))))"

lemma pagemap_entry_bits:
  assumes "pfn < 2 ^ 55"
  shows "pagemap_entry p s f x d pfn div 2 ^ 63 mod 2 = of_bool p" "pagemap_entry p s f x d pfn div 2 ^ 62 mod 2 = of_bool s"
    "pagemap_entry p s f x d pfn div 2 ^ 61 mod 2 = of_bool f" "pagemap_entry p s f x d pfn div 2 ^ 56 mod 2 = of_bool x"
    "pagemap_entry p s f x d pfn mod 2 ^ 55 = pfn"
proof -
  let ?r1 = "of_bool d * 2 ^ 55 + pfn" let ?r2 = "of_bool x * 2 ^ 56 + ?r1"
  let ?r3 = "of_bool f * 2 ^ 61 + ?r2" let ?r4 = "of_bool s * 2 ^ 62 + ?r3"
  have 1: "?r1 < 2 ^ 56" by (rule flag_less [OF assms]) simp
  have 2: "?r2 < 2 ^ 61" by (rule flag_less [OF 1]) simp
  have 3: "?r3 < 2 ^ 62" by (rule flag_less [OF 2]) simp
  have 4: "?r4 < 2 ^ 63" by (rule flag_less [OF 3]) simp
  have less: "(62 :: nat) < 63" "(61 :: nat) < 63" "(56 :: nat) < 63" "(55 :: nat) < 63" "(61 :: nat) < 62" "(56 :: nat) < 62"
    "(55 :: nat) < 62" "(56 :: nat) < 61" "(55 :: nat) < 61" "(55 :: nat) < 56" by simp_all
  note below = less [THEN flag_below(1)] less [THEN flag_below(2)]
  show "pagemap_entry p s f x d pfn div 2 ^ 63 mod 2 = of_bool p" unfolding pagemap_entry_def by (rule flag_top [OF 4])
  show "pagemap_entry p s f x d pfn div 2 ^ 62 mod 2 = of_bool s"
    unfolding pagemap_entry_def below by (rule flag_top [OF 3])
  show "pagemap_entry p s f x d pfn div 2 ^ 61 mod 2 = of_bool f"
    unfolding pagemap_entry_def below by (rule flag_top [OF 2])
  show "pagemap_entry p s f x d pfn div 2 ^ 56 mod 2 = of_bool x"
    unfolding pagemap_entry_def below by (rule flag_top [OF 1])
  have "(of_bool d * 2 ^ 55 + pfn) mod 2 ^ 55 = pfn" using assms by (cases d) simp_all
  then show "pagemap_entry p s f x d pfn mod 2 ^ 55 = pfn" unfolding pagemap_entry_def below .
qed

lemma bit_fields_decoded_parts:
  "pfn < 2 ^ 55 \<Longrightarrow> last (printed (describe_entry label va (pagemap_entry p s f x d pfn) w)) =
     (''%-22s  va=%p  present=%d swap=%d filebak=%d excl=%d  pfn=0x%lx'',
      [S label, I (int va), I (of_bool p), I (of_bool s), I (of_bool f), I (of_bool x), I (int pfn)])"
  "8 dvd sz \<Longrightarrow> sz < 2 ^ 64 \<Longrightarrow> last (printed (chunk_line t q prev (sz + 4 * of_bool a + 2 * of_bool m + of_bool u) w)) =
     (''%-25s p=%p  prev_size=%-6lu  chunk_size=%-6lu  A=%d M=%d P=%d'',
      [S t, I (int q), I (int prev), I (int sz), I (of_bool a), I (of_bool m), I (of_bool u)])"
proof -
  assume pfn: "pfn < 2 ^ 55"
  let ?e = "pagemap_entry p s f x d pfn"
  show "last (printed (describe_entry label va ?e w)) =
     (''%-22s  va=%p  present=%d swap=%d filebak=%d excl=%d  pfn=0x%lx'',
      [S label, I (int va), I (of_bool p), I (of_bool s), I (of_bool f), I (of_bool x), I (int pfn)])"
    unfolding describe_entry_def bit_of low_bits pagemap_entry_bits [OF pfn] Let_def
    by (simp add: printf_simp printed_def)
next
  assume sz: "8 dvd sz" "sz < 2 ^ 64"
  let ?f = "sz + 4 * of_bool a + 2 * of_bool m + of_bool u"
  from sz obtain k where k: "sz = 8 * k" by (elim dvdE)
  have lt: "?f < 2 ^ 64" using sz k by (cases a; cases m; cases u) simp_all
  have "and_not64 ?f 7 = sz"
    using and_not64_mask [OF lt, of 3] k by (cases a; cases m; cases u) simp_all
  moreover have "?f div 4 mod 2 = of_bool a" "?f div 2 mod 2 = of_bool m" "?f mod 2 = of_bool u"
    unfolding k by (cases a; cases m; cases u; simp only: of_bool_eq; presburger)+
  then have "?f div 2 ^ 2 mod 2 = of_bool a" "?f div 2 ^ 1 mod 2 = of_bool m" "?f div 2 ^ 0 mod 2 = of_bool u"
    by simp_all
  ultimately show "last (printed (chunk_line t q prev ?f w)) =
     (''%-25s p=%p  prev_size=%-6lu  chunk_size=%-6lu  A=%d M=%d P=%d'',
      [S t, I (int q), I (int prev), I (int sz), I (of_bool a), I (of_bool m), I (of_bool u)])"
    unfolding chunk_line_def bit_of Let_def by (simp add: printf_simp printed_def)
qed

text \<open>The alignment test with the mask a - 1 is divisibility by a, for every power of two.\<close>

theorem aligned_iff_dvd: "aligned p (2 ^ k) = of_bool (2 ^ k dvd p)"
  unfolding aligned_def low_bits by (simp add: dvd_eq_mod_eq_0)

text \<open>The bit fields are taken apart as the kernel and the allocator put them together: the pagemap
  report shows the flags and the frame number of the entry (soft-dirty does not leak into the frame
  number), and the chunk report shows the chunk size without its three flag bits, and the flags.\<close>

theorem bit_fields_decoded:
  assumes "pfn < 2 ^ 55" "8 dvd sz" "sz < 2 ^ 64"
  shows "last (printed (describe_entry label va (pagemap_entry p s f x d pfn) w)) =
     (''%-22s  va=%p  present=%d swap=%d filebak=%d excl=%d  pfn=0x%lx'',
      [S label, I (int va), I (of_bool p), I (of_bool s), I (of_bool f), I (of_bool x), I (int pfn)])
    \<and> last (printed (chunk_line t q prev (sz + 4 * of_bool a + 2 * of_bool m + of_bool u) w)) =
     (''%-25s p=%p  prev_size=%-6lu  chunk_size=%-6lu  A=%d M=%d P=%d'',
      [S t, I (int q), I (int prev), I (int sz), I (of_bool a), I (of_bool m), I (of_bool u)])"
  by (intro conjI bit_fields_decoded_parts assms)

definition blank_world :: world where
  "blank_world = \<lparr>ram = Map.empty, perm = (\<lambda>_. 0), log = [], os = (\<lambda>_. 0), reply = (\<lambda>_. [])\<rparr>"

theorem bit_fields_decoded_witness:
  "last (printed (describe_entry ''bss'' 4096 (2 ^ 63 + 2 ^ 61 + 2 ^ 55 + 77) blank_world)) =
     (''%-22s  va=%p  present=%d swap=%d filebak=%d excl=%d  pfn=0x%lx'',
      [S ''bss'', I 4096, I 1, I 0, I 1, I 0, I 77])
   \<and> last (printed (chunk_line ''malloc(17)'' 32 0 33 blank_world)) =
     (''%-25s p=%p  prev_size=%-6lu  chunk_size=%-6lu  A=%d M=%d P=%d'',
      [S ''malloc(17)'', I 32, I 0, I 32, I 0, I 0, I 1])"
proof -
  have e: "pagemap_entry True False True False True 77 = 2 ^ 63 + 2 ^ 61 + 2 ^ 55 + 77"
    by (simp add: pagemap_entry_def)
  have "(77 :: nat) < 2 ^ 55" "8 dvd (32 :: nat)" "(32 :: nat) < 2 ^ 64" by simp_all
  from bit_fields_decoded [OF this, of "''bss''" 4096 True False True False True blank_world
      "''malloc(17)''" 32 0 False False True]
  show ?thesis unfolding e by simp
qed

section \<open>02_process_address_space/02_environ.c\<close>

















section \<open>02_process_address_space/05_rlimit.c\<close>

definition RLIM_INFINITY :: int where "RLIM_INFINITY = 2 ^ 64 - 1"

definition rls :: "(string \<times> string) list" where
  "rls = [(''RLIMIT_AS'', ''bytes''), (''RLIMIT_CORE'', ''bytes''), (''RLIMIT_CPU'', ''sec''), (''RLIMIT_DATA'', ''bytes''),
     (''RLIMIT_FSIZE'', ''bytes''), (''RLIMIT_MEMLOCK'', ''bytes''), (''RLIMIT_NOFILE'', ''fds''),
     (''RLIMIT_NPROC'', ''procs''), (''RLIMIT_RSS'', ''bytes (legacy)''), (''RLIMIT_STACK'', ''bytes''),
     (''RLIMIT_LOCKS'', ''count''), (''RLIMIT_MSGQUEUE'', ''bytes''), (''RLIMIT_NICE'', ''0..40''),
     (''RLIMIT_RTPRIO'', ''0..99''), (''RLIMIT_RTTIME'', ''us''), (''RLIMIT_SIGPENDING'', ''count'')]"

definition snprintf_to :: "nat \<Rightarrow> string \<Rightarrow> string" where
  "snprintf_to n s = take (n - 1) s"

definition limit_text :: "int \<Rightarrow> string" where
  "limit_text v = (if v = RLIM_INFINITY then snprintf_to 32 ''unlimited'' else snprintf_to 32 (show_nat 10 (nat v)))"

definition rlim :: "string \<Rightarrow> string \<Rightarrow> world \<Rightarrow> int" where
  "rlim res fld w = os w (log w @ [Sys ''getrlimit'' [S res, S fld]]) mod 2 ^ 64"

definition print_one :: "string \<times> string \<Rightarrow> world \<Rightarrow> world" where
  "print_one = (\<lambda>(name, unit) w.
     (let cur = rlim name ''rlim_cur'' w; max = rlim name ''rlim_max'' w;
          (r, w) = sys ''getrlimit'' [S name] w in
      if r < 0 then perror ''getrlimit'' w
      else printf ''  %-18s  soft=%-15s hard=%-15s  (%s)''
             [S name, S (limit_text cur), S (limit_text max), S unit] w))"

definition rlimit_main :: "world \<Rightarrow> int \<times> world" where
  "rlimit_main w =
     (let w = puts ''=== getrlimit() snapshot ==='' w in (0, fold print_one rls w))"

text \<open>The number a limit text stands for.\<close>

definition limit_value :: "string \<Rightarrow> int" where
  "limit_value t = (if t = ''unlimited'' then RLIM_INFINITY else int (digits_val 10 t))"

lemma limit_text_exact_parts:
  assumes "0 \<le> v" "v < 2 ^ 64"
  shows "limit_value (limit_text v) = v" "limit_text v = ''unlimited'' \<longleftrightarrow> v = RLIM_INFINITY"
    "length (limit_text v) \<le> 20"
proof -
  have n: "nat v < 10 ^ Suc 19" using assms by simp
  have len: "length (show_nat 10 (nat v)) \<le> 20" using show_nat_length [OF _ n] by simp
  have dg: "digits_val 10 (show_nat 10 (nat v)) = nat v" "\<forall>c \<in> set (show_nat 10 (nat v)). \<exists>d < 10. c = hex_digit d"
    "show_nat 10 (nat v) \<noteq> []"
    using show_nat_chars [of 10 "nat v"] by simp_all
  have "hex_digit d \<noteq> CHR ''u''" if "d < 10" for d
  proof -
    have "\<forall>d \<in> set [0..<10]. hex_digit d \<noteq> CHR ''u''" by code_simp
    with that show ?thesis by simp
  qed
  with dg(2) have "CHR ''u'' \<notin> set (show_nat 10 (nat v))" by metis
  then have nu: "show_nat 10 (nat v) \<noteq> ''unlimited''" by (metis list.set_intros(1))
  have t: "limit_text v = (if v = RLIM_INFINITY then ''unlimited'' else show_nat 10 (nat v))"
    using len by (simp add: limit_text_def snprintf_to_def)
  show "limit_value (limit_text v) = v" using assms nu dg(1) by (simp add: t limit_value_def)
  show "limit_text v = ''unlimited'' \<longleftrightarrow> v = RLIM_INFINITY" using nu by (simp add: t)
  show "length (limit_text v) \<le> 20" using len by (simp add: t)
qed

text \<open>The 32-character arrays are large enough for every 64-bit limit: the text a limit is shown as
  stands for exactly that limit, and only the infinite limit is shown as unlimited.\<close>

theorem limit_text_exact:
  assumes "0 \<le> v" "v < 2 ^ 64"
  shows "limit_value (limit_text v) = v \<and> (limit_text v = ''unlimited'' \<longleftrightarrow> v = RLIM_INFINITY)
    \<and> length (limit_text v) \<le> 20"
  by (intro conjI limit_text_exact_parts assms)

theorem limit_text_exact_witness:
  "limit_value (limit_text 8388608) = 8388608 \<and> limit_text (2 ^ 64 - 1) = ''unlimited''"
proof
  show "limit_value (limit_text 8388608) = 8388608" by (rule conjunct1 [OF limit_text_exact]) simp_all
  have "(0 :: int) \<le> 2 ^ 64 - 1" "(2 ^ 64 - 1 :: int) < 2 ^ 64" by simp_all
  from limit_text_exact [OF this] show "limit_text (2 ^ 64 - 1) = ''unlimited''"
    by (simp add: RLIM_INFINITY_def)
qed

lemma rlimit_main_lines:
  assumes "\<forall>l res. os w (l @ [Sys ''getrlimit'' [S res]]) \<ge> 0"
  shows "map (hd \<circ> snd) (drop (length (printed w) + 1) (printed (snd (rlimit_main w)))) = map (S \<circ> fst) rls"
proof -
  have "map (hd \<circ> snd) (printed (fold print_one xs v)) = map (hd \<circ> snd) (printed v) @ map (S \<circ> fst) xs"
    if "os v = os w" for xs v
    using that
  proof (induction xs arbitrary: v)
    case (Cons x xs)
    obtain n u where x: "x = (n, u)" by fastforce
    have "os v (log v @ [Sys ''getrlimit'' [S n]]) \<ge> 0" using assms Cons.prems by simp
    with Cons show ?case by (simp add: x print_one_def Let_def sys_simp printf_simp printed_def)
  qed simp
  from this [of "puts ''=== getrlimit() snapshot ==='' w" rls]
  have "map (hd \<circ> snd) (printed (snd (rlimit_main w))) =
      map (hd \<circ> snd) (printed (puts ''=== getrlimit() snapshot ==='' w)) @ map (S \<circ> fst) rls"
    by (simp add: rlimit_main_def printf_simp)
  then show ?thesis by (simp add: drop_map [symmetric] printf_simp printed_def)
qed

section \<open>03_stack/01_stack_growth.c\<close>

text \<open>\<open>at d\<close> is the address of the local variable in the call at depth d.\<close>

function stack_recurse :: "(nat \<Rightarrow> nat) \<Rightarrow> nat \<Rightarrow> nat \<Rightarrow> world \<Rightarrow> world" where
  "stack_recurse at depth prev w =
     (let delta = (if prev \<noteq> 0 then int prev - int (at depth) else 0);
          w = printf ''depth=%2d  &local=%p  (delta=%ld bytes from caller)''
                [I (int depth), I (int (at depth)), I delta] w
      in if depth < 8 then stack_recurse at (depth + 1) (at depth) w else w)"
  by pat_completeness auto
termination by (relation "measure (\<lambda>(at, depth, prev, w). 8 - depth)") auto

declare stack_recurse.simps [simp del]

definition stack_growth_main :: "nat \<Rightarrow> (nat \<Rightarrow> nat) \<Rightarrow> world \<Rightarrow> int \<times> world" where
  "stack_growth_main top_at at w =
     (let w = printf ''main &top = %p (top of our journey)'' [I (int top_at)] w
      in (0, stack_recurse at 0 top_at w))"

text \<open>Nine frames are reported, each with its distance from the frame before, also when the stack
  grows the other way (a negative distance).\<close>

lemma stack_recurse_lines:
  assumes "\<forall>d. at d \<noteq> 0" "prev \<noteq> 0" "depth \<le> 8"
  shows "printed (stack_recurse at depth prev w) = printed w @
    map (\<lambda>d. (''depth=%2d  &local=%p  (delta=%ld bytes from caller)'',
      [I (int d), I (int (at d)), I (int (if d = depth then prev else at (d - 1)) - int (at d))])) [depth..<9]"
  using assms(2,3)
proof (induction "8 - depth" arbitrary: depth prev w)
  case 0
  then have "depth = 8" by simp
  with 0(2) show ?case by (subst stack_recurse.simps) (simp add: Let_def printf_simp printed_def)
next
  case (Suc k)
  let ?w = "printf ''depth=%2d  &local=%p  (delta=%ld bytes from caller)''
     [I (int depth), I (int (at depth)), I (int prev - int (at depth))] w"
  have d: "depth < 8" "k = 8 - Suc depth" using Suc(2) by auto
  have r: "stack_recurse at depth prev w = stack_recurse at (Suc depth) (at depth) ?w"
    using d(1) Suc.prems by (subst stack_recurse.simps) (simp add: Let_def)
  have u: "[depth..<9] = depth # [Suc depth..<9]" using d(1) by (simp add: upt_conv_Cons)
  have m: "map (\<lambda>x. (''depth=%2d  &local=%p  (delta=%ld bytes from caller)'',
      [I (int x), I (int (at x)), I (int (if x = Suc depth then at depth else at (x - 1)) - int (at x))])) [Suc depth..<9]
    = map (\<lambda>x. (''depth=%2d  &local=%p  (delta=%ld bytes from caller)'',
      [I (int x), I (int (at x)), I (int (if x = depth then prev else at (x - 1)) - int (at x))])) [Suc depth..<9]"
    by (rule map_cong) auto
  have "at depth \<noteq> 0" "Suc depth \<le> 8" using assms(1) d(1) by auto
  from Suc(1) [OF d(2) this, of ?w] show ?case
    unfolding r m by (simp add: u printf_simp printed_def)
qed

section \<open>02_process_address_space/04_aslr.c and 11_memory_protection/02_aslr_test.c\<close>

text \<open>The addresses the linker, the loader and the kernel chose are arguments.\<close>

definition aslr_main :: "nat \<Rightarrow> nat \<Rightarrow> nat \<Rightarrow> nat \<Rightarrow> nat \<Rightarrow> world \<Rightarrow> int \<times> world" where
  "aslr_main main_at data_var stack_var printf_at argv w =
     (let (heap, w) = malloc 16 w;
          w = printf ''text  (main)     = %p'' [I (int main_at)] w;
          w = printf ''data  (data_var) = %p'' [I (int data_var)] w;
          w = printf ''heap  (malloc)   = %p'' [I (int heap)] w;
          w = printf ''stack (local)    = %p'' [I (int stack_var)] w;
          w = printf ''libc  (printf)   = %p'' [I (int printf_at)] w;
          w = printf ''argv  (ptr)      = %p'' [I (int argv)] w
      in (0, free heap w))"

definition aslr_test_main :: "nat \<Rightarrow> nat \<Rightarrow> nat \<Rightarrow> nat \<Rightarrow> world \<Rightarrow> int \<times> world" where
  "aslr_test_main main_at stack printf_at argv w =
     (let (h, w) = malloc 16 w;
          w = printf ''text  = %p   stack = %p   heap = %p   libc = %p   argv = %p''
                [I (int main_at), I (int stack), I (int h), I (int printf_at), I (int argv)] w
      in (0, free h w))"

end
