(* ===== verification/Futex.thy ===== *)
theory Futex
  imports Main
begin

text \<open>
  The futex mutex of src/09_threads_memory/05_futex_basic.c under every interleaving.

  \<^item> The state holds the futex word \<open>m\<close> (0 unlocked, 1 locked, 2 locked with waiters), the
    shared counter, and for each thread where it is in the code and how many rounds it has done.
    A step is one atomic operation, one access to the counter, or one system call of one thread;
    the increment of the counter is a load and a store.
  \<^item> \<open>futex_wait\<close> sleeps only if the word still has the expected value, and may return for no
    reason; \<open>futex_wake\<close> wakes one sleeping thread, any of them, if there is one.
  \<^item> Steps interleave sequentially: the atomics are acquire and release operations on one word,
    and the theorems show that the plain accesses to the counter never race.
\<close>

datatype pc = Head | Cas | Xchg | Wait | Asleep | Load | Store nat | Rel | Wake | Done

record futex =
  m :: nat
  shared :: nat
  pcs :: "nat \<Rightarrow> pc"
  iters :: "nat \<Rightarrow> nat"
  final :: "(nat \<times> nat) option"

definition N :: nat where "N = 100 * 1000"

text \<open>main has created the threads 0 and 1.\<close>

definition threads :: "nat set" where "threads = {0, 1}"

definition futex_init :: futex where
  "futex_init = \<lparr>m = 0, shared = 0, pcs = (\<lambda>t. if t \<in> threads then Head else Done),
     iters = (\<lambda>_. 0), final = None\<rparr>"

inductive futex_step :: "futex \<Rightarrow> futex \<Rightarrow> bool" where
  next_round: "pcs s t = Head \<Longrightarrow> iters s t < N \<Longrightarrow> futex_step s (s\<lparr>pcs := (pcs s)(t := Cas)\<rparr>)"
| finish: "pcs s t = Head \<Longrightarrow> \<not> iters s t < N \<Longrightarrow> futex_step s (s\<lparr>pcs := (pcs s)(t := Done)\<rparr>)"
| cas_ok: "pcs s t = Cas \<Longrightarrow> m s = 0 \<Longrightarrow> futex_step s (s\<lparr>m := 1, pcs := (pcs s)(t := Load)\<rparr>)"
| cas_fail: "pcs s t = Cas \<Longrightarrow> m s \<noteq> 0 \<Longrightarrow> futex_step s (s\<lparr>pcs := (pcs s)(t := Xchg)\<rparr>)"
| xchg_ok: "pcs s t = Xchg \<Longrightarrow> m s = 0 \<Longrightarrow> futex_step s (s\<lparr>m := 2, pcs := (pcs s)(t := Load)\<rparr>)"
| xchg_fail: "pcs s t = Xchg \<Longrightarrow> m s \<noteq> 0 \<Longrightarrow> futex_step s (s\<lparr>m := 2, pcs := (pcs s)(t := Wait)\<rparr>)"
| wait_sleep: "pcs s t = Wait \<Longrightarrow> m s = 2 \<Longrightarrow> futex_step s (s\<lparr>pcs := (pcs s)(t := Asleep)\<rparr>)"
| wait_again: "pcs s t = Wait \<Longrightarrow> m s \<noteq> 2 \<Longrightarrow> futex_step s (s\<lparr>pcs := (pcs s)(t := Xchg)\<rparr>)"
| spurious: "pcs s t = Asleep \<Longrightarrow> futex_step s (s\<lparr>pcs := (pcs s)(t := Xchg)\<rparr>)"
| load: "pcs s t = Load \<Longrightarrow> futex_step s (s\<lparr>pcs := (pcs s)(t := Store (shared s))\<rparr>)"
| store: "pcs s t = Store v \<Longrightarrow> futex_step s (s\<lparr>shared := v + 1, pcs := (pcs s)(t := Rel)\<rparr>)"
| rel_wake: "pcs s t = Rel \<Longrightarrow> m s = 2 \<Longrightarrow>
    futex_step s (s\<lparr>m := 0, pcs := (pcs s)(t := Wake), iters := (iters s)(t := Suc (iters s t))\<rparr>)"
| rel: "pcs s t = Rel \<Longrightarrow> m s \<noteq> 2 \<Longrightarrow>
    futex_step s (s\<lparr>m := 0, pcs := (pcs s)(t := Head), iters := (iters s)(t := Suc (iters s t))\<rparr>)"
| wake_one: "pcs s t = Wake \<Longrightarrow> pcs s u = Asleep \<Longrightarrow>
    futex_step s (s\<lparr>pcs := (pcs s)(t := Head, u := Xchg)\<rparr>)"
| wake_none: "pcs s t = Wake \<Longrightarrow> \<forall>u. pcs s u \<noteq> Asleep \<Longrightarrow> futex_step s (s\<lparr>pcs := (pcs s)(t := Head)\<rparr>)"
| joined: "\<forall>t \<in> threads. pcs s t = Done \<Longrightarrow> final s = None \<Longrightarrow>
    futex_step s (s\<lparr>final := Some (shared s, 2 * N)\<rparr>)"

inductive futex_reachable :: "futex \<Rightarrow> bool" where
  init: "futex_reachable futex_init"
| step: "futex_reachable s \<Longrightarrow> futex_step s s' \<Longrightarrow> futex_reachable s'"

section \<open>The invariant\<close>

text \<open>A thread is in its critical section from taking the lock to releasing it.\<close>

fun critical :: "pc \<Rightarrow> bool" where
  "critical Load = True"
| "critical (Store v) = True"
| "critical Rel = True"
| "critical _ = False"

text \<open>The increments a thread has made: its rounds, and one more between store and release.\<close>

definition increments :: "futex \<Rightarrow> nat \<Rightarrow> nat" where
  "increments s t = iters s t + (if pcs s t = Rel then 1 else 0)"

definition lock_inv :: "futex \<Rightarrow> bool" where
  "lock_inv s \<longleftrightarrow> (\<forall>t u. critical (pcs s t) \<longrightarrow> critical (pcs s u) \<longrightarrow> t = u)
     \<and> (m s = 0 \<longleftrightarrow> (\<forall>t. \<not> critical (pcs s t)))"

definition sum_inv :: "futex \<Rightarrow> bool" where
  "sum_inv s \<longleftrightarrow> shared s = increments s 0 + increments s 1 \<and> (\<forall>t. t \<noteq> 0 \<and> t \<noteq> 1 \<longrightarrow> pcs s t = Done)"

definition store_inv :: "futex \<Rightarrow> bool" where
  "store_inv s \<longleftrightarrow> (\<forall>t v. pcs s t = Store v \<longrightarrow> v = shared s)"

definition round_inv :: "futex \<Rightarrow> nat \<Rightarrow> bool" where
  "round_inv s t \<longleftrightarrow> iters s t \<le> N \<and> (pcs s t \<notin> {Head, Done, Wake} \<longrightarrow> iters s t < N)
     \<and> (pcs s t = Done \<and> t \<in> threads \<longrightarrow> iters s t = N)"

definition final_inv :: "futex \<Rightarrow> bool" where
  "final_inv s \<longleftrightarrow> (\<forall>a b. final s = Some (a, b) \<longrightarrow> a = 2 * N \<and> b = 2 * N \<and> (\<forall>t. pcs s t = Done))"

definition wake_inv :: "futex \<Rightarrow> bool" where
  "wake_inv s \<longleftrightarrow> (\<forall>t. pcs s t = Asleep \<longrightarrow> m s = 2 \<or> (\<exists>u. pcs s u \<in> {Wake, Xchg}))"

lemma lock_inv_step: "futex_step s s' \<Longrightarrow> lock_inv s \<Longrightarrow> lock_inv s'"
  by (induction rule: futex_step.induct) (simp_all add: lock_inv_def, (metis critical.simps)+)

lemma wake_inv_step: "futex_step s s' \<Longrightarrow> wake_inv s \<Longrightarrow> wake_inv s'"
  by (induction rule: futex_step.induct) (simp_all add: wake_inv_def, (metis pc.distinct)+)

lemma only_store:
  assumes "lock_inv s" "pcs s t = Store v" "pcs s u = Store x"
  shows "u = t"
proof -
  have "critical (pcs s t)" "critical (pcs s u)" using assms(2,3) by simp_all
  with assms(1) show ?thesis unfolding lock_inv_def by blast
qed

lemma store_inv_step: "futex_step s s' \<Longrightarrow> lock_inv s \<Longrightarrow> store_inv s \<Longrightarrow> store_inv s'"
proof (induction rule: futex_step.induct)
  case (store s t v)
  have "pcs s u \<noteq> Store y" if ne: "u \<noteq> t" for u y
  proof
    assume "pcs s u = Store y"
    from only_store [OF store(2,1) this] ne show False by (rule notE [rotated])
  qed
  then show ?case by (simp add: store_inv_def)
qed (simp_all add: store_inv_def)

lemma two_threads: "sum_inv s \<Longrightarrow> pcs s t \<noteq> Done \<Longrightarrow> t = 0 \<or> t = 1"
  unfolding sum_inv_def by blast

lemma sum_inv_step: "futex_step s s' \<Longrightarrow> store_inv s \<Longrightarrow> sum_inv s \<Longrightarrow> sum_inv s'"
proof (induction rule: futex_step.induct)
  case (store s t v)
  have v: "v = shared s" using store(1,2) unfolding store_inv_def by blast
  have "t = 0 \<or> t = 1" using two_threads [OF store(3), of t] store(1) by simp
  then show ?case
  proof
    assume "t = 0" with v store(1,3) show ?case by (simp add: sum_inv_def increments_def)
  next
    assume "t = 1" with v store(1,3) show ?case by (simp add: sum_inv_def increments_def)
  qed
next
  case (rel_wake s t)
  have "t = 0 \<or> t = 1" using two_threads [OF rel_wake(4), of t] rel_wake(1) by simp
  then show ?case
  proof
    assume "t = 0" with rel_wake(1,4) show ?case by (simp add: sum_inv_def increments_def)
  next
    assume "t = 1" with rel_wake(1,4) show ?case by (simp add: sum_inv_def increments_def)
  qed
next
  case (rel s t)
  have "t = 0 \<or> t = 1" using two_threads [OF rel(4), of t] rel(1) by simp
  then show ?case
  proof
    assume "t = 0" with rel(1,4) show ?case by (simp add: sum_inv_def increments_def)
  next
    assume "t = 1" with rel(1,4) show ?case by (simp add: sum_inv_def increments_def)
  qed
next
  case (wake_one s t u)
  have "t = 0 \<or> t = 1" using two_threads [OF wake_one(4), of t] wake_one(1) by simp
  moreover have "u = 0 \<or> u = 1" using two_threads [OF wake_one(4), of u] wake_one(2) by simp
  ultimately show ?case using wake_one by (elim disjE) (simp_all add: sum_inv_def increments_def)
qed (auto simp: sum_inv_def increments_def split: if_splits)

lemma round_inv_step: "futex_step s s' \<Longrightarrow> round_inv s x \<Longrightarrow> round_inv s' x"
  by (induction rule: futex_step.induct) (auto simp: round_inv_def)

lemma step_final:
  "futex_step s s' \<Longrightarrow> (\<exists>t. pcs s t \<noteq> Done \<and> final s' = final s)
    \<or> (\<forall>t \<in> threads. pcs s t = Done) \<and> s' = s\<lparr>final := Some (shared s, 2 * N)\<rparr>"
  by (induction rule: futex_step.induct) (simp_all, (metis pc.distinct)+)

lemma final_inv_step:
  assumes step: "futex_step s s'" and inv: "sum_inv s" "round_inv s 0" "round_inv s 1" "final_inv s"
  shows "final_inv s'"
  using step_final [OF step]
proof
  assume "\<exists>t. pcs s t \<noteq> Done \<and> final s' = final s"
  then have "final s' = None" using inv(4) by (cases "final s") (auto simp: final_inv_def)
  then show ?thesis by (simp add: final_inv_def)
next
  assume j: "(\<forall>t \<in> threads. pcs s t = Done) \<and> s' = s\<lparr>final := Some (shared s, 2 * N)\<rparr>"
  then have d: "pcs s 0 = Done" "pcs s 1 = Done" by (auto simp: threads_def)
  have "0 \<in> threads" "1 \<in> threads" by (simp_all add: threads_def)
  with d inv(2,3) have "iters s 0 = N" "iters s 1 = N" unfolding round_inv_def by blast+
  with inv(1) d have "shared s = 2 * N" by (simp add: sum_inv_def increments_def)
  moreover have "pcs s t = Done" for t using inv(1) d by (cases "t = 0 \<or> t = 1") (auto simp: sum_inv_def)
  ultimately show ?thesis using j by (simp add: final_inv_def)
qed

lemma futex_invs:
  "futex_reachable s \<Longrightarrow> lock_inv s \<and> wake_inv s \<and> store_inv s \<and> sum_inv s \<and> round_inv s 0 \<and> round_inv s 1 \<and> final_inv s"
proof (induction rule: futex_reachable.induct)
  case init
  show ?case
    by (simp add: futex_init_def lock_inv_def wake_inv_def store_inv_def sum_inv_def increments_def round_inv_def
        final_inv_def threads_def N_def)
next
  case (step s s')
  note h = step.hyps(2)
  show ?case
    using step.IH lock_inv_step [OF h] wake_inv_step [OF h] store_inv_step [OF h] sum_inv_step [OF h]
      round_inv_step [OF h] final_inv_step [OF h] by simp
qed

lemma futex_mutex_parts:
  assumes "futex_reachable s"
  shows "critical (pcs s t) \<Longrightarrow> critical (pcs s u) \<Longrightarrow> t = u"
    and "final s = Some (a, b) \<Longrightarrow> a = 2 * N \<and> b = 2 * N"
  using futex_invs [OF assms] unfolding lock_inv_def final_inv_def by blast+

text \<open>C9. The futex mutex excludes: in every interleaving of the two workers at most one of them is
  between taking and releasing the lock, so no increment is lost, and when main prints the counter
  it is exactly the 2 N it expects.\<close>

theorem futex_mutex:
  assumes "futex_reachable s"
  shows "(critical (pcs s t) \<longrightarrow> critical (pcs s u) \<longrightarrow> t = u)
    \<and> (final s = Some (a, b) \<longrightarrow> a = 2 * N \<and> b = 2 * N)"
  using futex_mutex_parts [OF assms] by blast

definition at_pcs :: "pc \<Rightarrow> pc \<Rightarrow> nat \<Rightarrow> futex" where
  "at_pcs p q w = futex_init\<lparr>m := w, pcs := (pcs futex_init)(0 := p, 1 := q)\<rparr>"

lemma init_at: "futex_init = at_pcs Head Head 0"
  by (simp add: at_pcs_def futex_init_def threads_def fun_eq_iff)

lemma reach_both:
  "futex_reachable (at_pcs Load Cas 1)" "futex_reachable (at_pcs Load Asleep 2)"
proof -
  have n: "iters (at_pcs p q w) t < N" for p q w t by (simp add: at_pcs_def futex_init_def N_def)
  have u: "(at_pcs p q w)\<lparr>pcs := (pcs (at_pcs p q w))(0 := p')\<rparr> = at_pcs p' q w"
    "(at_pcs p q w)\<lparr>pcs := (pcs (at_pcs p q w))(1 := q')\<rparr> = at_pcs p q' w"
    "(at_pcs p q w)\<lparr>m := v, pcs := (pcs (at_pcs p q w))(0 := p')\<rparr> = at_pcs p' q v"
    "(at_pcs p q w)\<lparr>m := v, pcs := (pcs (at_pcs p q w))(1 := q')\<rparr> = at_pcs p q' v" for p q w p' q' v
    by (simp_all add: at_pcs_def fun_upd_twist)
  have p: "pcs (at_pcs p q w) 0 = p" "pcs (at_pcs p q w) 1 = q" "m (at_pcs p q w) = w" for p q w
    by (simp_all add: at_pcs_def)
  have 0: "futex_reachable (at_pcs Head Head 0)" using futex_reachable.init by (simp add: init_at)
  have 1: "futex_reachable (at_pcs Cas Head 0)"
    using futex_reachable.step [OF 0 next_round [OF p(1) n]] by (simp only: u)
  have 2: "futex_reachable (at_pcs Cas Cas 0)"
    using futex_reachable.step [OF 1 next_round [OF p(2) n]] by (simp only: u)
  show 3: "futex_reachable (at_pcs Load Cas 1)"
    using futex_reachable.step [OF 2 cas_ok [OF p(1) p(3)]] by (simp only: u)
  have 4: "futex_reachable (at_pcs Load Xchg 1)"
    using futex_reachable.step [OF 3 cas_fail [OF p(2)]] by (simp only: u p)
  have 5: "futex_reachable (at_pcs Load Wait 2)"
    using futex_reachable.step [OF 4 xchg_fail [OF p(2)]] by (simp only: u p)
  show "futex_reachable (at_pcs Load Asleep 2)"
    using futex_reachable.step [OF 5 wait_sleep [OF p(2) p(3)]] by (simp only: u)
qed

theorem futex_mutex_witness:
  "critical (pcs (at_pcs Load Cas 1) 0) \<and> {u. critical (pcs (at_pcs Load Cas 1) u)} = {0}"
proof -
  have "critical (pcs (at_pcs Load Cas 1) 0)" by (simp add: at_pcs_def)
  with futex_mutex [OF reach_both(1)] show ?thesis by blast
qed

lemma futex_no_lost_wakeup_parts:
  assumes "futex_reachable s"
  shows "pcs s t = Asleep \<Longrightarrow> \<exists>u. pcs s u \<notin> {Asleep, Done}"
    and "pcs s u \<notin> {Asleep, Done} \<Longrightarrow> \<exists>s'. futex_step s s' \<and> pcs s' u \<noteq> pcs s u"
proof -
  note inv = futex_invs [OF assms]
  show "\<exists>u. pcs s u \<notin> {Asleep, Done}" if t: "pcs s t = Asleep"
  proof (cases "m s = 2")
    case True
    then obtain u where "critical (pcs s u)" using inv unfolding lock_inv_def by force
    then show ?thesis by (intro exI [of _ u]) auto
  next
    case False
    with inv t obtain u where "pcs s u \<in> {Wake, Xchg}" unfolding wake_inv_def by blast
    then show ?thesis by (intro exI [of _ u]) auto
  qed
  show "\<exists>s'. futex_step s s' \<and> pcs s' u \<noteq> pcs s u" if u: "pcs s u \<notin> {Asleep, Done}"
  proof (cases "pcs s u")
    case Head
    then show ?thesis using next_round [of s u] finish [of s u] by (cases "iters s u < N") (force+)
  next
    case Cas
    then show ?thesis using cas_ok [of s u] cas_fail [of s u] by (cases "m s = 0") (force+)
  next
    case Xchg
    then show ?thesis using xchg_ok [of s u] xchg_fail [of s u] by (cases "m s = 0") (force+)
  next
    case Wait
    then show ?thesis using wait_sleep [of s u] wait_again [of s u] by (cases "m s = 2") (force+)
  next
    case Load
    then show ?thesis using load [of s u] by force
  next
    case (Store v)
    then show ?thesis using store [of s u v] by force
  next
    case Rel
    then show ?thesis using rel [of s u] rel_wake [of s u] by (cases "m s = 2") (force+)
  next
    case Wake
    show ?thesis
    proof (cases "\<exists>v. pcs s v = Asleep")
      case True
      then obtain v where v: "pcs s v = Asleep" by blast
      with Wake have "v \<noteq> u" by auto
      with wake_one [OF Wake v] Wake show ?thesis by force
    next
      case False
      with wake_none [OF Wake] Wake show ?thesis by force
    qed
  qed (use u in auto)
qed

text \<open>C10. No wake-up is lost: whenever a thread sleeps on the futex, some other thread is awake, and
  every thread that is neither done nor asleep can take a step (no spurious wake-up is needed).  So
  the program never stops with a worker asleep.\<close>

theorem futex_no_lost_wakeup:
  assumes "futex_reachable s"
  shows "(pcs s t = Asleep \<longrightarrow> (\<exists>u. pcs s u \<notin> {Asleep, Done}))
    \<and> (pcs s u \<notin> {Asleep, Done} \<longrightarrow> (\<exists>s'. futex_step s s' \<and> pcs s' u \<noteq> pcs s u))"
  using futex_no_lost_wakeup_parts [OF assms] by blast

theorem futex_no_lost_wakeup_witness:
  "pcs (at_pcs Load Asleep 2) 1 = Asleep \<and> (\<exists>u. pcs (at_pcs Load Asleep 2) u \<notin> {Asleep, Done})"
proof -
  have "pcs (at_pcs Load Asleep 2) 1 = Asleep" by (simp add: at_pcs_def)
  with futex_no_lost_wakeup [OF reach_both(2)] show ?thesis by blast
qed

end
