(* ===== verification/Mmap_Demos.thy ===== *)
theory Mmap_Demos
  imports Proc_Status
begin

text \<open>
  The programs that exercise the mapping calls: src/01_virtual_memory/01_pagesize.c and
  03_count_page_faults.c, src/05_mmap/01_anon_mmap.c, 02_file_mmap.c, 04_file_share_write.c,
  07_mremap.c, 09_map_fixed_noreplace.c, src/06_brk_sbrk/02_brk_directly.c,
  src/11_memory_protection/01_mprotect_jit.c, 06_w_xor_x.c and src/13_advanced/02_hugetlb_mmap.c,
  05_ksm_demo.c.
\<close>

text \<open>A C string read for %s: the bytes up to the first NUL; it may run into unmapped memory.\<close>

partial_function (option) c_string :: "addr \<Rightarrow> world \<Rightarrow> string option" where
  [code]: "c_string a w = do {
     b \<leftarrow> peek a w;
     if b = 0 then Some []
     else do { s \<leftarrow> c_string (a + 1) w; Some (char_of (unat b) # s) }}"

fun peeks :: "addr \<Rightarrow> nat \<Rightarrow> world \<Rightarrow> u8 list option" where
  "peeks a 0 w = Some []"
| "peeks a (Suc n) w = do { b \<leftarrow> peek a w; bs \<leftarrow> peeks (a + 1) n w; Some (b # bs) }"

section \<open>01_pagesize.c\<close>

definition pagesize_main :: "world \<Rightarrow> (int \<times> world) option" where
  "pagesize_main w = do {
     let (pg, w) = sys ''sysconf'' [S ''_SC_PAGESIZE''] w;
     let w = printf ''page size = %ld (sysconf)'' [I pg] w;
     let (pg2, w) = sys ''getpagesize'' [] w;
     let w = printf ''page size = %d (getpagesize)'' [I pg2] w;
     let (r, w) = sys ''mmap'' [I 1, I 3, S ''MAP_PRIVATE | MAP_ANONYMOUS''] w;
     if r = -1 then Some (1, perror ''mmap'' w) else do {
       let p = nat r;
       let w = map_zero p (size_of_long pg) (PROT_READ + PROT_WRITE) w;
       if size_of_long pg = 0 then None else do {
         let w = printf ''mmap'd 1 byte at %p (page-aligned? %s)''
                   [I (int p), S (if p mod size_of_long pg = 0 then ''yes'' else ''no'')] w;
         w \<leftarrow> poke p (of_char (CHR ''a'')) w;
         w \<leftarrow> poke (p + size_of_long pg - 1) (of_char (CHR ''z'')) w;
         x \<leftarrow> peek p w;
         y \<leftarrow> peek (p + size_of_long pg - 1) w;
         let w = printf ''wrote p[0]=%c, p[%ld]=%c   (still in page)'' [I (uint x), I (pg - 1), I (uint y)] w;
         Some (0, call ''munmap'' [I (int p), I 1] w)}}}"

section \<open>03_count_page_faults.c\<close>

record rusage =
  ru_minflt :: int
  ru_majflt :: int

definition getrusage :: "world \<Rightarrow> rusage \<times> world" where
  "getrusage w = (\<lparr>ru_minflt = field ''getrusage'' ''ru_minflt'' w,
     ru_majflt = field ''getrusage'' ''ru_majflt'' w\<rparr>, call ''getrusage'' [] w)"

definition diff_rusage :: "string \<Rightarrow> rusage \<Rightarrow> rusage \<Rightarrow> world \<Rightarrow> world" where
  "diff_rusage label a b = printf ''%-22s  minor=%-8ld  major=%-3ld''
     [S label, I (ru_minflt b - ru_minflt a), I (ru_majflt b - ru_majflt a)]"

definition faults_main :: "world \<Rightarrow> (int \<times> world) option" where
  "faults_main w = do {
     let BYTES = 256 * 1024 * 1024;
     let (pg, w) = sys ''sysconf'' [S ''_SC_PAGESIZE''] w;
     let (r0, w) = getrusage w;
     let (p, w) = mmap_anon ''MAP_PRIVATE | MAP_ANONYMOUS'' BYTES (PROT_READ + PROT_WRITE) w;
     case p of None \<Rightarrow> Some (1, perror ''mmap'' w)
     | Some p \<Rightarrow> do {
       let (r1, w) = getrusage w;
       let w = diff_rusage ''mmap (no touch)'' r0 r1 w;
       let r0 = r1;
       w \<leftarrow> for_step (\<lambda>i w. poke (p + i) 1 w) BYTES (size_of_long pg) 0 w;
       let (r1, w) = getrusage w;
       let w = diff_rusage ''write each page'' r0 r1 w;
       let r0 = r1;
       w \<leftarrow> for_step (\<lambda>i w. do { sink \<leftarrow> peek (p + i) w; Some w }) BYTES (size_of_long pg) 0 w;
       let (r1, w) = getrusage w;
       let w = diff_rusage ''re-read each page'' r0 r1 w;
       let r0 = r1;
       let (e, w) = madvise_dontneed p BYTES w;
       w \<leftarrow> for_step (\<lambda>i w. do { sink \<leftarrow> peek (p + i) w; Some w }) BYTES (size_of_long pg) 0 w;
       let (r1, w) = getrusage w;
       let w = diff_rusage ''DONTNEED + re-read'' r0 r1 w;
       Some (0, snd (munmap p BYTES w))}}"

section \<open>01_anon_mmap.c\<close>

definition anon_main :: "world \<Rightarrow> (int \<times> world) option" where
  "anon_main w = do {
     let len = 4 * 1024 * 1024;
     let (p, w) = mmap_anon ''MAP_PRIVATE | MAP_ANONYMOUS'' len (PROT_READ + PROT_WRITE) w;
     case p of None \<Rightarrow> Some (1, perror ''mmap'' w)
     | Some p \<Rightarrow> do {
       let w = printf ''4 MiB anonymous mapping @ %p'' [I (int p)] w;
       let q = p;
       x \<leftarrow> peek q w;
       y \<leftarrow> peek (q + 4095) w;
       z \<leftarrow> peek (q + len - 1) w;
       let w = printf ''q[0]=%d q[4095]=%d q[len-1]=%d (all zero?)'' [I (sint x), I (sint y), I (sint z)] w;
       w \<leftarrow> mem_cpy q (bytes_of ''hello mmap'') w;
       s \<leftarrow> c_string q w;
       let w = printf ''after write: %s'' [S s] w;
       Some (0, snd (munmap p len w))}}"

section \<open>02_file_mmap.c and 04_file_share_write.c\<close>

text \<open>The file is the list of its bytes.  write(2) stores as many bytes of the message as it
  returns.  A private mapping is a copy of the file; with a shared mapping the file is what the
  mapping holds.\<close>

definition file_write :: "u8 list \<Rightarrow> world \<Rightarrow> u8 list \<times> world" where
  "file_write msg w = (let (n, w) = sys ''write'' [I (int (length msg))] w in (take (nat n) msg, w))"

definition map_bytes :: "addr \<Rightarrow> u8 list \<Rightarrow> nat \<Rightarrow> world \<Rightarrow> world" where
  "map_bytes a bs p w =
     w\<lparr>ram := put (ram w) a bs, perm := (\<lambda>x. if a \<le> x \<and> x < a + length bs then p else perm w x)\<rparr>"

definition mmap_file :: "string \<Rightarrow> u8 list \<Rightarrow> nat \<Rightarrow> world \<Rightarrow> addr option \<times> world" where
  "mmap_file flags file p w =
     (let (r, w) = sys ''mmap'' [I (int (length file)), I (int p), S flags] w
      in if r = -1 then (None, w) else (Some (nat r), map_bytes (nat r) file p w))"

definition bytes :: "string \<Rightarrow> u8 list" where
  "bytes s = map (\<lambda>c. of_nat (of_char c)) s"

definition text_of_bytes :: "u8 list \<Rightarrow> string" where
  "text_of_bytes bs = map (\<lambda>b. char_of (unat b)) bs"

definition file_main :: "world \<Rightarrow> (int \<times> world) option" where
  "file_main w = do {
     let (fd, w) = sys ''open'' [S ''/tmp/mmapdemo.txt'', S ''O_RDWR | O_CREAT | O_TRUNC''] w;
     if fd < 0 then Some (1, perror ''open'' w) else do {
       let (file, w) = file_write (bytes (''hello mmap'' @ [CHR 0x27] @ ''d file world!'' @ [CHR 0x0A])) w;
       let st_size = length file;
       let (p, w) = mmap_file ''MAP_PRIVATE'' file (PROT_READ + PROT_WRITE) w;
       let w = call ''close'' [I fd] w;
       case p of None \<Rightarrow> Some (1, perror ''mmap'' w)
       | Some p \<Rightarrow> do {
         let w = printf ''file size = %ld bytes  mapped @ %p'' [I (int st_size), I (int p)] w;
         bs \<leftarrow> peeks p st_size w;
         let w = printf ''%s'' [S (text_of_bytes bs)] w;
         w \<leftarrow> poke p (of_char (CHR ''H'')) w;
         bs \<leftarrow> peeks p st_size w;
         let w = printf ''after p[0]='H' in memory: %.*s'' [S (text_of_bytes bs)] w;
         let buf = take 64 file;
         if length buf \<ge> 64 then None else do {
           let w = printf ''on disk still: %s'' [S (cstr (text_of_bytes buf))] w;
           let (r, w) = munmap p st_size w;
           Some (0, call ''unlink'' [S ''/tmp/mmapdemo.txt''] w)}}}}"

definition share_main :: "world \<Rightarrow> (int \<times> world) option" where
  "share_main w = do {
     let (fd, w) = sys ''open'' [S ''/tmp/mmap_shared.txt'', S ''O_RDWR | O_CREAT | O_TRUNC''] w;
     let (file, w) = file_write (bytes (replicate 16 (CHR ''A''))) w;
     let st_size = length file;
     let (p, w) = mmap_file ''MAP_SHARED'' file (PROT_READ + PROT_WRITE) w;
     case p of None \<Rightarrow> Some (1, call ''close'' [I fd] (perror ''mmap'' w))
     | Some p \<Rightarrow> do {
       let w = call ''close'' [I fd] w;
       bs \<leftarrow> peeks p st_size w;
       let w = printf ''before: %s'' [S (text_of_bytes bs)] w;
       w \<leftarrow> mem_cpy p (bytes ''BBBBBBBB'') w;
       let w = call ''msync'' [I (int p), I (int st_size), S ''MS_SYNC''] w;
       file \<leftarrow> peeks p st_size w;
       let w = printf ''on disk : %.*s'' [S (text_of_bytes (take 64 file))] w;
       let (r, w) = munmap p st_size w;
       Some (0, call ''unlink'' [S ''/tmp/mmap_shared.txt''] w)}}"

section \<open>07_mremap.c\<close>

text \<open>mremap moves the old mapping to the address the kernel returns: its bytes are kept up to the
  shorter of the two lengths, a grown part reads as zero, the old range is gone.\<close>

definition mremap :: "addr \<Rightarrow> nat \<Rightarrow> nat \<Rightarrow> world \<Rightarrow> addr option \<times> world" where
  "mremap p old new w =
     (let (r, w) = sys ''mremap'' [I (int p), I (int old), I (int new), S ''MREMAP_MAYMOVE''] w;
          q = nat r in
      if r = -1 then (None, w)
      else (Some q,
        w\<lparr>ram := (\<lambda>x. if q \<le> x \<and> x < q + new then (if x - q < old then ram w (p + (x - q)) else Some 0)
                      else if p \<le> x \<and> x < p + old then None else ram w x),
          perm := (\<lambda>x. if q \<le> x \<and> x < q + new then perm w p else perm w x)\<rparr>))"

definition mremap_main :: "world \<Rightarrow> (int \<times> world) option" where
  "mremap_main w = do {
     let a = 2 ^ 20;
     let (p, w) = mmap_anon ''MAP_PRIVATE | MAP_ANONYMOUS'' a (PROT_READ + PROT_WRITE) w;
     case p of None \<Rightarrow> Some (1, perror ''mmap'' w)
     | Some p \<Rightarrow> do {
       w \<leftarrow> mem_cpy p (bytes_of ''marker'') w;
       s \<leftarrow> c_string p w;
       let w = printf ''mmap'd %zu bytes @ %p; first 6 bytes = %s'' [I (int a), I (int p), S s] w;
       let b = 16 * 2 ^ 20;
       let (q, w) = mremap p a b w;
       case q of None \<Rightarrow> Some (1, perror ''mremap up'' w)
       | Some q \<Rightarrow> do {
         s \<leftarrow> c_string q w;
         let w = printf ''mremap %zu -> %zu  new=%p (%s)  marker=%s''
                   [I (int a), I (int b), I (int q), S (if q = p then ''in-place'' else ''moved''), S s] w;
         let c = 64 * 2 ^ 10;
         let (r, w) = mremap q b c w;
         case r of None \<Rightarrow> Some (1, perror ''mremap down'' w)
         | Some r \<Rightarrow> do {
           s \<leftarrow> c_string r w;
           let w = printf ''mremap %zu -> %zu  new=%p marker=%s'' [I (int b), I (int c), I (int r), S s] w;
           Some (0, snd (munmap r c w))}}}}"

section \<open>09_map_fixed_noreplace.c\<close>

definition EEXIST :: int where "EEXIST = 17"

definition mmap_at :: "addr \<Rightarrow> world \<Rightarrow> addr option \<times> world" where
  "mmap_at p w =
     (let (r, w) = sys ''mmap'' [I (int p), I 4096, S ''MAP_PRIVATE | MAP_ANONYMOUS | MAP_FIXED_NOREPLACE''] w
      in if r = -1 then (None, w) else (Some (nat r), map_zero (nat r) 4096 (PROT_READ + PROT_WRITE) w))"

definition noreplace_main :: "world \<Rightarrow> int \<times> world" where
  "noreplace_main w =
     (let (p, w) = mmap_anon ''MAP_PRIVATE | MAP_ANONYMOUS'' 4096 (PROT_READ + PROT_WRITE) w;
          p = or_failed p;
          (r, w) = munmap p 4096 w;
          w = printf ''scratch addr = %p'' [I (int p)] w;
          (q, w) = mmap_at p w in
      case q of None \<Rightarrow> (1, perror ''mmap NOREPLACE'' w)
      | Some q \<Rightarrow>
        (let w = printf ''first NOREPLACE at %p: %s''
                   [I (int q), S (if q = p then ''OK'' else ''moved (shouldn't happen)'')] w;
             (r, w) = mmap_at p w;
             errno = field ''mmap'' ''errno'' w;
             w = (if r = None \<and> errno = EEXIST
                  then printf ''second NOREPLACE at %p: EEXIST  (good)'' [I (int p)] w
                  else printf ''second NOREPLACE: surprise! r=%p errno=%d'' [I (int (or_failed r)), I errno] w);
             (r, w) = munmap q 4096 w
         in (0, w)))"

section \<open>02_brk_directly.c\<close>

text \<open>sbrk returns the old break or -1; a grown heap is zero.\<close>

definition sbrk :: "int \<Rightarrow> world \<Rightarrow> int \<times> world" where
  "sbrk n w =
     (let (r, w) = sys ''sbrk'' [I n] w in
      if r \<noteq> -1 \<and> 0 < n then (r, map_zero (nat r) (nat n) (PROT_READ + PROT_WRITE) w)
      else if r \<noteq> -1 \<and> n < 0
      then (r, w\<lparr>ram := (\<lambda>x. if nat (r + n) \<le> x \<and> x < nat r then None else ram w x)\<rparr>)
      else (r, w))"

definition brk_main :: "world \<Rightarrow> (int \<times> world) option" where
  "brk_main w = do {
     let (base, w) = sbrk 0 w;
     let w = printf ''initial break = %p'' [I base] w;
     let (got, w) = sbrk (16 * 1024) w;
     if got = -1 then Some (1, perror ''sbrk grow'' w) else do {
       let (b, w) = sbrk 0 w;
       let w = printf ''got 16 KiB from sbrk; old break = %p, new break = %p'' [I got, I b] w;
       let p = nat got;
       w \<leftarrow> mem_set p (of_char (CHR ''A'')) (16 * 1024) w;
       let w = printf ''wrote 16 KiB starting at %p'' [I (int p)] w;
       let (r, w) = sbrk (- 16 * 1024) w;
       let w = (if r = -1 then perror ''sbrk shrink'' w else w);
       let (b, w) = sbrk 0 w;
       Some (0, printf ''new break = %p (should equal initial)'' [I b] w)}}"

section \<open>01_mprotect_jit.c and 06_w_xor_x.c\<close>

text \<open>The three x86-64 instructions the programs write as bytes, and a call into them: the code is
  fetched from executable memory, the arguments are in edi and esi, the result is eax.  Other bytes
  and memory that is not executable fault.\<close>

record regs =
  rax :: "64 word"
  rdi :: "64 word"
  rsi :: "64 word"

definition fetch :: "addr \<Rightarrow> world \<Rightarrow> u8 option" where
  "fetch a w = (if can_exec (perm w a) then ram w a else None)"

fun fetches :: "addr \<Rightarrow> nat \<Rightarrow> world \<Rightarrow> u8 list option" where
  "fetches a 0 w = Some []"
| "fetches a (Suc n) w = do { b \<leftarrow> fetch a w; bs \<leftarrow> fetches (a + 1) n w; Some (b # bs) }"

partial_function (option) run_code :: "addr \<Rightarrow> regs \<Rightarrow> world \<Rightarrow> regs option" where
  [code]: "run_code pc r w = do {
     b \<leftarrow> fetch pc w;
     if b = 0xC3 then Some r else do {
       bs \<leftarrow> fetches pc 3 w;
       if bs = [0x48, 0x89, 0xf8] then run_code (pc + 3) (r\<lparr>rax := rdi r\<rparr>) w
       else if bs = [0x48, 0x01, 0xf0] then run_code (pc + 3) (r\<lparr>rax := rax r + rsi r\<rparr>) w
       else None}}"

definition jit_code :: "u8 list" where
  "jit_code = [0x48, 0x89, 0xf8, 0x48, 0x01, 0xf0, 0xc3]"

definition call_int2 :: "addr \<Rightarrow> int \<Rightarrow> int \<Rightarrow> world \<Rightarrow> int option" where
  "call_int2 f a b w =
     map_option (\<lambda>r. sint (ucast (rax r) :: 32 word))
       (run_code f \<lparr>rax = 0, rdi = of_int a, rsi = of_int b\<rparr> w)"

definition jit_main :: "world \<Rightarrow> (int \<times> world) option" where
  "jit_main w = do {
     let (pg, w) = sys ''sysconf'' [S ''_SC_PAGESIZE''] w;
     let pg = size_of_long pg;
     let (p, w) = mmap_anon ''MAP_PRIVATE | MAP_ANONYMOUS'' pg (PROT_READ + PROT_WRITE) w;
     case p of None \<Rightarrow> Some (1, perror ''mmap'' w)
     | Some p \<Rightarrow> do {
       w \<leftarrow> mem_cpy p jit_code w;
       let (e, w) = mprotect p pg (PROT_READ + PROT_EXEC) w;
       if e < 0 then Some (1, perror ''mprotect'' w) else do {
         r \<leftarrow> call_int2 p 3 4 w;
         let w = printf ''JIT'd f(3,4) = %d'' [I r] w;
         Some (0, snd (munmap p pg w))}}}"

text \<open>The handler of 06_w_xor_x.c writes a line to stderr and exits with status 1; every fault after
  sigaction ends in it.\<close>

definition wx_handler :: "addr \<Rightarrow> world \<Rightarrow> int \<times> world" where
  "wx_handler a w = (1, eprintf ''SIGSEGV: attempted to execute non-X page %p'' [I (int a)] w)"

definition w_xor_x_main :: "world \<Rightarrow> int \<times> world" where
  "w_xor_x_main w =
     (let w = call ''sigaction'' [S ''SIGSEGV''] w;
          (pg, w) = sys ''sysconf'' [S ''_SC_PAGESIZE''] w;
          (p, w) = mmap_anon ''MAP_PRIVATE | MAP_ANONYMOUS'' (size_of_long pg) (PROT_READ + PROT_WRITE) w;
          p = or_failed p in
      case poke p 0xC3 w of None \<Rightarrow> wx_handler p w
      | Some w \<Rightarrow>
        (let w = printf ''about to call writable (NX) page %p ...'' [I (int p)] w in
         case run_code p \<lparr>rax = 0, rdi = 0, rsi = 0\<rparr> w of None \<Rightarrow> wx_handler p w
         | Some r \<Rightarrow> (0, puts ''never reached'' w)))"

section \<open>02_hugetlb_mmap.c and 05_ksm_demo.c\<close>

definition hugetlb_main :: "world \<Rightarrow> (int \<times> world) option" where
  "hugetlb_main w = do {
     let len = 2 * 2 ^ 20;
     let (p, w) = mmap_anon ''MAP_PRIVATE | MAP_ANONYMOUS | MAP_HUGETLB | MAP_HUGE_2MB'' len
                    (PROT_READ + PROT_WRITE) w;
     case p of None \<Rightarrow> Some (1, perror ''mmap(HUGETLB) -- need nr_hugepages>0'' w)
     | Some p \<Rightarrow> do {
       w \<leftarrow> mem_set p 0x42 len w;
       let w = printf ''got 2 MiB huge page @ %p'' [I (int p)] w;
       Some (0, snd (munmap p len w))}}"

definition ksm_main :: "world \<Rightarrow> (int \<times> world) option" where
  "ksm_main w = do {
     let len = 64 * 2 ^ 20;
     let (a, w) = mmap_anon ''MAP_PRIVATE | MAP_ANONYMOUS'' len (PROT_READ + PROT_WRITE) w;
     let a = or_failed a;
     let (b, w) = mmap_anon ''MAP_PRIVATE | MAP_ANONYMOUS'' len (PROT_READ + PROT_WRITE) w;
     let b = or_failed b;
     w \<leftarrow> mem_set a 0xAA len w;
     w \<leftarrow> mem_set b 0xAA len w;
     let (e, w) = sys ''madvise'' [I (int a), I (int len), S ''MADV_MERGEABLE''] w;
     let w = (if e < 0 then perror ''madvise(MERGEABLE)'' w else w);
     let (e, w) = sys ''madvise'' [I (int b), I (int len), S ''MADV_MERGEABLE''] w;
     let w = (if e < 0 then perror ''madvise(MERGEABLE)'' w else w);
     let w = puts ''two identical 64 MiB regions allocated and marked MERGEABLE'' w;
     let w = puts ''watch:  watch -n2 cat /sys/kernel/mm/ksm/pages_shared'' w;
     let w = puts ''sleeping 30s so KSM has a chance to dedupe...'' w;
     let w = call ''sleep'' [I 30] w;
     let (r, w) = munmap a len w;
     Some (0, snd (munmap b len w))}"

section \<open>Strings and bytes in memory\<close>

definition holds :: "world \<Rightarrow> addr \<Rightarrow> u8 list \<Rightarrow> bool" where
  "holds w a bs \<longleftrightarrow> (\<forall>i < length bs. readable w (a + i) = Some (bs ! i))"

lemma holds_Cons: "holds w a (b # bs) \<longleftrightarrow> peek a w = Some b \<and> holds w (a + 1) bs"
  by (auto simp: holds_def peek_def nth_Cons' less_Suc_eq_0_disj)

lemma byte_char: "unat (of_nat (of_char c) :: u8) = of_char c" "char_of (of_char c :: nat) = c"
proof -
  have "of_char c mod 256 = (of_char c :: nat)" by simp
  then show "unat (of_nat (of_char c) :: u8) = of_char c" by (simp add: unsigned_of_nat take_bit_eq_mod)
qed simp

lemma byte_nul: "(of_nat (of_char c) :: u8) = 0 \<Longrightarrow> c = nul"
proof -
  assume "(of_nat (of_char c) :: u8) = 0"
  then have "of_char c = (0 :: nat)" using byte_char(1) [of c] by simp
  then have "char_of (of_char c :: nat) = char_of (0 :: nat)" by simp
  moreover have "char_of (0 :: nat) = nul" by code_simp
  ultimately show "c = nul" by simp
qed

lemma c_string_holds:
  "nul \<notin> set s \<Longrightarrow> holds w a (bytes_of s) \<Longrightarrow> c_string a w = Some s"
proof (induction s arbitrary: a)
  case Nil then show ?case by (subst c_string.simps) (simp add: bytes_of_def holds_Cons)
next
  case (Cons c s)
  then have "c_string (a + 1) w = Some s" "peek a w = Some (of_nat (of_char c))"
    by (simp_all add: bytes_of_def holds_Cons)
  moreover have "(of_nat (of_char c) :: u8) \<noteq> 0" using byte_nul [of c] Cons.prems(1) by auto
  ultimately show ?case by (subst c_string.simps) (simp add: byte_char)
qed

lemma peeks_holds: "holds w a bs \<Longrightarrow> peeks a (length bs) w = Some bs"
  by (induction bs arbitrary: a) (simp_all add: holds_Cons)

lemma text_of_bytes_bytes [simp]: "text_of_bytes (bytes s) = s"
  by (induction s) (simp_all add: text_of_bytes_def bytes_def byte_char)

text \<open>A fresh anonymous mapping is readable, writable, not executable, and zero; copying bytes into
  a writable range makes it hold them.\<close>

definition rw_range :: "world \<Rightarrow> addr \<Rightarrow> nat \<Rightarrow> bool" where
  "rw_range w a n \<longleftrightarrow> (\<forall>x. a \<le> x \<and> x < a + n \<longrightarrow> ram w x \<noteq> None \<and> perm w x = PROT_READ + PROT_WRITE)"

lemma rw_map_zero: "rw_range (map_zero a n (PROT_READ + PROT_WRITE) w) a n"
  by (simp add: rw_range_def map_zero_def)

lemma rw_writable: "rw_range w a n \<Longrightarrow> k \<le> n \<Longrightarrow> writable w a k"
  by (simp add: rw_range_def writable_def)

lemma mem_cpy_holds:
  assumes "rw_range w a n" "length bs \<le> n"
  shows "mem_cpy a bs w = Some (w\<lparr>ram := put (ram w) a bs\<rparr>)"
    "holds (w\<lparr>ram := put (ram w) a bs\<rparr>) a bs" "rw_range (w\<lparr>ram := put (ram w) a bs\<rparr>) a n"
  using rw_writable [OF assms] assms
  by (auto simp: mem_cpy_def holds_def readable_def put_def rw_range_def)

lemma mmap_anon_cases:
  obtains "fst (mmap_anon f n p w) = None" "printed (snd (mmap_anon f n p w)) = printed w" "os (snd (mmap_anon f n p w)) = os w"
  | a w1 where "mmap_anon f n p w = (Some a, map_zero a n p w1)" "printed w1 = printed w" "os w1 = os w"
  by (cases "os w (log w @ [Sys ''mmap'' [I (int n), I (int p), S f]]) = -1")
    (auto simp: mmap_anon_def world_simps Let_def)

lemma keeps_printf [simp]:
  "ram (printf f as w) = ram w" "perm (printf f as w) = perm w" "os (printf f as w) = os w"
  "printed (printf f as w) = printed w @ [(f, as)]"
  "ram (call g bs w) = ram w" "perm (call g bs w) = perm w" "os (call g bs w) = os w" "printed (call g bs w) = printed w"
  "ram (snd (sys g bs w)) = ram w" "perm (snd (sys g bs w)) = perm w" "os (snd (sys g bs w)) = os w"
  "printed (snd (sys g bs w)) = printed w"
  "printed (perror e w) = printed w" "printed (map_zero a n p w) = printed w" "os (map_zero a n p w) = os w"
  "printed (snd (munmap a n w)) = printed w" "printed (snd (mprotect a n q w)) = printed w"
  by (simp_all add: world_simps map_zero_def munmap_def mprotect_def)

lemma holds_printf [simp]:
  "holds (printf f as w) a bs = holds w a bs" "holds (call g cs w) a bs = holds w a bs"
  "rw_range (printf f as w) a n = rw_range w a n" "rw_range (call g cs w) a n = rw_range w a n"
  by (simp_all add: holds_def readable_def rw_range_def)

section \<open>mremap keeps the bytes\<close>

lemma mremap_holds:
  assumes "mremap p old new w = (Some q, w1)" "rw_range w p old" "holds w p bs" "length bs \<le> old" "length bs \<le> new" "0 < old"
  shows "rw_range w1 q new" "holds w1 q bs" "printed w1 = printed w"
proof -
  from assms(1) have q: "w1 = (snd (sys ''mremap'' [I (int p), I (int old), I (int new), S ''MREMAP_MAYMOVE''] w))
    \<lparr>ram := (\<lambda>x. if q \<le> x \<and> x < q + new then (if x - q < old then ram w (p + (x - q)) else Some 0)
                      else if p \<le> x \<and> x < p + old then None else ram w x),
          perm := (\<lambda>x. if q \<le> x \<and> x < q + new then perm w p else perm w x)\<rparr>"
    by (auto simp: mremap_def Let_def world_simps cong: if_cong split: if_splits)
  have r: "ram w (p + i) \<noteq> None" "perm w (p + i) = PROT_READ + PROT_WRITE" if "i < old" for i
    using assms(2) that by (auto simp: rw_range_def)
  have p0: "perm w p = PROT_READ + PROT_WRITE" using r(2) [of 0] assms(6) by simp
  have "ram w (p + x - q) \<noteq> None" if "q \<le> x" "x - q < old" for x
    using r(1) [OF that(2)] that(1) by simp
  then show "rw_range w1 q new" using p0 by (auto simp: rw_range_def q)
  show "printed w1 = printed w" by (simp add: q printed_def world_simps)
  show "holds w1 q bs" unfolding holds_def
  proof (intro allI impI)
    fix i assume i: "i < length bs"
    then have "readable w (p + i) = Some (bs ! i)" using assms(3) by (simp add: holds_def)
    then show "readable w1 (q + i) = Some (bs ! i)"
      using i assms(4,5) p0 r(2) [of i] by (simp add: q readable_def)
  qed
qed

text \<open>The strings a program printed with %s at the end of a line.\<close>

definition last_strings :: "(string \<times> arg list) list \<Rightarrow> string list" where
  "last_strings ps = concat (map (\<lambda>(f, as). case rev as of S t # r \<Rightarrow> [t] | _ \<Rightarrow> []) ps)"

lemma last_strings_simps [simp]:
  "last_strings (ps @ qs) = last_strings ps @ last_strings qs" "last_strings [] = []"
  "last_strings ((f, as) # ps) = (case rev as of S t # r \<Rightarrow> [t] | _ \<Rightarrow> []) @ last_strings ps"
  by (simp_all add: last_strings_def)

lemma printed_ram [simp]: "printed (w\<lparr>ram := x\<rparr>) = printed w"
  by (simp add: printed_def)

lemma mremap_none: "mremap p old new w = (None, w1) \<Longrightarrow> printed w1 = printed w"
  by (auto simp: mremap_def Let_def world_simps split: if_splits)

lemma mremap_main_marker:
  "\<exists>c w' n. mremap_main w = Some (c, w') \<and> last_strings (printed w') = last_strings (printed w) @ replicate n ''marker''
    \<and> (c = 0 \<and> n = 3 \<or> c = 1 \<and> n < 3)"
proof (rule mmap_anon_cases [of "''MAP_PRIVATE | MAP_ANONYMOUS''" "2 ^ 20" "PROT_READ + PROT_WRITE" w])
  assume "fst (mmap_anon ''MAP_PRIVATE | MAP_ANONYMOUS'' (2 ^ 20) (PROT_READ + PROT_WRITE) w) = None"
    "printed (snd (mmap_anon ''MAP_PRIVATE | MAP_ANONYMOUS'' (2 ^ 20) (PROT_READ + PROT_WRITE) w)) = printed w"
  then show ?thesis
    by (intro exI [of _ 1] exI [of _ "perror ''mmap'' _"] exI [of _ 0])
      (auto simp: mremap_main_def Let_def case_prod_unfold)
next
  fix p w1
  assume p: "mmap_anon ''MAP_PRIVATE | MAP_ANONYMOUS'' (2 ^ 20) (PROT_READ + PROT_WRITE) w =
      (Some p, map_zero p (2 ^ 20) (PROT_READ + PROT_WRITE) w1)" and w1: "printed w1 = printed w"
  let ?w = "map_zero p (2 ^ 20) (PROT_READ + PROT_WRITE) w1"
  let ?bs = "bytes_of ''marker''"
  have len: "length ?bs = 7" by (simp add: bytes_of_def)
  have no: "nul \<notin> set ''marker''" by simp
  have small: "length ?bs \<le> 2 ^ 20" "length ?bs \<le> 16 * 2 ^ 20" "length ?bs \<le> 64 * 2 ^ 10" by (simp_all add: len)
  let ?w2 = "?w\<lparr>ram := put (ram ?w) p ?bs\<rparr>"
  note cp = mem_cpy_holds [OF rw_map_zero small(1), of p w1]
  note s1 = c_string_holds [OF no cp(2)]
  have pr2: "printed ?w2 = printed w" using w1 by (simp add: printed_def map_zero_def)
  let ?f1 = "''mmap'd %zu bytes @ %p; first 6 bytes = %s''"
  let ?w3 = "printf ?f1 [I (2 ^ 20), I (int p), S ''marker''] ?w2"
  have w3: "rw_range ?w3 p (2 ^ 20)" "holds ?w3 p ?bs" using cp by simp_all
  have pr3: "last_strings (printed ?w3) = last_strings (printed w) @ [''marker'']"
    by (simp add: w1)
  note main1 = p cp(1) s1
  show ?thesis
  proof (cases "mremap p (2 ^ 20) (16 * 2 ^ 20) ?w3")
    case (Pair qo w4)
    show ?thesis
    proof (cases qo)
      case None
      with Pair main1 pr3 mremap_none [of p "2 ^ 20" "16 * 2 ^ 20" ?w3 w4] show ?thesis
        by (intro exI [of _ 1] exI [of _ "perror ''mremap up'' w4"] exI [of _ 1]) (simp add: mremap_main_def Let_def)
    next
      case (Some q)
      note m1 = mremap_holds [OF Pair [unfolded Some] w3 small(1,2)]
      note s2 = c_string_holds [OF no m1(2)]
      let ?f2 = "''mremap %zu -> %zu  new=%p (%s)  marker=%s''"
      let ?a2 = "[I (2 ^ 20), I (16 * 2 ^ 20), I (int q), S (if q = p then ''in-place'' else ''moved'')]"
      let ?w5 = "printf ?f2 (?a2 @ [S ''marker'']) w4"
      have w5: "rw_range ?w5 q (16 * 2 ^ 20)" "holds ?w5 q ?bs" using m1 by simp_all
      have pr5: "last_strings (printed ?w5) = last_strings (printed w) @ [''marker'', ''marker'']" using pr3 m1(3) by simp
      show ?thesis
      proof (cases "mremap q (16 * 2 ^ 20) (64 * 2 ^ 10) ?w5")
        case (Pair ro w6)
        show ?thesis
        proof (cases ro)
          case None
          with Pair \<open>mremap p (2 ^ 20) (16 * 2 ^ 20) ?w3 = (qo, w4)\<close> Some main1 s2 pr5
            mremap_none [of q "16 * 2 ^ 20" "64 * 2 ^ 10" ?w5 w6] show ?thesis
            by (intro exI [of _ 1] exI [of _ "perror ''mremap down'' w6"] exI [of _ 2])
              (simp add: numeral_2_eq_2 mremap_main_def Let_def)
        next
          fix r assume r: "ro = Some r"
          note m2 = mremap_holds [OF Pair [unfolded r] w5 small(2,3)]
          note s3 = c_string_holds [OF no m2(2)]
          let ?f3 = "''mremap %zu -> %zu  new=%p marker=%s''"
          let ?a3 = "[I (16 * 2 ^ 20), I (64 * 2 ^ 10), I (int r)]"
          let ?w7 = "snd (munmap r (64 * 2 ^ 10) (printf ?f3 (?a3 @ [S ''marker'']) w6))"
          have "last_strings (printed ?w7) = last_strings (printed w) @ [''marker'', ''marker'', ''marker'']" using pr5 m2(3) by simp
          moreover have "mremap_main w = Some (0, ?w7)"
            using Pair \<open>mremap p (2 ^ 20) (16 * 2 ^ 20) ?w3 = (qo, w4)\<close> Some r main1 s2 s3
            by (simp add: mremap_main_def Let_def)
          ultimately show ?thesis
            by (intro exI [of _ 0] exI [of _ ?w7] exI [of _ 3]) (simp add: numeral_3_eq_3)
        qed
      qed
    qed
  qed
qed

section \<open>Code in memory\<close>

text \<open>The seven bytes compute the sum of the two int arguments, with the wrap-around of add.\<close>

lemma jit_code_adds:
  assumes c: "\<forall>i < 7. fetch (p + i) w = Some (jit_code ! i)"
  shows "call_int2 p a b w = Some (sint (of_int a + of_int b :: 32 word))"
proof -
  have b: "fetch p w = Some 0x48" "fetch (p + 1) w = Some 0x89" "fetch (p + 2) w = Some 0xf8"
    "fetch (p + 3) w = Some 0x48" "fetch (p + 4) w = Some 0x01" "fetch (p + 5) w = Some 0xf0" "fetch (p + 6) w = Some 0xC3"
    using c [rule_format, of 0] c [rule_format, of 1] c [rule_format, of 2] c [rule_format, of 3]
      c [rule_format, of 4] c [rule_format, of 5] c [rule_format, of 6] by (simp_all add: jit_code_def)
  then have f: "fetches p 3 w = Some [0x48, 0x89, 0xf8]" "fetches (p + 3) 3 w = Some [0x48, 0x01, 0xf0]"
    by (simp_all add: numeral_3_eq_3 eval_nat_numeral)
  have r6: "run_code (p + 6) r w = Some r" for r by (simp add: run_code.simps [of "p + 6"] b)
  have "run_code (p + 3) r w = run_code (p + 3 + 3) (r\<lparr>rax := rax r + rsi r\<rparr>) w" for r
    by (subst run_code.simps) (simp add: b f)
  then have r3: "run_code (p + 3) r w = Some (r\<lparr>rax := rax r + rsi r\<rparr>)" for r
    by (simp only: add.assoc numeral_plus_numeral add_num_simps r6)
  have "run_code p r w = run_code (p + 3) (r\<lparr>rax := rdi r\<rparr>) w" for r
    by (subst run_code.simps) (simp add: b f)
  then have "call_int2 p a b w = Some (sint (ucast (of_int a + of_int b :: 64 word) :: 32 word))"
    by (simp add: call_int2_def r3)
  moreover have "(ucast (of_int a + of_int b :: 64 word) :: 32 word) = of_int a + of_int b"
    by (rule bit_word_eqI) (simp add: bit_simps flip: of_int_add)
  ultimately show ?thesis by simp
qed

lemma exec_after_mprotect:
  assumes "mem_cpy p bs (map_zero p n (PROT_READ + PROT_WRITE) w) = Some w1" "length bs \<le> n"
    "mprotect p n (PROT_READ + PROT_EXEC) w1 = (e, w2)" "0 \<le> e"
  shows "\<forall>i < length bs. fetch (p + i) w2 = Some (bs ! i)" "printed w2 = printed w" "p \<le> x \<Longrightarrow> x < p + n \<Longrightarrow> poke x v w2 = None"
  using assms
  by (auto simp: mem_cpy_def mprotect_def world_simps Let_def fetch_def put_def map_zero_def printed_def
      can_exec_def can_write_def poke_def PROT_READ_def PROT_EXEC_def PROT_WRITE_def split: if_splits)


lemma jit_main_runs:
  assumes pg: "7 \<le> size_of_long (os w (log w @ [Sys ''sysconf'' [S ''_SC_PAGESIZE'']]))"
  shows "\<exists>c w'. jit_main w = Some (c, w') \<and>
    (c = 0 \<and> printed w' = printed w @ [(''JIT'd f(3,4) = %d'', [I 7])] \<or> c = 1 \<and> printed w' = printed w)"
proof -
  let ?f = "''MAP_PRIVATE | MAP_ANONYMOUS''" and ?rw = "PROT_READ + PROT_WRITE"
  obtain v w0 where s: "sys ''sysconf'' [S ''_SC_PAGESIZE''] w = (v, w0)" "7 \<le> size_of_long v" "printed w0 = printed w"
    using pg keeps_printf(12) [of "''sysconf''" "[S ''_SC_PAGESIZE'']" w] by (cases "sys ''sysconf'' [S ''_SC_PAGESIZE''] w") (simp add: world_simps)
  show ?thesis
  proof (rule mmap_anon_cases [of ?f "size_of_long v" ?rw w0])
    assume "fst (mmap_anon ?f (size_of_long v) ?rw w0) = None"
      "printed (snd (mmap_anon ?f (size_of_long v) ?rw w0)) = printed w0"
    then show ?thesis using s by (auto simp: jit_main_def case_prod_unfold)
  next
    fix p w1 assume p: "mmap_anon ?f (size_of_long v) ?rw w0 = (Some p, map_zero p (size_of_long v) ?rw w1)"
      and pr: "printed w1 = printed w0"
    have len: "length jit_code = 7" by (simp add: jit_code_def)
    obtain w2 where w2: "mem_cpy p jit_code (map_zero p (size_of_long v) ?rw w1) = Some w2" "printed w2 = printed w1"
      using mem_cpy_holds(1) [OF rw_map_zero, of jit_code "size_of_long v" p w1] s(2) len by auto
    obtain e w3 where e: "mprotect p (size_of_long v) (PROT_READ + PROT_EXEC) w2 = (e, w3)" by fastforce
    show ?thesis
    proof (cases "e < 0")
      case True
      then have "jit_main w = Some (1, perror ''mprotect'' w3)" using s p w2 e by (simp add: jit_main_def)
      then show ?thesis using True e w2 pr s(3) keeps_printf(17) [of p "size_of_long v" "PROT_READ + PROT_EXEC" w2] by simp
    next
      case False
      note x = exec_after_mprotect [OF w2(1) _ e]
      have "call_int2 p 3 4 w3 = Some 7" using jit_code_adds [of p w3 3 4] x(1) s(2) False len by simp
      then show ?thesis using s p w2 e pr False x(2) len by (simp add: jit_main_def)
    qed
  qed
qed

lemma w_xor_x_exits:
  assumes "0 < size_of_long (os w (log w @ [Sys ''sigaction'' [S ''SIGSEGV''], Sys ''sysconf'' [S ''_SC_PAGESIZE'']]))"
    "ram w (2 ^ 64 - 1) = None"
  shows "fst (w_xor_x_main w) = 1 \<and> (''never reached'', []) \<notin> set (printed (snd (w_xor_x_main w))) - set (printed w)"
proof -
  let ?f = "''MAP_PRIVATE | MAP_ANONYMOUS''" and ?rw = "PROT_READ + PROT_WRITE"
  let ?w = "call ''sigaction'' [S ''SIGSEGV''] w"
  obtain v w0 where s: "sys ''sysconf'' [S ''_SC_PAGESIZE''] ?w = (v, w0)" "0 < size_of_long v" "printed w0 = printed w" "ram w0 = ram w"
    using assms(1) by (simp add: world_simps printed_def)
  show ?thesis
  proof (rule mmap_anon_cases [of ?f "size_of_long v" ?rw w0])
    assume "fst (mmap_anon ?f (size_of_long v) ?rw w0) = None"
      "printed (snd (mmap_anon ?f (size_of_long v) ?rw w0)) = printed w0"
    moreover from this have "ram (snd (mmap_anon ?f (size_of_long v) ?rw w0)) (2 ^ 64 - 1) = None"
      using assms(2) s(4) by (auto simp: mmap_anon_def world_simps Let_def split: if_splits)
    ultimately show ?thesis using s
      by (simp add: w_xor_x_main_def case_prod_unfold or_failed_def MAP_FAILED_def poke_def wx_handler_def eprintf_def printed_def Let_def)
  next
    fix p w1 assume p: "mmap_anon ?f (size_of_long v) ?rw w0 = (Some p, map_zero p (size_of_long v) ?rw w1)"
      and pr: "printed w1 = printed w0"
    have "poke p 0xC3 (map_zero p (size_of_long v) ?rw w1) = Some (map_zero p (size_of_long v) ?rw w1\<lparr>ram := (ram (map_zero p (size_of_long v) ?rw w1))(p \<mapsto> 0xC3)\<rparr>)"
      using s(2) by (simp add: poke_def map_zero_def can_write_def PROT_READ_def PROT_WRITE_def)
    moreover have "run_code p r (printf g a (map_zero p (size_of_long v) ?rw w1\<lparr>ram := x\<rparr>)) = None" for r g a x
      using s(2) by (subst run_code.simps) (simp add: fetch_def map_zero_def can_exec_def PROT_READ_def PROT_WRITE_def world_simps)
    ultimately show ?thesis using s p pr
      by (auto simp: w_xor_x_main_def wx_handler_def eprintf_def or_failed_def Let_def printed_def map_zero_def world_simps)
  qed
qed


section \<open>Private and shared file mappings\<close>

lemma map_bytes_holds:
  "holds (map_bytes a bs (PROT_READ + PROT_WRITE) w) a bs" "rw_range (map_bytes a bs (PROT_READ + PROT_WRITE) w) a (length bs)"
  "printed (map_bytes a bs p w) = printed w" "os (map_bytes a bs p w) = os w"
  by (auto simp: holds_def rw_range_def map_bytes_def readable_def put_def can_read_def PROT_READ_def PROT_WRITE_def printed_def)

lemma poke_holds:
  assumes "rw_range w a n" "0 < n" "holds w a (b # bs)"
  shows "poke a c w = Some (w\<lparr>ram := (ram w)(a \<mapsto> c)\<rparr>)" "holds (w\<lparr>ram := (ram w)(a \<mapsto> c)\<rparr>) a (c # bs)"
    "rw_range (w\<lparr>ram := (ram w)(a \<mapsto> c)\<rparr>) a n"
  using assms
  by (auto simp: poke_def rw_range_def holds_def readable_def can_write_def can_read_def PROT_READ_def PROT_WRITE_def
      nth_Cons split: nat.splits)

lemma put_holds:
  assumes "rw_range w a n" "length bs \<le> n" "holds w a cs" "length cs \<le> n" "length bs \<le> length cs"
  shows "holds (w\<lparr>ram := put (ram w) a bs\<rparr>) a (bs @ drop (length bs) cs)"
  using assms by (auto simp: holds_def readable_def put_def nth_append rw_range_def)

lemma mmap_file_cases:
  obtains "fst (mmap_file f bs p w) = None" "printed (snd (mmap_file f bs p w)) = printed w"
  | a w1 where "mmap_file f bs p w = (Some a, map_bytes a bs p w1)" "printed w1 = printed w"
  by (cases "os w (log w @ [Sys ''mmap'' [I (int (length bs)), I (int p), S f]]) = -1")
    (auto simp: mmap_file_def world_simps Let_def)

definition full_writes :: "world \<Rightarrow> bool" where
  "full_writes w \<longleftrightarrow> (\<forall>l n. os w (l @ [Sys ''write'' [I n]]) = n)"

lemma file_write_full: "full_writes w \<Longrightarrow> file_write msg w = (msg, call ''write'' [I (int (length msg))] w)"
  by (simp add: file_write_def full_writes_def world_simps Let_def)

definition file_msg :: string where
  "file_msg = ''hello mmap'' @ [CHR 0x27] @ ''d file world!'' @ [CHR 0x0A]"

lemma length_bytes [simp]: "length (bytes s) = length s"
  by (simp add: bytes_def)

lemma cstr_file_msg: "cstr file_msg = file_msg"
  by (simp add: file_msg_def cstr_def)

lemma file_msg_H: "text_of_bytes (of_char (CHR ''H'') # tl (bytes file_msg)) = CHR ''H'' # tl file_msg"
  "bytes file_msg = of_char (CHR ''h'') # tl (bytes file_msg)"
proof -
  have "tl (bytes file_msg) = bytes (tl file_msg)" by (simp add: file_msg_def bytes_def)
  then have "text_of_bytes (tl (bytes file_msg)) = tl file_msg" by simp
  then show "text_of_bytes (of_char (CHR ''H'') # tl (bytes file_msg)) = CHR ''H'' # tl file_msg"
    using byte_char(2) [of "CHR ''H''"] by (simp add: text_of_bytes_def)
  show "bytes file_msg = of_char (CHR ''h'') # tl (bytes file_msg)" by (simp add: file_msg_def bytes_def)
qed


lemma file_main_private:
  assumes fw: "full_writes w"
  shows "\<exists>c w' p. file_main w = Some (c, w') \<and> (c = 1 \<and> printed w' = printed w \<or>
    c = 0 \<and> printed w' = printed w @ [(''file size = %ld bytes  mapped @ %p'', [I 25, I p]), (''%s'', [S file_msg]),
      (''after p[0]='H' in memory: %.*s'', [S (CHR ''H'' # tl file_msg)]), (''on disk still: %s'', [S file_msg])])"
proof -
  obtain fd w0 where s: "sys ''open'' [S ''/tmp/mmapdemo.txt'', S ''O_RDWR | O_CREAT | O_TRUNC''] w = (fd, w0)"
    "printed w0 = printed w" "full_writes w0"
    using fw by (simp add: world_simps printed_def full_writes_def)
  let ?f = "bytes file_msg" and ?rw = "PROT_READ + PROT_WRITE"
  let ?t = "CHR ''H'' # tl file_msg"
  have len: "length ?f = 25" "length file_msg = 25" by (simp_all add: file_msg_def)
  let ?w0 = "call ''write'' [I (int (length ?f))] w0"
  have d: "file_main w = (if fd < 0 then Some (1, perror ''open'' w0) else do {
       let (p, w) = mmap_file ''MAP_PRIVATE'' ?f ?rw ?w0;
       let w = call ''close'' [I fd] w;
       case p of None \<Rightarrow> Some (1, perror ''mmap'' w)
       | Some p \<Rightarrow> do {
         let w = printf ''file size = %ld bytes  mapped @ %p'' [I 25, I (int p)] w;
         bs \<leftarrow> peeks p 25 w;
         let w = printf ''%s'' [S (text_of_bytes bs)] w;
         w \<leftarrow> poke p (of_char (CHR ''H'')) w;
         bs \<leftarrow> peeks p 25 w;
         let w = printf ''after p[0]='H' in memory: %.*s'' [S (text_of_bytes bs)] w;
         let w = printf ''on disk still: %s'' [S file_msg] w;
         let (r, w) = munmap p 25 w;
         Some (0, call ''unlink'' [S ''/tmp/mmapdemo.txt''] w)}})"
    unfolding file_main_def s(1) file_msg_def [symmetric] using s(3)
    by (simp add: file_write_full len cstr_file_msg Let_def case_prod_unfold cong: if_cong option.case_cong)
  show ?thesis
  proof (cases "fd < 0")
    case True then show ?thesis using d s(2) by simp
  next
    case False
    show ?thesis
    proof (rule mmap_file_cases [of "''MAP_PRIVATE''" ?f ?rw ?w0])
      assume "fst (mmap_file ''MAP_PRIVATE'' ?f ?rw ?w0) = None"
        "printed (snd (mmap_file ''MAP_PRIVATE'' ?f ?rw ?w0)) = printed ?w0"
      then show ?thesis using False d s(2) by (simp add: case_prod_unfold Let_def)
    next
      fix p w1 assume p: "mmap_file ''MAP_PRIVATE'' ?f ?rw ?w0 = (Some p, map_bytes p ?f ?rw w1)" and pr: "printed w1 = printed ?w0"
      let ?w1 = "printf ''%s'' [S file_msg] (printf ''file size = %ld bytes  mapped @ %p'' [I 25, I (int p)]
        (call ''close'' [I fd] (map_bytes p ?f ?rw w1)))"
      let ?c = "of_char (CHR ''H'')"
      have h: "holds ?w1 p ?f" "rw_range ?w1 p 25" using map_bytes_holds(1,2) [of p ?f w1] len by simp_all
      have h1: "holds ?w1 p (of_char (CHR ''h'') # tl ?f)" by (subst file_msg_H(2) [symmetric]) (rule h(1))
      have po: "poke p ?c ?w1 = Some (?w1\<lparr>ram := (ram ?w1)(p \<mapsto> ?c)\<rparr>)"
        "holds (?w1\<lparr>ram := (ram ?w1)(p \<mapsto> ?c)\<rparr>) p (?c # tl ?f)"
        using poke_holds(1,2) [OF h(2) _ h1, of ?c] by (simp_all only: zero_less_numeral simp_thms)
      have k1: "peeks p 25 (printf ''file size = %ld bytes  mapped @ %p'' [I 25, I (int p)]
        (call ''close'' [I fd] (map_bytes p ?f ?rw w1))) = Some ?f"
        using peeks_holds [of _ p ?f] map_bytes_holds(1) [of p ?f w1] len by simp
      have k2: "peeks p 25 (?w1\<lparr>ram := (ram ?w1)(p \<mapsto> ?c)\<rparr>) = Some (?c # tl ?f)"
        using peeks_holds [OF po(2)] len by simp
      show ?thesis using False d s(2) p pr k1 k2 po(1) file_msg_H(1)
        by (simp add: Let_def case_prod_unfold map_bytes_holds(3))
    qed
  qed
qed


lemma share_main_shared:
  assumes fw: "full_writes w"
  shows "\<exists>c w'. share_main w = Some (c, w') \<and> (c = 1 \<and> printed w' = printed w \<or>
    c = 0 \<and> printed w' = printed w @ [(''before: %s'', [S ''AAAAAAAAAAAAAAAA'']), (''on disk : %.*s'', [S ''BBBBBBBBAAAAAAAA''])])"
proof -
  obtain fd w0 where s: "sys ''open'' [S ''/tmp/mmap_shared.txt'', S ''O_RDWR | O_CREAT | O_TRUNC''] w = (fd, w0)"
    "printed w0 = printed w" "full_writes w0"
    using fw by (simp add: world_simps printed_def full_writes_def)
  let ?f = "bytes ''AAAAAAAAAAAAAAAA''" and ?rw = "PROT_READ + PROT_WRITE" and ?b = "bytes ''BBBBBBBB''"
  let ?d = "bytes ''BBBBBBBBAAAAAAAA''"
  have len: "length ?f = 16" "length ?b = 8" by simp_all
  have A: "replicate 16 (CHR ''A'') = ''AAAAAAAAAAAAAAAA''" by code_simp
  have app: "?b @ drop (length ?b) ?f = ?d" by (simp add: bytes_def)
  let ?w0 = "call ''write'' [I (int (length ?f))] w0"
  have d: "share_main w = (do {
       let (p, w) = mmap_file ''MAP_SHARED'' ?f ?rw ?w0;
       case p of None \<Rightarrow> Some (1, call ''close'' [I fd] (perror ''mmap'' w))
       | Some p \<Rightarrow> do {
         let w = call ''close'' [I fd] w;
         bs \<leftarrow> peeks p 16 w;
         let w = printf ''before: %s'' [S (text_of_bytes bs)] w;
         w \<leftarrow> mem_cpy p ?b w;
         let w = call ''msync'' [I (int p), I 16, S ''MS_SYNC''] w;
         file \<leftarrow> peeks p 16 w;
         let w = printf ''on disk : %.*s'' [S (text_of_bytes (take 64 file))] w;
         let (r, w) = munmap p 16 w;
         Some (0, call ''unlink'' [S ''/tmp/mmap_shared.txt''] w)}})"
    unfolding share_main_def s(1) A using s(3)
    by (simp add: file_write_full len Let_def case_prod_unfold cong: if_cong option.case_cong del: length_bytes peeks.simps)
  show ?thesis
  proof (rule mmap_file_cases [of "''MAP_SHARED''" ?f ?rw ?w0])
    assume "fst (mmap_file ''MAP_SHARED'' ?f ?rw ?w0) = None"
      "printed (snd (mmap_file ''MAP_SHARED'' ?f ?rw ?w0)) = printed ?w0"
    then show ?thesis using d s(2) by (simp add: case_prod_unfold Let_def)
  next
    fix p w1 assume p: "mmap_file ''MAP_SHARED'' ?f ?rw ?w0 = (Some p, map_bytes p ?f ?rw w1)" and pr: "printed w1 = printed ?w0"
    let ?w1 = "call ''close'' [I fd] (map_bytes p ?f ?rw w1)"
    let ?w2 = "printf ''before: %s'' [S ''AAAAAAAAAAAAAAAA''] ?w1"
    let ?w3 = "?w2\<lparr>ram := put (ram ?w2) p ?b\<rparr>"
    have h: "holds ?w2 p ?f" "rw_range ?w2 p 16" using map_bytes_holds(1,2) [of p ?f w1] len by (simp_all del: length_bytes)
    have c: "mem_cpy p ?b ?w2 = Some ?w3" by (rule mem_cpy_holds(1) [OF h(2)]) simp
    have h3: "holds ?w3 p ?d" using put_holds [OF h(2) _ h(1), of ?b] len app by (simp del: length_bytes)
    have k1: "peeks p 16 ?w1 = Some ?f" using peeks_holds [of ?w1 p ?f] map_bytes_holds(1) [of p ?f w1] len by (simp del: length_bytes peeks.simps)
    have k2: "peeks p 16 (call ''msync'' [I (int p), I 16, S ''MS_SYNC''] ?w3) = Some ?d"
    proof -
      have l: "length ?d = 16" by simp
      have "holds (call ''msync'' [I (int p), I 16, S ''MS_SYNC''] ?w3) p ?d" unfolding holds_printf(2) by (rule h3)
      from peeks_holds [OF this] show ?thesis unfolding l .
    qed
    have t: "text_of_bytes (take 64 ?d) = ''BBBBBBBBAAAAAAAA''" by simp
    show ?thesis
      unfolding d p by (simp only: Let_def prod.case option.case k1 bind.bind_lunit text_of_bytes_bytes c k2 t)
        (simp add: k1 c k2 t case_prod_unfold pr s(2) map_bytes_holds(3))
  qed
qed


section \<open>Properties\<close>

text \<open>A file mapping, with writes that are complete: for every answer of the kernel to the other
  calls 02_file_mmap.c either fails at open or mmap with status 1 and prints nothing, or prints the file,
  the changed text after its store through the private mapping, and then the file unchanged; and
  04_file_share_write.c, whose mapping is shared, fails at mmap or finds its eight bytes in the file.\<close>

theorem mapped_file_visibility:
  "full_writes w \<Longrightarrow>
    (\<exists>c w' p. file_main w = Some (c, w') \<and> (c = 1 \<and> printed w' = printed w \<or>
      c = 0 \<and> printed w' = printed w @ [(''file size = %ld bytes  mapped @ %p'', [I 25, I p]), (''%s'', [S file_msg]),
        (''after p[0]='H' in memory: %.*s'', [S (CHR ''H'' # tl file_msg)]), (''on disk still: %s'', [S file_msg])])) \<and>
    (\<exists>c w'. share_main w = Some (c, w') \<and> (c = 1 \<and> printed w' = printed w \<or>
      c = 0 \<and> printed w' = printed w @ [(''before: %s'', [S ''AAAAAAAAAAAAAAAA'']), (''on disk : %.*s'', [S ''BBBBBBBBAAAAAAAA''])]))"
  by (intro conjI file_main_private share_main_shared)

definition answers :: "event list \<Rightarrow> int" where
  "answers l = (case rev l of Sys f (I n # as) # r \<Rightarrow> (if f = ''write'' \<or> f = ''sysconf'' then n else 4096) | _ \<Rightarrow> 4096)"

definition empty_world :: world where
  "empty_world = \<lparr>ram = \<lambda>x. None, perm = \<lambda>x. 0, log = [], os = answers, reply = \<lambda>l. []\<rparr>"

theorem mapped_file_visibility_witness:
  "full_writes empty_world \<and> (\<exists>c w'. share_main empty_world = Some (c, w'))"
proof -
  have f: "full_writes empty_world" by (simp add: full_writes_def empty_world_def answers_def)
  show ?thesis using mapped_file_visibility [OF f] f by blast
qed

text \<open>C24. W xor X: 01_mprotect_jit.c, for every answer of the kernel and a page of at least the seven
  bytes of its code, fails at mmap or mprotect with status 1 and prints nothing, or prints f(3,4) = 7, the
  value the machine code it wrote computes; 06_w_xor_x.c, which leaves out mprotect, never returns from the
  call: it ends in its handler with status 1.\<close>

theorem jit_and_w_xor_x:
  "7 \<le> size_of_long (os w (log w @ [Sys ''sysconf'' [S ''_SC_PAGESIZE'']])) \<Longrightarrow>
   0 < size_of_long (os w (log w @ [Sys ''sigaction'' [S ''SIGSEGV''], Sys ''sysconf'' [S ''_SC_PAGESIZE'']])) \<Longrightarrow>
   ram w (2 ^ 64 - 1) = None \<Longrightarrow>
   (\<exists>c w'. jit_main w = Some (c, w') \<and>
     (c = 0 \<and> printed w' = printed w @ [(''JIT'd f(3,4) = %d'', [I 7])] \<or> c = 1 \<and> printed w' = printed w)) \<and>
   fst (w_xor_x_main w) = 1 \<and>
   (''never reached'', []) \<notin> set (printed (snd (w_xor_x_main w))) - set (printed w)"
  by (intro conjI jit_main_runs conjunct1 [OF w_xor_x_exits] conjunct2 [OF w_xor_x_exits])

theorem jit_and_w_xor_x_witness:
  "fst (the (jit_main empty_world)) \<in> {0, 1} \<and> fst (w_xor_x_main empty_world) = 1"
  using jit_and_w_xor_x [of empty_world]
  by (auto simp: empty_world_def answers_def size_of_long_def)

text \<open>Mremap keeps the bytes: for every answer of the kernel, moved or not, 07_mremap.c never faults
  and every marker it prints, after the mapping, after growing it and after shrinking it, is the string it
  wrote; it ends with status 0 exactly when all three were printed.\<close>

theorem mremap_keeps_marker:
  "\<exists>c w' n. mremap_main w = Some (c, w') \<and> last_strings (printed w') = last_strings (printed w) @ replicate n ''marker''
    \<and> (c = 0 \<and> n = 3 \<or> c = 1 \<and> n < 3)"
  by (rule mremap_main_marker)

end
