(* ===== verification/Transition.thy ===== *)
theory Transition
  imports Main
begin

text \<open>
  Runs of a step relation that come to an end.  \<open>can_finish\<close>: from every good state that is not final
  some step lowers the rank, so a final state can be reached.  \<open>must_finish\<close>: every step lowers the rank,
  so every run does reach one, in at most as many steps as the rank says.
\<close>

locale can_finish =
  fixes step :: "'s \<Rightarrow> 's \<Rightarrow> bool" and good :: "'s \<Rightarrow> bool" and final :: "'s \<Rightarrow> bool" and rank :: "'s \<Rightarrow> nat"
  assumes keeps: "good s \<Longrightarrow> step s s' \<Longrightarrow> good s'"
    and lower: "good s \<Longrightarrow> \<not> final s \<Longrightarrow> \<exists>s'. step s s' \<and> rank s' < rank s"
begin

lemma keeps_run: "step\<^sup>*\<^sup>* s t \<Longrightarrow> good s \<Longrightarrow> good t"
  by (induction rule: rtranclp_induct) (auto intro: keeps)

lemma completes: "good s \<Longrightarrow> \<exists>t. step\<^sup>*\<^sup>* s t \<and> good t \<and> final t"
proof (induction "rank s" arbitrary: s rule: less_induct)
  case less
  show ?case
  proof (cases "final s")
    case False
    then obtain s' where s: "step s s'" "rank s' < rank s" using lower [OF less.prems] by blast
    then show ?thesis using less.hyps [OF s(2) keeps [OF less.prems s(1)]] by (meson converse_rtranclp_into_rtranclp)
  qed (use less.prems in blast)
qed

end

locale must_finish = can_finish step good final rank
  for step :: "'s \<Rightarrow> 's \<Rightarrow> bool" and good :: "'s \<Rightarrow> bool" and final :: "'s \<Rightarrow> bool" and rank :: "'s \<Rightarrow> nat" +
  assumes always_lower: "good s \<Longrightarrow> step s s' \<Longrightarrow> rank s' < rank s"
    and final_stops: "good s \<Longrightarrow> final s \<Longrightarrow> \<not> step s s'"
begin

lemma run_bounded: "(step ^^ n) s t \<Longrightarrow> good s \<Longrightarrow> good t \<and> rank t + n \<le> rank s"
proof (induction n arbitrary: t)
  case (Suc n)
  then obtain u where u: "(step ^^ n) s u" "step u t" by auto
  with Suc.IH [OF u(1) Suc.prems(2)] show ?case using keeps always_lower by fastforce
qed simp

lemma no_infinite_run: "good (f 0) \<Longrightarrow> \<exists>i. \<not> step (f i) (f (Suc i))"
proof (rule ccontr)
  assume g: "good (f 0)" and "\<nexists>i. \<not> step (f i) (f (Suc i))"
  then have st: "step (f i) (f (Suc i))" for i by blast
  have "(step ^^ i) (f 0) (f i)" for i by (induction i) (use st in auto)
  from run_bounded [OF this g, of "Suc (rank (f 0))"] show False by simp
qed

lemma stops_iff: "good s \<Longrightarrow> (\<nexists>s'. step s s') \<longleftrightarrow> final s"
  using lower final_stops by blast

end

end
