(* ===== verification/Pipes.thy ===== *)
theory Pipes
  imports Cstring Transition
begin

text \<open>
  Parent and child over a pipe: src/08_process_syscalls/08_pipe_fork.c and src/10_ipc_memory/01_pipe.c.

  \<^item> The state holds the kernel's buffer, which of the four descriptors are open, where each process
    is in its code, and what the child has written to its standard output.
  \<^item> A step is one system call of one process.  \<open>write\<close> blocks while the buffer has no room and kills
    the writer when no read end is open; \<open>read\<close> returns any positive number of bytes up to 64, blocks on
    an empty buffer, and returns 0 once no write end is open; \<open>waitpid\<close> blocks until the child has exited.
  \<^item> The two programs run the same protocol; they differ in the messages and in what they do when
    \<open>fork\<close> fails.
\<close>

section \<open>The programs\<close>

definition PIPE_CAP :: nat where "PIPE_CAP = 65536"

datatype parent_pc = Close_Read | Send nat | Waitpid | Exit int | Sigpipe

datatype child_pc = Close_Write | Reading | Writing string | Leave | Exited | Absent

record pipe_run =
  kbuf :: string
  p_read :: bool
  p_write :: bool
  c_read :: bool
  c_write :: bool
  parent :: parent_pc
  child :: child_pc
  stdout :: string

definition after_fork :: pipe_run where
  "after_fork = \<lparr>kbuf = [], p_read = True, p_write = True, c_read = True, c_write = True,
     parent = Close_Read, child = Close_Write, stdout = []\<rparr>"

definition no_child :: pipe_run where
  "no_child = after_fork\<lparr>c_read := False, c_write := False, child := Absent\<rparr>"

definition gives_up :: pipe_run where
  "gives_up = no_child\<lparr>parent := Exit 1\<rparr>"

text \<open>The state after pipe and fork, which the kernel may refuse.\<close>

definition pipe_fork_start :: "bool \<Rightarrow> bool \<Rightarrow> pipe_run" where
  "pipe_fork_start pipe_ok fork_ok = (if \<not> pipe_ok then gives_up else if \<not> fork_ok then gives_up else after_fork)"

definition pipe_start :: "bool \<Rightarrow> bool \<Rightarrow> pipe_run" where
  "pipe_start pipe_ok fork_ok = (if \<not> pipe_ok then gives_up else if \<not> fork_ok then no_child else after_fork)"

definition fork_msgs :: "string list" where
  "fork_msgs = [''hello'' @ [CHR 0x0A], ''from'' @ [CHR 0x0A], ''parent'' @ [CHR 0x0A]]"

definition record_msgs :: "string list" where
  "record_msgs = map (\<lambda>i. take 63 (''record '' @ show_nat 10 i @ [CHR 0x0A])) [0, 1, 2]"

inductive pipe_step :: "string list \<Rightarrow> pipe_run \<Rightarrow> pipe_run \<Rightarrow> bool" for msgs where
  p_close_read: "parent s = Close_Read \<Longrightarrow> pipe_step msgs s (s\<lparr>p_read := False, parent := Send 0\<rparr>)"
| p_write: "parent s = Send i \<Longrightarrow> i < length msgs \<Longrightarrow> c_read s \<or> p_read s \<Longrightarrow>
    length (kbuf s) + length (msgs ! i) \<le> PIPE_CAP \<Longrightarrow>
    pipe_step msgs s (s\<lparr>kbuf := kbuf s @ msgs ! i, parent := Send (i + 1)\<rparr>)"
| p_killed: "parent s = Send i \<Longrightarrow> i < length msgs \<Longrightarrow> \<not> (c_read s \<or> p_read s) \<Longrightarrow>
    pipe_step msgs s (s\<lparr>p_write := False, parent := Sigpipe\<rparr>)"
| p_close_write: "parent s = Send i \<Longrightarrow> \<not> i < length msgs \<Longrightarrow>
    pipe_step msgs s (s\<lparr>p_write := False, parent := Waitpid\<rparr>)"
| p_wait: "parent s = Waitpid \<Longrightarrow> child s = Exited \<or> child s = Absent \<Longrightarrow> pipe_step msgs s (s\<lparr>parent := Exit 0\<rparr>)"
| c_close_write: "child s = Close_Write \<Longrightarrow> pipe_step msgs s (s\<lparr>c_write := False, child := Reading\<rparr>)"
| c_read: "child s = Reading \<Longrightarrow> 0 < n \<Longrightarrow> n \<le> 64 \<Longrightarrow> n \<le> length (kbuf s) \<Longrightarrow>
    pipe_step msgs s (s\<lparr>kbuf := drop n (kbuf s), child := Writing (take n (kbuf s))\<rparr>)"
| c_eof: "child s = Reading \<Longrightarrow> kbuf s = [] \<Longrightarrow> \<not> p_write s \<Longrightarrow> \<not> c_write s \<Longrightarrow>
    pipe_step msgs s (s\<lparr>child := Leave\<rparr>)"
| c_write: "child s = Writing bs \<Longrightarrow> pipe_step msgs s (s\<lparr>stdout := stdout s @ bs, child := Reading\<rparr>)"
| c_exit: "child s = Leave \<Longrightarrow> pipe_step msgs s (s\<lparr>c_read := False, child := Exited\<rparr>)"

inductive pipe_reaches :: "string list \<Rightarrow> pipe_run \<Rightarrow> pipe_run \<Rightarrow> bool" for msgs s0 where
  start: "pipe_reaches msgs s0 s0"
| step: "pipe_reaches msgs s0 s \<Longrightarrow> pipe_step msgs s s' \<Longrightarrow> pipe_reaches msgs s0 s'"

section \<open>The invariant\<close>

text \<open>What the parent has sent is what the child has printed, holds, and has yet to read.\<close>

fun sent :: "string list \<Rightarrow> parent_pc \<Rightarrow> nat" where
  "sent msgs Close_Read = 0"
| "sent msgs (Send i) = i"
| "sent msgs _ = length msgs"

fun held :: "child_pc \<Rightarrow> string" where
  "held (Writing bs) = bs"
| "held _ = []"

definition bytes_inv :: "string list \<Rightarrow> pipe_run \<Rightarrow> bool" where
  "bytes_inv msgs s \<longleftrightarrow> stdout s @ held (child s) @ kbuf s = concat (take (sent msgs (parent s)) msgs)"

definition ends_inv :: "pipe_run \<Rightarrow> bool" where
  "ends_inv s \<longleftrightarrow> (p_write s \<longleftrightarrow> parent s = Close_Read \<or> (\<exists>i. parent s = Send i)) \<and> (c_write s \<longleftrightarrow> child s = Close_Write)
     \<and> (c_read s \<longleftrightarrow> child s \<noteq> Exited) \<and> child s \<noteq> Absent \<and> parent s \<noteq> Sigpipe
     \<and> (child s = Leave \<or> child s = Exited \<longrightarrow> \<not> p_write s \<and> kbuf s = [])
     \<and> (\<forall>n. parent s = Exit n \<longrightarrow> n = 0 \<and> child s = Exited)"

lemma ends_inv_step: "pipe_step msgs s s' \<Longrightarrow> ends_inv s \<Longrightarrow> ends_inv s'"
  by (induction rule: pipe_step.induct) (auto simp: ends_inv_def)

lemma bytes_inv_step: "pipe_step msgs s s' \<Longrightarrow> ends_inv s \<Longrightarrow> bytes_inv msgs s \<Longrightarrow> bytes_inv msgs s'"
  by (induction rule: pipe_step.induct) (auto simp: bytes_inv_def ends_inv_def take_Suc_conv_app_nth)

lemma pipe_invs: "pipe_reaches msgs after_fork s \<Longrightarrow> ends_inv s \<and> bytes_inv msgs s"
proof (induction rule: pipe_reaches.induct)
  case start
  show ?case by (simp add: ends_inv_def bytes_inv_def after_fork_def)
next
  case (step s s')
  then show ?case using ends_inv_step bytes_inv_step by blast
qed

section \<open>Progress and termination\<close>

fun parent_rank :: "string list \<Rightarrow> parent_pc \<Rightarrow> nat" where
  "parent_rank msgs Close_Read = length msgs + 4"
| "parent_rank msgs (Send i) = length msgs - i + 3"
| "parent_rank msgs Waitpid = 1"
| "parent_rank msgs _ = 0"

fun child_rank :: "child_pc \<Rightarrow> nat" where
  "child_rank Close_Write = 3"
| "child_rank Reading = 2"
| "child_rank (Writing bs) = 3"
| "child_rank Leave = 1"
| "child_rank _ = 0"

definition pipe_rank :: "string list \<Rightarrow> pipe_run \<Rightarrow> nat" where
  "pipe_rank msgs s = 2 * (length (concat (drop (sent msgs (parent s)) msgs)) + length (kbuf s))
     + parent_rank msgs (parent s) + child_rank (child s)"

lemma concat_drop_nth: "i < length xs \<Longrightarrow> length (concat (drop i xs)) = length (xs ! i) + length (concat (drop (Suc i) xs))"
  by (simp flip: Cons_nth_drop_Suc)

lemma pipe_rank_step: "pipe_step msgs s s' \<Longrightarrow> pipe_rank msgs s' < pipe_rank msgs s"
  by (induction rule: pipe_step.induct) (auto simp: pipe_rank_def concat_drop_nth)

lemma pipe_progress:
  assumes inv: "ends_inv s" and fit: "\<forall>x \<in> set msgs. length x \<le> PIPE_CAP" and n: "parent s \<noteq> Exit 0"
  shows "\<exists>s'. pipe_step msgs s s'"
proof (cases "child s")
  case Reading
  show ?thesis
  proof (cases "kbuf s = []")
    case True
    show ?thesis
    proof (cases "p_write s")
      case True
      then consider "parent s = Close_Read" | i where "parent s = Send i" using inv by (auto simp: ends_inv_def)
      then show ?thesis
      proof cases
        case 2
        have "c_read s" using inv Reading by (simp add: ends_inv_def)
        moreover have "i < length msgs \<Longrightarrow> length (msgs ! i) \<le> PIPE_CAP" using fit by simp
        ultimately show ?thesis using 2 \<open>kbuf s = []\<close> p_write [of s i msgs] p_close_write [of s i msgs]
          by (cases "i < length msgs") auto
      qed (blast intro: p_close_read)
    qed (use True Reading inv c_eof [of s] in \<open>auto simp: ends_inv_def\<close>)
  next
    case False
    then show ?thesis using Reading c_read [of s 1 msgs] by (cases "kbuf s") auto
  qed
next
  case Exited
  then have "parent s = Waitpid" using inv n by (cases "parent s") (auto simp: ends_inv_def)
  then show ?thesis using Exited p_wait by blast
qed (use inv in \<open>auto simp: ends_inv_def intro: c_close_write c_write c_exit\<close>)

definition pipe_ok :: "string list \<Rightarrow> pipe_run \<Rightarrow> bool" where
  "pipe_ok msgs s \<longleftrightarrow> ends_inv s \<and> bytes_inv msgs s \<and> (\<forall>x \<in> set msgs. length x \<le> PIPE_CAP)"

interpretation pipe: must_finish "pipe_step msgs" "pipe_ok msgs" "\<lambda>s. parent s = Exit 0" "pipe_rank msgs" for msgs
proof
  fix s s' :: pipe_run
  show "pipe_ok msgs s \<Longrightarrow> pipe_step msgs s s' \<Longrightarrow> pipe_ok msgs s'"
    using ends_inv_step bytes_inv_step by (auto simp: pipe_ok_def)
  show "pipe_ok msgs s \<Longrightarrow> parent s \<noteq> Exit 0 \<Longrightarrow> \<exists>s'. pipe_step msgs s s' \<and> pipe_rank msgs s' < pipe_rank msgs s"
    using pipe_progress pipe_rank_step unfolding pipe_ok_def by blast
  show "pipe_ok msgs s \<Longrightarrow> pipe_step msgs s s' \<Longrightarrow> pipe_rank msgs s' < pipe_rank msgs s" by (rule pipe_rank_step)
  show "pipe_ok msgs s \<Longrightarrow> parent s = Exit 0 \<Longrightarrow> \<not> pipe_step msgs s s'"
    by (auto simp: pipe_ok_def ends_inv_def elim!: pipe_step.cases)
qed

section \<open>Properties\<close>

text \<open>C15. The pipe programs deliver: in every interleaving, when fork succeeds, the child's output is at
  every moment a prefix of the messages; a state in which no process can step is the normal exit of the
  parent, and then the output is all messages in order; and no run is infinite, so every run ends there.
  No run ends in SIGPIPE or a deadlock.\<close>

theorem pipe_delivers:
  assumes "pipe_reaches msgs after_fork s" "\<forall>x \<in> set msgs. length x \<le> PIPE_CAP"
  shows "(\<exists>k. stdout s = take k (concat msgs)) \<and> ((\<nexists>s'. pipe_step msgs s s') \<longleftrightarrow> parent s = Exit 0) \<and>
    (parent s = Exit 0 \<longrightarrow> stdout s = concat msgs) \<and> (\<forall>f. f 0 = s \<longrightarrow> (\<exists>i. \<not> pipe_step msgs (f i) (f (Suc i))))"
proof -
  have ok: "pipe_ok msgs s" using pipe_invs [OF assms(1)] assms(2) by (simp add: pipe_ok_def)
  then have "stdout s @ held (child s) @ kbuf s @ concat (drop (sent msgs (parent s)) msgs) = concat msgs"
    by (simp add: pipe_ok_def bytes_inv_def flip: append_assoc concat_append)
  then have "\<exists>k. stdout s = take k (concat msgs)" by (metis append_eq_conv_conj)
  moreover have "stdout s = concat msgs" if "parent s = Exit 0" using that ok by (auto simp: pipe_ok_def bytes_inv_def ends_inv_def)
  ultimately show ?thesis using pipe.stops_iff [OF ok] pipe.no_infinite_run ok by blast
qed

lemma fork_msgs_fit: "\<forall>x \<in> set fork_msgs. length x \<le> PIPE_CAP"
  by (simp add: fork_msgs_def PIPE_CAP_def)

lemma record_msgs_fit: "\<forall>x \<in> set record_msgs. length x \<le> PIPE_CAP"
  by (auto simp: record_msgs_def PIPE_CAP_def min_def)

theorem pipe_delivers_witness:
  "pipe_fork_start True True = after_fork \<and> (\<exists>s'. pipe_step fork_msgs after_fork s')"
  using pipe_delivers [OF pipe_reaches.start fork_msgs_fit] by (simp add: after_fork_def pipe_fork_start_def)

text \<open>01_pipe.c does not look at the result of fork: when it fails, the parent closes the only read end
  and its first write kills it.\<close>

lemma pipe_fork_unchecked: "\<exists>s. pipe_reaches record_msgs (pipe_start True False) s \<and> parent s = Sigpipe"
proof -
  let ?s0 = "pipe_start True False"
  have 1: "pipe_reaches record_msgs ?s0 (?s0\<lparr>p_read := False, parent := Send 0\<rparr>)"
    by (rule pipe_reaches.step [OF pipe_reaches.start p_close_read]) (simp add: pipe_start_def no_child_def after_fork_def)
  have "pipe_step record_msgs (?s0\<lparr>p_read := False, parent := Send 0\<rparr>)
      (?s0\<lparr>p_read := False, parent := Send 0\<rparr>\<lparr>p_write := False, parent := Sigpipe\<rparr>)"
    by (rule p_killed [where i = 0]) (simp_all add: pipe_start_def no_child_def after_fork_def record_msgs_def)
  from pipe_reaches.step [OF 1 this] show ?thesis
    by (intro exI [where x = "?s0\<lparr>p_read := False, parent := Send 0, p_write := False, parent := Sigpipe\<rparr>"] conjI) simp_all
qed

end
