(* ===== verification/Shared_Flag.thy ===== *)
theory Shared_Flag
  imports Transition
begin

text \<open>
  Handing a message over in shared memory: src/05_mmap/03_shared_mmap.c, src/10_ipc_memory/04_shm_open.c
  and 05_sysv_shm.c.

  \<^item> The shared object is a list of cells; cell 0 is the flag the child spins on.  In 03_shared_mmap.c it is
    also the message, in the other two the message is the 64 characters that follow it.
  \<^item> A step is one load or store of one cell, or one call.  The parent stores the cells of its message one
    after the other and then the flag; the child reads only after it has seen a flag that is not 0.
\<close>

section \<open>The programs\<close>

datatype pc_parent = Store nat | Wait | Finish

datatype pc_child = Spin | Load nat "nat list" | Say "nat list" | Gone

record flag_run =
  cells :: "nat \<Rightarrow> nat"
  parent :: pc_parent
  child :: pc_child
  said :: "nat list option"
  status :: "int option"

text \<open>A program is what the parent stores, in order, and the cells the child reads: it stops at a 0, the
  end of the string, or after the last one.\<close>

record flag_prog =
  stores :: "(nat \<times> nat) list"
  loads :: "nat list"

definition chars :: "string \<Rightarrow> nat list" where
  "chars = map of_char"

text \<open>strncpy fills the rest of the array with zeros.\<close>

definition strncpy_cells :: "string \<Rightarrow> nat \<Rightarrow> (nat \<times> nat) list" where
  "strncpy_cells msg n = map (\<lambda>i. (i + 1, if i < length msg then of_char (msg ! i) else 0)) [0..<n]"

definition msg_prog :: "string \<Rightarrow> flag_prog" where
  "msg_prog msg = \<lparr>stores = strncpy_cells msg 64 @ [(0, 1)], loads = [1..<65]\<rparr>"

definition shared_mmap_prog :: flag_prog where
  "shared_mmap_prog = \<lparr>stores = [(0, 42)], loads = [0]\<rparr>"

definition shm_open_prog :: flag_prog where
  "shm_open_prog = msg_prog ''hello via shm_open''"

definition sysv_shm_prog :: flag_prog where
  "sysv_shm_prog = msg_prog ''hello SysV shm''"

text \<open>After fork: the parent has set the flag to 0, the message cells hold anything.\<close>

definition flag_start :: "(nat \<Rightarrow> nat) \<Rightarrow> flag_run" where
  "flag_start m = \<lparr>cells = m(0 := 0), parent = Store 0, child = Spin, said = None, status = None\<rparr>"

inductive flag_step :: "flag_prog \<Rightarrow> flag_run \<Rightarrow> flag_run \<Rightarrow> bool" for p where
  store: "parent s = Store i \<Longrightarrow> i < length (stores p) \<Longrightarrow>
    flag_step p s (s\<lparr>cells := (cells s)(fst (stores p ! i) := snd (stores p ! i)), parent := Store (i + 1)\<rparr>)"
| stored: "parent s = Store i \<Longrightarrow> \<not> i < length (stores p) \<Longrightarrow> flag_step p s (s\<lparr>parent := Wait\<rparr>)"
| waitpid: "parent s = Wait \<Longrightarrow> child s = Gone \<Longrightarrow> flag_step p s (s\<lparr>parent := Finish, status := Some 0\<rparr>)"
| spin: "child s = Spin \<Longrightarrow> cells s 0 = 0 \<Longrightarrow> flag_step p s s"
| seen: "child s = Spin \<Longrightarrow> cells s 0 \<noteq> 0 \<Longrightarrow> flag_step p s (s\<lparr>child := Load 0 []\<rparr>)"
| load: "child s = Load i vs \<Longrightarrow> i < length (loads p) \<Longrightarrow> cells s (loads p ! i) \<noteq> 0 \<Longrightarrow>
    flag_step p s (s\<lparr>child := Load (i + 1) (vs @ [cells s (loads p ! i)])\<rparr>)"
| load_nul: "child s = Load i vs \<Longrightarrow> i < length (loads p) \<Longrightarrow> cells s (loads p ! i) = 0 \<Longrightarrow>
    flag_step p s (s\<lparr>child := Say vs\<rparr>)"
| load_end: "child s = Load i vs \<Longrightarrow> \<not> i < length (loads p) \<Longrightarrow> flag_step p s (s\<lparr>child := Say vs\<rparr>)"
| say: "child s = Say vs \<Longrightarrow> flag_step p s (s\<lparr>child := Gone, said := Some vs\<rparr>)"

inductive flag_reaches :: "flag_prog \<Rightarrow> (nat \<Rightarrow> nat) \<Rightarrow> flag_run \<Rightarrow> bool" for p m where
  start: "flag_reaches p m (flag_start m)"
| step: "flag_reaches p m s \<Longrightarrow> flag_step p s s' \<Longrightarrow> flag_reaches p m s'"

section \<open>The flag comes last\<close>

text \<open>The store that ends the list is the only one to the flag, and it is not 0.\<close>

definition flag_last :: "flag_prog \<Rightarrow> bool" where
  "flag_last p \<longleftrightarrow> stores p \<noteq> [] \<and> fst (last (stores p)) = 0 \<and> snd (last (stores p)) \<noteq> 0
     \<and> (\<forall>x \<in> set (butlast (stores p)). fst x \<noteq> 0)"

definition memory_after :: "flag_prog \<Rightarrow> (nat \<Rightarrow> nat) \<Rightarrow> nat \<Rightarrow> nat \<Rightarrow> nat" where
  "memory_after p m i = fold (\<lambda>(a, v) f. f(a := v)) (take i (stores p)) m"

fun done_stores :: "flag_prog \<Rightarrow> pc_parent \<Rightarrow> nat" where
  "done_stores p (Store i) = i"
| "done_stores p _ = length (stores p)"

text \<open>What the child prints: the cells it reads, up to the first 0, in the final memory.\<close>

definition message :: "flag_prog \<Rightarrow> (nat \<Rightarrow> nat) \<Rightarrow> nat list" where
  "message p m = takeWhile (\<lambda>v. v \<noteq> 0) (map (memory_after p m (length (stores p))) (loads p))"

definition handed :: "flag_prog \<Rightarrow> (nat \<Rightarrow> nat) \<Rightarrow> flag_run \<Rightarrow> bool" where
  "handed p m s \<longleftrightarrow> done_stores p (parent s) \<le> length (stores p) \<and> cells s = memory_after p (m(0 := 0)) (done_stores p (parent s))
     \<and> (child s \<noteq> Spin \<longrightarrow> done_stores p (parent s) = length (stores p))
     \<and> (\<forall>i vs. child s = Load i vs \<longrightarrow> i \<le> length (loads p) \<and> vs = map (cells s) (take i (loads p)) \<and> (\<forall>v \<in> set vs. v \<noteq> 0))
     \<and> (\<forall>vs. child s = Say vs \<longrightarrow> vs = message p (m(0 := 0)))
     \<and> (child s = Gone \<longleftrightarrow> said s = Some (message p (m(0 := 0)))) \<and> (child s \<noteq> Gone \<longrightarrow> said s = None)
     \<and> (status s = Some 0 \<longrightarrow> child s = Gone) \<and> (parent s = Finish \<longleftrightarrow> status s = Some 0) \<and> (status s \<noteq> None \<longrightarrow> status s = Some 0)"

lemma memory_after_Suc: "i < length (stores p) \<Longrightarrow>
    memory_after p m (Suc i) = (memory_after p m i)(fst (stores p ! i) := snd (stores p ! i))"
  by (simp add: memory_after_def take_Suc_conv_app_nth case_prod_unfold)

lemma flag_zero_before:
  assumes "flag_last p" "i < length (stores p)"
  shows "memory_after p (m(0 := 0)) i 0 = 0"
  using assms(2)
proof (induction i)
  case (Suc i)
  have "stores p ! i = butlast (stores p) ! i" using Suc.prems by (simp add: nth_butlast)
  moreover have "butlast (stores p) ! i \<in> set (butlast (stores p))" using Suc.prems by (intro nth_mem) simp
  ultimately have "fst (stores p ! i) \<noteq> 0" using assms(1) by (simp add: flag_last_def)
  then show ?case using Suc by (simp add: memory_after_Suc)
qed (simp add: memory_after_def)

lemma takeWhile_prefix:
  assumes "i < length xs" "\<forall>v \<in> set (take i xs). P v" "\<not> P (xs ! i)"
  shows "takeWhile P xs = take i xs"
  using assms by (metis append_take_drop_id hd_drop_conv_nth list.exhaust_sel list.simps(15) takeWhile_append2 takeWhile.simps(2) append_Nil2 drop_eq_Nil2 linorder_not_le)


lemma message_nul:
  assumes "i < length (loads p)" "memory_after p m (length (stores p)) (loads p ! i) = 0"
    "\<forall>v \<in> set (map (memory_after p m (length (stores p))) (take i (loads p))). v \<noteq> 0"
  shows "map (memory_after p m (length (stores p))) (take i (loads p)) = message p m"
  using takeWhile_prefix [of i "map (memory_after p m (length (stores p))) (loads p)" "\<lambda>v. v \<noteq> 0"] assms
  by (simp add: message_def take_map)

lemma message_end:
  assumes "\<forall>v \<in> set (map (memory_after p m (length (stores p))) (loads p)). v \<noteq> 0"
  shows "map (memory_after p m (length (stores p))) (loads p) = message p m"
  using assms unfolding message_def by (intro takeWhile_eq_all_conv [THEN iffD2, symmetric]) simp

lemma handed_step:
  assumes "flag_last p"
  shows "flag_step p s s' \<Longrightarrow> handed p m s \<Longrightarrow> handed p m s'"
proof (induction rule: flag_step.induct)
  case (store s i)
  then have "child s = Spin" by (auto simp: handed_def)
  with store show ?case by (auto simp: handed_def memory_after_Suc)
next
  case (stored s i)
  then have "i = length (stores p)" by (simp add: handed_def)
  with stored show ?case by (auto simp: handed_def)
next
  case (seen s)
  then have "done_stores p (parent s) = length (stores p)"
    using flag_zero_before [OF assms, of "done_stores p (parent s)" m] by (auto simp: handed_def le_less)
  with seen show ?case by (auto simp: handed_def)
next
  case (load s i vs)
  then show ?case by (auto simp: handed_def take_Suc_conv_app_nth)
next
  case (load_nul s i vs)
  then have "vs = message p (m(0 := 0))" using message_nul [of i p "m(0 := 0)"] by (simp add: handed_def)
  with load_nul show ?case by (auto simp: handed_def)
next
  case (load_end s i vs)
  then have "vs = message p (m(0 := 0))" using message_end [of p "m(0 := 0)"] by (simp add: handed_def)
  with load_end show ?case by (auto simp: handed_def)
next
  case (waitpid s) then show ?case by (auto simp: handed_def)
next
  case (spin s) then show ?case by simp
next
  case (say s vs) then show ?case by (auto simp: handed_def)
qed

lemma flag_handed:
  assumes "flag_last p" "flag_reaches p m s"
  shows "handed p m s"
  using assms(2)
proof (induction rule: flag_reaches.induct)
  case start
  show ?case by (simp add: handed_def flag_start_def memory_after_def)
next
  case (step s s')
  then show ?case using handed_step [OF assms(1)] by blast
qed

section \<open>The run can always be completed\<close>

fun parent_left :: "flag_prog \<Rightarrow> pc_parent \<Rightarrow> nat" where
  "parent_left p (Store i) = length (stores p) - i + 2"
| "parent_left p Wait = 1"
| "parent_left p Finish = 0"

fun child_left :: "flag_prog \<Rightarrow> pc_child \<Rightarrow> nat" where
  "child_left p Spin = length (loads p) + 3"
| "child_left p (Load i vs) = length (loads p) - i + 2"
| "child_left p (Say vs) = 1"
| "child_left p Gone = 0"

definition flag_rank :: "flag_prog \<Rightarrow> flag_run \<Rightarrow> nat" where
  "flag_rank p s = parent_left p (parent s) + child_left p (child s)"

lemma flag_set_after:
  assumes "flag_last p"
  shows "memory_after p m (length (stores p)) 0 \<noteq> 0"
proof -
  obtain xs x where "stores p = xs @ [x]" using assms by (metis append_butlast_last_id flag_last_def)
  then show ?thesis using assms by (simp add: memory_after_def flag_last_def case_prod_unfold)
qed

lemma lower_step: "flag_step p s s' \<Longrightarrow> flag_rank p s' < flag_rank p s \<Longrightarrow>
    \<exists>s'. flag_step p s s' \<and> flag_rank p s' < flag_rank p s"
  by blast

lemma flag_progress:
  assumes l: "flag_last p" and h: "handed p m s" and n: "status s \<noteq> Some 0"
  shows "\<exists>s'. flag_step p s s' \<and> flag_rank p s' < flag_rank p s"
proof (cases "parent s")
  case (Store i)
  show ?thesis
  proof (cases "i < length (stores p)")
    case True
    from flag_step.store [OF Store this] show ?thesis by (rule lower_step) (use Store True in \<open>simp add: flag_rank_def\<close>)
  next
    case False
    from flag_step.stored [OF Store this] show ?thesis by (rule lower_step) (use Store in \<open>simp add: flag_rank_def\<close>)
  qed
next
  case Wait
  then have c: "cells s 0 \<noteq> 0" using h flag_set_after [OF l] by (simp add: handed_def)
  show ?thesis
  proof (cases "child s")
    case Spin
    from flag_step.seen [OF this c] show ?thesis by (rule lower_step) (use Spin in \<open>simp add: flag_rank_def\<close>)
  next
    case (Load i vs)
    consider "\<not> i < length (loads p)" | "i < length (loads p)" "cells s (loads p ! i) = 0" | "i < length (loads p)" "cells s (loads p ! i) \<noteq> 0"
      by blast
    then show ?thesis
    proof cases
      case 1
      from flag_step.load_end [OF Load 1] show ?thesis by (rule lower_step) (use Load in \<open>simp add: flag_rank_def\<close>)
    next
      case 2
      from flag_step.load_nul [OF Load 2] show ?thesis by (rule lower_step) (use Load in \<open>simp add: flag_rank_def\<close>)
    next
      case 3
      from flag_step.load [OF Load 3] show ?thesis by (rule lower_step) (use Load 3 in \<open>simp add: flag_rank_def\<close>)
    qed
  next
    case (Say vs)
    from flag_step.say [OF this] show ?thesis by (rule lower_step) (use Say in \<open>simp add: flag_rank_def\<close>)
  next
    case Gone
    from flag_step.waitpid [OF Wait this] show ?thesis by (rule lower_step) (use Wait in \<open>simp add: flag_rank_def\<close>)
  qed
next
  case Finish
  then show ?thesis using h n by (simp add: handed_def)
qed

interpretation flag: can_finish "flag_step p" "\<lambda>s. flag_last p \<and> handed p m s" "\<lambda>s. status s = Some 0" "flag_rank p" for p m
  using handed_step flag_progress by unfold_locales blast+

section \<open>The messages\<close>

lemma fold_cells:
  "fold (\<lambda>(a, v) f. f(a := v)) (map (\<lambda>i. (i + 1, g i)) [0..<n]) m = (\<lambda>x. if 1 \<le> x \<and> x \<le> n then g (x - 1) else m x)"
  by (induction n) (auto simp: fun_eq_iff)

lemma nul_of_char: "(of_char c :: nat) = 0 \<Longrightarrow> c = CHR 0x00"
proof -
  assume "(of_char c :: nat) = 0"
  then have "char_of (of_char c :: nat) = char_of (0 :: nat)" by simp
  moreover have "char_of (0 :: nat) = CHR 0x00" by code_simp
  ultimately show "c = CHR 0x00" by simp
qed

lemma message_string:
  assumes "CHR 0x00 \<notin> set msg" "length msg < 64"
  shows "message (msg_prog msg) m = chars msg"
proof -
  let ?g = "\<lambda>i. if i < length msg then of_char (msg ! i) else (0 :: nat)"
  have "map (memory_after (msg_prog msg) m (length (stores (msg_prog msg)))) [1..<65] = map (\<lambda>x. ?g (x - 1)) [1..<65]"
    by (rule map_cong [OF refl]) (auto simp: memory_after_def msg_prog_def strncpy_cells_def fold_cells [simplified])
  also have "\<dots> = map ?g [0..<64]" by (rule nth_equalityI) auto
  also have "\<dots> = chars msg @ replicate (64 - length msg) 0"
    using assms(2) by (intro nth_equalityI) (auto simp: chars_def nth_append)
  finally have "message (msg_prog msg) m = takeWhile (\<lambda>v. v \<noteq> 0) (chars msg @ replicate (64 - length msg) 0)"
    by (simp add: message_def msg_prog_def)
  moreover have "\<forall>v \<in> set (chars msg). v \<noteq> 0"
  proof
    fix v assume "v \<in> set (chars msg)"
    then obtain c where "c \<in> set msg" "v = of_char c" by (auto simp: chars_def)
    then show "v \<noteq> 0" using assms(1) nul_of_char [of c] by blast
  qed
  ultimately show ?thesis using assms(2) by (simp add: takeWhile_append2 gr0_conv_Suc)
qed

lemma flag_last_msg: "flag_last (msg_prog msg)"
  by (auto simp: flag_last_def msg_prog_def strncpy_cells_def butlast_append)

section \<open>Properties\<close>

text \<open>C16. The flag protocol hands the message over: in every interleaving of the loads and stores, in all three
  programs and whatever the message cells held before, the child prints nothing but the complete message (42, or
  the whole string); from every reachable state the run can be completed, and the parent ends with status 0 only
  after the child has printed.\<close>

theorem flag_handover:
  "(p, out) \<in> {(shared_mmap_prog, [42]), (shm_open_prog, chars ''hello via shm_open''), (sysv_shm_prog, chars ''hello SysV shm'')} \<Longrightarrow>
    flag_reaches p m s \<Longrightarrow>
    (said s = None \<or> said s = Some out) \<and> (status s = Some 0 \<longrightarrow> said s = Some out) \<and>
    (\<exists>t. (flag_step p)\<^sup>*\<^sup>* s t \<and> status t = Some 0 \<and> said t = Some out)"
proof -
  assume p: "(p, out) \<in> {(shared_mmap_prog, [42]), (shm_open_prog, chars ''hello via shm_open''), (sysv_shm_prog, chars ''hello SysV shm'')}"
    and r: "flag_reaches p m s"
  have l: "flag_last p" using p flag_last_msg
    by (auto simp: flag_last_def shared_mmap_prog_def shm_open_prog_def sysv_shm_prog_def)
  have "message shm_open_prog m' = chars ''hello via shm_open''" "message sysv_shm_prog m' = chars ''hello SysV shm''" for m'
    unfolding shm_open_prog_def sysv_shm_prog_def by (rule message_string; simp)+
  moreover have "message shared_mmap_prog m' = [42]" for m'
    by (simp add: shared_mmap_prog_def message_def memory_after_def)
  ultimately have out: "message p (m(0 := 0)) = out" using p by auto
  show ?thesis using flag_handed [OF l r] flag.completes [of p m s] l unfolding handed_def out by blast
qed

theorem flag_handover_witness:
  "\<exists>t. (flag_step shm_open_prog)\<^sup>*\<^sup>* (flag_start (\<lambda>_. 7)) t \<and> said t = Some (chars ''hello via shm_open'')"
  using flag_handover [OF _ flag_reaches.start, of shm_open_prog] by blast

section \<open>Before fork\<close>

text \<open>How far main comes before fork, by the calls that succeed: it stops with an exit status and perhaps leaves
  the shared object behind, or it stores the flag through a pointer that is not mapped, or the two processes run.\<close>

datatype flag_setup = Stopped int bool | Faulted | Started flag_run

definition shared_mmap_setup :: "bool \<Rightarrow> (nat \<Rightarrow> nat) \<Rightarrow> flag_setup" where
  "shared_mmap_setup mapped m = (if \<not> mapped then Stopped 1 False else Started (flag_start m))"

text \<open>Nothing is checked: without the object, its size or the mapping the first store has no page to go to.\<close>

definition shm_open_setup :: "bool \<Rightarrow> bool \<Rightarrow> bool \<Rightarrow> (nat \<Rightarrow> nat) \<Rightarrow> flag_setup" where
  "shm_open_setup opened sized mapped m =
     (let fd_ok = opened; size_ok = fd_ok \<and> sized; map_ok = fd_ok \<and> mapped
      in if \<not> map_ok then Faulted else if \<not> size_ok then Faulted else Started (flag_start m))"

definition sysv_shm_setup :: "bool \<Rightarrow> bool \<Rightarrow> (nat \<Rightarrow> nat) \<Rightarrow> flag_setup" where
  "sysv_shm_setup got attached m =
     (if \<not> got then Stopped 1 False else if \<not> attached then Stopped 1 True else Started (flag_start m))"

text \<open>The segment outlives a process that could not attach it; a failing shm_open ends in a fault.\<close>

lemma sysv_segment_left: "sysv_shm_setup True False m = Stopped 1 True"
  by (simp add: sysv_shm_setup_def)

lemma shm_open_unchecked: "shm_open_setup opened sized mapped m = Faulted \<longleftrightarrow> \<not> (opened \<and> sized \<and> mapped)"
  by (auto simp: shm_open_setup_def Let_def)


text \<open>The parent removes the object as its last act, after the wait.\<close>

definition object_left :: "flag_run \<Rightarrow> bool" where
  "object_left s \<longleftrightarrow> parent s \<noteq> Finish"


end
