(* ===== verification/Signals.thy ===== *)
theory Signals
  imports Main
begin

text \<open>
  The programs that wait for signals: src/08_process_syscalls/10_sigchld.c and 06_signal_handler.c.

  \<^item> A step is one statement of main, one system call, one round of a handler's loop, or something the
    outside does: a child exits, a signal arrives.
  \<^item> A signal that arrives while it is already pending is lost.  A pending signal is delivered between any
    two steps of main; its handler runs to its end before main goes on.  \<open>pause\<close> returns when a handler
    has run during it, not before it.
\<close>

section \<open>10_sigchld.c\<close>

datatype kid = Unborn | Running | Zombie | Reaped

datatype chld_pc = Fork nat | Test | Pause | Paused | Print | Finished

record chld =
  kids :: "nat \<Rightarrow> kid"
  pending :: bool
  handling :: bool
  reaped :: nat
  main :: chld_pc
  shown :: "nat option"

definition chld_start :: chld where
  "chld_start = \<lparr>kids = (\<lambda>_. Unborn), pending = False, handling = False, reaped = 0, main = Fork 0, shown = None\<rparr>"

text \<open>The handler reaps until no zombie is left; the saved errno is restored in the same step in which it
  returns.  A fork that fails is not noticed.\<close>

inductive chld_step :: "chld \<Rightarrow> chld \<Rightarrow> bool" where
  fork: "\<not> handling s \<Longrightarrow> main s = Fork i \<Longrightarrow> i < 5 \<Longrightarrow> chld_step s (s\<lparr>kids := (kids s)(i := Running), main := Fork (i + 1)\<rparr>)"
| fork_fails: "\<not> handling s \<Longrightarrow> main s = Fork i \<Longrightarrow> i < 5 \<Longrightarrow> chld_step s (s\<lparr>main := Fork (i + 1)\<rparr>)"
| forked: "\<not> handling s \<Longrightarrow> main s = Fork i \<Longrightarrow> \<not> i < 5 \<Longrightarrow> chld_step s (s\<lparr>main := Test\<rparr>)"
| test_less: "\<not> handling s \<Longrightarrow> main s = Test \<Longrightarrow> reaped s < 5 \<Longrightarrow> chld_step s (s\<lparr>main := Pause\<rparr>)"
| test_done: "\<not> handling s \<Longrightarrow> main s = Test \<Longrightarrow> \<not> reaped s < 5 \<Longrightarrow> chld_step s (s\<lparr>main := Print\<rparr>)"
| pause: "\<not> handling s \<Longrightarrow> main s = Pause \<Longrightarrow> chld_step s (s\<lparr>main := Paused\<rparr>)"
| print: "\<not> handling s \<Longrightarrow> main s = Print \<Longrightarrow> chld_step s (s\<lparr>main := Finished, shown := Some (reaped s)\<rparr>)"
| child_exits: "kids s j = Running \<Longrightarrow> chld_step s (s\<lparr>kids := (kids s)(j := Zombie), pending := True\<rparr>)"
| deliver: "pending s \<Longrightarrow> \<not> handling s \<Longrightarrow> main s \<noteq> Finished \<Longrightarrow> chld_step s (s\<lparr>pending := False, handling := True\<rparr>)"
| reap: "handling s \<Longrightarrow> kids s j = Zombie \<Longrightarrow> chld_step s (s\<lparr>kids := (kids s)(j := Reaped), reaped := reaped s + 1\<rparr>)"
| return: "handling s \<Longrightarrow> \<forall>j. kids s j \<noteq> Zombie \<Longrightarrow>
    chld_step s (s\<lparr>handling := False, main := if main s = Paused then Test else main s\<rparr>)"

inductive chld_reaches :: "chld \<Rightarrow> bool" where
  start: "chld_reaches chld_start"
| step: "chld_reaches s \<Longrightarrow> chld_step s s' \<Longrightarrow> chld_reaches s'"

text \<open>Every zombie has its reaper: a signal is pending or the handler is running.\<close>

definition gone :: "(nat \<Rightarrow> kid) \<Rightarrow> nat set" where
  "gone k = {j. k j = Reaped}"

definition reaper_inv :: "chld \<Rightarrow> bool" where
  "reaper_inv s \<longleftrightarrow> (\<forall>j. kids s j = Zombie \<longrightarrow> pending s \<or> handling s)
     \<and> reaped s = card (gone (kids s)) \<and> (\<forall>j. kids s j \<noteq> Unborn \<longrightarrow> j < 5)
     \<and> (\<forall>i. main s = Fork i \<longrightarrow> (\<forall>j \<ge> i. kids s j = Unborn))
     \<and> (main s \<in> {Print, Finished} \<longrightarrow> reaped s = 5) \<and> (\<forall>n. shown s = Some n \<longrightarrow> n = 5)"

lemma gone_le:
  assumes "\<forall>j. k j \<noteq> Unborn \<longrightarrow> j < (5 :: nat)"
  shows "gone k \<subseteq> {..<5}"
proof
  fix j assume "j \<in> gone k"
  then have "k j \<noteq> Unborn" by (simp add: gone_def)
  then show "j \<in> {..<5}" using assms by blast
qed

lemma reaped_le: "reaper_inv s \<Longrightarrow> reaped s \<le> 5"
  using card_mono [OF finite_lessThan gone_le [of "kids s"]] by (simp add: reaper_inv_def)

lemma gone_other: "k j \<noteq> Reaped \<Longrightarrow> v \<noteq> Reaped \<Longrightarrow> gone (k(j := v)) = gone k"
  by (auto simp: gone_def)

lemma card_reap:
  assumes "k j = Zombie" "\<forall>j. k j \<noteq> Unborn \<longrightarrow> j < (5 :: nat)"
  shows "card (gone (k(j := Reaped))) = card (gone k) + 1"
proof -
  have "gone (k(j := Reaped)) = insert j (gone k)" by (auto simp: gone_def)
  moreover have "finite (gone k)" using gone_le [OF assms(2)] finite_subset by blast
  moreover have "j \<notin> gone k" using assms(1) by (simp add: gone_def)
  ultimately show ?thesis by simp
qed

lemma reaper_step: "chld_step s s' \<Longrightarrow> reaper_inv s \<Longrightarrow> reaper_inv s'"
proof (induction rule: chld_step.induct)
  case (fork s i)
  then have "kids s i = Unborn" by (simp add: reaper_inv_def)
  with fork show ?case by (auto simp: reaper_inv_def gone_other)
next
  case (test_done s)
  with reaped_le [of s] show ?case by (auto simp: reaper_inv_def)
next
  case (child_exits s j)
  then show ?case by (auto simp: reaper_inv_def gone_other)
next
  case (reap s j)
  then have c: "card (gone ((kids s)(j := Reaped))) = reaped s + 1"
    using card_reap [of "kids s" j] by (simp add: reaper_inv_def)
  have ub: "\<forall>i. ((kids s)(j := Reaped)) i \<noteq> Unborn \<longrightarrow> i < 5" using reap by (auto simp: reaper_inv_def)
  have "reaped s + 1 \<le> 5" using card_mono [OF finite_lessThan gone_le [OF ub]] unfolding c by simp
  then show ?case using reap c ub by (auto simp: reaper_inv_def)
qed (auto simp: reaper_inv_def)

lemma reaper_reaches: "chld_reaches s \<Longrightarrow> reaper_inv s"
proof (induction rule: chld_reaches.induct)
  case start
  show ?case by (simp add: reaper_inv_def chld_start_def gone_def)
qed (blast intro: reaper_step)

text \<open>A state from which nothing can happen: the program has ended, or main waits in pause and every child
  that was started is reaped.\<close>

lemma chld_stuck:
  assumes "chld_reaches s" "\<nexists>s'. chld_step s s'" "main s \<noteq> Finished"
  shows "main s = Paused \<and> (\<forall>j. kids s j \<in> {Unborn, Reaped})"
proof -
  have h: "\<not> handling s" using assms(2) reap return by blast
  then have p: "\<not> pending s" using assms(2,3) deliver by blast
  have "kids s j \<noteq> Zombie" for j using reaper_reaches [OF assms(1)] h p by (auto simp: reaper_inv_def)
  moreover have "kids s j \<noteq> Running" for j using assms(2) child_exits by blast
  ultimately have "\<forall>j. kids s j \<in> {Unborn, Reaped}" using kid.exhaust by blast
  moreover have "main s = Paused"
    using assms(2,3) h by (cases "main s") (blast intro: fork forked test_less test_done pause print)+
  ultimately show ?thesis by blast
qed

text \<open>The lost wake-up: the fifth child exits after main has tested \<open>reaped\<close> and before it pauses.\<close>

definition all_reaped :: chld where
  "all_reaped = \<lparr>kids = (\<lambda>j. if j < 5 then Reaped else Unborn), pending = False, handling = False, reaped = 5,
     main = Paused, shown = None\<rparr>"

text \<open>Children 0 to k - 1 exited and reaped while main was between the test and pause.\<close>

definition reaped_before_pause :: "nat \<Rightarrow> chld" where
  "reaped_before_pause k = \<lparr>kids = (\<lambda>j. if j < k then Reaped else if j < 5 then Running else Unborn), pending = False,
     handling = False, reaped = k, main = Pause, shown = None\<rparr>"

lemma forking_reaches:
  "i \<le> 5 \<Longrightarrow> chld_reaches (chld_start\<lparr>kids := (\<lambda>j. if j < i then Running else Unborn), main := Fork i\<rparr>)"
proof (induction i)
  case 0
  have "chld_start\<lparr>kids := (\<lambda>j. if j < 0 then Running else Unborn), main := Fork 0\<rparr> = chld_start"
    by (simp add: chld_start_def)
  then show ?case using chld_reaches.start by simp
next
  case (Suc i)
  let ?s = "chld_start\<lparr>kids := (\<lambda>j. if j < i then Running else Unborn), main := Fork i\<rparr>"
  have "chld_reaches (?s\<lparr>kids := (kids ?s)(i := Running), main := Fork (i + 1)\<rparr>)"
    by (rule chld_reaches.step [OF Suc.IH chld_step.fork]) (use Suc.prems in \<open>simp_all add: chld_start_def\<close>)
  moreover have "(\<lambda>j. if j < i then Running else Unborn)(i := Running) = (\<lambda>j. if j < Suc i then Running else Unborn)"
    by auto
  ultimately show ?case by simp
qed

lemma before_pause_reaches: "k \<le> 5 \<Longrightarrow> chld_reaches (reaped_before_pause k)"
proof (induction k)
  case 0
  let ?s = "chld_start\<lparr>kids := (\<lambda>j. if j < 5 then Running else Unborn), main := Fork 5\<rparr>"
  have 1: "chld_reaches (?s\<lparr>main := Test\<rparr>)"
    by (rule chld_reaches.step [OF forking_reaches [OF order_refl] chld_step.forked [where i = 5]]) (simp_all add: chld_start_def)
  have "chld_step (?s\<lparr>main := Test\<rparr>) (?s\<lparr>main := Test\<rparr>\<lparr>main := Pause\<rparr>)"
    by (rule chld_step.test_less) (simp_all add: chld_start_def)
  from chld_reaches.step [OF 1 this] show ?case by (simp add: reaped_before_pause_def chld_start_def)
next
  case (Suc k)
  let ?s = "reaped_before_pause k"
  let ?k = "kids ?s"
  have 1: "chld_reaches (?s\<lparr>kids := ?k(k := Zombie), pending := True\<rparr>)"
    by (rule chld_reaches.step [OF Suc.IH chld_step.child_exits]) (use Suc.prems in \<open>simp_all add: reaped_before_pause_def\<close>)
  let ?s1 = "?s\<lparr>kids := ?k(k := Zombie), pending := True\<rparr>"
  have 2: "chld_reaches (?s1\<lparr>pending := False, handling := True\<rparr>)"
    by (rule chld_reaches.step [OF 1 chld_step.deliver]) (simp_all add: reaped_before_pause_def)
  let ?s2 = "?s1\<lparr>pending := False, handling := True\<rparr>"
  have 3: "chld_reaches (?s2\<lparr>kids := (kids ?s2)(k := Reaped), reaped := reaped ?s2 + 1\<rparr>)"
    by (rule chld_reaches.step [OF 2 chld_step.reap]) (simp_all add: reaped_before_pause_def)
  let ?s3 = "?s2\<lparr>kids := (kids ?s2)(k := Reaped), reaped := reaped ?s2 + 1\<rparr>"
  have "chld_step ?s3 (?s3\<lparr>handling := False, main := if main ?s3 = Paused then Test else main ?s3\<rparr>)"
    by (rule chld_step.return) (simp_all add: reaped_before_pause_def)
  moreover have "(\<lambda>j. if j < k then Reaped else if j < 5 then Running else Unborn)(k := Reaped) =
      (\<lambda>j. if j < Suc k then Reaped else if j < (5 :: nat) then Running else Unborn)" by auto
  ultimately show ?case using chld_reaches.step [OF 3] by (simp add: reaped_before_pause_def)
qed

lemma all_reaped_reaches: "chld_reaches all_reaped"
proof -
  have "chld_step (reaped_before_pause 5) (reaped_before_pause 5\<lparr>main := Paused\<rparr>)"
    by (rule chld_step.pause) (simp_all add: reaped_before_pause_def)
  moreover have "(\<lambda>j. if j < 5 then Reaped else if j < 5 then Running else Unborn) = (\<lambda>j. if j < (5 :: nat) then Reaped else Unborn)"
    by auto
  ultimately show ?thesis using chld_reaches.step [OF before_pause_reaches [OF order_refl]]
    by (simp add: reaped_before_pause_def all_reaped_def cong: if_cong)
qed

lemma all_reaped_stuck: "\<not> chld_step all_reaped s"
  by (auto simp: all_reaped_def elim!: chld_step.cases split: if_splits)

section \<open>06_signal_handler.c\<close>

text \<open>The handler is the three stores and writes of the code, one step each; the signal masks are empty, so a
  handler for one signal can be interrupted by the other.\<close>

datatype sig = SIGINT | SIGTERM

fun signo :: "sig \<Rightarrow> int" where
  "signo SIGINT = 2"
| "signo SIGTERM = 15"

fun sig_line :: "sig \<Rightarrow> string" where
  "sig_line SIGINT = ''got SIGINT'' @ [CHR 0x0A]"
| "sig_line SIGTERM = ''got SIGTERM'' @ [CHR 0x0A]"

datatype wait_pc = WTest | WPause | WPaused | WPrint | WDone

record sigs =
  g_stop :: int
  g_lastsig :: int
  arrived :: "sig set"
  frames :: "(sig \<times> nat) list"
  lines :: "string list"
  wait_main :: wait_pc
  exit_line :: "int option"

definition sig_start :: sigs where
  "sig_start = \<lparr>g_stop = 0, g_lastsig = 0, arrived = {}, frames = [], lines = [], wait_main = WTest, exit_line = None\<rparr>"

inductive sig_step :: "sigs \<Rightarrow> sigs \<Rightarrow> bool" where
  arrive: "sig_step s (s\<lparr>arrived := insert g (arrived s)\<rparr>)"
| enter: "g \<in> arrived s \<Longrightarrow> g \<notin> fst ` set (frames s) \<Longrightarrow> wait_main s \<noteq> WDone \<Longrightarrow>
    sig_step s (s\<lparr>arrived := arrived s - {g}, frames := (g, 0) # frames s\<rparr>)"
| set_stop: "frames s = (g, 0) # fs \<Longrightarrow> sig_step s (s\<lparr>g_stop := 1, frames := (g, 1) # fs\<rparr>)"
| set_last: "frames s = (g, 1) # fs \<Longrightarrow> sig_step s (s\<lparr>g_lastsig := signo g, frames := (g, 2) # fs\<rparr>)"
| say: "frames s = (g, 2) # fs \<Longrightarrow> sig_step s (s\<lparr>lines := lines s @ [sig_line g], frames := (g, 3) # fs\<rparr>)"
| leave: "frames s = (g, 3) # fs \<Longrightarrow>
    sig_step s (s\<lparr>frames := fs, wait_main := if wait_main s = WPaused \<and> fs = [] then WTest else wait_main s\<rparr>)"
| test_go: "frames s = [] \<Longrightarrow> wait_main s = WTest \<Longrightarrow> g_stop s = 0 \<Longrightarrow> sig_step s (s\<lparr>wait_main := WPause\<rparr>)"
| test_stop: "frames s = [] \<Longrightarrow> wait_main s = WTest \<Longrightarrow> g_stop s \<noteq> 0 \<Longrightarrow> sig_step s (s\<lparr>wait_main := WPrint\<rparr>)"
| sig_pause: "frames s = [] \<Longrightarrow> wait_main s = WPause \<Longrightarrow> sig_step s (s\<lparr>wait_main := WPaused\<rparr>)"
| sig_print: "frames s = [] \<Longrightarrow> wait_main s = WPrint \<Longrightarrow>
    sig_step s (s\<lparr>wait_main := WDone, exit_line := Some (g_lastsig s)\<rparr>)"

inductive sig_reaches :: "sigs \<Rightarrow> bool" where
  start: "sig_reaches sig_start"
| step: "sig_reaches s \<Longrightarrow> sig_step s s' \<Longrightarrow> sig_reaches s'"

text \<open>g_stop and g_lastsig agree once the last handler has returned, and every report is one of the two.\<close>

definition sig_inv :: "sigs \<Rightarrow> bool" where
  "sig_inv s \<longleftrightarrow> (\<forall>x \<in> set (frames s). snd x \<le> 3) \<and> g_lastsig s \<in> {0, 2, 15} \<and> g_stop s \<in> {0, 1}
     \<and> (g_stop s = 1 \<longrightarrow> g_lastsig s \<noteq> 0 \<or> (\<exists>x \<in> set (frames s). snd x = 1))
     \<and> (\<forall>x \<in> set (frames s). snd x = 1 \<or> snd x = 2 \<or> snd x = 3 \<longrightarrow> g_stop s = 1)
     \<and> (wait_main s = WPrint \<or> wait_main s = WDone \<longrightarrow> g_stop s = 1)
     \<and> (wait_main s = WDone \<longrightarrow> frames s = []) \<and> (exit_line s \<noteq> None \<longrightarrow> exit_line s = Some (g_lastsig s) \<and> wait_main s = WDone)"

lemma signo_cases: "signo g \<in> {2, 15}"
  by (cases g) auto

lemma sig_inv_step: "sig_step s s' \<Longrightarrow> sig_inv s \<Longrightarrow> sig_inv s'"
proof (induction rule: sig_step.induct)
  case (set_last s g fs)
  then show ?case using signo_cases [of g] by (auto simp: sig_inv_def)
qed (auto simp: sig_inv_def)

lemma sig_reaches_inv: "sig_reaches s \<Longrightarrow> sig_inv s"
proof (induction rule: sig_reaches.induct)
  case start
  show ?case by (simp add: sig_inv_def sig_start_def)
qed (blast intro: sig_inv_step)

definition sig_asleep :: sigs where
  "sig_asleep = \<lparr>g_stop = 1, g_lastsig = 2, arrived = {}, frames = [], lines = [sig_line SIGINT],
     wait_main = WPaused, exit_line = None\<rparr>"

text \<open>The same window: the signal is handled between the test of g_stop and pause.\<close>

lemma sig_asleep_reaches: "sig_reaches sig_asleep"
proof -
  let ?s = "sig_start\<lparr>wait_main := WPause\<rparr>"
  have 1: "sig_reaches ?s"
    by (rule sig_reaches.step [OF sig_reaches.start sig_step.test_go]) (simp_all add: sig_start_def)
  have 2: "sig_reaches (?s\<lparr>arrived := {SIGINT}\<rparr>)"
    using sig_reaches.step [OF 1 sig_step.arrive [where g = SIGINT]] by (simp add: sig_start_def)
  have 3: "sig_reaches (?s\<lparr>frames := [(SIGINT, 0)]\<rparr>)"
    using sig_reaches.step [OF 2 sig_step.enter [where g = SIGINT]] by (simp add: sig_start_def)
  have 4: "sig_reaches (?s\<lparr>g_stop := 1, frames := [(SIGINT, 1)]\<rparr>)"
    using sig_reaches.step [OF 3 sig_step.set_stop [where g = SIGINT and fs = "[]"]] by (simp add: sig_start_def)
  have 5: "sig_reaches (?s\<lparr>g_stop := 1, g_lastsig := 2, frames := [(SIGINT, 2)]\<rparr>)"
    using sig_reaches.step [OF 4 sig_step.set_last [where g = SIGINT and fs = "[]"]] by (simp add: sig_start_def)
  have 6: "sig_reaches (?s\<lparr>g_stop := 1, g_lastsig := 2, lines := [sig_line SIGINT], frames := [(SIGINT, 3)]\<rparr>)"
    using sig_reaches.step [OF 5 sig_step.say [where g = SIGINT and fs = "[]"]] by (simp add: sig_start_def)
  have 7: "sig_reaches (?s\<lparr>g_stop := 1, g_lastsig := 2, lines := [sig_line SIGINT]\<rparr>)"
    using sig_reaches.step [OF 6 sig_step.leave [where g = SIGINT and fs = "[]"]] by (simp add: sig_start_def)
  show ?thesis
    using sig_reaches.step [OF 7 sig_step.sig_pause] by (simp add: sig_start_def sig_asleep_def)
qed

lemma sig_asleep_waits: "sig_step sig_asleep s \<Longrightarrow> \<exists>g. s = sig_asleep\<lparr>arrived := {g}\<rparr>"
  by (auto simp: sig_asleep_def elim!: sig_step.cases)

section \<open>Properties\<close>

text \<open>C17. 10_sigchld.c reaps every child, although SIGCHLD is not queued: in every interleaving of exits, signal
  deliveries and main, a zombie always has a pending signal or the running handler to reap it, reaped is the
  number of reaped children, and the count printed is 5; when nothing more can happen, the program has ended or
  it waits in pause with no zombie left.\<close>

theorem sigchld_reaps_all:
  assumes "chld_reaches s"
  shows "(\<forall>j. kids s j = Zombie \<longrightarrow> pending s \<or> handling s) \<and> reaped s = card {j. kids s j = Reaped} \<and>
    (\<forall>n. shown s = Some n \<longrightarrow> n = 5) \<and>
    ((\<nexists>s'. chld_step s s') \<and> main s \<noteq> Finished \<longrightarrow> main s = Paused \<and> (\<forall>j. kids s j \<in> {Unborn, Reaped}))"
  using reaper_reaches [OF assms] chld_stuck [OF assms] by (simp add: reaper_inv_def gone_def)

theorem sigchld_reaps_all_witness:
  "card {j. kids all_reaped j = Reaped} = 5 \<and> main all_reaped = Paused"
  using sigchld_reaps_all [OF all_reaped_reaches] by (simp add: all_reaped_def)

text \<open>Both loops test a flag and then call pause, so a signal that is handled in between is lost:
  10_sigchld.c can hang with all five children reaped, and 06_signal_handler.c with g_stop set, where nothing
  but another signal can wake it.\<close>

theorem pause_loses_wakeup:
  "(\<exists>s. chld_reaches s \<and> reaped s = 5 \<and> main s = Paused \<and> (\<nexists>s'. chld_step s s')) \<and>
   (\<exists>s. sig_reaches s \<and> g_stop s = 1 \<and> wait_main s = WPaused \<and> {s'. sig_step s s'} \<subseteq> {s\<lparr>arrived := {g}\<rparr> |g. True})"
proof (intro conjI)
  show "\<exists>s. chld_reaches s \<and> reaped s = 5 \<and> main s = Paused \<and> (\<nexists>s'. chld_step s s')"
    using all_reaped_reaches all_reaped_stuck by (intro exI [of _ all_reaped]) (simp add: all_reaped_def)
  show "\<exists>s. sig_reaches s \<and> g_stop s = 1 \<and> wait_main s = WPaused \<and> {s'. sig_step s s'} \<subseteq> {s\<lparr>arrived := {g}\<rparr> |g. True}"
    using sig_asleep_reaches sig_asleep_waits
    by (intro exI [of _ sig_asleep]) (auto simp: sig_asleep_def)
qed

text \<open>The number 06_signal_handler.c prints is the number of a signal it handled.\<close>

lemma sig_exit_line: "sig_reaches s \<Longrightarrow> exit_line s = Some n \<Longrightarrow> n = 2 \<or> n = 15"
  using sig_reaches_inv [of s] by (auto simp: sig_inv_def)

end
