(* ===== verification/Counters.thy ===== *)
theory Counters
  imports Transition "HOL-Library.Multiset"
begin

text \<open>
  Two tasks and a kernel object or a counter between them: src/10_ipc_memory/07_eventfd.c, 09_mq.c and
  src/08_process_syscalls/05_clone_thread.c.  A step is one system call, one atomic operation or one line
  printed by one task.
\<close>

section \<open>07_eventfd.c\<close>

text \<open>write adds to the counter, read blocks on 0, else returns the counter and sets it to 0.\<close>

record efd =
  count :: nat
  written :: nat
  woke :: "nat list"
  efd_done :: bool

definition efd_start :: efd where
  "efd_start = \<lparr>count = 0, written = 0, woke = [], efd_done = False\<rparr>"

inductive efd_step :: "efd \<Rightarrow> efd \<Rightarrow> bool" where
  efd_write: "written s < 5 \<Longrightarrow> efd_step s (s\<lparr>count := count s + 1, written := written s + 1\<rparr>)"
| efd_read: "length (woke s) < 5 \<Longrightarrow> 0 < count s \<Longrightarrow> efd_step s (s\<lparr>count := 0, woke := woke s @ [count s]\<rparr>)"
| efd_join: "\<not> length (woke s) < 5 \<Longrightarrow> \<not> written s < 5 \<Longrightarrow> \<not> efd_done s \<Longrightarrow> efd_step s (s\<lparr>efd_done := True\<rparr>)"

inductive efd_reaches :: "efd \<Rightarrow> bool" where
  start: "efd_reaches efd_start"
| step: "efd_reaches s \<Longrightarrow> efd_step s s' \<Longrightarrow> efd_reaches s'"

definition efd_inv :: "efd \<Rightarrow> bool" where
  "efd_inv s \<longleftrightarrow> sum_list (woke s) + count s = written s \<and> written s \<le> 5 \<and> (\<forall>c \<in> set (woke s). 0 < c)
     \<and> length (woke s) \<le> 5 \<and> (efd_done s \<longrightarrow> length (woke s) = 5)"

lemma efd_reaches_inv: "efd_reaches s \<Longrightarrow> efd_inv s"
proof (induction rule: efd_reaches.induct)
  case start
  show ?case by (simp add: efd_inv_def efd_start_def)
next
  case (step s s')
  from step.hyps(2) step.IH show ?case by (induction rule: efd_step.induct) (auto simp: efd_inv_def)
qed

lemma sum_list_ge: "\<forall>c \<in> set xs. 0 < (c :: nat) \<Longrightarrow> length xs \<le> sum_list xs"
  by (induction xs) auto

lemma all_ones:
  "\<forall>c \<in> set xs. 0 < (c :: nat) \<Longrightarrow> sum_list xs \<le> length xs \<Longrightarrow> xs = replicate (length xs) 1"
proof (induction xs)
  case (Cons x xs)
  then have "length xs \<le> sum_list xs" using sum_list_ge by simp
  then have "x = 1" "sum_list xs \<le> length xs" using Cons.prems by auto
  with Cons show ?case by simp
qed simp

text \<open>Coalesced writes: after five of them one read takes them all, and the second read blocks.\<close>

definition efd_blocked :: efd where
  "efd_blocked = \<lparr>count = 0, written = 5, woke = [5], efd_done = False\<rparr>"

lemma efd_writes: "k \<le> 5 \<Longrightarrow> efd_reaches \<lparr>count = k, written = k, woke = [], efd_done = False\<rparr>"
proof (induction k)
  case 0
  show ?case using efd_reaches.start by (simp add: efd_start_def)
next
  case (Suc k)
  then have "efd_reaches \<lparr>count = k, written = k, woke = [], efd_done = False\<rparr>" by simp
  from efd_reaches.step [OF this efd_write] Suc.prems show ?case by simp
qed

lemma efd_blocked_reaches: "efd_reaches efd_blocked"
  using efd_reaches.step [OF efd_writes [of 5] efd_read] by (simp add: efd_blocked_def)

section \<open>09_mq.c\<close>

text \<open>The queue is in the order of arrival; mq_receive takes the oldest message of the highest priority.\<close>

type_synonym message = "string \<times> nat"

record mq =
  queue :: "message list"
  sent :: nat
  got :: "message list"
  child_exited :: bool
  mq_status :: "int option"

definition mq_msgs :: "message list" where
  "mq_msgs = [(''low'', 0), (''high'', 10), (''mid'', 5)]"

definition mq_start :: mq where
  "mq_start = \<lparr>queue = [], sent = 0, got = [], child_exited = False, mq_status = None\<rparr>"

definition top_prio :: "message list \<Rightarrow> nat" where
  "top_prio q = Max (snd ` set q)"

definition mq_first :: "message list \<Rightarrow> message" where
  "mq_first q = hd (filter (\<lambda>x. snd x = top_prio q) q)"

inductive mq_step :: "mq \<Rightarrow> mq \<Rightarrow> bool" where
  mq_send: "sent s < 3 \<Longrightarrow> length (queue s) < 8 \<Longrightarrow>
    mq_step s (s\<lparr>queue := queue s @ [mq_msgs ! sent s], sent := sent s + 1\<rparr>)"
| mq_receive: "length (got s) < 3 \<Longrightarrow> queue s \<noteq> [] \<Longrightarrow>
    mq_step s (s\<lparr>queue := remove1 (mq_first (queue s)) (queue s), got := got s @ [mq_first (queue s)]\<rparr>)"
| mq_child: "\<not> length (got s) < 3 \<Longrightarrow> \<not> child_exited s \<Longrightarrow> mq_step s (s\<lparr>child_exited := True\<rparr>)"
| mq_wait: "\<not> sent s < 3 \<Longrightarrow> child_exited s \<Longrightarrow> mq_status s = None \<Longrightarrow> mq_step s (s\<lparr>mq_status := Some 0\<rparr>)"

inductive mq_reaches :: "mq \<Rightarrow> bool" where
  start: "mq_reaches mq_start"
| step: "mq_reaches s \<Longrightarrow> mq_step s s' \<Longrightarrow> mq_reaches s'"

lemma mq_first_in: "q \<noteq> [] \<Longrightarrow> mq_first q \<in> set q \<and> (\<forall>x \<in> set q. snd x \<le> snd (mq_first q))"
proof -
  assume "q \<noteq> []"
  then have "top_prio q \<in> snd ` set q" unfolding top_prio_def by (intro Max_in) auto
  then have "filter (\<lambda>x. snd x = top_prio q) q \<noteq> []" by (force simp: filter_empty_conv)
  then have "mq_first q \<in> set (filter (\<lambda>x. snd x = top_prio q) q)" unfolding mq_first_def by (rule hd_in_set)
  then show ?thesis by (simp add: top_prio_def)
qed

definition mq_inv :: "mq \<Rightarrow> bool" where
  "mq_inv s \<longleftrightarrow> mset (got s) + mset (queue s) = mset (take (sent s) mq_msgs) \<and> sent s \<le> 3
     \<and> (child_exited s \<longrightarrow> length (got s) = 3) \<and> (mq_status s \<noteq> None \<longrightarrow> mq_status s = Some 0 \<and> child_exited s \<and> sent s = 3)"

lemma length_mq_msgs [simp]: "length mq_msgs = 3"
  by (simp add: mq_msgs_def)

lemma mq_lengths: "mq_inv s \<Longrightarrow> length (got s) + length (queue s) = sent s"
proof -
  assume inv: "mq_inv s"
  then have "size (mset (got s) + mset (queue s)) = size (mset (take (sent s) mq_msgs))" by (simp add: mq_inv_def)
  then have "length (got s) + length (queue s) = length (take (sent s) mq_msgs)" by (simp only: size_union size_mset)
  then show ?thesis using inv by (simp add: mq_inv_def)
qed

lemma mq_inv_step: "mq_step s s' \<Longrightarrow> mq_inv s \<Longrightarrow> mq_inv s'"
proof (induction rule: mq_step.induct)
  case (mq_send s)
  then show ?case by (simp add: mq_inv_def take_Suc_conv_app_nth flip: add_mset_add_single)
next
  case (mq_receive s)
  let ?f = "mq_first (queue s)"
  have "mset (queue s) = add_mset ?f (mset (queue s) - {#?f#})" using mq_receive mq_first_in [of "queue s"] by simp
  then have "mset (got s @ [?f]) + mset (remove1 ?f (queue s)) = mset (got s) + mset (queue s)" by simp
  then show ?case using mq_receive unfolding mq_inv_def by auto
next
  case (mq_child s)
  then show ?case using mq_lengths [of s] by (simp add: mq_inv_def)
qed (auto simp: mq_inv_def)

lemma mq_reaches_inv: "mq_reaches s \<Longrightarrow> mq_inv s"
proof (induction rule: mq_reaches.induct)
  case start
  show ?case by (simp add: mq_inv_def mq_start_def)
qed (blast intro: mq_inv_step)

lemma mq_progress:
  assumes "mq_inv s" "mq_status s = None"
  shows "\<exists>s'. mq_step s s'"
proof -
  have l: "length (got s) + length (queue s) = sent s" "sent s \<le> 3" using assms mq_lengths by (auto simp: mq_inv_def)
  consider "sent s < 3" | "sent s = 3" "queue s \<noteq> []" | "sent s = 3" "queue s = []" using l by linarith
  then show ?thesis
  proof cases
    case 1 then show ?thesis using mq_send [of s] l by auto
  next
    case 2 then have "length (got s) < 3" using l by (cases "queue s") auto
    then show ?thesis using 2 mq_receive by blast
  next
    case 3 then show ?thesis using l mq_child [of s] mq_wait [of s] assms(2) by (cases "child_exited s") auto
  qed
qed

definition mq_left :: "mq \<Rightarrow> nat" where
  "mq_left s = (3 - sent s) + (3 - length (got s)) + (if child_exited s then 0 else 1) + (if mq_status s = None then 1 else 0)"

lemma mq_left_step: "mq_step s s' \<Longrightarrow> mq_left s' < mq_left s"
  by (induction rule: mq_step.induct) (auto simp: mq_left_def)

interpretation mq: must_finish mq_step mq_inv "\<lambda>s. mq_status s \<noteq> None" mq_left
proof
  fix s s' :: mq
  show "mq_inv s \<Longrightarrow> \<not> mq_status s \<noteq> None \<Longrightarrow> \<exists>s'. mq_step s s' \<and> mq_left s' < mq_left s"
    using mq_progress mq_left_step by blast
  show "mq_inv s \<Longrightarrow> mq_status s \<noteq> None \<Longrightarrow> \<not> mq_step s s'"
    using mq_lengths [of s] by (auto simp: mq_inv_def elim!: mq_step.cases)
qed (use mq_inv_step mq_left_step in blast)+

section \<open>05_clone_thread.c\<close>

text \<open>The new task and main each add 1000 with atomic operations; main spins until the counter reaches 2000.
  clone may fail, which ends main with status 1.\<close>

record twin =
  counter :: nat
  task_i :: "nat option"
  main_i :: nat
  task_line :: "nat option"
  main_line :: "nat option"

definition twin_start :: twin where
  "twin_start = \<lparr>counter = 0, task_i = Some 0, main_i = 0, task_line = None, main_line = None\<rparr>"

inductive twin_step :: "twin \<Rightarrow> twin \<Rightarrow> bool" where
  task_add: "task_i s = Some i \<Longrightarrow> i < 1000 \<Longrightarrow> twin_step s (s\<lparr>counter := counter s + 1, task_i := Some (i + 1)\<rparr>)"
| task_print: "task_i s = Some i \<Longrightarrow> \<not> i < 1000 \<Longrightarrow> twin_step s (s\<lparr>task_i := None, task_line := Some (counter s)\<rparr>)"
| main_add: "main_i s < 1000 \<Longrightarrow> twin_step s (s\<lparr>counter := counter s + 1, main_i := main_i s + 1\<rparr>)"
| main_spin: "\<not> main_i s < 1000 \<Longrightarrow> main_line s = None \<Longrightarrow> counter s < 2000 \<Longrightarrow> twin_step s s"
| main_print: "\<not> main_i s < 1000 \<Longrightarrow> main_line s = None \<Longrightarrow> \<not> counter s < 2000 \<Longrightarrow>
    twin_step s (s\<lparr>main_line := Some (counter s)\<rparr>)"

inductive twin_reaches :: "twin \<Rightarrow> bool" where
  start: "twin_reaches twin_start"
| step: "twin_reaches s \<Longrightarrow> twin_step s s' \<Longrightarrow> twin_reaches s'"

definition task_count :: "twin \<Rightarrow> nat" where
  "task_count s = (case task_i s of Some i \<Rightarrow> i | None \<Rightarrow> 1000)"

definition twin_inv :: "twin \<Rightarrow> bool" where
  "twin_inv s \<longleftrightarrow> counter s = task_count s + main_i s \<and> task_count s \<le> 1000 \<and> main_i s \<le> 1000
     \<and> (\<forall>n. main_line s = Some n \<longrightarrow> n = 2000 \<and> counter s = 2000)
     \<and> (\<forall>n. task_line s = Some n \<longrightarrow> 1000 \<le> n \<and> n \<le> 2000) \<and> (task_i s = None \<longleftrightarrow> task_line s \<noteq> None)"

lemma twin_reaches_inv: "twin_reaches s \<Longrightarrow> twin_inv s"
proof (induction rule: twin_reaches.induct)
  case start
  show ?case by (simp add: twin_inv_def twin_start_def task_count_def)
next
  case (step s s')
  from step.hyps(2) step.IH show ?case
    by (induction rule: twin_step.induct) (auto simp: twin_inv_def task_count_def)
qed

definition twin_left :: "twin \<Rightarrow> nat" where
  "twin_left s = (2000 - counter s) + (if main_line s = None then 1 else 0) + (if task_i s = None then 0 else 1)"

lemma twin_lower: "twin_step s s' \<Longrightarrow> twin_left s' < twin_left s \<Longrightarrow> \<exists>s'. twin_step s s' \<and> twin_left s' < twin_left s"
  by blast

lemma twin_progress:
  assumes "twin_inv s" "main_line s = None \<or> task_i s \<noteq> None"
  shows "\<exists>s'. twin_step s s' \<and> twin_left s' < twin_left s"
proof (cases "task_i s")
  case (Some i)
  show ?thesis
  proof (cases "i < 1000")
    case True
    then have "counter s < 2000" using assms(1) Some by (simp add: twin_inv_def task_count_def)
    then show ?thesis by (intro twin_lower [OF task_add [OF Some True]]) (simp add: twin_left_def Some)
  next
    case False
    show ?thesis by (rule twin_lower [OF task_print [OF Some False]]) (simp add: twin_left_def Some)
  qed
next
  case None
  then have c: "counter s = 1000 + main_i s" "main_line s = None" "main_i s \<le> 1000"
    using assms by (auto simp: twin_inv_def task_count_def)
  show ?thesis
  proof (cases "main_i s < 1000")
    case True
    show ?thesis by (rule twin_lower [OF main_add [OF True]]) (use True c in \<open>simp add: twin_left_def\<close>)
  next
    case False
    then have "\<not> counter s < 2000" using c by simp
    then show ?thesis by (intro twin_lower [OF main_print [OF False c(2)]]) (simp_all add: twin_left_def c)
  qed
qed

lemma twin_inv_step: "twin_step s s' \<Longrightarrow> twin_inv s \<Longrightarrow> twin_inv s'"
  by (induction rule: twin_step.induct) (auto simp: twin_inv_def task_count_def)

interpretation twin: can_finish twin_step twin_inv "\<lambda>s. main_line s \<noteq> None \<and> task_i s = None" twin_left
proof
  fix s s' :: twin
  show "twin_inv s \<Longrightarrow> twin_step s s' \<Longrightarrow> twin_inv s'" by (rule twin_inv_step)
  show "twin_inv s \<Longrightarrow> \<not> (main_line s \<noteq> None \<and> task_i s = None) \<Longrightarrow> \<exists>s'. twin_step s s' \<and> twin_left s' < twin_left s"
    by (rule twin_progress) simp_all
qed

text \<open>Main's line can always be printed, and it says 2000.\<close>

lemma twin_prints: "twin_reaches s \<Longrightarrow> \<exists>t. twin_step\<^sup>*\<^sup>* s t \<and> main_line t = Some 2000"
proof -
  assume "twin_reaches s"
  then obtain t where t: "twin_step\<^sup>*\<^sup>* s t" "twin_inv t" "main_line t \<noteq> None"
    using twin.completes [OF twin_reaches_inv] by blast
  then have "main_line t = Some 2000" by (auto simp: twin_inv_def)
  with t show ?thesis by blast
qed

section \<open>Properties\<close>

text \<open>The eventfd counts add up, but writes can coalesce: in every interleaving the numbers printed and the counter
  sum to the writes made, every count is positive, and main ends only if every read returned 1; a run in which one read
  takes all five writes leaves main blocked for ever in its second read.\<close>

theorem eventfd_counts:
  "efd_reaches s \<Longrightarrow> (sum_list (woke s) + count s = written s \<and> (\<forall>c \<in> set (woke s). 0 < c) \<and>
      (efd_done s \<longrightarrow> woke s = [1, 1, 1, 1, 1])) \<and>
    (\<exists>t. efd_reaches t \<and> woke t = [5] \<and> \<not> efd_done t \<and> (\<nexists>t'. efd_step t t'))"
proof (intro conjI)
  assume r: "efd_reaches s"
  note inv = efd_reaches_inv [OF r]
  show "sum_list (woke s) + count s = written s" "\<forall>c \<in> set (woke s). 0 < c" using inv by (simp_all add: efd_inv_def)
  show "efd_done s \<longrightarrow> woke s = [1, 1, 1, 1, 1]"
  proof
    assume "efd_done s"
    then have "length (woke s) = 5" "sum_list (woke s) \<le> 5" using inv by (auto simp: efd_inv_def)
    with all_ones [of "woke s"] inv have "woke s = replicate 5 1" by (simp add: efd_inv_def)
    then show "woke s = [1, 1, 1, 1, 1]" by (simp add: eval_nat_numeral)
  qed
  have "\<not> efd_step efd_blocked t'" for t' by (auto simp: efd_blocked_def elim!: efd_step.cases)
  then show "\<exists>t. efd_reaches t \<and> woke t = [5] \<and> \<not> efd_done t \<and> (\<nexists>t'. efd_step t t')"
    using efd_blocked_reaches by (intro exI [of _ efd_blocked]) (simp add: efd_blocked_def)
qed

theorem eventfd_counts_witness: "sum_list (woke efd_blocked) = 5 \<and> count efd_blocked = 0"
  using eventfd_counts [OF efd_blocked_reaches] by (simp add: efd_blocked_def)

text \<open>The message queue delivers: in every interleaving the run ends with status 0 after the child has received
  each of the three messages once, every receive takes a message of the highest priority present, and no run is
  infinite.\<close>

theorem mq_delivers:
  "mq_reaches s \<Longrightarrow> ((\<nexists>s'. mq_step s s') \<longleftrightarrow> mq_status s \<noteq> None) \<and>
    (mq_status s \<noteq> None \<longrightarrow> mset (got s) = mset mq_msgs) \<and> (\<forall>f. f 0 = s \<longrightarrow> (\<exists>i. \<not> mq_step (f i) (f (Suc i)))) \<and>
    (\<forall>s'. mq_step s s' \<longrightarrow> (\<forall>x \<in> set (queue s). length (got s') > length (got s) \<longrightarrow> snd x \<le> snd (last (got s'))))"
proof (intro conjI)
  assume r: "mq_reaches s"
  note inv = mq_reaches_inv [OF r]
  show "(\<nexists>s'. mq_step s s') \<longleftrightarrow> mq_status s \<noteq> None" by (rule mq.stops_iff [OF inv])
  show "mq_status s \<noteq> None \<longrightarrow> mset (got s) = mset mq_msgs" using inv mq_lengths [OF inv] by (auto simp: mq_inv_def)
  show "\<forall>f. f 0 = s \<longrightarrow> (\<exists>i. \<not> mq_step (f i) (f (Suc i)))" using mq.no_infinite_run inv by blast
  show "\<forall>s'. mq_step s s' \<longrightarrow> (\<forall>x \<in> set (queue s). length (got s') > length (got s) \<longrightarrow> snd x \<le> snd (last (got s')))"
  proof (intro allI impI ballI)
    fix s' x assume step: "mq_step s s'" and x: "x \<in> set (queue s)" and l: "length (got s) < length (got s')"
    show "snd x \<le> snd (last (got s'))" using step x l mq_first_in [of "queue s"] by (cases rule: mq_step.cases) force+
  qed
qed

text \<open>The receiver need not get the high priority first: it can take the first message before the second is sent.\<close>

lemma mq_low_first: "\<exists>s. mq_reaches s \<and> got s = [(''low'', 0)]"
proof -
  have 1: "mq_reaches \<lparr>queue = [(''low'', 0)], sent = 1, got = [], child_exited = False, mq_status = None\<rparr>"
    using mq_reaches.step [OF mq_reaches.start mq_send] by (simp add: mq_start_def mq_msgs_def)
  show ?thesis
    by (intro exI conjI, rule mq_reaches.step [OF 1 mq_receive]) (simp_all add: mq_first_def top_prio_def)
qed

theorem mq_delivers_witness: "\<exists>s'. mq_step mq_start s'"
  using mq_delivers [OF mq_reaches.start] by (simp add: mq_start_def)

end
