(* ===== verification/Heap_Demos.thy ===== *)
theory Heap_Demos
  imports Mmap_Demos "HOL-Library.Multiset"
begin

text \<open>
  The programs that exercise the heap interface: src/03_stack/03_alloca_vs_vla.c, src/04_heap_malloc/01_malloc_basics.c,
  04_mallopt_tuning.c, 05_mallinfo.c, 07_calloc_realloc.c, 09_tcache_demo.c, 10_double_free.c,
  src/06_brk_sbrk/01_program_break.c, src/12_debugging_tools/04_getrusage_demo.c and 05_mallinfo_dump.c.

  The heap a run has built up is read off its log: the multiset of the blocks the C library has handed out
  and not taken back, or None once a pointer that is not among them has been freed.
\<close>

section \<open>The rest of the malloc family\<close>

text \<open>calloc gives zeroed memory, and the null pointer when the product overflows.  realloc gives a block
  with the old bytes up to the shorter size; the old size, which the library keeps in the block's header, is an
  argument.  When it fails the old block is untouched.\<close>

definition calloc :: "nat \<Rightarrow> nat \<Rightarrow> world \<Rightarrow> addr \<times> world" where
  "calloc n k w =
     (if n * k \<ge> 2 ^ 64 then (NULL, w) else
      let (r, w) = sys ''calloc'' [I (int n), I (int k)] w
      in if nat r = 0 then (NULL, w) else (nat r, map_zero (nat r) (n * k) (PROT_READ + PROT_WRITE) w))"

definition realloc :: "addr \<Rightarrow> nat \<Rightarrow> nat \<Rightarrow> world \<Rightarrow> addr \<times> world" where
  "realloc p old n w =
     (let (r, w) = sys ''realloc'' [I (int p), I (int n)] w; q = nat r in
      if q = 0 then (NULL, w)
      else (q, w\<lparr>ram := (\<lambda>x. if q \<le> x \<and> x < q + n
                      then if x - q < old \<and> p \<noteq> NULL then ram w (p + (x - q))
                           else Some (of_int (os w (log w @ [Sys ''byte'' [I (int x)]])))
                      else ram w x),
                 perm := (\<lambda>x. if q \<le> x \<and> x < q + n then PROT_READ + PROT_WRITE else perm w x)\<rparr>))"

section \<open>01_malloc_basics.c\<close>

definition hexdump :: "string \<Rightarrow> addr \<Rightarrow> nat \<Rightarrow> world \<Rightarrow> world option" where
  "hexdump t p n w = do {
     let w = printf ''%s @ %p : '' [S t, I (int p)] w;
     w \<leftarrow> for_list (\<lambda>i w. do { b \<leftarrow> peek (p + i) w; Some (printf ''%02x '' [I (uint b)] w) }) [0..<n] w;
     Some (puts [] w)}"

definition basics_main :: "world \<Rightarrow> (int \<times> world) option" where
  "basics_main w = do {
     let (a, w) = malloc 8 w;
     w \<leftarrow> hexdump ''after malloc(8)        '' a 8 w;
     let (b, w) = calloc 8 1 w;
     w \<leftarrow> hexdump ''after calloc(8,1)      '' b 8 w;
     let (a, w) = realloc a 8 64 w;
     w \<leftarrow> mem_set a (of_char (CHR ''a'')) 64 w;
     let w = printf ''after realloc(8->64)   @ %p'' [I (int a)] w;
     let (a, w) = realloc a 64 (1024 * 1024) w;
     let w = printf ''after realloc(64->1MiB)@ %p'' [I (int a)] w;
     let w = free a w;
     let w = free b w;
     let w = free NULL w;
     let (z, w) = malloc 0 w;
     let w = printf ''malloc(0) = %p  (still must free!)'' [I (int z)] w;
     Some (0, free z w)}"

section \<open>04_mallopt_tuning.c and 05_mallinfo.c\<close>

definition mallinfo2 :: "world \<Rightarrow> (string \<Rightarrow> int) \<times> world" where
  "mallinfo2 w = (\<lambda>f. field ''mallinfo2'' f w, call ''mallinfo2'' [] w)"

definition mallopt_show :: "string \<Rightarrow> world \<Rightarrow> world" where
  "mallopt_show tag w =
     (let (mi, w) = mallinfo2 w in
      printf ''[%-12s] arena=%zu hblks=%zu hblkhd=%zu  uordblks=%zu  fordblks=%zu''
        [S tag, I (mi ''arena''), I (mi ''hblks''), I (mi ''hblkhd''), I (mi ''uordblks''), I (mi ''fordblks'')] w)"

definition mallopt_main :: "world \<Rightarrow> int \<times> world" where
  "mallopt_main w =
     (let w = mallopt_show ''start'' w;
          w = call ''mallopt'' [S ''M_MMAP_THRESHOLD'', I 4096] w;
          w = mallopt_show ''after mmap_thr=4K'' w;
          (p, w) = malloc_each (replicate 8 (64 * 1024)) w;
          w = mallopt_show ''after big mallocs'' w;
          w = fold free p w;
          w = mallopt_show ''after free'' w;
          w = call ''mallopt'' [S ''M_PERTURB'', I 0xCC] w;
          (q, w) = malloc 32 w;
          w = free q w;
          w = call ''malloc_trim'' [I 0] w
      in (0, mallopt_show ''after trim'' w))"

definition mallinfo_dump :: "string \<Rightarrow> world \<Rightarrow> world" where
  "mallinfo_dump tag w =
     (let (m, w) = mallinfo2 w;
          w = printf ''[%s]'' [S tag] w;
          w = printf ''  arena    = %10zu B  (heap from sbrk)'' [I (m ''arena'')] w;
          w = printf ''  hblks    = %10zu     (# mmap allocs)'' [I (m ''hblks'')] w;
          w = printf ''  hblkhd   = %10zu B  (bytes in mmap allocs)'' [I (m ''hblkhd'')] w;
          w = printf ''  uordblks = %10zu B  (in-use)'' [I (m ''uordblks'')] w;
          w = printf ''  fordblks = %10zu B  (free in heap)'' [I (m ''fordblks'')] w;
          w = printf ''  fsmblks  = %10zu B  (in fastbins)'' [I (m ''fsmblks'')] w;
          w = printf ''  ordblks  = %10zu     (# free chunks)'' [I (m ''ordblks'')] w;
          w = printf ''  smblks   = %10zu     (# fastbin chunks)'' [I (m ''smblks'')] w
      in printf ''  keepcost = %10zu B  (top chunk; releasable)'' [I (m ''keepcost'')] w)"

definition mallinfo_main :: "world \<Rightarrow> int \<times> world" where
  "mallinfo_main w =
     (let w = mallinfo_dump ''start'' w;
          (small, w) = malloc_each (replicate 100 128) w;
          w = mallinfo_dump ''after 100x malloc(128)'' w;
          w = fold free small w;
          w = mallinfo_dump ''after 100x free'' w;
          (big, w) = malloc (8 * 1024 * 1024) w;
          w = mallinfo_dump ''after malloc(8 MiB)'' w;
          w = free big w;
          w = mallinfo_dump ''after free(big)'' w;
          w = eprintf (CHR 0x0A # ''=== malloc_stats() to stderr ==='') [] w
      in (0, call ''malloc_stats'' [] w))"

section \<open>07_calloc_realloc.c\<close>

definition realloc_main :: "world \<Rightarrow> (int \<times> world) option" where
  "realloc_main w = do {
     let (a, w) = calloc 8 1 w;
     bs \<leftarrow> peeks a 4 w;
     let w = printf ''calloc(8,1) = %p  contents: %02x %02x %02x %02x...'' (I (int a) # map (\<lambda>b. I (sint b)) bs) w;
     let w = free a w;
     let (huge, w) = calloc ((2 ^ 64 - 1) div 2) 4 w;
     let w = printf ''calloc(huge,4) = %p (NULL expected)'' [I (int huge)] w;
     let (p, w) = malloc 8 w;
     w \<leftarrow> mem_cpy p (bytes_of ''1234567'') w;
     s \<leftarrow> c_string p w;
     let w = printf ''before realloc: p=%p %s'' [I (int p), S s] w;
     let (p, w) = realloc p 8 16 w;
     s \<leftarrow> c_string p w;
     let w = printf ''after realloc(16): p=%p %s'' [I (int p), S s] w;
     let (p, w) = realloc p 16 (8 * 1024 * 1024) w;
     s \<leftarrow> c_string p w;
     let w = printf ''after realloc(8 MiB): p=%p %s'' [I (int p), S s] w;
     let w = free p w;
     let (q, w) = realloc NULL 0 32 w;
     let w = printf ''realloc(NULL,32) = %p'' [I (int q)] w;
     Some (0, free q w)}"

section \<open>09_tcache_demo.c and 10_double_free.c\<close>

definition tcache_main :: "world \<Rightarrow> int \<times> world" where
  "tcache_main w =
     (let (a, w) = malloc 24 w; (b, w) = malloc 24 w; (c, w) = malloc 24 w;
          w = printf ''alloc:  a=%p  b=%p  c=%p'' [I (int a), I (int b), I (int c)] w;
          w = free a w; w = free b w; w = free c w;
          w = puts ''free order: a then b then c'' w;
          (x, w) = malloc 24 w; (y, w) = malloc 24 w; (z, w) = malloc 24 w;
          w = printf ''realloc: x=%p  y=%p  z=%p'' [I (int x), I (int y), I (int z)] w;
          w = printf ''expect:  x==c (%d), y==b (%d), z==a (%d)''
                [I (of_bool (x = c)), I (of_bool (y = b)), I (of_bool (z = a))] w;
          w = free x w; w = free y w; w = free z w
      in (0, w))"

text \<open>The second free has no defined effect.  glibc looks for one, and stops the program if it finds it
  (\<open>caught\<close>: no exit status, and nothing more is printed); when it does not, what the model keeps of the call
  is its place in the log.\<close>

definition double_free_main :: "bool \<Rightarrow> world \<Rightarrow> int option \<times> world" where
  "double_free_main caught w =
     (let (p, w) = malloc 32 w;
          w = printf ''p = %p'' [I (int p)] w;
          w = free p w;
          w = puts ''first free OK'' w;
          w = free p w
      in if caught then (None, call ''abort'' [] w) else (Some 0, puts ''second free? unreachable'' w))"

section \<open>01_program_break.c, 03_alloca_vs_vla.c\<close>

definition break_show :: "string \<Rightarrow> world \<Rightarrow> world" where
  "break_show t w = (let (b, w) = sbrk 0 w in printf ''[%-20s] sbrk(0) = %p'' [S t, I b] w)"

definition break_main :: "world \<Rightarrow> int \<times> world" where
  "break_main w =
     (let w = break_show ''start'' w;
          (p, w) = malloc 64 w;
          w = break_show ''after malloc(64)'' w;
          (p2, w) = malloc (64 * 1024) w;
          w = break_show ''after malloc(64K)'' w;
          (p3, w) = malloc (200 * 1024) w;
          w = break_show ''after malloc(200K)'' w;
          w = free p w; w = free p2 w; w = free p3 w
      in (0, break_show ''after frees'' w))"

text \<open>A block of the stack frame, and the release of the frame at the return.\<close>

definition frame_block :: "nat \<Rightarrow> world \<Rightarrow> addr \<times> world" where
  "frame_block n w =
     (let (r, w) = sys ''frame'' [I (int n)] w
      in (nat r, w\<lparr>ram := (\<lambda>x. if nat r \<le> x \<and> x < nat r + n
                        then Some (of_int (os w (log w @ [Sys ''byte'' [I (int x)]]))) else ram w x),
                   perm := (\<lambda>x. if nat r \<le> x \<and> x < nat r + n then PROT_READ + PROT_WRITE else perm w x)\<rparr>))"

definition frame_release :: "addr \<Rightarrow> nat \<Rightarrow> world \<Rightarrow> world" where
  "frame_release p n w = w\<lparr>ram := (\<lambda>x. if p \<le> x \<and> x < p + n then None else ram w x)\<rparr>"

definition use_malloc :: "nat \<Rightarrow> world \<Rightarrow> world option" where
  "use_malloc n w = do {
     let (p, w) = malloc n w;
     w \<leftarrow> mem_set p (of_char (CHR ''M'')) n w;
     let w = printf ''  malloc  -> %p (heap)'' [I (int p)] w;
     Some (free p w)}"

definition use_alloca :: "nat \<Rightarrow> world \<Rightarrow> world option" where
  "use_alloca n w = do {
     let (p, w) = frame_block n w;
     w \<leftarrow> mem_set p (of_char (CHR ''A'')) n w;
     let w = printf ''  alloca  -> %p (stack)'' [I (int p)] w;
     Some (frame_release p n w)}"

definition use_vla :: "nat \<Rightarrow> world \<Rightarrow> world option" where
  "use_vla n w = do {
     let (p, w) = frame_block n w;
     w \<leftarrow> mem_set p (of_char (CHR ''V'')) n w;
     let w = printf ''  VLA     -> %p (stack)'' [I (int p)] w;
     Some (frame_release p n w)}"

definition alloca_main :: "world \<Rightarrow> (int \<times> world) option" where
  "alloca_main w = do {
     let n = 1024;
     let (stack_anchor, w) = frame_block 4 w;
     let w = printf ''&stack_anchor = %p (reference)'' [I (int stack_anchor)] w;
     w \<leftarrow> use_malloc n w;
     w \<leftarrow> use_alloca n w;
     w \<leftarrow> use_vla n w;
     Some (0, w)}"

section \<open>04_getrusage_demo.c and 05_mallinfo_dump.c\<close>

definition usage_show :: "string \<Rightarrow> world \<Rightarrow> world" where
  "usage_show t w =
     (let f = (\<lambda>fld. field ''getrusage'' fld w); w = call ''getrusage'' [] w in
      printf ''[%-15s] maxrss=%-8ld KiB  minflt=%-8ld majflt=%ld   utime=%ld.%06lds''
        [S t, I (f ''ru_maxrss''), I (f ''ru_minflt''), I (f ''ru_majflt''), I (f ''ru_utime.tv_sec''), I (f ''ru_utime.tv_usec'')] w)"

definition usage_main :: "world \<Rightarrow> (int \<times> world) option" where
  "usage_main w = do {
     let w = usage_show ''start'' w;
     let n = 256 * 2 ^ 20;
     let (p, w) = malloc n w;
     w \<leftarrow> mem_set p 1 n w;
     let w = usage_show ''after 256M'' w;
     s \<leftarrow> for_list (\<lambda>i s. do { b \<leftarrow> peek (p + i * 64) w; Some (s + sint b) }) [0..<n div 64] 0;
     let w = usage_show ''after sweep'' w;
     let w = free p w;
     Some (0, usage_show ''after free'' w)}"

definition info_main :: "world \<Rightarrow> int \<times> world" where
  "info_main w =
     (let (p, w) = malloc_each (map (\<lambda>i. 64 + i) [0..<1000]) w;
          (mi, w) = mallinfo2 w;
          w = puts ''=== mallinfo2 ==='' w;
          w = printf ''  arena    = %zu'' [I (mi ''arena'')] w;
          w = printf ''  hblks    = %zu'' [I (mi ''hblks'')] w;
          w = printf ''  hblkhd   = %zu'' [I (mi ''hblkhd'')] w;
          w = printf ''  uordblks = %zu'' [I (mi ''uordblks'')] w;
          w = printf ''  fordblks = %zu'' [I (mi ''fordblks'')] w;
          w = printf ''  keepcost = %zu'' [I (mi ''keepcost'')] w;
          w = puts (CHR 0x0A # ''=== malloc_stats() to stderr ==='') w;
          w = call ''malloc_stats'' [] w;
          w = puts (CHR 0x0A # ''=== malloc_info() to stderr ==='') w;
          w = call ''malloc_info'' [I 0] w
      in (0, fold free p w))"

section \<open>The heap of a log\<close>

text \<open>One event changes the blocks in use: an allocation adds the address returned unless it is null, realloc
  replaces one, free removes one.  Giving back an address that is not in use is None.\<close>

definition take_back :: "nat \<Rightarrow> nat multiset \<Rightarrow> nat multiset option" where
  "take_back p H = (if p = NULL then Some H else if p \<in># H then Some (H - {#p#}) else None)"

definition hand_out :: "nat \<Rightarrow> nat multiset \<Rightarrow> nat multiset" where
  "hand_out p H = (if p = NULL then H else add_mset p H)"

fun heap_event :: "int \<Rightarrow> event \<Rightarrow> nat multiset \<Rightarrow> nat multiset option" where
  "heap_event r (Sys f as) H =
     (if f = ''malloc'' \<or> f = ''calloc'' then Some (hand_out (nat r) H)
      else if f = ''free'' then (case as of I p # _ \<Rightarrow> take_back (nat p) H | _ \<Rightarrow> Some H)
      else if f = ''realloc'' then
        (case as of I p # _ \<Rightarrow> if nat r = NULL then Some H else map_option (hand_out (nat r)) (take_back (nat p) H)
         | _ \<Rightarrow> Some H)
      else Some H)"
| "heap_event r (Out f as) H = Some H"
| "heap_event r (Err f as) H = Some H"

fun heap_rev :: "(event list \<Rightarrow> int) \<Rightarrow> event list \<Rightarrow> nat multiset option" where
  "heap_rev ans [] = Some {#}"
| "heap_rev ans (e # es) = do { H \<leftarrow> heap_rev ans es; heap_event (ans (rev (e # es))) e H }"

definition blocks :: "world \<Rightarrow> nat multiset option" where
  "blocks w = heap_rev (os w) (rev (log w))"

definition heap_op :: "string \<Rightarrow> bool" where
  "heap_op f \<longleftrightarrow> f \<in> {''malloc'', ''calloc'', ''realloc'', ''free''}"

named_theorems heap_simps

lemma blocks_cong: "os w = os w' \<Longrightarrow> log w = log w' \<Longrightarrow> blocks w = blocks w'"
  by (simp add: blocks_def)

lemma blocks_updates [simp]:
  "blocks (w\<lparr>ram := x\<rparr>) = blocks w" "blocks (w\<lparr>perm := y\<rparr>) = blocks w" "blocks (map_zero a n p w) = blocks w"
  by (simp_all add: blocks_def map_zero_def)

lemma blocks_log:
  "blocks (w\<lparr>log := log w @ [e]\<rparr>) = do { H \<leftarrow> blocks w; heap_event (os w (log w @ [e])) e H }"
  by (simp add: blocks_def)

lemma blocks_output [simp]:
  "blocks (printf f as w) = blocks w" "blocks (eprintf f as w) = blocks w" "blocks (perror f w) = blocks w"
  by (cases "blocks w"; simp add: printf_def eprintf_def perror_def blocks_log)+

lemma blocks_call [simp]: "\<not> heap_op f \<Longrightarrow> blocks (call f as w) = blocks w"
  by (simp add: call_simp blocks_log heap_op_def)

lemma blocks_sys [simp]: "\<not> heap_op f \<Longrightarrow> blocks (snd (sys f as w)) = blocks w"
  by (simp add: sys_simp blocks_log heap_op_def)

lemma blocks_free: "blocks (free p w) = do { H \<leftarrow> blocks w; take_back p H }"
  by (simp add: free_def call_simp blocks_log)

lemma blocks_mem [simp]:
  "mem_set a b n w = Some w' \<Longrightarrow> blocks w' = blocks w" "mem_cpy a bs w = Some w' \<Longrightarrow> blocks w' = blocks w"
  by (auto simp: mem_set_def mem_cpy_def split: if_splits)

text \<open>The library never runs out of memory.\<close>

definition never_full :: "world \<Rightarrow> bool" where
  "never_full w \<longleftrightarrow> (\<forall>l f as. f \<in> {''malloc'', ''calloc'', ''realloc''} \<longrightarrow> 0 < os w (l @ [Sys f as]))"


definition heap_at :: "world \<Rightarrow> nat multiset \<Rightarrow> bool" where
  "heap_at w H \<longleftrightarrow> blocks w = Some H \<and> never_full w"

lemma never_full_updates [simp]:
  "never_full (w\<lparr>log := l\<rparr>) = never_full w" "never_full (w\<lparr>ram := x\<rparr>) = never_full w" "never_full (w\<lparr>perm := y\<rparr>) = never_full w"
  by (simp_all add: never_full_def)

lemma heap_at_same [simp]:
  "heap_at (printf f as w) H = heap_at w H" "heap_at (eprintf f as w) H = heap_at w H" "heap_at (perror f w) H = heap_at w H"
  "\<not> heap_op g \<Longrightarrow> heap_at (call g as w) H = heap_at w H" "\<not> heap_op g \<Longrightarrow> heap_at (snd (sys g as w)) H = heap_at w H"
  "heap_at (w\<lparr>ram := x\<rparr>) H = heap_at w H" "heap_at (w\<lparr>perm := y\<rparr>) H = heap_at w H"
proof -
  have "never_full (printf f as w) = never_full w" "never_full (eprintf f as w) = never_full w" "never_full (perror f w) = never_full w"
    "never_full (call g as w) = never_full w" "never_full (snd (sys g as w)) = never_full w"
    by (simp_all add: printf_def eprintf_def perror_def call_simp sys_simp)
  then show "heap_at (printf f as w) H = heap_at w H" "heap_at (eprintf f as w) H = heap_at w H" "heap_at (perror f w) H = heap_at w H"
    "\<not> heap_op g \<Longrightarrow> heap_at (call g as w) H = heap_at w H" "\<not> heap_op g \<Longrightarrow> heap_at (snd (sys g as w)) H = heap_at w H"
    by (simp_all add: heap_at_def)
qed (simp_all add: heap_at_def)

lemma heap_op_simps [simp]:
  "\<not> heap_op ''mallinfo2''" "\<not> heap_op ''mallopt''" "\<not> heap_op ''malloc_trim''" "\<not> heap_op ''malloc_stats''"
  "\<not> heap_op ''malloc_info''" "\<not> heap_op ''getrusage''" "\<not> heap_op ''sbrk''" "\<not> heap_op ''frame''"
  by (simp_all add: heap_op_def)

lemma malloc_run:
  assumes "heap_at w H"
  obtains p w1 where "malloc n w = (p, w1)" "heap_at w1 (add_mset p H)" "rw_range w1 p n" "0 < p" "printed w1 = printed w"
proof -
  let ?l = "log w @ [Sys ''malloc'' [I (int n)]]"
  have r: "0 < os w ?l" using assms by (simp add: heap_at_def never_full_def)
  show thesis
    by (rule that [of "nat (os w ?l)" "snd (malloc n w)"])
      (use assms r in \<open>simp_all add: malloc_def sys_simp Let_def heap_at_def blocks_def hand_out_def rw_range_def printed_def\<close>)
qed

lemma calloc_run:
  assumes "heap_at w H" "n * k < 2 ^ 64"
  obtains p w1 where "calloc n k w = (p, w1)" "heap_at w1 (add_mset p H)" "rw_range w1 p (n * k)" "0 < p" "printed w1 = printed w"
    "holds w1 p (replicate (n * k) 0)"
proof -
  let ?l = "log w @ [Sys ''calloc'' [I (int n), I (int k)]]"
  have r: "0 < os w ?l" using assms by (simp add: heap_at_def never_full_def)
  show thesis
    by (rule that [of "nat (os w ?l)" "snd (calloc n k w)"])
      (use assms r in \<open>simp_all add: calloc_def sys_simp Let_def heap_at_def blocks_def hand_out_def rw_range_def
        printed_def map_zero_def holds_def readable_def\<close>)
qed

lemma realloc_run:
  assumes "heap_at w (add_mset p H)" "0 < p" "rw_range w p old" "holds w p bs" "length bs \<le> old" "length bs \<le> n"
  obtains q w1 where "realloc p old n w = (q, w1)" "heap_at w1 (add_mset q H)" "rw_range w1 q n" "0 < q" "printed w1 = printed w"
    "holds w1 q bs"
proof -
  let ?l = "log w @ [Sys ''realloc'' [I (int p), I (int n)]]"
  let ?q = "nat (os w ?l)"
  have r: "0 < os w ?l" using assms by (simp add: heap_at_def never_full_def)
  have m: "ram w (p + i) \<noteq> None" "perm w (p + i) = PROT_READ + PROT_WRITE" if "i < old" for i
    using assms(3) that by (auto simp: rw_range_def)
  have "ram w (p + x - ?q) \<noteq> None" if "?q \<le> x" "x - ?q < old" for x
    using m(1) [OF that(2)] that(1) by simp
  then have rw: "rw_range (snd (realloc p old n w)) ?q n"
    using r assms(2) by (auto simp: realloc_def sys_simp Let_def rw_range_def)
  have h: "holds (snd (realloc p old n w)) ?q bs" unfolding holds_def
  proof (intro allI impI)
    fix i assume i: "i < length bs"
    then have "readable w (p + i) = Some (bs ! i)" using assms(4) by (simp add: holds_def)
    then show "readable (snd (realloc p old n w)) (?q + i) = Some (bs ! i)"
      using i assms(2,5,6) r m(2) [of i] by (auto simp: realloc_def sys_simp Let_def readable_def)
  qed
  show thesis
    by (rule that [of ?q "snd (realloc p old n w)"])
      (use assms r rw h in \<open>simp_all add: realloc_def sys_simp Let_def heap_at_def blocks_def hand_out_def take_back_def printed_def\<close>)
qed

lemma realloc_null_run:
  assumes "heap_at w H"
  obtains q w1 where "realloc NULL 0 n w = (q, w1)" "heap_at w1 (add_mset q H)" "0 < q" "printed w1 = printed w"
proof -
  let ?l = "log w @ [Sys ''realloc'' [I (int NULL), I (int n)]]"
  have r: "0 < os w ?l" using assms by (simp add: heap_at_def never_full_def)
  show thesis
    by (rule that [of "nat (os w ?l)" "snd (realloc NULL 0 n w)"])
      (use assms r in \<open>simp_all add: realloc_def sys_simp Let_def heap_at_def blocks_def hand_out_def take_back_def printed_def\<close>)
qed

lemma free_run: "heap_at w (add_mset p H) \<Longrightarrow> 0 < p \<Longrightarrow> heap_at (free p w) H"
  by (simp add: heap_at_def blocks_free take_back_def) (simp add: free_def call_simp)

lemma free_keeps [simp]: "printed (free p w) = printed w"
  by (simp add: free_def)


lemma malloc_each_run:
  "heap_at w H \<Longrightarrow> \<exists>ps w1. malloc_each ns w = (ps, w1) \<and> heap_at w1 (mset ps + H) \<and> (\<forall>p \<in> set ps. 0 < p)"
proof (induction ns arbitrary: w H)
  case (Cons n ns)
  obtain p w1 where p: "malloc n w = (p, w1)" "heap_at w1 (add_mset p H)" "0 < p" using malloc_run [OF Cons.prems] by metis
  obtain ps w2 where "malloc_each ns w1 = (ps, w2)" "heap_at w2 (mset ps + add_mset p H)" "\<forall>p \<in> set ps. 0 < p"
    using Cons.IH [OF p(2)] by blast
  with p show ?case by simp
qed simp

lemma free_all: "heap_at w (mset ps + H) \<Longrightarrow> \<forall>p \<in> set ps. 0 < p \<Longrightarrow> heap_at (fold free ps w) H"
proof (induction ps arbitrary: w)
  case (Cons p ps)
  have "heap_at (free p w) (mset ps + H)" by (rule free_run) (use Cons.prems in simp_all)
  then show ?case using Cons by simp
qed simp

lemma mem_set_run:
  assumes "rw_range w p n" "k \<le> n" "heap_at w H"
  obtains w1 where "mem_set p b k w = Some w1" "heap_at w1 H" "rw_range w1 p n" "printed w1 = printed w"
  using rw_writable [OF assms(1,2)] assms by (auto simp: mem_set_def rw_range_def)

lemma shows_heap [simp]:
  "heap_at (mallopt_show t w) H = heap_at w H" "heap_at (mallinfo_dump t w) H = heap_at w H"
  "heap_at (usage_show t w) H = heap_at w H" "heap_at (break_show t w) H = heap_at w H"
  by (simp_all add: mallopt_show_def mallinfo_dump_def mallinfo2_def usage_show_def break_show_def sbrk_def Let_def case_prod_unfold)

lemma rw_printf [simp]: "rw_range (usage_show t w) p n = rw_range w p n"
  by (simp add: usage_show_def Let_def)

section \<open>Every block is given back\<close>

lemma mallopt_heap: "heap_at w H \<Longrightarrow> fst (mallopt_main w) = 0 \<and> heap_at (snd (mallopt_main w)) H"
proof -
  assume "heap_at w H"
  then obtain ps w1 where 1: "malloc_each (replicate 8 (64 * 1024)) (mallopt_show ''after mmap_thr=4K''
      (call ''mallopt'' [S ''M_MMAP_THRESHOLD'', I 4096] (mallopt_show ''start'' w))) = (ps, w1)"
      "heap_at w1 (mset ps + H)" "\<forall>p \<in> set ps. 0 < p"
    using malloc_each_run by (metis heap_at_same(4) heap_op_simps(2) shows_heap(1))
  let ?w2 = "call ''mallopt'' [S ''M_PERTURB'', I 0xCC] (mallopt_show ''after free'' (fold free ps (mallopt_show ''after big mallocs'' w1)))"
  have "heap_at ?w2 H" using free_all [of "mallopt_show ''after big mallocs'' w1" ps H] 1 by simp
  then obtain q w3 where "malloc 32 ?w2 = (q, w3)" "heap_at w3 (add_mset q H)" "0 < q" using malloc_run by metis
  then show ?thesis using 1(1) free_run by (simp add: mallopt_main_def Let_def)
qed

lemma mallinfo_heap: "heap_at w H \<Longrightarrow> fst (mallinfo_main w) = 0 \<and> heap_at (snd (mallinfo_main w)) H"
proof -
  assume "heap_at w H"
  then obtain ps w1 where 1: "malloc_each (replicate 100 128) (mallinfo_dump ''start'' w) = (ps, w1)"
      "heap_at w1 (mset ps + H)" "\<forall>p \<in> set ps. 0 < p"
    using malloc_each_run by (metis shows_heap(2))
  let ?w2 = "mallinfo_dump ''after 100x free'' (fold free ps (mallinfo_dump ''after 100x malloc(128)'' w1))"
  have "heap_at ?w2 H" using free_all [of "mallinfo_dump ''after 100x malloc(128)'' w1" ps H] 1 by simp
  then obtain q w3 where q: "malloc (8 * 1024 * 1024) ?w2 = (q, w3)" "heap_at w3 (add_mset q H)" "0 < q" using malloc_run by metis
  then have "heap_at (free q (mallinfo_dump ''after malloc(8 MiB)'' w3)) H" by (intro free_run) simp_all
  then show ?thesis using 1(1) q(1) by (simp add: mallinfo_main_def Let_def)
qed

lemma info_heap: "heap_at w H \<Longrightarrow> fst (info_main w) = 0 \<and> heap_at (snd (info_main w)) H"
proof -
  assume "heap_at w H"
  then obtain ps w1 where 1: "malloc_each (map (\<lambda>i. 64 + i) [0..<1000]) w = (ps, w1)"
      "heap_at w1 (mset ps + H)" "\<forall>p \<in> set ps. 0 < p"
    using malloc_each_run by metis
  show ?thesis unfolding info_main_def 1(1) Let_def prod.case
    using 1 by (auto intro!: free_all simp: mallinfo2_def simp del: upt_rec_numeral)
qed


lemma free_three:
  assumes "heap_at w (add_mset c (add_mset b (add_mset a H)))" "0 < a" "0 < b" "0 < c"
  shows "heap_at (free c (free b (free a w))) H"
proof -
  have e: "add_mset c (add_mset b (add_mset a H)) = add_mset a (add_mset b (add_mset c H))" by (simp add: add_mset_commute)
  have "heap_at w (add_mset a (add_mset b (add_mset c H)))" using assms(1) unfolding e .
  then show ?thesis using assms(2-4) by (intro free_run)
qed

lemma break_heap: "heap_at w H \<Longrightarrow> fst (break_main w) = 0 \<and> heap_at (snd (break_main w)) H"
proof -
  assume "heap_at w H"
  then have "heap_at (break_show ''start'' w) H" by simp
  then obtain p w1 where 1: "malloc 64 (break_show ''start'' w) = (p, w1)" "heap_at w1 (add_mset p H)" "0 < p"
    by (rule malloc_run)
  from 1(2) have "heap_at (break_show ''after malloc(64)'' w1) (add_mset p H)" by simp
  then obtain p2 w2 where 2: "malloc (64 * 1024) (break_show ''after malloc(64)'' w1) = (p2, w2)"
      "heap_at w2 (add_mset p2 (add_mset p H))" "0 < p2"
    by (rule malloc_run)
  from 2(2) have "heap_at (break_show ''after malloc(64K)'' w2) (add_mset p2 (add_mset p H))" by simp
  then obtain p3 w3 where 3: "malloc (200 * 1024) (break_show ''after malloc(64K)'' w2) = (p3, w3)"
      "heap_at w3 (add_mset p3 (add_mset p2 (add_mset p H)))" "0 < p3"
    by (rule malloc_run)
  have "heap_at (free p3 (free p2 (free p (break_show ''after malloc(200K)'' w3)))) H"
    using 1(3) 2(3) 3(2,3) by (intro free_three) simp_all
  then show ?thesis unfolding break_main_def Let_def 1(1) 2(1) 3(1) prod.case by simp
qed

lemma tcache_heap: "heap_at w H \<Longrightarrow> fst (tcache_main w) = 0 \<and> heap_at (snd (tcache_main w)) H"
proof -
  have three: "\<exists>a b c w1 w2 w3. malloc 24 w = (a, w1) \<and> malloc 24 w1 = (b, w2) \<and> malloc 24 w2 = (c, w3) \<and>
      0 < a \<and> 0 < b \<and> 0 < c \<and> heap_at w3 (add_mset c (add_mset b (add_mset a H)))" if w: "heap_at w H" for w
  proof -
    obtain a w1 where 1: "malloc 24 w = (a, w1)" "heap_at w1 (add_mset a H)" "0 < a" by (rule malloc_run [OF w])
    obtain b w2 where 2: "malloc 24 w1 = (b, w2)" "heap_at w2 (add_mset b (add_mset a H))" "0 < b" by (rule malloc_run [OF 1(2)])
    obtain c w3 where 3: "malloc 24 w2 = (c, w3)" "heap_at w3 (add_mset c (add_mset b (add_mset a H)))" "0 < c"
      by (rule malloc_run [OF 2(2)])
    show ?thesis using 1(1,3) 2(1,3) 3 by blast
  qed
  assume "heap_at w H"
  from three [OF this] obtain a b c w1 w2 w3 where 1: "malloc 24 w = (a, w1)" "malloc 24 w1 = (b, w2)" "malloc 24 w2 = (c, w3)"
    "0 < a" "0 < b" "0 < c" "heap_at w3 (add_mset c (add_mset b (add_mset a H)))" by blast
  let ?w4 = "puts ''free order: a then b then c'' (free c (free b (free a
    (printf ''alloc:  a=%p  b=%p  c=%p'' [I (int a), I (int b), I (int c)] w3))))"
  have "heap_at (free c (free b (free a (printf ''alloc:  a=%p  b=%p  c=%p'' [I (int a), I (int b), I (int c)] w3)))) H"
    using 1(4-7) by (intro free_three) simp_all
  then have "heap_at ?w4 H" by simp
  from three [OF this] obtain x y z w5 w6 w7 where 2: "malloc 24 ?w4 = (x, w5)" "malloc 24 w5 = (y, w6)" "malloc 24 w6 = (z, w7)"
    "0 < x" "0 < y" "0 < z" "heap_at w7 (add_mset z (add_mset y (add_mset x H)))" by blast
  have "heap_at (free z (free y (free x (printf f as (printf g bs w7))))) H" for f as g bs
    using 2(4-7) by (intro free_three) simp_all
  then show ?thesis unfolding tcache_main_def 1(1-3) Let_def prod.case 2(1-3) by simp
qed

lemma usage_heap: "heap_at w H \<Longrightarrow> \<exists>w'. usage_main w = Some (0, w') \<and> heap_at w' H"
proof -
  let ?n = "256 * 2 ^ 20 :: nat"
  assume "heap_at w H"
  then have "heap_at (usage_show ''start'' w) H" by simp
  then obtain p w1 where 1: "malloc ?n (usage_show ''start'' w) = (p, w1)" "heap_at w1 (add_mset p H)" "rw_range w1 p ?n" "0 < p"
    by (rule malloc_run)
  obtain w2 where 2: "mem_set p 1 ?n w1 = Some w2" "heap_at w2 (add_mset p H)" "rw_range w2 p ?n"
    by (rule mem_set_run [OF 1(3) order_refl 1(2)])
  let ?w3 = "usage_show ''after 256M'' w2"
  have "\<exists>s. for_list (\<lambda>i s. do { b \<leftarrow> peek (p + i * 64) ?w3; Some (s + sint b) }) [0..<?n div 64] 0 = Some s \<and> True"
  proof (rule for_list_runs [where P = "\<lambda>_. True"])
    fix i :: nat and s :: int assume "i \<in> set [0..<?n div 64]"
    then have "p \<le> p + i * 64 \<and> p + i * 64 < p + ?n" by auto
    moreover have "rw_range ?w3 p ?n" using 2(3) by simp
    ultimately have "ram ?w3 (p + i * 64) \<noteq> None \<and> perm ?w3 (p + i * 64) = PROT_READ + PROT_WRITE"
      unfolding rw_range_def by blast
    then obtain b where "peek (p + i * 64) ?w3 = Some b" using peek_mapped [of ?w3 "p + i * 64"] by auto
    then show "\<exists>s'. (do { b \<leftarrow> peek (p + i * 64) ?w3; Some (s + sint b) }) = Some s' \<and> True" by simp
  qed simp
  then obtain s where s: "for_list (\<lambda>i s. do { b \<leftarrow> peek (p + i * 64) ?w3; Some (s + sint b) }) [0..<?n div 64] 0 = Some s" by blast
  have "heap_at (free p (usage_show ''after sweep'' ?w3)) H" using 2 1(4) by (intro free_run) simp_all
  moreover have "usage_main w = Some (0, usage_show ''after free'' (free p (usage_show ''after sweep'' ?w3)))"
    unfolding usage_main_def Let_def 1(1) prod.case 2(1) bind.bind_lunit s by simp
  ultimately show ?thesis by simp
qed

lemma frame_run:
  assumes "heap_at w H"
  obtains p w1 where "frame_block n w = (p, w1)" "heap_at w1 H" "rw_range w1 p n"
proof -
  let ?l = "log w @ [Sys ''frame'' [I (int n)]]"
  show thesis
    by (rule that [of "nat (os w ?l)" "snd (frame_block n w)"])
      (use assms heap_at_same(5) [of "''frame''" "[I (int n)]" w H] in \<open>simp_all add: frame_block_def sys_simp Let_def rw_range_def\<close>)
qed

lemma use_heap:
  assumes "heap_at w H"
  shows "\<exists>w'. use_malloc n w = Some w' \<and> heap_at w' H" "\<exists>w'. use_alloca n w = Some w' \<and> heap_at w' H"
    "\<exists>w'. use_vla n w = Some w' \<and> heap_at w' H"
proof -
  obtain p w1 where 1: "malloc n w = (p, w1)" "heap_at w1 (add_mset p H)" "rw_range w1 p n" "0 < p" by (rule malloc_run [OF assms])
  obtain w2 where 2: "mem_set p (of_char (CHR ''M'')) n w1 = Some w2" "heap_at w2 (add_mset p H)"
    by (rule mem_set_run [OF 1(3) order_refl 1(2)])
  have "heap_at (free p (printf ''  malloc  -> %p (heap)'' [I (int p)] w2)) H" using 1(4) 2(2) by (intro free_run) simp_all
  then show "\<exists>w'. use_malloc n w = Some w' \<and> heap_at w' H" using 1(1) 2(1) by (simp add: use_malloc_def Let_def)
  obtain q v1 where 3: "frame_block n w = (q, v1)" "heap_at v1 H" "rw_range v1 q n" by (rule frame_run [OF assms])
  obtain v2 where "mem_set q (of_char (CHR ''A'')) n v1 = Some v2" "heap_at v2 H" by (rule mem_set_run [OF 3(3) order_refl 3(2)])
  then show "\<exists>w'. use_alloca n w = Some w' \<and> heap_at w' H" using 3(1) by (simp add: use_alloca_def frame_release_def Let_def)
  obtain v3 where "mem_set q (of_char (CHR ''V'')) n v1 = Some v3" "heap_at v3 H" by (rule mem_set_run [OF 3(3) order_refl 3(2)])
  then show "\<exists>w'. use_vla n w = Some w' \<and> heap_at w' H" using 3(1) by (simp add: use_vla_def frame_release_def Let_def)
qed

lemma alloca_heap: "heap_at w H \<Longrightarrow> \<exists>w'. alloca_main w = Some (0, w') \<and> heap_at w' H"
proof -
  assume "heap_at w H"
  then obtain a w1 where 1: "frame_block 4 w = (a, w1)" "heap_at w1 H" by (rule frame_run)
  let ?w1 = "printf ''&stack_anchor = %p (reference)'' [I (int a)] w1"
  obtain w2 where 2: "use_malloc 1024 ?w1 = Some w2" "heap_at w2 H" using use_heap(1) [of ?w1 H 1024] 1(2) by auto
  obtain w3 where 3: "use_alloca 1024 w2 = Some w3" "heap_at w3 H" using use_heap(2) [OF 2(2), of 1024] by blast
  obtain w4 where 4: "use_vla 1024 w3 = Some w4" "heap_at w4 H" using use_heap(3) [OF 3(2), of 1024] by blast
  show ?thesis using 1(1) 2(1) 3(1) 4 by (simp add: alloca_main_def Let_def)
qed


lemma hexdump_run:
  assumes "rw_range w p n" "heap_at w H"
  obtains w1 where "hexdump t p n w = Some w1" "heap_at w1 H" "ram w1 = ram w" "perm w1 = perm w"
proof -
  let ?P = "\<lambda>v. ram v = ram w \<and> perm v = perm w \<and> heap_at v H"
  have "\<exists>w'. for_list (\<lambda>i w. do { b \<leftarrow> peek (p + i) w; Some (printf ''%02x '' [I (uint b)] w) }) [0..<n]
      (printf ''%s @ %p : '' [S t, I (int p)] w) = Some w' \<and> ?P w'"
  proof (rule for_list_runs [where P = ?P])
    fix i s assume i: "i \<in> set [0..<n]" and P: "?P s"
    then have "ram s (p + i) \<noteq> None \<and> perm s (p + i) = PROT_READ + PROT_WRITE" using assms(1) by (simp add: rw_range_def)
    then obtain b where "peek (p + i) s = Some b" using peek_mapped [of s "p + i"] by auto
    then show "\<exists>s'. (do { b \<leftarrow> peek (p + i) s; Some (printf ''%02x '' [I (uint b)] s) }) = Some s' \<and> ?P s'" using P by simp
  qed (use assms in simp)
  then show thesis using that by (auto simp: hexdump_def)
qed

lemma rw_range_same: "ram w1 = ram w \<Longrightarrow> perm w1 = perm w \<Longrightarrow> rw_range w1 p n = rw_range w p n"
  by (simp add: rw_range_def)

lemma rw_calloc: "calloc n k w = (p, w1) \<Longrightarrow> rw_range w a m \<Longrightarrow> rw_range w1 a m"
  by (auto simp: calloc_def sys_simp Let_def rw_range_def map_zero_def split: if_splits)

lemma basics_heap: "heap_at w H \<Longrightarrow> \<exists>w'. basics_main w = Some (0, w') \<and> heap_at w' H"
proof -
  assume "heap_at w H"
  then obtain a w1 where 1: "malloc 8 w = (a, w1)" "heap_at w1 (add_mset a H)" "rw_range w1 a 8" "0 < a" by (rule malloc_run)
  obtain w2 where 2: "hexdump ''after malloc(8)        '' a 8 w1 = Some w2" "heap_at w2 (add_mset a H)" "ram w2 = ram w1" "perm w2 = perm w1"
    by (rule hexdump_run [OF 1(3,2)])
  have a2: "rw_range w2 a 8" using 1(3) rw_range_same [OF 2(3,4)] by simp
  obtain b w3 where 3: "calloc 8 1 w2 = (b, w3)" "heap_at w3 (add_mset b (add_mset a H))" "rw_range w3 b (8 * 1)" "0 < b"
    by (rule calloc_run [OF 2(2), of 8 1]) simp_all
  from 3(3) have b3: "rw_range w3 b 8" by simp
  obtain w4 where 4: "hexdump ''after calloc(8,1)      '' b 8 w3 = Some w4" "heap_at w4 (add_mset b (add_mset a H))"
      "ram w4 = ram w3" "perm w4 = perm w3"
    by (rule hexdump_run [OF b3 3(2)])
  have a4: "rw_range w4 a 8" using rw_calloc [OF 3(1) a2] rw_range_same [OF 4(3,4)] by simp
  have h4: "heap_at w4 (add_mset a (add_mset b H))" using 4(2) by (simp add: add_mset_commute)
  obtain c w5 where 5: "realloc a 8 64 w4 = (c, w5)" "heap_at w5 (add_mset c (add_mset b H))" "rw_range w5 c 64" "0 < c"
    by (rule realloc_run [OF h4 1(4) a4, of "[]" 64]) (simp_all add: holds_def)
  obtain w6 where 6: "mem_set c (of_char (CHR ''a'')) 64 w5 = Some w6" "heap_at w6 (add_mset c (add_mset b H))" "rw_range w6 c 64"
    by (rule mem_set_run [OF 5(3) order_refl 5(2)])
  let ?w6 = "printf ''after realloc(8->64)   @ %p'' [I (int c)] w6"
  have h6: "heap_at ?w6 (add_mset c (add_mset b H))" "rw_range ?w6 c 64" using 6 by simp_all
  obtain d w7 where 7: "realloc c 64 (1024 * 1024) ?w6 = (d, w7)" "heap_at w7 (add_mset d (add_mset b H))" "0 < d"
    by (rule realloc_run [OF h6(1) 5(4) h6(2), of "[]" "1024 * 1024"]) (simp_all add: holds_def)
  let ?w8 = "free b (free d (printf ''after realloc(64->1MiB)@ %p'' [I (int d)] w7))"
  have "heap_at ?w8 H" using 7(2,3) 3(4) by (intro free_run) simp_all
  then have h8: "heap_at (free NULL ?w8) H"
    by (simp add: heap_at_def blocks_free take_back_def) (simp add: free_def call_simp)
  obtain z w9 where 9: "malloc 0 (free NULL ?w8) = (z, w9)" "heap_at w9 (add_mset z H)" "0 < z" by (rule malloc_run [OF h8])
  have "heap_at (free z (printf ''malloc(0) = %p  (still must free!)'' [I (int z)] w9)) H" using 9 by (intro free_run) simp_all
  moreover have "basics_main w = Some (0, free z (printf ''malloc(0) = %p  (still must free!)'' [I (int z)] w9))"
    unfolding basics_main_def Let_def 1(1) 2(1) 3(1) 4(1) 5(1) 6(1) 7(1) 9(1) prod.case bind.bind_lunit by simp
  ultimately show ?thesis by blast
qed

text \<open>The second free of 10_double_free.c gives back a block that is not in use.\<close>

lemma double_free_none: "heap_at w H \<Longrightarrow> (\<forall>p. p \<notin># H) \<Longrightarrow> blocks (snd (double_free_main caught w)) = None"
proof -
  assume "heap_at w H" and H: "\<forall>p. p \<notin># H"
  then obtain p w1 where p: "malloc 32 w = (p, w1)" "heap_at w1 (add_mset p H)" "0 < p" by (metis malloc_run)
  have "heap_at (free p (printf ''p = %p'' [I (int p)] w1)) H" using p by (intro free_run) simp_all
  then show ?thesis using p(1,3) H by (simp add: double_free_main_def Let_def heap_at_def blocks_free take_back_def heap_op_def)
qed

text \<open>realloc keeps the string, wherever it puts the block.\<close>

lemma realloc_main_printed:
  "heap_at w H \<Longrightarrow> \<exists>w'. realloc_main w = Some (0, w') \<and> heap_at w' H \<and>
    last_strings (printed w') = last_strings (printed w) @ [''1234567'', ''1234567'', ''1234567'']"
proof -
  let ?bs = "bytes_of ''1234567''"
  have len: "length ?bs = 8" by (simp add: bytes_of_def)
  have no: "nul \<notin> set ''1234567''" by simp
  assume "heap_at w H"
  then obtain a w1 where 1: "calloc 8 1 w = (a, w1)" "heap_at w1 (add_mset a H)" "rw_range w1 a (8 * 1)" "0 < a"
      "printed w1 = printed w" "holds w1 a (replicate (8 * 1) 0)"
    by (rule calloc_run [of w H 8 1]) simp_all
  have "holds w1 a [0, 0, 0, 0]" using 1(6) by (auto simp: holds_def nth_Cons' eval_nat_numeral)
  then have k: "peeks a 4 w1 = Some [0, 0, 0, 0]" using peeks_holds [of w1 a "[0, 0, 0, 0]"] by (simp add: eval_nat_numeral del: peeks.simps)
  let ?w2 = "free a (printf ''calloc(8,1) = %p  contents: %02x %02x %02x %02x...'' (I (int a) # map (\<lambda>b. I (sint b)) [0, 0, 0, 0 :: u8]) w1)"
  have h: "calloc ((2 ^ 64 - 1) div 2) 4 ?w2 = (NULL, ?w2)" by (simp add: calloc_def)
  let ?w3 = "printf ''calloc(huge,4) = %p (NULL expected)'' [I (int NULL)] ?w2"
  have "heap_at ?w2 H" using 1(2,4) by (intro free_run) simp_all
  then have "heap_at ?w3 H" by simp
  then obtain p w4 where 4: "malloc 8 ?w3 = (p, w4)" "heap_at w4 (add_mset p H)" "rw_range w4 p 8" "0 < p" "printed w4 = printed ?w3"
    by (rule malloc_run)
  have pr4: "last_strings (printed w4) = last_strings (printed w)" by (simp add: 4(5) 1(5))
  note cp = mem_cpy_holds [OF 4(3), of ?bs, unfolded len, OF order_refl]
  let ?w5 = "w4\<lparr>ram := put (ram w4) p ?bs\<rparr>"
  let ?w6 = "printf ''before realloc: p=%p %s'' [I (int p), S ''1234567''] ?w5"
  have 6: "heap_at ?w6 (add_mset p H)" "rw_range ?w6 p 8" "holds ?w6 p ?bs" using 4(2) cp by simp_all
  obtain q w7 where 7: "realloc p 8 16 ?w6 = (q, w7)" "heap_at w7 (add_mset q H)" "rw_range w7 q 16" "0 < q"
      "printed w7 = printed ?w6" "holds w7 q ?bs"
    by (rule realloc_run [OF 6(1) 4(4) 6(2,3), of 16]) (simp_all add: len)
  let ?w8 = "printf ''after realloc(16): p=%p %s'' [I (int q), S ''1234567''] w7"
  have 8: "heap_at ?w8 (add_mset q H)" "rw_range ?w8 q 16" "holds ?w8 q ?bs" using 7 by simp_all
  obtain r w9 where 9: "realloc q 16 (8 * 1024 * 1024) ?w8 = (r, w9)" "heap_at w9 (add_mset r H)" "0 < r"
      "printed w9 = printed ?w8" "holds w9 r ?bs"
    by (rule realloc_run [OF 8(1) 7(4) 8(2,3), of "8 * 1024 * 1024"]) (simp_all add: len)
  let ?w10 = "free r (printf ''after realloc(8 MiB): p=%p %s'' [I (int r), S ''1234567''] w9)"
  have h10: "heap_at ?w10 H" using 9(2,3) by (intro free_run) simp_all
  obtain u w11 where 11: "realloc NULL 0 32 ?w10 = (u, w11)" "heap_at w11 (add_mset u H)" "0 < u" "printed w11 = printed ?w10"
    by (rule realloc_null_run [OF h10])
  let ?w12 = "free u (printf ''realloc(NULL,32) = %p'' [I (int u)] w11)"
  have "heap_at ?w12 H" using 11(2,3) by (intro free_run) simp_all
  moreover have "last_strings (printed ?w12) = last_strings (printed w) @ [''1234567'', ''1234567'', ''1234567'']"
    using 11(4) 9(4) 7(5) pr4 by simp
  moreover have "realloc_main w = Some (0, ?w12)"
    unfolding realloc_main_def Let_def 1(1) prod.case k bind.bind_lunit h 4(1) cp(1) c_string_holds [OF no cp(2)] 7(1)
      c_string_holds [OF no 7(6)] 9(1) c_string_holds [OF no 9(5)] 11(1) by simp
  ultimately show ?thesis by blast
qed


section \<open>Properties\<close>

text \<open>C23. No leak and no double free: in every world whose library does not run out of memory, the nine programs end
  with status 0, never fault, and have given every block they got back to the heap exactly once, which is then
  what it was at the start; 10_double_free.c is the program that does not, whether the library stops it or not.\<close>

theorem heap_given_back:
  assumes "heap_at w H"
  shows "(\<forall>main \<in> {mallopt_main, mallinfo_main, info_main, break_main, tcache_main}. fst (main w) = 0 \<and> blocks (snd (main w)) = Some H) \<and>
    (\<forall>main \<in> {basics_main, realloc_main, usage_main, alloca_main}. \<exists>w'. main w = Some (0, w') \<and> blocks w' = Some H) \<and>
    (H = {#} \<longrightarrow> blocks (snd (double_free_main caught w)) = None)"
proof (intro conjI)
  have b: "heap_at w' H \<Longrightarrow> blocks w' = Some H" for w' by (simp add: heap_at_def)
  show "\<forall>main \<in> {mallopt_main, mallinfo_main, info_main, break_main, tcache_main}. fst (main w) = 0 \<and> blocks (snd (main w)) = Some H"
    using mallopt_heap [OF assms] mallinfo_heap [OF assms] info_heap [OF assms] break_heap [OF assms] tcache_heap [OF assms] b
    by blast
  show "\<forall>main \<in> {basics_main, realloc_main, usage_main, alloca_main}. \<exists>w'. main w = Some (0, w') \<and> blocks w' = Some H"
    using basics_heap [OF assms] realloc_main_printed [OF assms] usage_heap [OF assms] alloca_heap [OF assms] b by blast
  show "H = {#} \<longrightarrow> blocks (snd (double_free_main caught w)) = None" using double_free_none [OF assms] by simp
qed

theorem heap_given_back_witness:
  "heap_at empty_world {#} \<and> blocks (snd (mallopt_main empty_world)) = Some {#} \<and> blocks (snd (double_free_main True empty_world)) = None"
proof -
  have "0 < answers (l @ [Sys f as])" if "f \<in> {''malloc'', ''calloc'', ''realloc''}" for l f as
    using that by (auto simp: answers_def split: list.splits arg.splits)
  then have h: "heap_at empty_world {#}"
    by (simp add: heap_at_def blocks_def never_full_def empty_world_def)
  show ?thesis using heap_given_back [OF h] h by blast
qed

end
