(* ===== verification/Fork_Demos.thy ===== *)
theory Fork_Demos
  imports World
begin

text \<open>
  Programs that fork a child and wait for it: src/08_process_syscalls/01_fork.c, 02_fork_exec_wait.c,
  03_vfork.c, 04_clone_raw.c and both modes of 09_zombie_orphan.c.

  \<^item> A program is a list of statements over one int variable; each way of ending (exit or return from main,
    and \<open>_exit\<close> or the return of a cloned function), the wait and the branch for a refused call are
    statements of it.  A task is a running copy: what is left of the program, its variable, its stdio
    buffer and, once it has ended, its wait status.
  \<^item> When stdout is a terminal a printed line is written at once; otherwise it stays in the buffer until the
    process calls exit or returns from main.  fork copies the variable and the buffer; \<open>_exit\<close> and execve
    drop the buffer.
  \<^item> What another program prints after execve, and its status, are an argument: it is not code of the
    repository.  It appears in one go, because the parent does nothing but wait for it.
  \<^item> Whether the kernel grants a fork or a mapping is decided by the step relation, which has both steps.
\<close>

section \<open>Wait statuses\<close>

definition exit_status :: "int \<Rightarrow> nat" where
  "exit_status c = nat (c mod 256) * 256"


definition WIFEXITED :: "nat \<Rightarrow> bool" where
  "WIFEXITED st \<longleftrightarrow> st AND 0x7f = 0"

definition WEXITSTATUS :: "nat \<Rightarrow> int" where
  "WEXITSTATUS st = int ((st AND 0xff00) div 256)"



section \<open>Programs\<close>

text \<open>The text of a line may depend on the variable of the process and on whether its parent has ended (getppid).\<close>

type_synonym line = "string \<times> arg list"

datatype stmt =
    Assign int
  | Print "int \<Rightarrow> bool \<Rightarrow> line"
  | Eprint line
  | Call string
  | Mmap "stmt list"
  | Fork bool "stmt list" "stmt list"
  | Execve "(line list \<times> nat) option"
  | Waitpid "nat \<Rightarrow> stmt list"
  | Exit int
  | Quick_exit int





text \<open>The result of fork is not checked in 09: c is the child's pid, or -1 when the kernel refuses, and then waitpid
  fails at once.  init is the process that adopts the child.\<close>

definition zombie_lines :: "int \<Rightarrow> int \<Rightarrow> stmt list" where
  "zombie_lines pid c =
     [Print (\<lambda>_ _. (''parent pid=%d  child pid=%d (now a zombie, not waited)'', [I pid, I c])),
      Print (\<lambda>_ _. (''look: ps -o pid,ppid,stat,cmd -p %d'', [I c])),
      Call ''sleep'']"

definition zombie_prog :: "int \<Rightarrow> int \<Rightarrow> stmt list" where
  "zombie_prog pid c =
     Fork False [Quick_exit 0] (zombie_lines pid (-1) @ [Call ''waitpid'', Exit 0])
     # zombie_lines pid c @ [Waitpid (\<lambda>_. [Exit 0])]"

definition orphan_line :: "int \<Rightarrow> int \<Rightarrow> stmt" where
  "orphan_line pid c = Print (\<lambda>_ _. (''[parent] pid=%d  exiting now to orphan %d'', [I pid, I c]))"

definition orphan_prog :: "int \<Rightarrow> int \<Rightarrow> int \<Rightarrow> stmt list" where
  "orphan_prog pid c init =
     [Fork False
        [Print (\<lambda>_ gone. (''[child] ppid=%d  -- I'm about to be orphaned in 1 sec'', [I (if gone then init else pid)])),
         Call ''sleep'',
         Print (\<lambda>_ gone. (''[child] now ppid=%d (re-parented to init)'', [I (if gone then init else pid)])),
         Quick_exit 0]
        [orphan_line pid (-1), Quick_exit 0],
      orphan_line pid c,
      Quick_exit 0]"

text \<open>A program started without even its name has no argv[0] to print.\<close>

definition zombie_orphan_main :: "string list \<Rightarrow> int \<Rightarrow> int \<Rightarrow> int \<Rightarrow> stmt list option" where
  "zombie_orphan_main argv pid c init =
     (case argv of [] \<Rightarrow> None
      | [name] \<Rightarrow> Some [Eprint (''usage: %s zombie|orphan'', [S name]), Exit 1]
      | name # mode # rest \<Rightarrow>
          Some (if mode = ''zombie'' then zombie_prog pid c
                else if mode = ''orphan'' then orphan_prog pid c init
                else [Eprint (''unknown mode '' @ [CHR 0x27] @ ''%s'' @ [CHR 0x27], [S mode]), Exit 1]))"

section \<open>Runs\<close>

record task =
  code :: "stmt list"
  var :: int
  buf :: "line list"
  wst :: "nat option"

record procs =
  sout :: "line list"
  serr :: "line list"
  parent :: task
  child :: "task option"
  held :: bool

text \<open>What a task does by itself: the possible results, each with what it adds to stdout and stderr.\<close>

fun own_step :: "bool \<Rightarrow> bool \<Rightarrow> stmt list \<Rightarrow> task \<Rightarrow> (line list \<times> line list \<times> task) list" where
  "own_step tty orphaned (Assign v # ss) t = [([], [], t\<lparr>code := ss, var := v\<rparr>)]"
| "own_step tty orphaned (Print f # ss) t =
     (if tty then [([f (var t) orphaned], [], t\<lparr>code := ss\<rparr>)]
      else [([], [], t\<lparr>code := ss, buf := buf t @ [f (var t) orphaned]\<rparr>)])"
| "own_step tty orphaned (Eprint l # ss) t = [([], [l], t\<lparr>code := ss\<rparr>)]"
| "own_step tty orphaned (Call f # ss) t = [([], [], t\<lparr>code := ss\<rparr>)]"
| "own_step tty orphaned (Mmap rs # ss) t = [([], [], t\<lparr>code := ss\<rparr>), ([], [], t\<lparr>code := rs\<rparr>)]"
| "own_step tty orphaned (Execve None # ss) t = [([], [], t\<lparr>code := ss\<rparr>)]"
| "own_step tty orphaned (Execve (Some (ls, st)) # ss) t = [(ls, [], t\<lparr>code := [], buf := [], wst := Some st\<rparr>)]"
| "own_step tty orphaned (Exit c # ss) t = [(buf t, [], t\<lparr>code := [], buf := [], wst := Some (exit_status c)\<rparr>)]"
| "own_step tty orphaned (Quick_exit c # ss) t = [([], [], t\<lparr>code := [], buf := [], wst := Some (exit_status c)\<rparr>)]"
| "own_step tty orphaned _ t = []"

definition fork_start :: "stmt list \<Rightarrow> procs" where
  "fork_start p = \<lparr>sout = [], serr = [], parent = \<lparr>code = p, var = 0, buf = [], wst = None\<rparr>, child = None, held = False\<rparr>"

text \<open>After vfork the parent is held until the child has called execve or \<open>_exit\<close>.\<close>

inductive fork_step :: "bool \<Rightarrow> procs \<Rightarrow> procs \<Rightarrow> bool" for tty where
  parent_runs: "\<not> held s \<Longrightarrow> (ou, er, t) \<in> set (own_step tty False (code (parent s)) (parent s)) \<Longrightarrow>
    fork_step tty s (s\<lparr>sout := sout s @ ou, serr := serr s @ er, parent := t\<rparr>)"
| child_runs: "child s = Some c \<Longrightarrow> (ou, er, t) \<in> set (own_step tty (wst (parent s) \<noteq> None) (code c) c) \<Longrightarrow>
    fork_step tty s (s\<lparr>sout := sout s @ ou, serr := serr s @ er, child := Some t, held := held s \<and> wst t = None\<rparr>)"
| forks: "\<not> held s \<Longrightarrow> code (parent s) = Fork vf cs rs # ss \<Longrightarrow> child s = None \<Longrightarrow>
    fork_step tty s (s\<lparr>parent := (parent s)\<lparr>code := ss\<rparr>, child := Some ((parent s)\<lparr>code := cs\<rparr>), held := vf\<rparr>)"
| fork_refused: "\<not> held s \<Longrightarrow> code (parent s) = Fork vf cs rs # ss \<Longrightarrow>
    fork_step tty s (s\<lparr>parent := (parent s)\<lparr>code := rs\<rparr>\<rparr>)"
| waits: "\<not> held s \<Longrightarrow> code (parent s) = Waitpid k # ss \<Longrightarrow> child s = Some c \<Longrightarrow> wst c = Some st \<Longrightarrow>
    fork_step tty s (s\<lparr>parent := (parent s)\<lparr>code := k st @ ss\<rparr>\<rparr>)"

text \<open>What a run that has come to its end leaves: stdout, stderr and the wait statuses of both processes.\<close>

definition result :: "procs \<Rightarrow> line list \<times> line list \<times> nat option \<times> nat option" where
  "result s = (sout s, serr s, wst (parent s), Option.bind (child s) wst)"

definition outcomes :: "bool \<Rightarrow> stmt list \<Rightarrow> (line list \<times> line list \<times> nat option \<times> nat option) set" where
  "outcomes tty p = result ` {s. (fork_step tty)\<^sup>*\<^sup>* (fork_start p) s \<and> (\<nexists>s'. fork_step tty s s')}"

definition always_ends :: "bool \<Rightarrow> stmt list \<Rightarrow> bool" where
  "always_ends tty p \<longleftrightarrow> (\<nexists>f. f 0 = fork_start p \<and> (\<forall>i. fork_step tty (f i) (f (Suc i))))"

section \<open>All runs of a program\<close>

text \<open>The steps as a list, and the ends of all runs of at most n steps.\<close>

fun call_nexts :: "stmt list \<Rightarrow> procs \<Rightarrow> procs list" where
  "call_nexts (Fork vf cs rs # ss) s =
     (if child s = None
      then [s\<lparr>parent := (parent s)\<lparr>code := ss\<rparr>, child := Some ((parent s)\<lparr>code := cs\<rparr>), held := vf\<rparr>] else []) @
     [s\<lparr>parent := (parent s)\<lparr>code := rs\<rparr>\<rparr>]"
| "call_nexts (Waitpid k # ss) s =
     (case Option.bind (child s) wst of None \<Rightarrow> [] | Some st \<Rightarrow> [s\<lparr>parent := (parent s)\<lparr>code := k st @ ss\<rparr>\<rparr>])"
| "call_nexts _ s = []"

definition parent_nexts :: "bool \<Rightarrow> procs \<Rightarrow> procs list" where
  "parent_nexts tty s =
     (if held s then []
      else map (\<lambda>(ou, er, t). s\<lparr>sout := sout s @ ou, serr := serr s @ er, parent := t\<rparr>) (own_step tty False (code (parent s)) (parent s))
        @ call_nexts (code (parent s)) s)"

definition child_nexts :: "bool \<Rightarrow> procs \<Rightarrow> task \<Rightarrow> procs list" where
  "child_nexts tty s c =
     map (\<lambda>(ou, er, t). s\<lparr>sout := sout s @ ou, serr := serr s @ er, child := Some t, held := held s \<and> wst t = None\<rparr>)
       (own_step tty (wst (parent s) \<noteq> None) (code c) c)"

definition nexts :: "bool \<Rightarrow> procs \<Rightarrow> procs list" where
  "nexts tty s = parent_nexts tty s @ (case child s of None \<Rightarrow> [] | Some c \<Rightarrow> child_nexts tty s c)"

lemma nexts_complete: "fork_step tty s s' \<Longrightarrow> s' \<in> set (nexts tty s)"
proof (induction rule: fork_step.induct)
  case (parent_runs s ou er t)
  then show ?case by (force simp: nexts_def parent_nexts_def)
next
  case (child_runs s c ou er t)
  then show ?case by (force simp: nexts_def child_nexts_def)
qed (simp_all add: nexts_def parent_nexts_def)

lemma call_nexts_sound: "s' \<in> set (call_nexts ss s) \<Longrightarrow> code (parent s) = ss \<Longrightarrow> \<not> held s \<Longrightarrow> fork_step tty s s'"
  by (induction ss s rule: call_nexts.induct)
    (auto simp: bind_eq_Some_conv eq_commute [of "Some _"] intro: forks fork_refused waits split: if_splits option.splits)

lemma child_nexts_sound:
  assumes "s' \<in> set (child_nexts tty s c)" "child s = Some c"
  shows "fork_step tty s s'"
proof -
  obtain ou er t where "(ou, er, t) \<in> set (own_step tty (wst (parent s) \<noteq> None) (code c) c)"
    "s' = s\<lparr>sout := sout s @ ou, serr := serr s @ er, child := Some t, held := held s \<and> wst t = None\<rparr>"
    using assms(1) unfolding child_nexts_def set_map by (elim imageE) (auto simp del: fun_upd_apply)
  then show ?thesis using child_runs [of s c ou er t tty] assms(2) by (simp only:)
qed

lemma nexts_sound: "s' \<in> set (nexts tty s) \<Longrightarrow> fork_step tty s s'"
  by (auto simp: nexts_def parent_nexts_def split: option.splits if_splits
    intro: call_nexts_sound parent_runs child_nexts_sound [OF _ sym])

lemma nexts_steps: "s' \<in> set (nexts tty s) \<longleftrightarrow> fork_step tty s s'"
  using nexts_complete nexts_sound by blast

lemma stuck_iff: "(\<nexists>s'. fork_step tty s s') \<longleftrightarrow> nexts tty s = []"
  unfolding nexts_steps [symmetric] by (cases "nexts tty s") auto

fun explore :: "bool \<Rightarrow> nat \<Rightarrow> procs \<Rightarrow> procs list option" where
  "explore tty 0 s = (case nexts tty s of [] \<Rightarrow> Some [s] | _ # _ \<Rightarrow> None)"
| "explore tty (Suc n) s =
     (case nexts tty s of [] \<Rightarrow> Some [s] | x # xs \<Rightarrow> map_option concat (those (map (explore tty n) (x # xs))))"

lemma those_Some: "those xs = Some ys \<longleftrightarrow> xs = map Some ys"
  by (induction xs arbitrary: ys) (auto split: option.splits)

lemma explore_Suc:
  assumes "explore tty (Suc n) s = Some es" "nexts tty s \<noteq> []"
  obtains ess where "map (explore tty n) (nexts tty s) = map Some ess" "es = concat ess"
proof -
  obtain ess where "those (map (explore tty n) (nexts tty s)) = Some ess" "es = concat ess"
    using assms by (cases "nexts tty s") (auto simp del: those.simps list.map)
  then show thesis using that by (simp only: those_Some)
qed

lemma explore_sound: "explore tty n s = Some es \<Longrightarrow> e \<in> set es \<Longrightarrow> (fork_step tty)\<^sup>*\<^sup>* s e \<and> nexts tty e = []"
proof (induction n arbitrary: s es)
  case 0
  then show ?case by (auto split: list.splits)
next
  case (Suc n)
  show ?case
  proof (cases "nexts tty s = []")
    case True
    then show ?thesis using Suc.prems by auto
  next
    case False
    from explore_Suc [OF Suc.prems(1) False] obtain ess where e: "map (explore tty n) (nexts tty s) = map Some ess" "es = concat ess" .
    then obtain es0 where "es0 \<in> set ess" "e \<in> set es0" using Suc.prems(2) by auto
    then obtain i where i: "i < length ess" "e \<in> set (ess ! i)" by (metis in_set_conv_nth)
    have l: "length (nexts tty s) = length ess" using e(1) map_eq_imp_length_eq by blast
    then have "explore tty n (nexts tty s ! i) = Some (ess ! i)" using e(1) i(1) by (metis nth_map)
    from Suc.IH [OF this i(2)] have "(fork_step tty)\<^sup>*\<^sup>* (nexts tty s ! i) e \<and> nexts tty e = []" .
    moreover have "fork_step tty s (nexts tty s ! i)" using l i(1) by (simp flip: nexts_steps)
    ultimately show ?thesis by (meson converse_rtranclp_into_rtranclp)
  qed
qed

lemma explore_complete:
  "explore tty n s = Some es \<Longrightarrow> (fork_step tty)\<^sup>*\<^sup>* s e \<Longrightarrow> nexts tty e = [] \<Longrightarrow> e \<in> set es"
proof (induction n arbitrary: s es)
  case 0
  then have "nexts tty s = []" "es = [s]" by (auto split: list.splits)
  then show ?case using 0(2) by (auto elim: converse_rtranclpE simp flip: nexts_steps)
next
  case (Suc n)
  show ?case
  proof (cases "nexts tty s = []")
    case True
    then show ?thesis using Suc.prems by (auto elim: converse_rtranclpE simp flip: nexts_steps)
  next
    case False
    from explore_Suc [OF Suc.prems(1) False] obtain ess where e: "map (explore tty n) (nexts tty s) = map Some ess" "es = concat ess" .
    have "s \<noteq> e" using False Suc.prems(3) by blast
    then obtain t where t: "fork_step tty s t" "(fork_step tty)\<^sup>*\<^sup>* t e" using Suc.prems(2) by (auto elim: converse_rtranclpE)
    then have "t \<in> set (nexts tty s)" by (simp only: nexts_steps)
    then have "explore tty n t \<in> set (map Some ess)" unfolding e(1) [symmetric] by simp
    then obtain es' where es': "explore tty n t = Some es'" "es' \<in> set ess" by auto
    from Suc.IH [OF es'(1) t(2) Suc.prems(3)] es'(2) show ?thesis using e(2) by auto
  qed
qed

lemma explore_bounded:
  "explore tty n s = Some es \<Longrightarrow> f 0 = s \<Longrightarrow> \<exists>i \<le> n. \<not> fork_step tty (f i) (f (Suc i))"
proof (induction n arbitrary: s es f)
  case 0
  then show ?case by (auto split: list.splits simp flip: nexts_steps)
next
  case (Suc n)
  show ?case
  proof (rule ccontr)
    assume "\<not> ?thesis"
    then have st: "fork_step tty (f i) (f (Suc i))" if "i \<le> Suc n" for i using that by blast
    then have f1: "f 1 \<in> set (nexts tty s)" using Suc.prems(2) by (auto simp: nexts_steps)
    then have "nexts tty s \<noteq> []" by auto
    from explore_Suc [OF Suc.prems(1) this] obtain ess where "map (explore tty n) (nexts tty s) = map Some ess" .
    then have "explore tty n (f 1) \<in> set (map Some ess)" using f1 by (metis image_eqI set_map)
    then obtain es' where "explore tty n (f 1) = Some es'" by auto
    from Suc.IH [OF this, of "\<lambda>i. f (Suc i)"] st show False by auto
  qed
qed

text \<open>One exploration answers for every run.\<close>

definition runs_to :: "bool \<Rightarrow> stmt list \<Rightarrow> (line list \<times> line list \<times> nat option \<times> nat option) set \<Rightarrow> bool" where
  "runs_to tty p R \<longleftrightarrow> always_ends tty p \<and> outcomes tty p = R"

lemma explored:
  assumes "map_option (\<lambda>es. set (map result es)) (explore tty n (fork_start p)) = Some R"
  shows "runs_to tty p R"
proof -
  obtain es where es: "explore tty n (fork_start p) = Some es" "R = set (map result es)" using assms by auto
  have "{s. (fork_step tty)\<^sup>*\<^sup>* (fork_start p) s \<and> (\<nexists>s'. fork_step tty s s')} = set es"
    unfolding stuck_iff using explore_sound [OF es(1)] explore_complete [OF es(1)] by blast
  then have "outcomes tty p = R" by (simp add: outcomes_def es(2))
  moreover have "always_ends tty p" using explore_bounded [OF es(1)] unfolding always_ends_def by blast
  ultimately show ?thesis by (simp add: runs_to_def)
qed

text \<open>The macros of wait.h read the status back.\<close>

lemma and_low_bits: "n AND 127 = n mod 128" "n AND 65280 = n div 256 mod 256 * 256" for n :: nat
proof -
  have "(127 :: nat) = mask 7" "(65280 :: nat) = push_bit 8 (mask 8)" by (simp_all add: mask_eq_exp_minus_1 push_bit_eq_mult)
  moreover have "n AND push_bit 8 (mask 8) = push_bit 8 (take_bit 8 (drop_bit 8 n))"
    by (rule bit_eqI) (auto simp: bit_simps)
  moreover have "n AND mask 7 = take_bit 7 n" by (simp add: take_bit_eq_mask)
  ultimately show "n AND 127 = n mod 128" "n AND 65280 = n div 256 mod 256 * 256"
    by (simp_all add: take_bit_eq_mod push_bit_eq_mult drop_bit_eq_div)
qed

lemma exit_status_macros: "WIFEXITED (exit_status c)" "WEXITSTATUS (exit_status c) = c mod 256"
  by (simp_all add: WIFEXITED_def WEXITSTATUS_def exit_status_def and_low_bits mod_mult2_eq [of _ 128 2, simplified] nat_mod_distrib)



lemmas run_simps = fork_start_def nexts_def parent_nexts_def child_nexts_def eval_nat_numeral exit_status_macros

section \<open>09_zombie_orphan.c\<close>

text \<open>In the zombie mode every run prints its two lines; with a refused fork, which is not noticed, they report the child
  -1, and the program ends with 0 as if all had gone well.\<close>

lemma zombie_fork_unchecked:
  "runs_to tty (zombie_prog pid c)
     {([(''parent pid=%d  child pid=%d (now a zombie, not waited)'', [I pid, I c]), (''look: ps -o pid,ppid,stat,cmd -p %d'', [I c])],
       [], Some (exit_status 0), Some (exit_status 0)),
      ([(''parent pid=%d  child pid=%d (now a zombie, not waited)'', [I pid, I (-1)]), (''look: ps -o pid,ppid,stat,cmd -p %d'', [I (-1)])],
       [], Some (exit_status 0), None)}"
  by (rule explored [where n = 12]; cases tty) (simp_all add: run_simps zombie_prog_def zombie_lines_def result_def insert_commute)

text \<open>Both processes of the orphan mode end with \<open>_exit\<close>: into a file nothing is ever printed.\<close>

lemma orphans_silent:
  "runs_to False (orphan_prog pid c init) {([], [], Some (exit_status 0), Some (exit_status 0)), ([], [], Some (exit_status 0), None)}"
  by (rule explored [where n = 12]) (simp add: run_simps orphan_prog_def orphan_line_def result_def insert_commute)

text \<open>On a terminal the second line of the child need not name init: nothing makes the parent end first.\<close>

lemma orphan_may_see_parent:
  "([(''[child] ppid=%d  -- I'm about to be orphaned in 1 sec'', [I pid]), (''[child] now ppid=%d (re-parented to init)'', [I pid]),
     (''[parent] pid=%d  exiting now to orphan %d'', [I pid, I c])], [], Some (exit_status 0), Some (exit_status 0))
   \<in> outcomes True (orphan_prog pid c init)"
proof -
  obtain R where R: "map_option (\<lambda>es. set (map result es)) (explore True 12 (fork_start (orphan_prog pid c init))) = Some R"
    "([(''[child] ppid=%d  -- I'm about to be orphaned in 1 sec'', [I pid]), (''[child] now ppid=%d (re-parented to init)'', [I pid]),
     (''[parent] pid=%d  exiting now to orphan %d'', [I pid, I c])], [], Some (exit_status 0), Some (exit_status 0)) \<in> R"
    by (simp add: run_simps orphan_prog_def orphan_line_def result_def)
  show ?thesis using explored [OF R(1)] R(2) by (simp add: runs_to_def)
qed

text \<open>Only the two modes fork; every other call ends with 1 and one line on stderr.\<close>

lemma zombie_orphan_modes:
  assumes "zombie_orphan_main argv pid c init = Some p"
  shows "length argv > 1 \<and> (argv ! 1 = ''zombie'' \<and> p = zombie_prog pid c \<or> argv ! 1 = ''orphan'' \<and> p = orphan_prog pid c init)
    \<or> (\<exists>l. runs_to tty p {([], [l], Some (exit_status 1), None)})"
proof -
  have "runs_to tty [Eprint l, Exit 1] {([], [l], Some (exit_status 1), None)}" for l
    by (rule explored [where n = 2]; cases tty) (simp_all add: run_simps result_def)
  then show ?thesis using assms by (auto simp: zombie_orphan_main_def split: list.splits if_splits)
qed

section \<open>Properties\<close>



end
