(* ===== verification/Faults.thy ===== *)
theory Faults
  imports Proc_Status Transition
begin

text \<open>
  Programs that live on page faults: src/03_stack/02_recursion_depth.c and 04_stack_overflow.c, which recurse until the
  stack ends, src/11_memory_protection/03_segfault_handler.c, and src/13_advanced/03_userfaultfd.c, where a thread
  fills the pages main touches.

  The stack is the addresses from lim up to tos (top of stack), a frame has fr bytes, the size the compiler chose; the call whose
  frame does not fit faults, before the function's own code runs.
\<close>

section \<open>02_recursion_depth.c and 04_stack_overflow.c\<close>

partial_function (option) depth_recurse :: "addr \<Rightarrow> nat \<Rightarrow> addr \<Rightarrow> int \<Rightarrow> int option" where
  [code]: "depth_recurse lim fr sp counter =
     (if sp < lim + fr then Some counter else depth_recurse lim fr (sp - fr) (counter + 1))"

definition depth_main :: "addr \<Rightarrow> nat \<Rightarrow> addr \<Rightarrow> world \<Rightarrow> (int \<times> world) option" where
  "depth_main lim fr tos w = do {
     let w = call ''sigaltstack'' [] w;
     let w = call ''sigaction'' [S ''SIGSEGV''] w;
     counter \<leftarrow> depth_recurse lim fr tos 0;
     let depth_reached = counter;
     let w = printf ''SIGSEGV caught at depth %ld'' [I depth_reached] w;
     let w = printf ''each frame ~= %ld bytes''
               [I ((8 * 1024 * 1024) div (if depth_reached \<noteq> 0 then depth_reached else 1))] w;
     Some (0, w)}"

partial_function (option) grow :: "addr \<Rightarrow> nat \<Rightarrow> addr \<Rightarrow> int \<Rightarrow> (int \<times> addr) option" where
  [code]: "grow lim fr sp used =
     (if sp < lim + fr then Some (used, sp - fr) else grow lim fr (sp - fr) (used + 1024))"

definition overflow_handler :: "addr \<Rightarrow> world \<Rightarrow> world" where
  "overflow_handler a = eprintf ''[signal] SIGSEGV at fault addr %p (this is the stack guard page)'' [I (int a)]"

definition overflow_main :: "addr \<Rightarrow> nat \<Rightarrow> addr \<Rightarrow> world \<Rightarrow> (int \<times> world) option" where
  "overflow_main lim fr tos w = do {
     let cur = field ''getrlimit'' ''rlim_cur'' w;
     let mx = field ''getrlimit'' ''rlim_max'' w;
     let w = call ''getrlimit'' [S ''RLIMIT_STACK''] w;
     let w = printf ''RLIMIT_STACK soft=%lu hard=%lu'' [I cur, I mx] w;
     let w = call ''sigaltstack'' [] w;
     let w = call ''sigaction'' [S ''SIGSEGV''] w;
     (used, a) \<leftarrow> grow lim fr tos 0;
     let w = overflow_handler a w;
     let w = printf ''recovered; approximate stack used = %ld bytes (~%ld KiB)'' [I used, I (used div 1024)] w;
     Some (0, w)}"

section \<open>03_segfault_handler.c\<close>

text \<open>The handler for signal 11 writes one line to stderr and exits with 128 + 11.\<close>

definition segv_handler :: "addr \<Rightarrow> world \<Rightarrow> int \<times> world" where
  "segv_handler a w =
     (128 + 11, eprintf ''[handler] signal %d at addr %p (errno=%d code=%d)''
        [I 11, I (int a), I (field ''siginfo'' ''si_errno'' w), I (field ''siginfo'' ''si_code'' w)] w)"

definition segv_main :: "world \<Rightarrow> int \<times> world" where
  "segv_main w =
     (let w = call ''sigaltstack'' [] w;
          w = call ''sigaction'' [S ''SIGSEGV''] w;
          w = call ''sigaction'' [S ''SIGBUS''] w;
          w = puts ''about to deref NULL...'' w in
      case poke NULL 42 w of None \<Rightarrow> segv_handler NULL w
      | Some w \<Rightarrow> (0, puts ''unreachable'' w))"

section \<open>How deep it goes\<close>

lemma frame_step: "\<not> sp < lim + fr \<Longrightarrow> 0 < fr \<Longrightarrow> (sp - lim) div fr = Suc ((sp - fr - lim) div fr)" for sp :: nat
proof -
  assume "\<not> sp < lim + fr" "0 < fr"
  then have "sp - lim = fr + (sp - fr - lim)" by simp
  with \<open>0 < fr\<close> show ?thesis by (metis div_add_self1 not_gr_zero plus_1_eq_Suc add.commute)
qed

lemma depth_recurse_exact:
  assumes "0 < fr" "lim \<le> sp"
  shows "depth_recurse lim fr sp c = Some (c + int ((sp - lim) div fr))"
  using assms(2)
proof (induction "sp - lim" arbitrary: sp c rule: less_induct)
  case less
  show ?case
  proof (cases "sp < lim + fr")
    case True
    then show ?thesis using less.prems by (subst depth_recurse.simps) simp
  next
    case False
    then have "depth_recurse lim fr (sp - fr) (c + 1) = Some (c + 1 + int ((sp - fr - lim) div fr))"
      using assms(1) less.prems by (intro less.hyps) auto
    moreover have "(sp - lim) div fr = Suc ((sp - fr - lim) div fr)"
      by (rule frame_step [OF False assms(1)])
    ultimately show ?thesis using False by (subst depth_recurse.simps) simp
  qed
qed

lemma grow_exact:
  assumes "0 < fr" "lim \<le> sp"
  shows "\<exists>a. grow lim fr sp u = Some (u + 1024 * int ((sp - lim) div fr), a)"
  using assms(2)
proof (induction "sp - lim" arbitrary: sp u rule: less_induct)
  case less
  show ?case
  proof (cases "sp < lim + fr")
    case True
    then show ?thesis using less.prems by (subst grow.simps) simp
  next
    case False
    then have "\<exists>a. grow lim fr (sp - fr) (u + 1024) = Some (u + 1024 + 1024 * int ((sp - fr - lim) div fr), a)"
      using assms(1) less.prems by (intro less.hyps) auto
    moreover have "(sp - lim) div fr = Suc ((sp - fr - lim) div fr)"
      by (rule frame_step [OF False assms(1)])
    ultimately show ?thesis using False by (subst grow.simps) (simp add: algebra_simps)
  qed
qed

text \<open>The division of 8 MiB by the depth: never less than the frame, and off by less than the rounding.\<close>

lemma frame_estimate:
  assumes "0 < fr" "fr \<le> n" "n = 8 * 1024 * (1024 :: nat)"
  shows "fr \<le> n div (n div fr)" "n div (n div fr) * (n div fr) \<le> n" "0 < n div fr"
proof -
  show d: "0 < n div fr" using assms(1,2) by (simp add: div_greater_zero_iff)
  have "fr * (n div fr) \<le> n" by simp
  then show "fr \<le> n div (n div fr)" using d by (simp add: less_eq_div_iff_mult_less_eq)
  show "n div (n div fr) * (n div fr) \<le> n" by simp
qed

section \<open>03_userfaultfd.c\<close>

text \<open>The region has four pages of 2 ^ k bytes at the aligned address base.  A load from a page that is not there puts a
  message with the address on the descriptor and blocks; UFFDIO_COPY fills the page and wakes the loader.  UFFDIO_COPY can
  fail, and then the thread ends.\<close>

datatype uffd_main = Announce nat | Touch nat | Blocked nat | Over

datatype uffd_thread = Poll | Copy addr | Tell addr | Ended

record uffd =
  pages :: "nat \<Rightarrow> u8 option"
  events :: "addr list"
  umain :: uffd_main
  uthread :: uffd_thread
  shown :: "u8 list"
  told :: "addr list"

definition uffd_start :: uffd where
  "uffd_start = \<lparr>pages = (\<lambda>_. None), events = [], umain = Announce 0, uthread = Poll, shown = [], told = []\<rparr>"

text \<open>\<open>address & ~(pg - 1)\<close>, and the page of the region it is.\<close>

definition page_start :: "nat \<Rightarrow> addr \<Rightarrow> addr" where
  "page_start k a = and_not64 a (2 ^ k - 1)"

definition page_index :: "addr \<Rightarrow> nat \<Rightarrow> addr \<Rightarrow> nat" where
  "page_index base k fa = (fa - base) div 2 ^ k"

inductive uffd_step :: "addr \<Rightarrow> nat \<Rightarrow> bool \<Rightarrow> uffd \<Rightarrow> uffd \<Rightarrow> bool" for base k copies where
  announce: "umain s = Announce i \<Longrightarrow> i < 4 \<Longrightarrow> uffd_step base k copies s (s\<lparr>umain := Touch i\<rparr>)"
| touch: "umain s = Touch i \<Longrightarrow> pages s i = Some b \<Longrightarrow>
    uffd_step base k copies s (s\<lparr>umain := Announce (i + 1), shown := shown s @ [b]\<rparr>)"
| fault: "umain s = Touch i \<Longrightarrow> pages s i = None \<Longrightarrow>
    uffd_step base k copies s (s\<lparr>umain := Blocked i, events := events s @ [base + i * 2 ^ k]\<rparr>)"
| wake: "umain s = Blocked i \<Longrightarrow> pages s i \<noteq> None \<Longrightarrow> uffd_step base k copies s (s\<lparr>umain := Touch i\<rparr>)"
| over: "umain s = Announce i \<Longrightarrow> \<not> i < 4 \<Longrightarrow> uffd_step base k copies s (s\<lparr>umain := Over, pages := (\<lambda>_. None)\<rparr>)"
| poll: "umain s \<noteq> Over \<Longrightarrow> uthread s = Poll \<Longrightarrow> events s = a # es \<Longrightarrow>
    uffd_step base k copies s (s\<lparr>events := es, uthread := Copy (page_start k a)\<rparr>)"
| copy: "umain s \<noteq> Over \<Longrightarrow> uthread s = Copy fa \<Longrightarrow> copies \<Longrightarrow>
    uffd_step base k copies s (s\<lparr>pages := (pages s)(page_index base k fa \<mapsto> of_char (CHR ''U'')), uthread := Tell fa\<rparr>)"
| copy_fails: "umain s \<noteq> Over \<Longrightarrow> uthread s = Copy fa \<Longrightarrow> \<not> copies \<Longrightarrow> uffd_step base k copies s (s\<lparr>uthread := Ended\<rparr>)"
| tell: "umain s \<noteq> Over \<Longrightarrow> uthread s = Tell fa \<Longrightarrow> uffd_step base k copies s (s\<lparr>told := told s @ [fa], uthread := Poll\<rparr>)"

inductive uffd_reaches :: "addr \<Rightarrow> nat \<Rightarrow> bool \<Rightarrow> uffd \<Rightarrow> bool" for base k copies where
  start: "uffd_reaches base k copies uffd_start"
| step: "uffd_reaches base k copies s \<Longrightarrow> uffd_step base k copies s s' \<Longrightarrow> uffd_reaches base k copies s'"

definition region_ok :: "addr \<Rightarrow> nat \<Rightarrow> bool" where
  "region_ok base k \<longleftrightarrow> k < 62 \<and> 2 ^ k dvd base \<and> base + 4 * 2 ^ k \<le> 2 ^ 64"

lemma page_of_fault: "region_ok base k \<Longrightarrow> i < 4 \<Longrightarrow>
  page_start k (base + i * 2 ^ k) = base + i * 2 ^ k \<and> page_index base k (base + i * 2 ^ k) = i"
proof -
  assume r: "region_ok base k" and i: "i < 4"
  have "i * 2 ^ k < 4 * 2 ^ k" using i by simp
  then have "base + i * 2 ^ k < 2 ^ 64" using r unfolding region_ok_def by linarith
  moreover obtain c where "base = 2 ^ k * c" using r by (auto simp: region_ok_def)
  ultimately show ?thesis using r and_not64_mask [of "base + i * 2 ^ k" k]
    by (simp add: page_start_def page_index_def region_ok_def algebra_simps)
qed

text \<open>Where the fault of a blocked page is: on the descriptor, with the thread, or already filled.\<close>

definition uffd_inv :: "addr \<Rightarrow> nat \<Rightarrow> uffd \<Rightarrow> bool" where
  "uffd_inv base k s \<longleftrightarrow> (\<forall>b \<in> set (shown s). b = of_char (CHR ''U'')) \<and> (\<forall>i b. pages s i = Some b \<longrightarrow> b = of_char (CHR ''U''))
     \<and> uthread s \<noteq> Ended
     \<and> (case umain s of
          Announce i \<Rightarrow> i \<le> 4 \<and> length (shown s) = i \<and> events s = [] \<and> (\<forall>fa. uthread s \<noteq> Copy fa) \<and> (\<forall>j \<ge> i. pages s j = None)
        | Touch i \<Rightarrow> i < 4 \<and> length (shown s) = i \<and> events s = [] \<and> (\<forall>fa. uthread s \<noteq> Copy fa) \<and> (\<forall>j > i. pages s j = None)
        | Blocked i \<Rightarrow> i < 4 \<and> length (shown s) = i \<and> (\<forall>j > i. pages s j = None)
            \<and> (pages s i = None \<and> (events s = [base + i * 2 ^ k] \<and> (\<forall>fa. uthread s \<noteq> Copy fa)
                 \<or> events s = [] \<and> uthread s = Copy (base + i * 2 ^ k))
               \<or> pages s i \<noteq> None \<and> events s = [] \<and> (\<forall>fa. uthread s \<noteq> Copy fa))
        | Over \<Rightarrow> length (shown s) = 4)"

lemma uffd_inv_step:
  assumes "region_ok base k"
  shows "uffd_step base k True s s' \<Longrightarrow> uffd_inv base k s \<Longrightarrow> uffd_inv base k s'"
proof (induction rule: uffd_step.induct)
  case (poll s a es)
  then show ?case using page_of_fault [OF assms] by (cases "umain s") (auto simp: uffd_inv_def)
next
  case (copy s fa)
  then show ?case using page_of_fault [OF assms] by (cases "umain s") (auto simp: uffd_inv_def)
next
  case (tell s fa)
  then show ?case by (cases "umain s") (auto simp: uffd_inv_def)
next
  case (touch s i b)
  then show ?case by (auto simp: uffd_inv_def)
next
  case (fault s i)
  then show ?case by (auto simp: uffd_inv_def)
next
  case (wake s i)
  then show ?case by (auto simp: uffd_inv_def)
next
  case (over s i)
  then show ?case by (auto simp: uffd_inv_def)
next
  case (announce s i)
  then show ?case by (auto simp: uffd_inv_def)
qed simp

definition main_left :: "uffd \<Rightarrow> nat" where
  "main_left s = (case umain s of Announce i \<Rightarrow> 20 * (4 - i) + 15 | Touch i \<Rightarrow> 20 * (4 - i) + (if pages s i = None then 14 else 1)
     | Blocked i \<Rightarrow> 20 * (4 - i) + (if pages s i = None then 8 else 2) | Over \<Rightarrow> 0)"

fun thread_left :: "uffd_thread \<Rightarrow> nat" where
  "thread_left (Copy fa) = 2"
| "thread_left (Tell fa) = 1"
| "thread_left t = 0"

definition uffd_left :: "uffd \<Rightarrow> nat" where
  "uffd_left s = main_left s + 3 * length (events s) + thread_left (uthread s)"

lemma uffd_left_step:
  assumes "region_ok base k"
  shows "uffd_step base k True s s' \<Longrightarrow> uffd_inv base k s \<Longrightarrow> uffd_left s' < uffd_left s"
proof (induction rule: uffd_step.induct)
  case (poll s a es)
  then show ?case by (cases "umain s") (auto simp: uffd_left_def main_left_def)
next
  case (copy s fa)
  then show ?case using page_of_fault [OF assms] by (cases "umain s") (auto simp: uffd_left_def main_left_def uffd_inv_def)
next
  case (tell s fa)
  then show ?case by (cases "umain s") (auto simp: uffd_left_def main_left_def)
qed (auto simp: uffd_left_def main_left_def uffd_inv_def)

lemma uffd_progress:
  assumes inv: "uffd_inv base k s" and m: "umain s \<noteq> Over"
  shows "\<exists>s'. uffd_step base k True s s'"
proof (cases "umain s")
  case (Announce i)
  then show ?thesis using announce [OF Announce] over [OF Announce] by (cases "i < 4") blast+
next
  case (Touch i)
  then show ?thesis using touch [OF Touch] fault [OF Touch] by (cases "pages s i") blast+
next
  case (Blocked i)
  show ?thesis
  proof (cases "pages s i")
    case (Some b)
    then show ?thesis using wake [OF Blocked] by blast
  next
    case None
    then have e: "events s \<noteq> [] \<or> uthread s = Copy (base + i * 2 ^ k)" "uthread s \<noteq> Ended"
      using inv Blocked by (auto simp: uffd_inv_def)
    show ?thesis
    proof (cases "uthread s")
      case Poll
      then obtain a es where "events s = a # es" using e(1) by (cases "events s") auto
      from poll [OF m Poll this] show ?thesis by (rule exI)
    next
      case (Copy fa)
      from copy [OF m Copy TrueI] show ?thesis by (rule exI)
    next
      case (Tell fa)
      from tell [OF m Tell] show ?thesis by (rule exI)
    next
      case Ended
      with e(2) show ?thesis by (rule notE)
    qed
  qed
qed (use m in simp)

interpretation uffd: must_finish "uffd_step base k True" "\<lambda>s. region_ok base k \<and> uffd_inv base k s" "\<lambda>s. umain s = Over" uffd_left
  for base k
proof
  fix s s' :: uffd
  show "region_ok base k \<and> uffd_inv base k s \<Longrightarrow> uffd_step base k True s s' \<Longrightarrow> region_ok base k \<and> uffd_inv base k s'"
    using uffd_inv_step by blast
  show "region_ok base k \<and> uffd_inv base k s \<Longrightarrow> umain s \<noteq> Over \<Longrightarrow> \<exists>s'. uffd_step base k True s s' \<and> uffd_left s' < uffd_left s"
    using uffd_progress uffd_left_step by blast
  show "region_ok base k \<and> uffd_inv base k s \<Longrightarrow> uffd_step base k True s s' \<Longrightarrow> uffd_left s' < uffd_left s"
    using uffd_left_step by blast
  show "region_ok base k \<and> uffd_inv base k s \<Longrightarrow> umain s = Over \<Longrightarrow> \<not> uffd_step base k True s s'"
    by (auto elim!: uffd_step.cases)
qed

lemma uffd_reaches_inv: "uffd_reaches base k True s \<Longrightarrow> region_ok base k \<Longrightarrow> uffd_inv base k s"
proof (induction rule: uffd_reaches.induct)
  case start
  show ?case by (simp add: uffd_inv_def uffd_start_def)
next
  case (step s s')
  then show ?case using uffd_inv_step by blast
qed

section \<open>Properties\<close>

text \<open>C34. Filling pages on demand: when UFFDIO_COPY succeeds, in every interleaving of main and the fault thread no run of
  03_userfaultfd.c is infinite, it stops only when main is over, and then main has read the byte U from the first
  address of each of the four pages.\<close>

theorem uffd_fills_pages:
  assumes "uffd_reaches base k True s" "region_ok base k"
  shows "((\<nexists>s'. uffd_step base k True s s') \<longleftrightarrow> umain s = Over) \<and>
    (\<forall>f. f 0 = s \<longrightarrow> (\<exists>i. \<not> uffd_step base k True (f i) (f (Suc i)))) \<and>
    (umain s = Over \<longrightarrow> shown s = replicate 4 (of_char (CHR ''U'')))"
proof -
  have inv: "uffd_inv base k s" using uffd_reaches_inv assms by blast
  have "shown s = replicate 4 (of_char (CHR ''U''))" if "umain s = Over"
    using inv that replicate_eqI [of "shown s" 4 "of_char (CHR ''U'')"] by (simp add: uffd_inv_def)
  then show ?thesis using uffd.stops_iff [of base k s] uffd.no_infinite_run [of base k] inv assms(2) by blast
qed

theorem uffd_fills_pages_witness: "region_ok 4096 12 \<and> (\<exists>s'. uffd_step 4096 12 True uffd_start s')"
proof -
  have r: "region_ok 4096 12" by (simp add: region_ok_def)
  show ?thesis using uffd_fills_pages [OF uffd_reaches.start r] r by (simp add: uffd_start_def)
qed

text \<open>Recursion to the end of the stack, for every stack and frame size: the recursion ends, 02_recursion_depth.c reports
  exactly the number of frames that fit, and 04_stack_overflow.c reports 1024 bytes for each, never more than
  the stack when a frame holds its array; on a stack of 8 MiB the frame size 02 prints is at least the frame
  and, times the depth, at most the stack.  03_segfault_handler.c exits with 139 when nothing is mapped at
  address 0.\<close>

theorem stack_depth_reported:
  assumes "0 < fr" "lim \<le> tos"
  shows "\<exists>d w1 u w2. depth_main lim fr tos w = Some (0, w1) \<and> overflow_main lim fr tos w = Some (0, w2) \<and> d = (tos - lim) div fr \<and>
    (''SIGSEGV caught at depth %ld'', [I (int d)]) \<in> set (printed w1) \<and>
    (''each frame ~= %ld bytes'', [I (8 * 1024 * 1024 div max 1 (int d))]) \<in> set (printed w1) \<and>
    (''recovered; approximate stack used = %ld bytes (~%ld KiB)'', [I (int u), I (int d)]) \<in> set (printed w2) \<and>
    (1024 \<le> fr \<longrightarrow> u \<le> tos - lim) \<and>
    (tos - lim = 8 * 1024 * 1024 \<and> fr \<le> tos - lim \<longrightarrow>
      fr \<le> 8 * 1024 * 1024 div d \<and> 8 * 1024 * 1024 div d * d \<le> 8 * 1024 * 1024) \<and>
    (ram w 0 = None \<longrightarrow> fst (segv_main w) = 139)"
proof -
  let ?d = "(tos - lim) div fr"
  have 1: "depth_recurse lim fr tos 0 = Some (int ?d)" using depth_recurse_exact [OF assms, of 0] by simp
  obtain a where 2: "grow lim fr tos 0 = Some (1024 * int ?d, a)" using grow_exact [OF assms, of 0] by auto
  have mx: "(if int ?d \<noteq> 0 then int ?d else 1) = max 1 (int ?d)" by (auto simp: max_def)
  obtain w1 where w1: "depth_main lim fr tos w = Some (0, w1)"
    "(''SIGSEGV caught at depth %ld'', [I (int ?d)]) \<in> set (printed w1)"
    "(''each frame ~= %ld bytes'', [I (8 * 1024 * 1024 div max 1 (int ?d))]) \<in> set (printed w1)"
    unfolding depth_main_def Let_def 1 mx bind.bind_lunit by (auto simp: world_simps)
  obtain w2 where w2: "overflow_main lim fr tos w = Some (0, w2)"
    "(''recovered; approximate stack used = %ld bytes (~%ld KiB)'', [I (int (1024 * ?d)), I (int ?d)]) \<in> set (printed w2)"
    unfolding overflow_main_def Let_def 2 bind.bind_lunit prod.case by (auto simp: world_simps)
  have "1024 * ?d \<le> tos - lim" if "1024 \<le> fr"
    using order_trans [OF mult_le_mono2 [OF that, of ?d] div_times_less_eq_dividend] by (simp only: mult.commute)
  moreover have "fr \<le> 8 * 1024 * 1024 div ?d \<and> 8 * 1024 * 1024 div ?d * ?d \<le> 8 * 1024 * 1024"
    if "tos - lim = 8 * 1024 * 1024" "fr \<le> tos - lim"
    using frame_estimate [OF assms(1) that(2,1)] that(1) by simp
  moreover have "ram w 0 = None \<Longrightarrow> fst (segv_main w) = 139"
    by (simp add: segv_main_def poke_def segv_handler_def Let_def world_simps)
  ultimately show ?thesis using w1 w2 by (intro exI [of _ ?d] exI [of _ w1] exI [of _ "1024 * ?d"] exI [of _ w2] conjI) (assumption | rule refl impI | erule conjE | simp)+
qed

theorem stack_depth_reported_witness:
  "\<exists>w1. depth_main 4096 96 8392704 status_world = Some (0, w1)"
  using stack_depth_reported [of 96 4096 8392704 status_world] by auto

end
