(* ===== verification/Oom.thy ===== *)
theory Oom
  imports Cstring
begin

text \<open>
  src/07_paging_swapping/04_oom_score.c: a number read from a file with fscanf and written to one with
  snprintf and write.  fscanf stores the long that strtol returns in an int.
\<close>

definition int_of_long :: "int \<Rightarrow> int" where
  "int_of_long n = sint (of_int n :: 32 word)"

definition fscanf_d :: "string \<Rightarrow> int option" where
  "fscanf_d s = (case scanf [Long 10] s of I n # _ \<Rightarrow> Some (int_of_long n) | _ \<Rightarrow> None)"

definition show_int :: "int \<Rightarrow> string" where
  "show_int v = (if v < 0 then CHR ''-'' # show_nat 10 (nat (- v)) else show_nat 10 (nat v))"

definition read_int :: "string \<Rightarrow> world \<Rightarrow> int \<times> world" where
  "read_int path w =
     (let (f, w) = fopen_r path w in
      case f of None \<Rightarrow> (-1, perror path w)
      | Some s \<Rightarrow> (case fscanf_d s of Some v \<Rightarrow> v | None \<Rightarrow> -1, fclose w))"

text \<open>snprintf returns the length of the whole text, of which 15 characters fit; write is asked for that
  many.\<close>

definition write_int :: "string \<Rightarrow> int \<Rightarrow> world \<Rightarrow> int \<times> world" where
  "write_int path v w =
     (let (fd, w) = sys ''open'' [S path, S ''O_WRONLY''] w in
      if fd < 0 then (-1, w)
      else (let n = length (show_int v); buf = take 15 (show_int v);
                (r, w) = sys ''write'' [I fd, S buf, I (int n)] w;
                w = call ''close'' [I fd] w
            in (if r = int n then 0 else -1, w)))"

definition oom_main :: "world \<Rightarrow> int \<times> world" where
  "oom_main w =
     (let (v, w) = read_int ''/proc/self/oom_score'' w;
          w = printf ''oom_score      = %d'' [I v] w;
          (v, w) = read_int ''/proc/self/oom_score_adj'' w;
          w = printf ''oom_score_adj  = %d'' [I v] w;
          (r, w) = write_int ''/proc/self/oom_score_adj'' (-500) w;
          w = (if r = 0 then puts ''set oom_score_adj = -500'' w else perror ''write oom_score_adj'' w);
          (v, w) = read_int ''/proc/self/oom_score'' w;
          w = printf ''oom_score now  = %d'' [I v] w;
          (v, w) = read_int ''/proc/self/oom_score_adj'' w;
          w = printf ''oom_score_adj  = %d'' [I v] w
      in (0, w))"

section \<open>A number that is written can be read\<close>

lemma minus_plain: "\<not> is_space (CHR ''-'')" "CHR ''-'' \<noteq> CHR ''+''"
  by (simp_all add: is_space_def)

lemma scan_digits_neg:
  assumes "r = [] \<or> \<not> is_digit 10 (hd r)" "r = [] \<or> hd r \<noteq> CHR ''x'' \<and> hd r \<noteq> CHR ''X''"
  shows "scan_digits 10 (CHR ''-'' # show_nat 10 n @ r) = Some (True, n, r)"
proof -
  have "scan_digits 10 (show_nat 10 n @ r) = Some (False, n, r)" using assms by (intro scan_digits_show') auto
  moreover obtain d ds where s: "show_nat 10 n = hex_digit d # ds" "d < 10" by (rule show_nat_hd [of 10 n]) auto
  ultimately show ?thesis using minus_plain(1) hex_digit_not [of d] hex_digit_not_space [of d]
    by (simp add: scan_digits_def skip_ws_def Let_def split: if_splits)
qed

lemma fscanf_show_int:
  assumes "- (2 ^ 31) \<le> v" "v < 2 ^ 31" "r = [] \<or> is_space (hd r)"
  shows "fscanf_d (show_int v @ r) = Some v"
proof -
  have sp: "\<not> is_digit 10 c \<and> c \<noteq> CHR ''x'' \<and> c \<noteq> CHR ''X''" if "is_space c" for c
    using that by (auto simp: is_space_def is_digit_def digit_val_def)
  have "sint (of_int v :: 32 word) = v"
    using assms by (simp add: signed_of_int signed_take_bit_int_eq_self)
  moreover have "scan_digits 10 (show_int v @ r) = Some (v < 0, nat \<bar>v\<bar>, r)"
    using assms(3) sp scan_digits_neg [of r] scan_digits_show' [of 10 r] by (auto simp: show_int_def)
  moreover have "clamp_long (v < 0) (nat \<bar>v\<bar>) = v" using assms by (auto simp: clamp_long_def LONG_MAX_def LONG_MIN_def)
  ultimately show ?thesis by (simp add: fscanf_d_def int_of_long_def)
qed

lemma length_show_int: "- (2 ^ 31) \<le> v \<Longrightarrow> v < 2 ^ 31 \<Longrightarrow> length (show_int v) \<le> 11"
  using show_nat_length [of 10 "nat (- v)" 9] show_nat_length [of 10 "nat v" 9] by (auto simp: show_int_def nat_less_iff)

section \<open>Properties\<close>

text \<open>C39. The numbers of the OOM files: for every int v, write_int hands write the whole decimal text of v, which fits its
  array, and returns 0 exactly when the file was opened and all of it was written; read_int returns v from a file that
  holds that text, alone or followed by white space.\<close>

theorem oom_int_roundtrip:
  assumes "- (2 ^ 31) \<le> v" "v < 2 ^ 31"
  shows "(\<forall>w. os w (log w @ [Sys ''fopen'' [S path]]) \<noteq> 0 \<and>
      (\<exists>r. reply w (log w @ [Sys ''fopen'' [S path]]) = show_int v @ r \<and> (r = [] \<or> is_space (hd r))) \<longrightarrow> fst (read_int path w) = v) \<and>
    (\<forall>w. let fd = os w (log w @ [Sys ''open'' [S path, S ''O_WRONLY'']]);
            l = log w @ [Sys ''open'' [S path, S ''O_WRONLY''], Sys ''write'' [I fd, S (show_int v), I (int (length (show_int v)))]] in
      fst (write_int path v w) = (if 0 \<le> fd \<and> os w l = int (length (show_int v)) then 0 else -1) \<and>
      (0 \<le> fd \<longrightarrow> log (snd (write_int path v w)) = l @ [Sys ''close'' [I fd]])) \<and>
    length (show_int v) < 16"
proof (intro conjI allI)
  have fit: "length (show_int v) \<le> 11" using length_show_int [OF assms] .
  then show "length (show_int v) < 16" by simp
  fix w
  show "os w (log w @ [Sys ''fopen'' [S path]]) \<noteq> 0 \<and>
      (\<exists>r. reply w (log w @ [Sys ''fopen'' [S path]]) = show_int v @ r \<and> (r = [] \<or> is_space (hd r))) \<longrightarrow> fst (read_int path w) = v"
    using fscanf_show_int [OF assms] fscanf_show_int [OF assms, of "[]"]
    by (auto simp: read_int_def fopen_r_def world_simps Let_def)
  have tk: "take 15 (show_int v) = show_int v" using fit by simp
  show "let fd = os w (log w @ [Sys ''open'' [S path, S ''O_WRONLY'']]);
            l = log w @ [Sys ''open'' [S path, S ''O_WRONLY''], Sys ''write'' [I fd, S (show_int v), I (int (length (show_int v)))]] in
      fst (write_int path v w) = (if 0 \<le> fd \<and> os w l = int (length (show_int v)) then 0 else -1) \<and>
      (0 \<le> fd \<longrightarrow> log (snd (write_int path v w)) = l @ [Sys ''close'' [I fd]])"
    by (auto simp: write_int_def world_simps Let_def tk)
qed

theorem oom_int_roundtrip_witness: "length (show_int (-500)) < 16"
  using oom_int_roundtrip [of "-500" "''f''"] by simp

end
