(* ===== verification/Buddy_Spec.thy ===== *)
theory Buddy_Spec
  imports Buddy World
begin

text \<open>
  The buddy allocator of src/14_putting_it_together/05_buddy.c as a refinement of nine lists of block addresses: the
  functions spec_alloc and spec_free on such lists, and main of the program with its dump, whose output follows
  from them for every place of the arena.
\<close>

section \<open>The memory represents the lists\<close>

definition represents :: "buddy \<Rightarrow> (nat \<Rightarrow> addr list) \<Rightarrow> (addr \<times> nat) multiset \<Rightarrow> bool" where
  "represents s F H \<longleftrightarrow> buddy_core s F H \<and> no_buddies (b_base s) F"

lemma represents_alloc:
  assumes "represents s F H" "pages \<le> 2 ^ 30" "spec_alloc pages F = (p, F')"
  obtains s' where "buddy_alloc pages s = Some (p, s')" "b_base s' = b_base s"
    "represents s' F' (if p = 0 then H else add_mset (p, pord pages) H)"
proof (cases "\<exists>i. pord pages \<le> i \<and> i \<le> 8 \<and> F i \<noteq> []")
  case True
  then show ?thesis using buddy_alloc_core [of s F H pages] assms that
    by (subst (asm) if_P [OF True]) (auto simp: represents_def)
next
  case False
  then have "buddy_alloc pages s = Some (0, s)" "p = 0" "F' = F"
    using buddy_alloc_core [of s F H pages] assms by (simp_all add: represents_def)
  then show ?thesis using assms(1) that by simp
qed

lemma represents_free:
  assumes "represents s F (add_mset (p, pord pages) H)" "pages \<le> 2 ^ 30"
  obtains s' where "buddy_free p pages s = Some s'" "b_base s' = b_base s"
    "represents s' (spec_free (b_base s) p pages F) H"
  using buddy_free_core [of s F p pages H] assms that by (auto simp: represents_def)

lemma list_length_chain:
  "chain 0 (b_mem s) p xs \<Longrightarrow> list_length p n s = Some (n + length xs)"
proof (induction xs arbitrary: p n)
  case (Cons x xs)
  then obtain q where "p = x" "x \<noteq> 0" "load64 (b_mem s) x = Some q" "chain 0 (b_mem s) q xs" by auto
  with Cons.IH [of q "n + 1"] show ?case by (subst list_length.simps) (simp add: blk_next_def)
qed (simp add: list_length.simps)

lemma represents_count:
  assumes "represents s F H" "i \<le> 8"
  shows "dump_count i s = Some (length (F i))"
proof -
  have l: "lists_ok s F" using assms(1) by (simp add: represents_def buddy_core_def)
  then have "chain 0 (b_mem s) (b_fl s ! i) (F i)" "length (b_fl s) = 9" using assms(2) by (auto simp: lists_ok_def)
  then show ?thesis using assms(2) list_length_chain by (simp add: dump_count_def fl_get_def)
qed

section \<open>dump and main\<close>

type_synonym out = "(string \<times> arg list) list"

fun dump_orders :: "nat list \<Rightarrow> buddy \<Rightarrow> out option" where
  "dump_orders [] s = Some []"
| "dump_orders (o' # os') s = do {
     n \<leftarrow> dump_count o' s;
     ls \<leftarrow> dump_orders os' s;
     Some ((''  order=%d:%d'', [I (int o'), I (int n)]) # ls)}"

definition dump :: "buddy \<Rightarrow> out option" where
  "dump s = do {
     ls \<leftarrow> dump_orders [0..<Suc MAX_ORDER] s;
     Some ([(''free lists:'', [])] @ ls @ [('''', [])])}"

definition buddy_main :: "addr option \<Rightarrow> mem \<Rightarrow> (out \<times> buddy) option" where
  "buddy_main choice m = do {
     s \<leftarrow> buddy_init choice (buddy_start m);
     d0 \<leftarrow> dump s;
     (a, s) \<leftarrow> buddy_alloc 3 s; d1 \<leftarrow> dump s;
     (b, s) \<leftarrow> buddy_alloc 1 s; d2 \<leftarrow> dump s;
     (c, s) \<leftarrow> buddy_alloc 8 s; d3 \<leftarrow> dump s;
     s \<leftarrow> buddy_free a 3 s; d4 \<leftarrow> dump s;
     s \<leftarrow> buddy_free b 1 s; d5 \<leftarrow> dump s;
     s \<leftarrow> buddy_free c 8 s; d6 \<leftarrow> dump s;
     Some (d0 @ (''alloc 3 pages -> %p'', [I (int a)]) # d1 @ (''alloc 1 page  -> %p'', [I (int b)]) # d2
       @ (''alloc 8 pages -> %p'', [I (int c)]) # d3 @ (''free a'', []) # d4 @ (''free b'', []) # d5
       @ (''free c'', []) # d6, s)}"

definition counts_line :: "nat list \<Rightarrow> out" where
  "counts_line ns = [(''free lists:'', [])] @ map (\<lambda>i. (''  order=%d:%d'', [I (int i), I (int (ns ! i))])) [0..<9] @ [('''', [])]"

lemma dump_orders_counts:
  "represents s F H \<Longrightarrow> \<forall>i \<in> set ks. i \<le> 8 \<Longrightarrow>
   dump_orders ks s = Some (map (\<lambda>i. (''  order=%d:%d'', [I (int i), I (int (length (F i)))])) ks)"
  by (induction ks) (simp_all add: represents_count)

lemma represents_dump:
  assumes "represents s F H"
  shows "dump s = Some (counts_line (map (\<lambda>i. length (F i)) [0..<9]))"
proof -
  have r: "[0..<Suc MAX_ORDER] = [0..<9]" by (simp add: MAX_ORDER_def del: upt_Suc)
  have "dump_orders [0..<9] s = Some (map (\<lambda>i. (''  order=%d:%d'', [I (int i), I (int (length (F i)))])) [0..<9])"
    by (rule dump_orders_counts [OF assms]) simp
  moreover have "map (\<lambda>i. (''  order=%d:%d'', [I (int i), I (int (length (F i)))])) [0..<9] =
      map (\<lambda>i. (''  order=%d:%d'', [I (int i), I (int (map (\<lambda>i. length (F i)) [0..<9] ! i))])) [0..<9]"
    by (rule map_cong) simp_all
  ultimately show ?thesis unfolding dump_def r counts_line_def by simp
qed

lemma buddy_addr_off:
  assumes "b + c < 2 ^ 64" "b + (c XOR bsize k) < 2 ^ 64"
  shows "buddy_addr b (b + c) k = b + (c XOR bsize k)"
proof -
  have "sub64 (b + c) b = c" using assms(1) by (simp add: sub64_exact)
  then show ?thesis using assms by (simp add: buddy_addr_def add64_exact)
qed

lemma pord_demo [simp]: "pord 3 = 2" "pord 1 = 0" "pord 8 = 3"
  by (simp_all add: pord_def order_of_def order_loop.simps shl_int_def)


lemma spec_split_step:
  "spec_split order b i F = (if order < i then spec_split order b (i - 1) (F(i - 1 := (b + bsize (i - 1)) # F (i - 1))) else F)"
  by (cases i) auto

definition lists9 :: "addr list list \<Rightarrow> nat \<Rightarrow> addr list" where
  "lists9 ls i = (if i < length ls then ls ! i else [])"

lemma lists9_simps [simp]:
  "i < length ls \<Longrightarrow> lists9 ls i = ls ! i"
  "i < length ls \<Longrightarrow> (lists9 ls)(i := xs) = lists9 (ls[i := xs])"
  by (auto simp: lists9_def fun_eq_iff)

lemma lists9_start: "(\<lambda>_. [])(8 := [b]) = lists9 [[], [], [], [], [], [], [], [], [b]]"
proof
  fix i
  show "((\<lambda>_. [])(8 := [b])) i = lists9 [[], [], [], [], [], [], [], [], [b]] i"
  proof (cases "i < 8")
    case True
    then have "i \<in> set [0..<8]" by simp
    then show ?thesis by (auto simp: upt_rec)
  qed (simp add: lists9_def)
qed

lemmas spec_steps = spec_alloc_def spec_free_def upt_rec spec_split_step [of _ _ "numeral k" for k] bsize_def

text \<open>The lists after each step of main.\<close>

abbreviation (input) at0 :: "addr \<Rightarrow> nat \<Rightarrow> addr list" where
  "at0 b \<equiv> lists9 [[], [], [], [], [], [], [], [], [b]]"

abbreviation (input) at1 :: "addr \<Rightarrow> nat \<Rightarrow> addr list" where
  "at1 b \<equiv> lists9 [[], [], [b + 16384], [b + 32768], [b + 65536], [b + 131072], [b + 262144], [b + 524288], []]"

abbreviation (input) at2 :: "addr \<Rightarrow> nat \<Rightarrow> addr list" where
  "at2 b \<equiv> lists9 [[b + 20480], [b + 24576], [], [b + 32768], [b + 65536], [b + 131072], [b + 262144], [b + 524288], []]"

abbreviation (input) at3 :: "addr \<Rightarrow> nat \<Rightarrow> addr list" where
  "at3 b \<equiv> lists9 [[b + 20480], [b + 24576], [], [], [b + 65536], [b + 131072], [b + 262144], [b + 524288], []]"

abbreviation (input) at4 :: "addr \<Rightarrow> nat \<Rightarrow> addr list" where
  "at4 b \<equiv> lists9 [[b + 20480], [b + 24576], [b], [], [b + 65536], [b + 131072], [b + 262144], [b + 524288], []]"

abbreviation (input) at5 :: "addr \<Rightarrow> nat \<Rightarrow> addr list" where
  "at5 b \<equiv> lists9 [[], [], [], [b], [b + 65536], [b + 131072], [b + 262144], [b + 524288], []]"

lemma spec_run:
  assumes "b + arena_size \<le> USER_TOP"
  shows "spec_alloc 3 (at0 b) =
      (b, at1 b)"
    "spec_alloc 1 (at1 b) =
      (b + 16384, at2 b)"
    "spec_alloc 8 (at2 b) =
      (b + 32768, at3 b)"
  by (simp_all add: spec_steps add.commute)

lemma spec_run_free:
  assumes "b + arena_size \<le> USER_TOP"
  shows "spec_free b b 3 (at3 b) =
      at4 b"
    "spec_free b (b + 16384) 1 (at4 b) =
      at5 b"
    "spec_free b (b + 32768) 8 (at5 b) =
      at0 b"
proof -
  have bud: "buddy_addr b (b + c) k = b + (c XOR bsize k)" if "c < arena_size" "c XOR bsize k < arena_size" for c k
    using that assms by (intro buddy_addr_off) (simp_all add: USER_TOP_def)
  have bud0: "buddy_addr b b k = b + bsize k" if "k < 8" for k
    using bud [of 0 k] that power_strict_increasing [of "12 + k" 20 "2 :: nat"] by (simp add: bsize_def)
  show "spec_free b b 3 (at3 b) =
      at4 b"
    by (simp add: spec_free_def spec_join.simps bud0 bsize_def)
  show "spec_free b (b + 16384) 1 (at4 b) =
      at5 b"
    by (simp add: spec_free_def spec_join.simps [of b "numeral k" for k] spec_join.simps [of b 0] spec_join.simps [of b "Suc 0"] spec_join.simps [of b "Suc (Suc 0)"] spec_join.simps [of b "Suc (Suc (Suc 0))"] bud bud0 bsize_def)
  show "spec_free b (b + 32768) 8 (at5 b) =
      at0 b"
    by (simp add: spec_free_def spec_join.simps [of b "numeral k" for k] bud bud0 bsize_def)
qed

section \<open>Properties\<close>

text \<open>C8. The allocator implements its specification on lists: whenever the memory represents nine lists of free
  blocks, buddy_alloc returns the block spec_alloc returns and leaves a memory that represents the lists it leaves;
  the same for buddy_free and spec_free on a block in use; and dump counts the blocks of each list.\<close>

theorem buddy_refines:
  assumes "represents s F H" and "pages \<le> 2 ^ 30"
  shows "(\<exists>s'. buddy_alloc pages s = Some (fst (spec_alloc pages F), s') \<and>
      represents s' (snd (spec_alloc pages F))
        (if fst (spec_alloc pages F) = NULL then H else add_mset (fst (spec_alloc pages F), pord pages) H)) \<and>
    (\<forall>p H'. H = add_mset (p, pord pages) H' \<longrightarrow>
      (\<exists>s'. buddy_free p pages s = Some s' \<and> represents s' (spec_free (b_base s) p pages F) H')) \<and>
    (\<forall>i \<le> 8. dump_count i s = Some (length (F i)))"
proof (intro conjI allI impI)
  show "\<exists>s'. buddy_alloc pages s = Some (fst (spec_alloc pages F), s') \<and>
      represents s' (snd (spec_alloc pages F))
        (if fst (spec_alloc pages F) = NULL then H else add_mset (fst (spec_alloc pages F), pord pages) H)"
    by (rule represents_alloc [OF assms surjective_pairing]) blast
next
  fix p H' assume "H = add_mset (p, pord pages) H'"
  then show "\<exists>s'. buddy_free p pages s = Some s' \<and> represents s' (spec_free (b_base s) p pages F) H'"
    using represents_free [of s F p pages H'] assms by blast
next
  fix i :: nat assume "i \<le> 8"
  then show "dump_count i s = Some (length (F i))" by (rule represents_count [OF assms(1)])
qed

lemma represents_init:
  assumes "mmap_ok (Some b) ARENA_BYTES m"
  obtains s where "buddy_init (Some b) (buddy_start m) = Some s" "b_base s = b"
    "represents s (at0 b) {#}"
  using buddy_init_core [OF assms] that unfolding lists9_start by (auto simp: represents_def)

theorem buddy_refines_witness:
  "\<exists>s s'. buddy_init (Some 4096) (buddy_start Map.empty) = Some s \<and> buddy_alloc 3 s = Some (4096, s')"
proof -
  obtain s where s: "buddy_init (Some 4096) (buddy_start Map.empty) = Some s"
    "represents s (at0 4096) {#}"
    by (rule represents_init [OF demo_buddy_mmap])
  have "4096 + arena_size \<le> USER_TOP" by (simp add: USER_TOP_def)
  from buddy_refines [OF s(2), of 3] spec_run(1) [OF this] s(1) show ?thesis by auto
qed

text \<open>C19. main of 05_buddy.c, wherever the kernel maps the arena: it never faults; the three blocks are the arena's
  pages 0 to 3, page 4, and pages 8 to 15; the seven dumps show the counts of splitting and merging; and at the end
  the arena is one free block again.\<close>

theorem buddy_main_output:
  assumes "mmap_ok (Some b) ARENA_BYTES m"
  shows "\<exists>s. buddy_main (Some b) m = Some (
      counts_line [0, 0, 0, 0, 0, 0, 0, 0, 1] @
      (''alloc 3 pages -> %p'', [I (int b)]) # counts_line [0, 0, 1, 1, 1, 1, 1, 1, 0] @
      (''alloc 1 page  -> %p'', [I (int (b + 4 * 4096))]) # counts_line [1, 1, 0, 1, 1, 1, 1, 1, 0] @
      (''alloc 8 pages -> %p'', [I (int (b + 8 * 4096))]) # counts_line [1, 1, 0, 0, 1, 1, 1, 1, 0] @
      (''free a'', []) # counts_line [1, 1, 1, 0, 1, 1, 1, 1, 0] @
      (''free b'', []) # counts_line [0, 0, 0, 1, 1, 1, 1, 1, 0] @
      (''free c'', []) # counts_line [0, 0, 0, 0, 0, 0, 0, 0, 1], s) \<and>
    b_fl s = replicate 8 NULL @ [b]"
proof -
  obtain s0 where s0: "buddy_init (Some b) (buddy_start m) = Some s0" "b_base s0 = b"
    "represents s0 (at0 b) {#}"
    by (rule represents_init [OF assms])
  have ok: "b + arena_size \<le> USER_TOP" "0 < b"
    using assms by (simp_all add: mmap_ok_def ARENA_BYTES_eq page_up_id)
  note run = spec_run [OF ok(1)] and run_free = spec_run_free [OF ok(1)]
  obtain s1 where s1: "buddy_alloc 3 s0 = Some (b, s1)" "b_base s1 = b" "represents s1 (at1 b) {#(b, pord 3)#}"
    by (rule represents_alloc [OF s0(3) _ run(1)]) (use ok s0(2) in simp_all)
  obtain s2 where s2: "buddy_alloc 1 s1 = Some (b + 16384, s2)" "b_base s2 = b"
    "represents s2 (at2 b) {#(b + 16384, pord 1), (b, pord 3)#}"
    by (rule represents_alloc [OF s1(3) _ run(2)]) (use ok s1(2) in simp_all)
  obtain s3 where s3: "buddy_alloc 8 s2 = Some (b + 32768, s3)" "b_base s3 = b"
    "represents s3 (at3 b) {#(b, pord 3), (b + 16384, pord 1), (b + 32768, pord 8)#}"
    by (rule represents_alloc [OF s2(3) _ run(3)]) (use ok s2(2) in \<open>simp_all add: add_mset_commute\<close>)
  obtain s4 where s4: "buddy_free b 3 s3 = Some s4" "b_base s4 = b"
    "represents s4 (at4 b) {#(b + 16384, pord 1), (b + 32768, pord 8)#}"
    by (rule represents_free [OF s3(3)]) (simp_all add: s3(2) run_free(1))
  obtain s5 where s5: "buddy_free (b + 16384) 1 s4 = Some s5" "b_base s5 = b"
    "represents s5 (at5 b) {#(b + 32768, pord 8)#}"
    by (rule represents_free [OF s4(3)]) (simp_all add: s4(2) run_free(2))
  obtain s6 where s6: "buddy_free (b + 32768) 8 s5 = Some s6" "b_base s6 = b" "represents s6 (at0 b) {#}"
    by (rule represents_free [OF s5(3)]) (simp_all add: s5(2) run_free(3))
  note dumps = s0(3) [THEN represents_dump] s1(3) [THEN represents_dump] s2(3) [THEN represents_dump]
    s3(3) [THEN represents_dump] s4(3) [THEN represents_dump] s5(3) [THEN represents_dump] s6(3) [THEN represents_dump]
  have "b_fl s6 = replicate 8 0 @ [b]" using all_free [of s6] s6(2,3) by (auto simp: represents_def)
  then show ?thesis
    by (simp add: buddy_main_def s0(1) s1(1) s2(1) s3(1) s4(1) s5(1) s6(1) dumps upt_rec)
qed

theorem buddy_main_output_witness:
  "\<exists>ls s. buddy_main (Some 4096) Map.empty = Some (ls, s) \<and> b_fl s = replicate 8 0 @ [4096]"
  using buddy_main_output [OF demo_buddy_mmap] by blast


end
