(* ===== verification/Freelist_Spec.thy ===== *)
theory Freelist_Spec
  imports Freelist World
begin

text \<open>
  The free-list allocator of src/14_putting_it_together/04_freelist.c as a refinement of two lists, the chunks in
  address order and the free ones in the order of the free list: spec_malloc carves the first chunk that fits,
  spec_mfree joins with the neighbours and puts the result in front.  And main of the program, whose output
  follows from them for every place of the heap.
\<close>

lemma heap_malloc:
  assumes "heap_inv s cs xs" "req + 63 < 2 ^ 64" "spec_malloc req (cs, xs) = (p, cs', xs')"
  obtains s' where "my_malloc req s = Some (p, s')" "heap_inv s' cs' xs'"
proof (cases "0 < req \<and> (\<exists>h sz. (h, sz, True) \<in> set cs \<and> need_of req \<le> sz)")
  case True
  then show ?thesis using my_malloc_core [OF assms(1) _ assms(2)] assms(3) that by (auto simp: split: if_splits)
next
  case False
  then have "my_malloc req s = Some (0, s)" "spec_malloc req (cs, xs) = (0, cs, xs)"
    using my_malloc_core [OF assms(1) _ assms(2)]
    by (cases "req = 0"; auto simp: my_malloc_def spec_malloc_def split: if_splits)+
  then show ?thesis using assms that by simp
qed

lemma heap_free:
  assumes "heap_inv s cs xs" "(h, sz, False) \<in> set cs" "spec_mfree (h + 32) (cs, xs) = (cs', xs')"
  obtains s' where "my_free (h + 32) s = Some s'" "heap_inv s' cs' xs'"
proof -
  obtain as bs where cs: "cs = as @ (h, sz, False) # bs" using assms(2) by (metis split_list)
  then show thesis using my_free_core [OF assms(1) [unfolded cs]] assms(3) that by auto
qed

section \<open>main\<close>

type_synonym out = "(string \<times> arg list) list"

definition fill :: "addr \<Rightarrow> char \<Rightarrow> nat \<Rightarrow> heap \<Rightarrow> heap option" where
  "fill p c n s = map_option (\<lambda>m. s\<lparr>h_mem := m\<rparr>) (store_bytes (h_mem s) p (replicate n (of_char c)))"

definition freelist_main :: "addr option \<Rightarrow> heap \<Rightarrow> (out \<times> heap) option" where
  "freelist_main choice s = do {
     s \<leftarrow> my_init choice (1024 * 1024) s;
     (a, s) \<leftarrow> my_malloc 50 s; s \<leftarrow> fill a CHR ''A'' 50 s;
     (b, s) \<leftarrow> my_malloc 1000 s; s \<leftarrow> fill b CHR ''B'' 1000 s;
     (c, s) \<leftarrow> my_malloc 20 s; s \<leftarrow> fill c CHR ''C'' 20 s;
     s \<leftarrow> my_free b s;
     (d, s) \<leftarrow> my_malloc 900 s;
     s \<leftarrow> my_free a s;
     s \<leftarrow> my_free c s;
     s \<leftarrow> my_free d s;
     (huge, s) \<leftarrow> my_malloc 900000 s;
     s \<leftarrow> my_free huge s;
     Some ([(''a=%p b=%p c=%p'', [I (int a), I (int b), I (int c)]),
       (''after free(b) + alloc(900): d=%p (%s)'', [I (int d), S (if d = b then ''same as b'' else ''different'')]),
       (''after free-all + alloc(900K): huge=%p'', [I (int huge)])], s)}"

lemma store_payload:
  assumes "heap_inv s cs xs" "(h, sz, f) \<in> set cs" "h + 32 \<le> p" "p + length bs \<le> h + (sz - 16)"
  shows "\<exists>m. store_bytes (h_mem s) p bs = Some m \<and> heap_inv (s\<lparr>h_mem := m\<rparr>) cs xs"
  using assms
proof (induction bs arbitrary: s p)
  case (Cons b bs)
  have core: "core s cs xs" using Cons.prems(1) by (simp add: heap_inv_def)
  have l: "h + 32 \<le> p" "p < h + (sz - 16)" "h + 32 \<le> Suc p" "Suc p + length bs \<le> h + (sz - 16)" using Cons.prems by simp_all
  have "h_base s \<le> p" "p < h_end s" 
    using tiled_chunk(1,2) [OF heap_coreD(2) [OF core] Cons.prems(2)] l by simp_all
  then have "h_mem s p \<noteq> None" using heap_coreD(1) [OF core] by (auto simp: heap_ok_def mapped_def subset_eq)
  moreover have "heap_inv (s\<lparr>h_mem := (h_mem s)(p \<mapsto> b)\<rparr>) cs xs"
    using payload_write_core [OF core Cons.prems(2) l(1,2)] Cons.prems(1) by (simp add: heap_inv_def)
  from Cons.IH [OF this Cons.prems(2) l(3,4)] calculation show ?case by (simp del: fun_upd_apply)
qed simp

lemma fill_payload:
  assumes "heap_inv s cs xs" "(h, sz, f) \<in> set cs" "p = h + 32" "n + 48 \<le> sz"
  obtains s' where "fill p c n s = Some s'" "heap_inv s' cs xs"
proof -
  have "p + length (replicate n (of_char c :: u8)) \<le> h + (sz - 16)" using assms(3,4) by simp
  from store_payload [OF assms(1,2) _ this] assms(3) that show thesis by (auto simp: fill_def)
qed

text \<open>The chunks and the free list after each step of main.\<close>

definition main_cap :: nat where "main_cap = 1024 * 1024"

abbreviation (input) main1 :: "addr \<Rightarrow> chunk list \<times> addr list" where
  "main1 b \<equiv> ([(b, 112, False), (b + 112, main_cap - 112, True)], [b + 112])"

abbreviation (input) main2 :: "addr \<Rightarrow> chunk list \<times> addr list" where
  "main2 b \<equiv> ([(b, 112, False), (b + 112, 1056, False), (b + 1168, main_cap - 1168, True)], [b + 1168])"

abbreviation (input) main3 :: "addr \<Rightarrow> chunk list \<times> addr list" where
  "main3 b \<equiv> ([(b, 112, False), (b + 112, 1056, False), (b + 1168, 80, False), (b + 1248, main_cap - 1248, True)], [b + 1248])"

abbreviation (input) main4 :: "addr \<Rightarrow> chunk list \<times> addr list" where
  "main4 b \<equiv> ([(b, 112, False), (b + 112, 1056, True), (b + 1168, 80, False), (b + 1248, main_cap - 1248, True)], [b + 112, b + 1248])"

abbreviation (input) main5 :: "addr \<Rightarrow> chunk list \<times> addr list" where
  "main5 b \<equiv> ([(b, 112, False), (b + 112, 960, False), (b + 1072, 96, True), (b + 1168, 80, False),
     (b + 1248, main_cap - 1248, True)], [b + 1072, b + 1248])"

abbreviation (input) main6 :: "addr \<Rightarrow> chunk list \<times> addr list" where
  "main6 b \<equiv> ([(b, 112, True), (b + 112, 960, False), (b + 1072, 96, True), (b + 1168, 80, False),
     (b + 1248, main_cap - 1248, True)], [b, b + 1072, b + 1248])"

abbreviation (input) main7 :: "addr \<Rightarrow> chunk list \<times> addr list" where
  "main7 b \<equiv> ([(b, 112, True), (b + 112, 960, False), (b + 1072, main_cap - 1072, True)], [b + 1072, b])"

abbreviation (input) main8 :: "addr \<Rightarrow> chunk list \<times> addr list" where
  "main8 b \<equiv> ([(b, main_cap, True)], [b])"

abbreviation (input) main9 :: "addr \<Rightarrow> chunk list \<times> addr list" where
  "main9 b \<equiv> ([(b, 900048, False), (b + 900048, main_cap - 900048, True)], [b + 900048])"

lemma main_needs: "need_of 50 = 112" "need_of 1000 = 1056" "need_of 20 = 80" "need_of 900 = 960" "need_of 900000 = 900048"
  by (simp_all add: need_of_ok(5))

lemma main_mallocs:
  "spec_malloc 50 (main8 b) = (b + 32, main1 b)"
  "spec_malloc 1000 (main1 b) = (b + 144, main2 b)"
  "spec_malloc 20 (main2 b) = (b + 1200, main3 b)"
  "spec_malloc 900 (main4 b) = (b + 144, main5 b)"
  "spec_malloc 900000 (main8 b) = (b + 32, main9 b)"
  by (simp_all add: spec_malloc_def main_needs size_of_def main_cap_def)

lemma main_frees:
  "spec_mfree (b + 112 + 32) (main3 b) = main4 b"
  "spec_mfree (b + 32) (main5 b) = main6 b"
  "spec_mfree (b + 1168 + 32) (main6 b) = main7 b"
  "spec_mfree (b + 112 + 32) (main7 b) = main8 b"
  "spec_mfree (b + 32) (main9 b) = main8 b"
  by (simp_all add: spec_mfree_def size_of_def join_before_def main_cap_def Let_def add.commute)

section \<open>Properties\<close>

text \<open>C7. The allocator implements its specification on lists: whenever the memory represents chunks cs and free list
  xs, my_malloc returns what spec_malloc returns (the payload of the first chunk of the list that is large enough,
  or NULL) and leaves a memory that represents its lists, and so does my_free for spec_mfree on a chunk in use.\<close>

theorem freelist_refines:
  assumes "heap_inv s cs xs"
  shows "(\<forall>req p cs' xs'. req + 63 < 2 ^ 64 \<and> spec_malloc req (cs, xs) = (p, cs', xs') \<longrightarrow>
      (\<exists>s'. my_malloc req s = Some (p, s') \<and> heap_inv s' cs' xs')) \<and>
    (\<forall>h sz cs' xs'. (h, sz, False) \<in> set cs \<and> spec_mfree (h + 32) (cs, xs) = (cs', xs') \<longrightarrow>
      (\<exists>s'. my_free (h + 32) s = Some s' \<and> heap_inv s' cs' xs'))"
proof (intro conjI allI impI; elim conjE)
  fix req p cs' xs' assume "req + 63 < 2 ^ 64" "spec_malloc req (cs, xs) = (p, cs', xs')"
  then show "\<exists>s'. my_malloc req s = Some (p, s') \<and> heap_inv s' cs' xs'" by (rule heap_malloc [OF assms]) blast
next
  fix h sz cs' xs' assume "(h, sz, False) \<in> set cs" "spec_mfree (h + 32) (cs, xs) = (cs', xs')"
  then show "\<exists>s'. my_free (h + 32) s = Some s' \<and> heap_inv s' cs' xs'" by (rule heap_free [OF assms]) blast
qed

theorem freelist_refines_witness:
  "\<exists>s s'. my_init (Some 4096) main_cap demo_heap = Some s \<and> my_malloc 50 s = Some (4096 + 32, s')"
proof -
  have "mmap_ok (Some 4096) (page_up main_cap) (h_mem demo_heap)"
    by (simp add: mmap_ok_def page_up_def USER_TOP_def demo_heap_def main_cap_def)
  from my_init_inv [OF this] obtain s where s: "my_init (Some 4096) main_cap demo_heap = Some s" "heap_inv s [(4096, main_cap, True)] [4096]"
    by (auto simp: main_cap_def page_up_def)
  have "\<exists>s'. my_malloc 50 s = Some (4096 + 32, s')"
    using conjunct1 [OF freelist_refines [OF s(2)], rule_format, OF conjI [OF _ main_mallocs(1)]] by auto
  then show ?thesis using s(1) by blast
qed

text \<open>C18. main of 04_freelist.c, wherever the kernel maps the heap: it never faults, prints the three addresses, finds
  that the block of 900 bytes reuses the place of b, gets its 900000 bytes at the start of the heap because
  everything was merged, and ends with one free chunk.\<close>

theorem freelist_main_output:
  assumes "mmap_ok (Some b) main_cap (h_mem s)"
  shows "\<exists>s'. freelist_main (Some b) s = Some (
      [(''a=%p b=%p c=%p'', [I (int (b + 32)), I (int (b + 144)), I (int (b + 1200))]),
       (''after free(b) + alloc(900): d=%p (%s)'', [I (int (b + 144)), S ''same as b'']),
       (''after free-all + alloc(900K): huge=%p'', [I (int (b + 32))])], s') \<and>
    heap_inv s' [(b, main_cap, True)] [b]"
proof -
  have pu: "page_up 1048576 = 1048576" by (simp add: page_up_def)
  have "\<exists>s0. my_init (Some b) main_cap s = Some s0 \<and> heap_inv s0 [(b, main_cap, True)] [b]"
    using my_init_inv [of b main_cap s] assms by (auto simp: pu main_cap_def)
  then obtain s0 where s0: "my_init (Some b) main_cap s = Some s0" "heap_inv s0 [(b, main_cap, True)] [b]" by blast
  note ma = main_mallocs [of b] and fr = main_frees [of b]
  obtain s1 where s1: "my_malloc 50 s0 = Some (b + 32, s1)" "heap_inv s1 (fst (main1 b)) (snd (main1 b))"
    by (rule heap_malloc [OF s0(2) _ ma(1)]) simp_all
  obtain t1 where t1: "fill (b + 32) CHR ''A'' 50 s1 = Some t1" "heap_inv t1 (fst (main1 b)) (snd (main1 b))"
    by (rule fill_payload [OF s1(2), of b 112 False "b + 32" 50]) simp_all
  obtain s2 where s2: "my_malloc 1000 t1 = Some (b + 144, s2)" "heap_inv s2 (fst (main2 b)) (snd (main2 b))"
    by (rule heap_malloc [OF t1(2) [unfolded fst_conv snd_conv] _ ma(2)]) simp_all
  obtain t2 where t2: "fill (b + 144) CHR ''B'' 1000 s2 = Some t2" "heap_inv t2 (fst (main2 b)) (snd (main2 b))"
    by (rule fill_payload [OF s2(2), of "b + 112" 1056 False "b + 144" 1000]) simp_all
  obtain s3 where s3: "my_malloc 20 t2 = Some (b + 1200, s3)" "heap_inv s3 (fst (main3 b)) (snd (main3 b))"
    by (rule heap_malloc [OF t2(2) [unfolded fst_conv snd_conv] _ ma(3)]) simp_all
  obtain t3 where t3: "fill (b + 1200) CHR ''C'' 20 s3 = Some t3" "heap_inv t3 (fst (main3 b)) (snd (main3 b))"
    by (rule fill_payload [OF s3(2), of "b + 1168" 80 False "b + 1200" 20]) simp_all
  obtain s4 where s4: "my_free (b + 112 + 32) t3 = Some s4" "heap_inv s4 (fst (main4 b)) (snd (main4 b))"
    by (rule heap_free [OF t3(2) [unfolded fst_conv snd_conv] _ fr(1)]) simp_all
  obtain s5 where s5: "my_malloc 900 s4 = Some (b + 144, s5)" "heap_inv s5 (fst (main5 b)) (snd (main5 b))"
    by (rule heap_malloc [OF s4(2) [unfolded fst_conv snd_conv] _ ma(4)]) simp_all
  obtain s6 where s6: "my_free (b + 32) s5 = Some s6" "heap_inv s6 (fst (main6 b)) (snd (main6 b))"
    by (rule heap_free [OF s5(2) [unfolded fst_conv snd_conv] _ fr(2)]) simp_all
  obtain s7 where s7: "my_free (b + 1168 + 32) s6 = Some s7" "heap_inv s7 (fst (main7 b)) (snd (main7 b))"
    by (rule heap_free [OF s6(2) [unfolded fst_conv snd_conv] _ fr(3)]) simp_all
  obtain s8 where s8: "my_free (b + 112 + 32) s7 = Some s8" "heap_inv s8 (fst (main8 b)) (snd (main8 b))"
    by (rule heap_free [OF s7(2) [unfolded fst_conv snd_conv] _ fr(4)]) simp_all
  obtain s9 where s9: "my_malloc 900000 s8 = Some (b + 32, s9)" "heap_inv s9 (fst (main9 b)) (snd (main9 b))"
    by (rule heap_malloc [OF s8(2) [unfolded fst_conv snd_conv] _ ma(5)]) simp_all
  obtain s10 where s10: "my_free (b + 32) s9 = Some s10" "heap_inv s10 (fst (main8 b)) (snd (main8 b))"
    by (rule heap_free [OF s9(2) [unfolded fst_conv snd_conv] _ fr(5)]) simp_all
  have "b + 112 + 32 = b + 144" "b + 1168 + 32 = b + 1200" by simp_all
  then show ?thesis
    using s0(1) s1(1) t1(1) s2(1) t2(1) s3(1) t3(1) s4(1) s5(1) s6(1) s7(1) s8(1) s9(1) s10
    by (simp add: freelist_main_def main_cap_def add.commute)
qed

theorem freelist_main_output_witness:
  "\<exists>ls s'. freelist_main (Some 4096) demo_heap = Some (ls, s') \<and> heap_inv s' [(4096, main_cap, True)] [4096]"
proof -
  have "mmap_ok (Some 4096) main_cap (h_mem demo_heap)"
    by (simp add: mmap_ok_def page_up_def USER_TOP_def demo_heap_def main_cap_def)
  from freelist_main_output [OF this] show ?thesis by blast
qed

end
