(* ===== verification/Allocator_Demos.thy ===== *)
theory Allocator_Demos
  imports Bump Pool Slab World "HOL-Library.Signed_Division"
begin

text \<open>
  The main functions of src/14_putting_it_together/01_bump.c, 02_pool.c and 03_slab.c, each with its allocator: what
  they print wherever the kernel places the memory, and that they give the memory back.
\<close>

interpretation pool_blocks: block_memory "\<lambda>s. pool_inv_fl osz s fs" snd pool_set_mem pool_extent for osz fs
proof
  fix s and p r :: nat and L
  assume i: "pool_inv_fl osz s fs (add_mset (p, r) L)"
  then have "pool_inv osz s (add_mset (p, r) L)" by (auto simp: pool_inv_def)
  then show "mapped (snd s) p (pool_extent r)" by (rule pool.live_mapped)
next
  fix s and p r q t :: nat and L
  assume "pool_inv_fl osz s fs (add_mset (p, r) (add_mset (q, t) L))"
  then have "pool_inv osz s (add_mset (p, r) (add_mset (q, t) L))" by (auto simp: pool_inv_def)
  then show "apart p (pool_extent r) q (pool_extent t)" by (rule pool.live_apart)
next
  fix s and p r k :: nat and L b
  assume "pool_inv_fl osz s fs (add_mset (p, r) L)" "k < pool_extent r"
  then show "pool_inv_fl osz (pool_set_mem ((snd s)(p + k \<mapsto> b)) s) fs (add_mset (p, r) L)"
    using pool_write_inv [of osz "fst s" "snd s" fs p r L k b] by (simp add: pool_set_mem_def pool_extent_def)
qed (simp_all add: pool_set_mem_def)

interpretation slab_blocks: block_memory "slab_inv kern osz k" c_mem slab_set_mem slab_extent for kern osz k
proof
  show "slab_inv kern osz k s (add_mset (p, r) L) \<Longrightarrow> mapped (c_mem s) p (slab_extent r)" for s p r L
    by (rule slab.live_mapped)
  show "slab_inv kern osz k s (add_mset (p, r) (add_mset (q, t) L)) \<Longrightarrow> apart p (slab_extent r) q (slab_extent t)" for s p r q t L
    by (rule slab.live_apart)
  show "slab_inv kern osz k s (add_mset (p, r) L) \<Longrightarrow> j < slab_extent r \<Longrightarrow>
      slab_inv kern osz k (slab_set_mem ((c_mem s)(p + j \<mapsto> b)) s) (add_mset (p, r) L)" for s p r L j b
    by (rule slab.write_inv)
qed (simp_all add: slab_set_mem_def)

section \<open>Strings\<close>

type_synonym out = "(string \<times> arg list) list"

text \<open>What printf prints for percent s: the bytes up to the first NUL of an array of n bytes.\<close>

fun c_str :: "nat \<Rightarrow> addr \<Rightarrow> mem \<Rightarrow> string option" where
  "c_str 0 a m = None"
| "c_str (Suc n) a m = do {
     b \<leftarrow> m a;
     if b = 0 then Some [] else do { s \<leftarrow> c_str n (Suc a) m; Some (char_of (unat b) # s) } }"

lemma char_byte: "char_of (unat (of_nat (of_char c) :: u8)) = c" "(of_nat (of_char c) :: u8) = 0 \<longleftrightarrow> c = CHR 0x00"
proof -
  have "of_char c < (256 :: nat)" by simp
  then have u: "unat (of_nat (of_char c) :: u8) = of_char c" by (simp add: unsigned_of_nat take_bit_nat_eq_self)
  then show "char_of (unat (of_nat (of_char c) :: u8)) = c" by simp
  have "(of_nat (of_char c) :: u8) = 0 \<longleftrightarrow> unat (of_nat (of_char c) :: u8) = 0" by (simp only: unat_eq_0)
  also have "\<dots> \<longleftrightarrow> of_char c = (of_char (CHR 0x00) :: nat)" using u by simp
  also have "\<dots> \<longleftrightarrow> c = CHR 0x00" by (simp only: of_char_eq_iff)
  finally show "(of_nat (of_char c) :: u8) = 0 \<longleftrightarrow> c = CHR 0x00" .
qed

lemma c_str_bytes:
  "CHR 0x00 \<notin> set s \<Longrightarrow> length s < n \<Longrightarrow> (\<And>i. i \<le> length s \<Longrightarrow> m (a + i) = Some (bytes_of s ! i)) \<Longrightarrow> c_str n a m = Some s"
proof (induction s arbitrary: n a)
  case Nil
  then show ?case by (cases n) (use Nil(3) [of 0] in \<open>auto simp: bytes_of_def\<close>)
next
  case (Cons c s)
  then obtain k where n: "n = Suc k" by (cases n) auto
  have 0: "m a = Some (of_nat (of_char c))" using Cons.prems(3) [of 0] by (simp add: bytes_of_def)
  have "m (Suc a + i) = Some (bytes_of s ! i)" if "i \<le> length s" for i
    using Cons.prems(3) [of "Suc i"] that by (simp add: bytes_of_def)
  then have "c_str k (Suc a) m = Some s" using Cons.prems n by (intro Cons.IH) auto
  then show ?case using 0 Cons.prems(1) by (auto simp: n char_byte)
qed

text \<open>A mapping that is given back leaves the memory as it was.\<close>

lemma munmap_fresh:
  assumes "mmap_ok (Some b) n m" "\<forall>x. x < b \<or> b + page_up n \<le> x \<longrightarrow> m' x = m x"
  shows "sys_munmap b n m' = m"
proof
  fix x
  have "m x = None" if "b \<le> x" "x < b + page_up n"
    using assms(1) that by (auto simp: mmap_ok_def disjoint_iff domIff)
  then show "sys_munmap b n m' x = m x" using assms(2) by (cases "b \<le> x"; cases "x < b + page_up n") (auto simp: sys_munmap_def)
qed

section \<open>01_bump.c\<close>

text \<open>The stores of the three uses of the arena.  arena_init leaves bump and end as they were when mmap fails, and
  main does not look at its result.\<close>

definition bump_fill :: "addr \<Rightarrow> addr \<Rightarrow> addr \<Rightarrow> mem \<Rightarrow> mem option" where
  "bump_fill s1 s2 ai m = do {
     m \<leftarrow> store_bytes m s1 (bytes_of ''hello world!'');
     m \<leftarrow> store_bytes m s2 (replicate 100 (of_char CHR ''B''));
     m \<leftarrow> store_bytes m (s2 + 99) [0];
     for_list (\<lambda>i m. store32 m (ai + 4 * i) i) [0..<1000] m}"

definition bump_main :: "addr option \<Rightarrow> arena \<Rightarrow> mem \<Rightarrow> (out \<times> mem) option" where
  "bump_main choice a m =
     (let (r, a, m) = arena_init choice (4 * 1024 * 1024) a m;
          (s1, a) = arena_alloc 13 a;
          (s2, a) = arena_alloc 100 a;
          (ai, a) = arena_alloc (1000 * 4) a
      in do {
        m \<leftarrow> bump_fill s1 s2 ai m;
        t \<leftarrow> c_str 13 s1 m;
        c0 \<leftarrow> m s2;
        c98 \<leftarrow> m (s2 + 98);
        v \<leftarrow> load32 m (ai + 4 * 999);
        let used = arena_used a;
        let a = arena_reset a;
        let after = arena_used a;
        Some ([(''s1=%p %s'', [I (int s1), S t]), (''s2=%p (%c..%c)'', [I (int s2), I (uint c0), I (uint c98)]),
            (''ai[999]=%d  used=%ld bytes'', [I (int v), I (int used)]), (''after reset: used=%ld'', [I (int after)])],
          arena_destroy a m)})"

lemma for_list_append: "for_list f (xs @ ys) s = do { s \<leftarrow> for_list f xs s; for_list f ys s }"
  by (induction xs arbitrary: s) (auto split: bind_splits)

lemma store_ints:
  assumes "mapped m a (4 * n)"
  shows "j \<le> n \<Longrightarrow> \<exists>m'. for_list (\<lambda>i m. store32 m (a + 4 * i) i) [0..<j] m = Some m' \<and> dom m' = dom m \<and>
    (\<forall>i < j. i < 2 ^ 32 \<longrightarrow> load32 m' (a + 4 * i) = Some i) \<and> (\<forall>x. x < a \<or> a + 4 * n \<le> x \<longrightarrow> m' x = m x)"
proof (induction j)
  case (Suc j)
  then obtain m1 where m1: "for_list (\<lambda>i m. store32 m (a + 4 * i) i) [0..<j] m = Some m1" "dom m1 = dom m"
    "\<forall>i < j. i < 2 ^ 32 \<longrightarrow> load32 m1 (a + 4 * i) = Some i" "\<forall>x. x < a \<or> a + 4 * n \<le> x \<longrightarrow> m1 x = m x" by auto
  have "mapped m (a + 4 * j) 4" using mapped_mono [OF assms, of "a + 4 * j" 4] Suc.prems by simp
  then have mp: "mapped m1 (a + 4 * j) 4" by (simp add: mapped_def m1(2))
  let ?m = "put32 m1 (a + 4 * j) j"
  have "for_list (\<lambda>i m. store32 m (a + 4 * i) i) [0..<Suc j] m = Some ?m"
    by (simp add: for_list_append m1(1) store32_mapped [OF mp])
  moreover have "dom ?m = dom m" using mp by (auto simp: dom_put m1(2) [symmetric] mapped_def)
  moreover have "load32 ?m (a + 4 * i) = Some i" if "i < Suc j" "i < 2 ^ 32" for i
    using m1(3) that by (cases "i = j") (simp_all add: load32_put_same load32_put_other)
  moreover have "?m x = m x" if "x < a \<or> a + 4 * n \<le> x" for x
    using m1(4) that Suc.prems by (subst put_outside) auto
  ultimately show ?case by blast
qed simp

lemma bump_fill_ok:
  assumes "mapped m b 4128"
  shows "\<exists>m'. bump_fill b (b + 16) (b + 128) m = Some m' \<and> c_str 13 b m' = Some ''hello world!'' \<and>
    m' (b + 16) = Some 66 \<and> m' (b + 16 + 98) = Some 66 \<and> load32 m' (b + 128 + 4 * 999) = Some 999 \<and>
    (\<forall>x. x < b \<or> b + 4128 \<le> x \<longrightarrow> m' x = m x)"
proof -
  let ?h = "bytes_of ''hello world!''" and ?B = "replicate 100 (of_char CHR ''B'' :: u8)"
  define m1 where "m1 = put m b ?h"
  define m2 where "m2 = put m1 (b + 16) ?B"
  define m3 where "m3 = put m2 (b + 115) [0]"
  have lh: "length ?h = 13" by (simp add: bytes_of_def)
  have mp: "mapped m b 13" "mapped m (b + 16) 100" "mapped m (b + 115) 1" "mapped m (b + 128) (4 * 1000)"
    by (rule mapped_mono [OF assms]; simp)+
  have d1: "dom m1 = dom m" using mp(1) lh by (auto simp: m1_def dom_put mapped_def)
  have d2: "dom m2 = dom m" using mp(2) d1 by (auto simp: m2_def dom_put mapped_def)
  have d3: "dom m3 = dom m" using mp(3) d2 by (auto simp: m3_def dom_put mapped_def)
  have st: "store_bytes m b ?h = Some m1" "store_bytes m1 (b + 16) ?B = Some m2" "store_bytes m2 (b + 16 + 99) [0] = Some m3"
    using mp d1 d2 by (simp_all add: store_bytes_char lh m1_def m2_def m3_def mapped_def add.assoc)
  have "mapped m3 (b + 128) (4 * 1000)" using mp(4) by (simp add: mapped_def d3)
  from store_ints [OF this order_refl] obtain m' where
    m': "for_list (\<lambda>i m. store32 m (b + 128 + 4 * i) i) [0..<1000] m3 = Some m'"
    "\<forall>i < 1000. i < 2 ^ 32 \<longrightarrow> load32 m' (b + 128 + 4 * i) = Some i"
    "\<forall>x. x < b + 128 \<or> b + 128 + 4 * 1000 \<le> x \<longrightarrow> m' x = m3 x" by blast
  have v: "load32 m' (b + 128 + 4 * 999) = Some 999" using m'(2) [rule_format, of 999] by simp
  have "m' (b + i) = Some (?h ! i)" if "i \<le> 12" for i
  proof -
    have "m' (b + i) = m1 (b + i)" using m'(3) that by (simp add: m3_def m2_def put_outside)
    then show ?thesis using that lh by (simp add: m1_def put_def)
  qed
  then have "c_str 13 b m' = Some ''hello world!''" by (intro c_str_bytes) simp_all
  moreover have "m' (b + 16) = Some 66" "m' (b + 16 + 98) = Some 66"
    using m'(3) by (simp_all add: m3_def m2_def put_def)
  moreover have "m' x = m x" if "x < b \<or> b + 4128 \<le> x" for x
    using m'(3) that lh by (auto simp: m3_def m2_def m1_def put_outside)
  moreover have "bump_fill b (b + 16) (b + 128) m = Some m'" using st m'(1) by (simp add: bump_fill_def)
  ultimately show ?thesis using v by blast
qed

lemma bump_main_runs:
  assumes "mmap_ok (Some b) (4 * 1024 * 1024) m"
  shows "bump_main (Some b) a m = Some (
      [(''s1=%p %s'', [I (int b), S ''hello world!'']), (''s2=%p (%c..%c)'', [I (int (b + 16)), I 66, I 66]),
       (''ai[999]=%d  used=%ld bytes'', [I 999, I 4128]), (''after reset: used=%ld'', [I 0])], m)"
proof -
  obtain a1 m1 where i: "arena_init (Some b) (4 * 1024 * 1024) a m = (0, a1, m1)" "arena_wf a1" "a_base a1 = b"
    "a_bump a1 = b" "a_end a1 = b + 4 * 1024 * 1024" "mapped m1 b (4 * 1024 * 1024)"
    using arena_init_wf [OF assms, of a] by auto
  have pu: "page_up 4194304 = 4194304" by (rule page_up_id) simp
  have top: "b + 4194304 \<le> USER_TOP" using assms by (simp add: mmap_ok_def pu)
  have m1: "m1 = (\<lambda>x. if b \<le> x \<and> x < b + 4194304 then Some 0 else m x)"
    using i(1) by (auto simp: arena_init_def sys_mmap_def pu Let_def split: if_splits)
  have al: "align_up 13 = 16" "align_up 100 = 112" "align_up 4000 = 4000" by (simp_all add: align_up_exact)
  have add: "add64 (b + k) n = b + k + n" if "k + n < 2 ^ 32" for k n
    using top that by (intro add64_exact) (simp add: USER_TOP_def)
  have add0: "add64 b n = b + n" if "n < 2 ^ 32" for n using add [of 0 n] that by simp
  have a: "arena_alloc 13 a1 = (b, a1\<lparr>a_bump := b + 16\<rparr>)"
    "arena_alloc 100 (a1\<lparr>a_bump := b + 16\<rparr>) = (b + 16, a1\<lparr>a_bump := b + 128\<rparr>)"
    "arena_alloc 4000 (a1\<lparr>a_bump := b + 128\<rparr>) = (b + 128, a1\<lparr>a_bump := b + 4128\<rparr>)"
    by (simp_all add: arena_alloc_def al add add0 i)
  have "mapped m1 b 4128" by (rule mapped_mono [OF i(6)]) simp_all
  then obtain m2 where m2: "bump_fill b (b + 16) (b + 128) m1 = Some m2" "c_str 13 b m2 = Some ''hello world!''"
    "m2 (b + 16) = Some 66" "m2 (b + 16 + 98) = Some 66" "load32 m2 (b + 128 + 4 * 999) = Some 999"
    "\<forall>x. x < b \<or> b + 4128 \<le> x \<longrightarrow> m2 x = m1 x" using bump_fill_ok by blast
  have sub: "sub64 (b + k) b = k" if "k \<le> 4194304" for k
    using top that by (subst sub64_exact) (simp_all add: USER_TOP_def)
  have "arena_destroy (arena_reset (a1\<lparr>a_bump := b + 4128\<rparr>)) m2 = m"
    using munmap_fresh [OF assms, of m2] m2(6) sub [of 4194304]
    by (simp add: arena_destroy_def arena_reset_def i(3,5) pu m1)
  then show ?thesis
    using i(1) a m2 sub [of 4128] sub [of 0]
    by (simp add: bump_main_def arena_used_def arena_reset_def i(3))
qed

section \<open>02_pool.c\<close>

text \<open>\<open>typedef struct { int id; char name[28]; } Obj\<close>; pool_init's result is not looked at.\<close>

definition sizeof_Obj :: nat where "sizeof_Obj = 32"

definition set_obj :: "addr \<Rightarrow> nat \<Rightarrow> string \<Rightarrow> mem \<Rightarrow> mem option" where
  "set_obj p i t m = do { m \<leftarrow> store32 m p i; store_bytes m (p + 4) (take 27 (butlast (bytes_of t)) @ [0]) }"

definition show_obj :: "string \<Rightarrow> addr \<Rightarrow> mem \<Rightarrow> (string \<times> arg list) option" where
  "show_obj f p m = do { i \<leftarrow> load32 m p; t \<leftarrow> c_str 28 (p + 4) m; Some (f, [I (int p), I (int i), S t]) }"

definition pool_main :: "addr option \<Rightarrow> pool \<Rightarrow> mem \<Rightarrow> (out \<times> mem) option" where
  "pool_main choice p m = do {
     (r, p, m) \<leftarrow> pool_init choice sizeof_Obj 1024 p m;
     (a, p) \<leftarrow> pool_alloc p m;
     (b, p) \<leftarrow> pool_alloc p m;
     m \<leftarrow> set_obj a 1 ''alpha'' m;
     m \<leftarrow> set_obj b 2 ''beta'' m;
     la \<leftarrow> show_obj ''a=%p {%d, %s}'' a m;
     lb \<leftarrow> show_obj ''b=%p {%d, %s}'' b m;
     (p, m) \<leftarrow> pool_free a p m;
     (c, p) \<leftarrow> pool_alloc p m;
     let lc = (''after free(a) + alloc -> c=%p (%s)'', [I (int c), S (if c = a then ''got a back'' else ''different'')]);
     (p, m) \<leftarrow> pool_free b p m;
     (p, m) \<leftarrow> pool_free c p m;
     Some ([la, lb, lc], pool_destroy p m)}"

text \<open>Writing an object of the client keeps the pool, and the object can be read back.\<close>

lemma set_obj_ok:
  assumes inv: "pool_inv_fl osz (p, m) fs (add_mset (q, 32) L)" and t: "CHR 0x00 \<notin> set t" "length t < 28" and i: "i < 2 ^ 32"
  shows "\<exists>m'. set_obj q i t m = Some m' \<and> pool_inv_fl osz (p, m') fs (add_mset (q, 32) L) \<and>
    (\<forall>f. show_obj f q m' = Some (f, [I (int q), I (int i), S t])) \<and> (\<forall>x. x < q \<or> q + 32 \<le> x \<longrightarrow> m' x = m x)"
proof -
  let ?s = "(p, m)" and ?L = "add_mset (q, 32) L"
  let ?n = "take 27 (butlast (bytes_of t)) @ [0]"
  have n: "?n = bytes_of t" using t(2) by (simp add: bytes_of_def)
  have ln: "length (bytes_of t) = Suc (length t)" by (simp add: bytes_of_def)
  let ?m1 = "put32 m q i"
  note w1 = pool_blocks.store_block [OF inv, where k = 0 and bs = "le_bytes 4 i"]
    pool_blocks.store_inv [OF inv, where k = 0 and bs = "le_bytes 4 i"]
  have 1: "store32 m q i = Some ?m1" using w1(1) by (simp add: pool_extent_def store32_def)
  have i1: "pool_inv_fl osz (p, ?m1) fs ?L" using w1(2) by (simp add: pool_extent_def pool_set_mem_def)
  note w2 = pool_blocks.store_block [OF i1, where k = 4 and bs = "bytes_of t"]
    pool_blocks.store_inv [OF i1, where k = 4 and bs = "bytes_of t"]
  let ?m2 = "put ?m1 (q + 4) (bytes_of t)"
  have 2: "store_bytes ?m1 (q + 4) (bytes_of t) = Some ?m2" "pool_inv_fl osz (p, ?m2) fs ?L"
    using w2 t(2) by (simp_all add: pool_extent_def pool_set_mem_def ln)
  have "load32 ?m2 q = Some i" using i by (simp add: load32_put_other load32_put_same)
  moreover have "c_str 28 (q + 4) ?m2 = Some t" using t by (intro c_str_bytes) (auto simp: put_def ln)
  moreover have "?m2 x = m x" if "x < q \<or> q + 32 \<le> x" for x using that t(2) by (auto simp: put_outside ln)
  ultimately show ?thesis using 1 2 by (simp add: set_obj_def n show_obj_def)
qed


lemma c_str_cong: "(\<And>x. a \<le> x \<Longrightarrow> x < a + n \<Longrightarrow> m' x = m x) \<Longrightarrow> c_str n a m' = c_str n a m"
proof (induction n arbitrary: a)
  case (Suc n)
  have "m' a = m a" using Suc.prems by simp
  moreover have "c_str n (Suc a) m' = c_str n (Suc a) m" using Suc.prems by (intro Suc.IH) simp
  ultimately show ?case by (simp only: c_str.simps)
qed simp

lemma show_obj_cong:
  assumes "\<And>x. q \<le> x \<Longrightarrow> x < q + 32 \<Longrightarrow> m' x = m x"
  shows "show_obj f q m' = show_obj f q m"
  using assms load32_cong [of q m' m] c_str_cong [of "q + 4" 28 m' m] by (simp add: show_obj_def)

lemma pool_thread_frame:
  "pool_thread i n base osz h m = Some (h', m') \<Longrightarrow> base + n * osz < 2 ^ 64 \<Longrightarrow> 8 \<le> osz \<Longrightarrow>
   x < base \<or> base + n * osz \<le> x \<Longrightarrow> m' x = m x"
proof (induction i n base osz h m rule: pool_thread.induct)
  case (1 i n base osz h m)
  show ?case
  proof (cases "i < n")
    case False
    then show ?thesis using 1(2) by (subst (asm) pool_thread.simps) simp
  next
    case True
    then have le: "i * osz + osz \<le> n * osz" using mult_le_mono1 [of "Suc i" n osz] by simp
    then have nd: "add64 base (mul64 i osz) = base + i * osz" using 1(3) by (simp add: add64_exact mul64_exact)
    obtain m1 where m1: "store64 m (base + i * osz) h = Some m1"
      "pool_thread (Suc i) n base osz (base + i * osz) m1 = Some (h', m')"
      using 1(2) True by (subst (asm) pool_thread.simps) (auto simp: nd Let_def split: option.splits)
    have "m' x = m1 x" using 1(1) [OF True refl] m1 1(3-5) by (simp add: nd)
    moreover have "m1 x = m x"
      using m1(1) 1(4,5) le by (auto simp: store64_def store_bytes_char put_outside split: if_splits)
    ultimately show ?thesis by simp
  qed
qed

lemma pool_init_frame:
  assumes "mmap_ok (Some b) (32 * 1024) m" "pool_init (Some b) sizeof_Obj 1024 p m = Some (0, p', m')"
    "x < b \<or> b + 32768 \<le> x"
  shows "m' x = m x"
proof -
  have pu: "page_up 32768 = 32768" by (rule page_up_id) simp
  have top: "b + 32768 < 2 ^ 64" "b \<noteq> MAP_FAILED"
    using assms(1) by (simp_all add: mmap_ok_def pu USER_TOP_def MAP_FAILED_def)
  have "mul64 32 1024 = 32768" by (simp add: mul64_def)
  then obtain h where "pool_thread 0 1024 b 32 0 (\<lambda>x. if b \<le> x \<and> x < b + 32768 then Some 0 else m x) = Some (h, m')"
    using assms(2) top(2) by (auto simp: pool_init_def sizeof_Obj_def sizeof_Node_def sys_mmap_def pu Let_def split: option.splits)
  from pool_thread_frame [OF this] top assms(3) show ?thesis by auto
qed

lemma pool_main_runs:
  assumes "mmap_ok (Some b) (32 * 1024) m"
  shows "pool_main (Some b) p m = Some (
      [(''a=%p {%d, %s}'', [I (int (b + 1023 * 32)), I 1, S ''alpha'']),
       (''b=%p {%d, %s}'', [I (int (b + 1022 * 32)), I 2, S ''beta'']),
       (''after free(a) + alloc -> c=%p (%s)'', [I (int (b + 1023 * 32)), S ''got a back''])], m)"
proof -
  define A B rest where "A = b + 1023 * 32" and "B = b + 1022 * 32" and "rest = rev (slots b 32 1022)"
  have fs: "rev (slots b 32 1024) = A # B # rest"
    using slots_Suc [of b 32 1023] slots_Suc [of b 32 1022] by (simp add: A_def B_def rest_def)
  obtain p0 m0 where i: "pool_init (Some b) sizeof_Obj 1024 p m = Some (0, p0, m0)"
    "pool_inv_fl 32 (p0, m0) (A # B # rest) {#}" "p_base p0 = b" "p_cap p0 = 1024"
  proof -
    have "8 \<le> (32 :: nat)" "32 = max 8 sizeof_Obj" by (simp_all add: sizeof_Obj_def)
    from pool_init_ok [OF assms this, of p] that show thesis unfolding fs by blast
  qed
  have sz: "p_obj_sz p0 = 32" using i(2) by (simp add: pool_inv_fl_def pool_wf_def)
  note a1 = pool_alloc_ok [OF i(2), simplified] pool_alloc_inv [OF i(2), of 32, simplified]
  note a2 = pool_alloc_ok [OF a1(2), simplified] pool_alloc_inv [OF a1(2), of 32, simplified]
  let ?p2 = "p0\<lparr>p_free_head := if rest = [] then 0 else hd rest\<rparr>"
  have i2: "pool_inv_fl 32 (?p2, m0) rest (add_mset (A, 32) {#(B, 32)#})" using a2(2) by (simp add: add_mset_commute)
  obtain m1 where m1: "set_obj A 1 ''alpha'' m0 = Some m1" "pool_inv_fl 32 (?p2, m1) rest (add_mset (A, 32) {#(B, 32)#})"
    "\<And>f. show_obj f A m1 = Some (f, [I (int A), I 1, S ''alpha''])" "\<forall>x. x < A \<or> A + 32 \<le> x \<longrightarrow> m1 x = m0 x"
    using set_obj_ok [OF i2, of "''alpha''" 1] by auto
  have "pool_inv_fl 32 (?p2, m1) rest (add_mset (B, 32) {#(A, 32)#})" using m1(2) by (simp add: add_mset_commute)
  from set_obj_ok [OF this, of "''beta''" 2] obtain m2 where m2: "set_obj B 2 ''beta'' m1 = Some m2"
    "pool_inv_fl 32 (?p2, m2) rest (add_mset (A, 32) {#(B, 32)#})"
    "\<And>f. show_obj f B m2 = Some (f, [I (int B), I 2, S ''beta''])" "\<forall>x. x < B \<or> B + 32 \<le> x \<longrightarrow> m2 x = m1 x"
    by (auto simp: add_mset_commute)
  have la: "show_obj f A m2 = Some (f, [I (int A), I 1, S ''alpha''])" for f
    using m1(3) [of f] show_obj_cong [of A m2 m1 f] m2(4) by (simp add: A_def B_def)
  note f1 = pool_free_inv [OF m2(2)]
  note a3 = pool_alloc_ok [OF f1(2), simplified] pool_alloc_inv [OF f1(2), of 32, simplified]
  let ?R = "if rest = [] then 0 else hd rest"
  let ?m3 = "put64 m2 A ?R"
  let ?m4 = "put64 ?m3 B ?R"
  have "pool_inv_fl 32 (?p2, ?m3) rest (add_mset (B, 32) {#(A, 32)#})" using a3(2) by (simp add: add_mset_commute)
  note f2 = pool_free_inv [OF this, simplified]
  note f3 = pool_free_inv [OF f2(2), simplified]
  have "mul64 32 1024 = 32 * 1024" by (simp add: mul64_exact)
  moreover have "put64 ?m4 A B x = m x" if "x < b \<or> b + 32768 \<le> x" for x
    using that m1(4) m2(4) pool_init_frame [OF assms i(1) that] by (auto simp: put_outside A_def B_def)
  moreover have "page_up 32768 = 32768" by (rule page_up_id) simp
  ultimately have "sys_munmap b (mul64 32 1024) (put64 ?m4 A B) = m"
    using munmap_fresh [OF assms] by simp
  then have "pool_destroy (p0\<lparr>p_free_head := A\<rparr>) (put64 ?m4 A B) = m"
    by (simp add: pool_destroy_def i(3,4) sz)
  then show ?thesis
    using i(1) a1(1) a2(1) m1(1) m2(1) la [of "''a=%p {%d, %s}''"] m2(3) [of "''b=%p {%d, %s}''"] f1(1) a3(1) f2(1) f3(1)
    unfolding pool_main_def A_def [symmetric] B_def [symmetric] by (simp add: Let_def)
qed

section \<open>03_slab.c\<close>

text \<open>\<open>typedef struct { int id; char name[60]; } Obj\<close>, of 64 bytes.  The number of objects, 10000 in the code, is an
  argument of the loops.\<close>

fun alloc_all :: "(mem \<Rightarrow> addr option) \<Rightarrow> nat \<Rightarrow> cache \<Rightarrow> (addr list \<times> cache) option" where
  "alloc_all kern 0 c = Some ([], c)"
| "alloc_all kern (Suc n) c = do {
     (p, c) \<leftarrow> cache_alloc kern c;
     (ps, c) \<leftarrow> alloc_all kern n c;
     Some (p # ps, c)}"

fun set_ids :: "nat \<Rightarrow> addr list \<Rightarrow> cache \<Rightarrow> cache option" where
  "set_ids i [] c = Some c"
| "set_ids i (p # ps) c = do { c \<leftarrow> set32 p i c; set_ids (Suc i) ps c }"

definition add_int :: "int \<Rightarrow> int \<Rightarrow> int option" where
  "add_int x y = (if - (2 ^ 31) \<le> x + y \<and> x + y < 2 ^ 31 then Some (x + y) else None)"

definition mul_int :: "int \<Rightarrow> int \<Rightarrow> int option" where
  "mul_int x y = (if - (2 ^ 31) \<le> x * y \<and> x * y < 2 ^ 31 then Some (x * y) else None)"

fun sum_ids :: "addr list \<Rightarrow> int \<Rightarrow> cache \<Rightarrow> int option" where
  "sum_ids [] acc c = Some acc"
| "sum_ids (p # ps) acc c = do {
     v \<leftarrow> get32 p c;
     acc \<leftarrow> add_int acc (sint (of_nat v :: 32 word));
     sum_ids ps acc c}"

fun free_all :: "addr list \<Rightarrow> cache \<Rightarrow> cache option" where
  "free_all [] c = Some c"
| "free_all (p # ps) c = do { (mine, c) \<leftarrow> cache_free p c; free_all ps c }"

definition slab_main :: "(mem \<Rightarrow> addr option) \<Rightarrow> nat \<Rightarrow> cache \<Rightarrow> (out \<times> cache) option" where
  "slab_main kern n c = do {
     c \<leftarrow> cache_init 64 c;
     let l1 = (''slab=%d KiB, obj=%zu B, objs/slab=%d'',
                [I (int (drop_bit 10 SLAB_BYTES)), I (int (c_obj_sz c)), I (int (c_objs c))]);
     (ps, c) \<leftarrow> alloc_all kern n c;
     c \<leftarrow> set_ids 0 ps c;
     sum \<leftarrow> sum_ids ps 0 c;
     c \<leftarrow> free_all ps c;
     prod \<leftarrow> mul_int (int n) (int n - 1);
     Some ([l1, (''alloc/free %d Obj OK; sum of ids = %d (expected %d)'',
       [I (int n), I sum, I (prod sdiv 2)])], c)}"

abbreviation (input) blks :: "addr list \<Rightarrow> (addr \<times> nat) multiset" where
  "blks ps \<equiv> mset (map (\<lambda>p. (p, 64)) ps)"

lemma alloc_all_inv:
  "slab_inv kern 64 k c L \<Longrightarrow>
   \<exists>ps c'. alloc_all kern n c = Some (ps, c') \<and> length ps = n \<and> slab_inv kern 64 k c' (L + blks (filter ((\<noteq>) 0) ps))"
proof (induction n arbitrary: c L)
  case (Suc n)
  from slab.alloc_ok [OF Suc.prems, of 64] obtain p c1 where p: "cache_alloc kern c = Some (p, c1)"
    "slab_inv kern 64 k c1 (if p = 0 then L else add_mset (p, 64) L)" by (auto simp: slab_alloc_def)
  from Suc.IH [OF p(2)] obtain ps c' where "alloc_all kern n c1 = Some (ps, c')" "length ps = n"
    "slab_inv kern 64 k c' ((if p = 0 then L else add_mset (p, 64) L) + blks (filter ((\<noteq>) 0) ps))" by blast
  then show ?case using p(1) by (intro exI [of _ "p # ps"] exI [of _ c']) (auto split: if_splits)
qed simp

lemma set_id_ok:
  assumes inv: "slab_inv kern 64 k c (add_mset (p, 64) L)" and i: "i < 2 ^ 32"
  shows "\<exists>c'. set32 p i c = Some c' \<and> slab_inv kern 64 k c' (add_mset (p, 64) L) \<and> get32 p c' = Some i \<and>
    (\<forall>q. (q, 64) \<in># L \<longrightarrow> get32 q c' = get32 q c)"
proof -
  let ?m = "put32 (c_mem c) p i"
  have "store_bytes (c_mem c) (p + 0) (le_bytes 4 i) = Some (put (c_mem c) (p + 0) (le_bytes 4 i))"
    by (rule slab_blocks.store_block [OF inv]) (simp add: slab_extent_def)
  then have "set32 p i c = Some (c\<lparr>c_mem := ?m\<rparr>)" by (simp add: set32_def store32_def)
  moreover have "slab_inv kern 64 k (c\<lparr>c_mem := ?m\<rparr>) (add_mset (p, 64) L)"
    using slab_blocks.store_inv [OF inv, where k = 0 and bs = "le_bytes 4 i"] by (simp add: slab_extent_def slab_set_mem_def)
  moreover have "load32 ?m q = load32 (c_mem c) q" if q: "(q, 64) \<in># L" for q
  proof (rule load32_cong)
    fix x assume x: "q \<le> x" "x < q + 4"
    obtain L' where L: "L = add_mset (q, 64) L'" using q by (metis multi_member_split)
    have "put (c_mem c) (p + 0) (le_bytes 4 i) (q + (x - q)) = c_mem c (q + (x - q))"
      by (rule slab_blocks.store_other [OF inv [unfolded L]]) (use x in \<open>auto simp: slab_extent_def\<close>)
    then show "?m x = c_mem c x" using x(1) by simp
  qed
  ultimately show ?thesis using i by (auto simp: get32_def load32_put_same)
qed

lemma set_ids_ok:
  "slab_inv kern 64 k c (blks (qs @ ps)) \<Longrightarrow> n + length ps \<le> 2 ^ 32 \<Longrightarrow>
   \<exists>c'. set_ids n ps c = Some c' \<and> slab_inv kern 64 k c' (blks (qs @ ps)) \<and>
     (\<forall>q \<in> set qs. get32 q c' = get32 q c) \<and> (\<forall>i < length ps. get32 (ps ! i) c' = Some (n + i))"
proof (induction ps arbitrary: qs c n)
  case (Cons p ps)
  have "slab_inv kern 64 k c (add_mset (p, 64) (blks (qs @ ps)))" using Cons.prems(1) by simp
  from set_id_ok [OF this, of n] Cons.prems(2) obtain c1 where c1: "set32 p n c = Some c1"
    "slab_inv kern 64 k c1 (add_mset (p, 64) (blks (qs @ ps)))" "get32 p c1 = Some n" "\<forall>q \<in> set (qs @ ps). get32 q c1 = get32 q c"
    by (auto simp: image_iff)
  have "slab_inv kern 64 k c1 (blks ((qs @ [p]) @ ps))" using c1(2) by simp
  from Cons.IH [OF this, of "Suc n"] Cons.prems(2) obtain c' where c': "set_ids (Suc n) ps c1 = Some c'"
    "slab_inv kern 64 k c' (blks ((qs @ [p]) @ ps))" "\<forall>q \<in> set (qs @ [p]). get32 q c' = get32 q c1"
    "\<forall>i < length ps. get32 (ps ! i) c' = Some (Suc n + i)" by auto
  have "get32 ((p # ps) ! i) c' = Some (n + i)" if "i < length (p # ps)" for i
    using that c1(3) c'(3,4) by (cases i) auto
  then show ?case using c1 c' by (intro exI [of _ c']) auto
qed auto

lemma sum_ids_ok:
  "\<forall>i < length ps. get32 (ps ! i) c = Some (n + i) \<Longrightarrow> 0 \<le> acc \<Longrightarrow> n + length ps \<le> 2 ^ 31 \<Longrightarrow>
   acc + sum_list (map int [n..<n + length ps]) < 2 ^ 31 \<Longrightarrow>
   sum_ids ps acc c = Some (acc + sum_list (map int [n..<n + length ps]))"
proof (induction ps arbitrary: n acc)
  case (Cons p ps)
  have u: "[n..<n + length (p # ps)] = n # [Suc n..<Suc n + length ps]" by (subst upt_conv_Cons) simp_all
  have p: "get32 p c = Some n" using Cons.prems(1) by force
  have s: "sint (of_nat n :: 32 word) = int n" using Cons.prems(3)
    by (simp add: signed_of_nat signed_take_bit_int_eq_self)
  have nn: "0 \<le> sum_list (map int [Suc n..<Suc n + length ps])" by (rule sum_list_nonneg) auto
  have "add_int acc (int n) = Some (acc + int n)" using Cons.prems(2,4) nn unfolding u by (simp add: add_int_def)
  moreover have "sum_ids ps (acc + int n) c = Some (acc + int n + sum_list (map int [Suc n..<Suc n + length ps]))"
    using Cons.prems unfolding u by (intro Cons.IH) force+
  ultimately show ?case by (simp only: u sum_ids.simps p s bind.bind_lunit) simp
qed simp

lemma free_all_ok:
  "slab_inv kern 64 k c (blks ps) \<Longrightarrow> \<exists>c'. free_all ps c = Some c' \<and> slab_inv kern 64 k c' {#}"
proof (induction ps arbitrary: c)
  case (Cons p ps)
  from slab.dealloc_ok [OF Cons.prems [simplified]] obtain c1 mine where "cache_free p c = Some (mine, c1)"
    "slab_inv kern 64 k c1 (blks ps)" by (auto simp: slab_dealloc_def)
  with Cons.IH show ?case by simp
qed simp


lemma sum_upt: "2 * sum_list (map int [0..<n]) = int n * (int n - 1)"
  by (induction n) (simp_all add: algebra_simps)

text \<open>Nothing of the allocator maps the page at address 0, so the first object that was refused faults.\<close>

definition null_unmapped :: "cache \<Rightarrow> bool" where
  "null_unmapped c \<longleftrightarrow> c_mem c 0 = None"

lemma put_null: "mapped m a (length bs) \<Longrightarrow> put m a bs 0 = None \<longleftrightarrow> m 0 = None"
proof -
  assume "mapped m a (length bs)"
  then have "dom (put m a bs) = dom m" by (auto simp: dom_put mapped_def)
  then show ?thesis by (metis domIff)
qed

lemma set_null: "set64 a v c = Some c' \<Longrightarrow> null_unmapped c' = null_unmapped c" "set32 a v c = Some c' \<Longrightarrow> null_unmapped c' = null_unmapped c"
  by (auto simp: set64_def set32_def store64_def store32_def store_bytes_char null_unmapped_def put_null split: if_splits)

lemma upd_null [simp]: "null_unmapped (c\<lparr>c_all := x\<rparr>) = null_unmapped c" "null_unmapped (c\<lparr>c_partial := x\<rparr>) = null_unmapped c"
  by (simp_all add: null_unmapped_def)

lemma thread_null: "slab_thread i k s c = Some c' \<Longrightarrow> null_unmapped c' = null_unmapped c"
proof (induction i k s c rule: slab_thread.induct)
  case (1 i k s c)
  show ?case
  proof (cases "i < k")
    case False
    then show ?thesis using 1(2) by (subst (asm) slab_thread.simps) simp
  next
    case True
    obtain b f c1 where c1: "get64 (obj_base s) c = Some b" "get64 (free_list s) c = Some f"
      "Option.bind (set64 (add64 b (mul64 i (c_obj_sz c))) f c) (set64 (free_list s) (add64 b (mul64 i (c_obj_sz c)))) = Some c1"
      "slab_thread (Suc i) k s c1 = Some c'"
      using 1(2) True by (subst (asm) slab_thread.simps) (auto simp: Let_def split: option.splits)
    have "null_unmapped c1 = null_unmapped c" using c1(3) by (auto simp: bind_eq_Some_conv dest!: set_null)
    then show ?thesis using 1(1) [OF True c1(1) refl c1(2,3,4)] by simp
  qed
qed

lemma pop_null: "slab_pop c = Some (p, c') \<Longrightarrow> null_unmapped c' = null_unmapped c"
  by (auto simp: slab_pop_def Let_def bind_eq_Some_conv dest!: set_null split: if_splits)

lemma new_null: "new_slab kern c = Some (p, c') \<Longrightarrow> kern_ok kern \<Longrightarrow> null_unmapped c \<Longrightarrow> null_unmapped c'"
proof -
  assume a: "new_slab kern c = Some (p, c')" "kern_ok kern" "null_unmapped c"
  obtain s m where m: "sys_mmap (kern (c_mem c)) SLAB_BYTES (c_mem c) = (s, m)" by fastforce
  have "mmap_ok (kern (c_mem c)) SLAB_BYTES (c_mem c)" using a(2) unfolding kern_ok_def by blast
  then have "m 0 = None" using m a(3)
    by (auto simp: sys_mmap_def mmap_ok_def null_unmapped_def split: option.splits)
  then have n: "null_unmapped (c\<lparr>c_mem := m\<rparr>)" by (simp add: null_unmapped_def)
  with a(1) m show ?thesis
    by (auto simp: new_slab_def Let_def bind_eq_Some_conv dest!: set_null thread_null split: if_splits)
qed

lemma alloc_null: "cache_alloc kern c = Some (p, c') \<Longrightarrow> kern_ok kern \<Longrightarrow> null_unmapped c \<Longrightarrow> null_unmapped c'"
  by (auto simp: cache_alloc_def bind_eq_Some_conv dest: pop_null new_null split: if_splits)

lemma alloc_all_null:
  "alloc_all kern n c = Some (ps, c') \<Longrightarrow> kern_ok kern \<Longrightarrow> null_unmapped c \<Longrightarrow> null_unmapped c'"
  by (induction n arbitrary: c ps) (auto simp: bind_eq_Some_conv dest: alloc_null)

lemma set_ids_null: "0 \<in> set ps \<Longrightarrow> null_unmapped c \<Longrightarrow> set_ids n ps c = None"
proof (induction ps arbitrary: c n)
  case (Cons p ps)
  show ?case
  proof (cases "p = 0")
    case True
    then have "\<not> mapped (c_mem c) p 4" using Cons.prems(2) by (auto simp: mapped_def null_unmapped_def subset_eq domIff)
    then show ?thesis by (simp add: set32_def store32_def store_bytes_char)
  next
    case False
    then show ?thesis using Cons set_null(2) by (cases "set32 p n c") auto
  qed
qed simp

section \<open>Properties\<close>

text \<open>main of the arena and the pool programs, wherever the kernel maps the memory: neither faults; 01_bump.c prints
  its string, array and counts, with the three blocks at 0, 16 and 128 bytes and 4128 bytes used; 02_pool.c gets the last
  two slots, reads back both objects, and gets the first one back after freeing it; both leave the memory as it was
  before.\<close>

theorem bump_and_pool_mains:
  assumes "mmap_ok (Some b) (4 * 1024 * 1024) m" and "mmap_ok (Some b') (32 * 1024) m"
  shows "bump_main (Some b) a m = Some (
      [(''s1=%p %s'', [I (int b), S ''hello world!'']), (''s2=%p (%c..%c)'', [I (int (b + 16)), I 66, I 66]),
       (''ai[999]=%d  used=%ld bytes'', [I 999, I 4128]), (''after reset: used=%ld'', [I 0])], m) \<and>
    pool_main (Some b') p m = Some (
      [(''a=%p {%d, %s}'', [I (int (b' + 1023 * 32)), I 1, S ''alpha'']),
       (''b=%p {%d, %s}'', [I (int (b' + 1022 * 32)), I 2, S ''beta'']),
       (''after free(a) + alloc -> c=%p (%s)'', [I (int (b' + 1023 * 32)), S ''got a back''])], m)"
  using bump_main_runs [OF assms(1)] pool_main_runs [OF assms(2)] by blast

theorem bump_and_pool_mains_witness:
  "\<exists>l l'. bump_main (Some 4096) demo_arena Map.empty = Some (l, Map.empty) \<and>
     pool_main (Some 4096) demo_pool Map.empty = Some (l', Map.empty)"
proof -
  have "mmap_ok (Some 4096) (4 * 1024 * 1024) Map.empty" "mmap_ok (Some 4096) (32 * 1024) Map.empty"
    by (simp_all add: mmap_ok_def page_up_def USER_TOP_def)
  from bump_and_pool_mains [OF this] show ?thesis by blast
qed

lemma half_nonneg: "0 \<le> x \<Longrightarrow> x sdiv 2 = x div (2 :: int)"
  by (cases "x = 0") (simp_all add: signed_divide_int_def)

lemma mul_int_pred: "mul_int (int n) (int n - 1) = (if n \<le> 46341 then Some (int n * (int n - 1)) else None)"
proof (cases "n \<le> 46341")
  case True
  have "0 \<le> int n * (int n - 1)" by (cases n) simp_all
  moreover have "int n * (int n - 1) \<le> 46341 * 46340"
    using True mult_mono [of "int n" 46341 "int n - 1" 46340] by (cases "n = 0") auto
  ultimately show ?thesis using True by (simp add: mul_int_def)
next
  case False
  then have "46342 * 46341 \<le> int n * (int n - 1)" by (intro mult_mono) auto
  then show ?thesis using False by (simp add: mul_int_def)
qed

lemma slab_main_granted:
  assumes "cache_init 64 c = Some c1" "alloc_all kern n c1 = Some (ps, c2)" "length ps = n" "0 \<notin> set ps"
    and "slab_inv kern 64 511 c2 (blks (filter ((\<noteq>) 0) ps))" and "c_obj_sz c1 = 64" "c_objs c1 = 511"
    and n: "n \<le> 46341"
  shows "\<exists>c'. slab_main kern n c = Some (
         [(''slab=%d KiB, obj=%zu B, objs/slab=%d'', [I 32, I 64, I 511]),
          (''alloc/free %d Obj OK; sum of ids = %d (expected %d)'',
            [I (int n), I (int n * (int n - 1) div 2), I (int n * (int n - 1) div 2)])], c') \<and>
       slab_inv kern 64 511 c' {#}"
proof -
  have l1: "drop_bit 10 SLAB_BYTES = 32" by (simp add: drop_bit_eq_div)
  have "\<forall>x \<in> set ps. 0 \<noteq> x" using assms(4) by metis
  then have "filter ((\<noteq>) 0) ps = ps" by (simp only: filter_True)
  then have "slab_inv kern 64 511 c2 (blks ([] @ ps))" using assms(5) by simp
  from set_ids_ok [OF this, of 0] n assms(3) obtain c3 where c3: "set_ids 0 ps c2 = Some c3"
    "slab_inv kern 64 511 c3 (blks ps)" "\<forall>i < length ps. get32 (ps ! i) c3 = Some (0 + i)" by auto
  have sum: "sum_list (map int [0..<n]) = int n * (int n - 1) div 2" using sum_upt [of n] by simp
  have pos: "0 \<le> int n * (int n - 1)" by (cases n) simp_all
  have "int n * (int n - 1) < 2 ^ 31" using mul_int_pred [of n] n by (simp add: mul_int_def split: if_splits)
  then have "sum_ids ps 0 c3 = Some (int n * (int n - 1) div 2)"
    using sum_ids_ok [OF c3(3), of 0] assms(3) n sum by simp
  moreover obtain c4 where "free_all ps c3 = Some c4" "slab_inv kern 64 511 c4 {#}" using free_all_ok [OF c3(2)] by blast
  ultimately show ?thesis
    using assms(1,2,6,7) c3(1) n pos by (simp add: slab_main_def Let_def l1 mul_int_pred half_nonneg)
qed

text \<open>C20. main of 03_slab.c with n objects (10000 in the code), wherever the kernel puts the slabs.  When
  n * (n - 1) does not overflow an int, that is up to 46341 objects: if every allocation succeeds,
  the sum of the ids read back is the expected n (n - 1) / 2, which is printed twice, and at the end
  no object is live; if the kernel refused one, the store through the null pointer faults.  From
  46342 objects on the run is undefined.\<close>

theorem slab_main_output:
  assumes "kern_ok kern" and "null_unmapped c"
  shows "\<exists>c1 ps c2. cache_init 64 c = Some c1 \<and> alloc_all kern n c1 = Some (ps, c2) \<and> length ps = n \<and>
    (if NULL \<in> set ps \<or> 46341 < n then slab_main kern n c = None
     else \<exists>c'. slab_main kern n c = Some (
         [(''slab=%d KiB, obj=%zu B, objs/slab=%d'', [I 32, I 64, I 511]),
          (''alloc/free %d Obj OK; sum of ids = %d (expected %d)'',
            [I (int n), I (int n * (int n - 1) div 2), I (int n * (int n - 1) div 2)])], c') \<and>
       slab_inv kern 64 511 c' {#})"
proof -
  obtain c1 where c1: "cache_init 64 c = Some c1" "slab_inv kern 64 511 c1 {#}"
    using cache_init_inv [OF assms(1), of 64 c] by (auto simp: round_obj_def)
  have n1: "null_unmapped c1" using c1(1) assms(2) by (auto simp: cache_init_def null_unmapped_def Let_def split: if_splits)
  have cf: "c_obj_sz c1 = 64" "c_objs c1 = 511" using c1(2) by (auto simp: slab_inv_def)
  obtain ps c2 where ps: "alloc_all kern n c1 = Some (ps, c2)" "length ps = n"
    "slab_inv kern 64 511 c2 (blks (filter ((\<noteq>) 0) ps))" using alloc_all_inv [OF c1(2), of n] by auto
  consider (null) "0 \<in> set ps" | (many) "46341 < n" | (ok) "0 \<notin> set ps" "n \<le> 46341" by linarith
  then show ?thesis
  proof cases
    case null
    have "set_ids 0 ps c2 = None" by (rule set_ids_null [OF null alloc_all_null [OF ps(1) assms(1) n1]])
    then have "slab_main kern n c = None" by (simp add: slab_main_def c1(1) ps(1) Let_def)
    then show ?thesis using c1(1) ps null by auto
  next
    case many
    then have "slab_main kern n c = None"
      by (simp add: slab_main_def mul_int_pred Let_def c1(1) ps(1) bind_eq_None_conv split: prod.splits)
    then show ?thesis using c1(1) ps many by auto
  next
    case ok
    then show ?thesis using slab_main_granted [OF c1(1) ps(1,2) ok(1) ps(3) cf ok(2)] c1(1) ps by auto
  qed
qed

text \<open>As long as the slabs of the cache have room the kernel is not asked.\<close>

lemma alloc_all_room:
  fixes L :: "(addr \<times> nat) multiset"
  assumes "cache_core c ss ps fo" "image_mset fst L = mset_set (used (c_obj_sz c) (c_objs c) ss fo)"
    and "size L + n \<le> c_objs c * length ss"
  shows "\<exists>qs c'. alloc_all kern n c = Some (qs, c') \<and> 0 \<notin> set qs"
  using assms
proof (induction n arbitrary: c ps fo L)
  case (Suc n)
  have "size L < c_objs c * length ss" using Suc.prems(3) by simp
  from slab_partial_room [OF Suc.prems(1,2) this] obtain s ps' where s: "ps = s # ps'" by (cases ps) auto
  then have cp: "c_partial c \<noteq> 0" using slab_coreD(8) [OF Suc.prems(1)] by auto
  from slab_pop_inv [OF Suc.prems(1) [unfolded s] Suc.prems(2)] obtain x c' ps2 fo2 where
    p: "slab_pop c = Some (x, c')" "x \<noteq> 0" "cache_core c' ss ps2 fo2" "c_obj_sz c' = c_obj_sz c" "c_objs c' = c_objs c"
      "add_mset x (image_mset fst L) = mset_set (used (c_obj_sz c) (c_objs c) ss fo2)" by blast
  have "image_mset fst (add_mset (x, 0) L) = mset_set (used (c_obj_sz c') (c_objs c') ss fo2)" using p(4-6) by simp
  from Suc.IH [OF p(3) this] Suc.prems(3) p(5) obtain qs c2 where "alloc_all kern n c' = Some (qs, c2)" "0 \<notin> set qs" by auto
  then show ?case using p(1,2) cp by (simp add: cache_alloc_def)
qed simp

lemma demo_slab_room:
  assumes "0 < n" "n \<le> 511" "cache_init 64 demo_cache = Some c1"
  shows "\<exists>qs c2. alloc_all demo_kern n c1 = Some (qs, c2) \<and> 0 \<notin> set qs"
proof -
  have inv: "slab_inv demo_kern 64 511 c1 {#}"
    using cache_init_inv [OF demo_kern_ok, of 64 demo_cache] assms(3) by (simp add: round_obj_def)
  have m: "c_mem c1 = Map.empty" "c_all c1 = 0" "c_partial c1 = 0"
    using assms(3) by (auto simp: cache_init_def Let_def demo_cache_def split: if_splits)
  obtain ss ps fo where core: "cache_core c1 ss ps fo" and sz: "c_obj_sz c1 = 64" "c_objs c1 = 511"
    using inv unfolding slab_inv_def by blast
  have ss: "ss = []" using slab_coreD(7) [OF core] m(2) by simp
  have k: "demo_kern (c_mem c1) = Some 4096" using m by (simp add: demo_kern_def)
  have "mmap_ok (demo_kern (c_mem c1)) SLAB_BYTES (c_mem c1)" using demo_kern_ok by (simp add: kern_ok_def)
  from new_slab_core [of c1 ss ps fo demo_kern, OF core this] k obtain c2 where c2: "new_slab demo_kern c1 = Some (4096, c2)"
    "cache_core c2 [4096] (4096 # ps) (fo(4096 := rev (objs 64 511 4096)))" "c_obj_sz c2 = 64" "c_objs c2 = 511"
    using sz ss by auto
  have "used 64 511 [4096] (fo(4096 := rev (objs 64 511 4096))) = {}" by (simp add: used_def)
  then have "image_mset fst ({#} :: (addr \<times> nat) multiset) =
    mset_set (used (c_obj_sz c2) (c_objs c2) [4096] (fo(4096 := rev (objs 64 511 4096))))" using c2(3,4) by simp
  from alloc_all_room [OF c2(2) this, of n demo_kern] obtain qs c3 where
    q: "alloc_all demo_kern n c2 = Some (qs, c3)" "0 \<notin> set qs" using assms(2) c2(4) by auto
  obtain j where n: "n = Suc j" using assms(1) by (cases n) auto
  have "c_partial c2 \<noteq> 0" using slab_coreD(8) [OF c2(2)] by auto
  then have "cache_alloc demo_kern c1 = cache_alloc demo_kern c2" using c2(1) m(3) by (simp add: cache_alloc_def)
  then show ?thesis using q by (simp add: n)
qed

theorem slab_main_output_witness:
  "(\<exists>c'. slab_main demo_kern 500 demo_cache = Some (
       [(''slab=%d KiB, obj=%zu B, objs/slab=%d'', [I 32, I 64, I 511]),
        (''alloc/free %d Obj OK; sum of ids = %d (expected %d)'', [I 500, I 124750, I 124750])], c')) \<and>
   slab_main demo_kern 46342 demo_cache = None"
proof -
  have n: "null_unmapped demo_cache" by (simp add: null_unmapped_def demo_cache_def)
  from slab_main_output [OF demo_kern_ok n, of 500] demo_slab_room [of 500]
  have "\<exists>c'. slab_main demo_kern 500 demo_cache = Some (
       [(''slab=%d KiB, obj=%zu B, objs/slab=%d'', [I 32, I 64, I 511]),
        (''alloc/free %d Obj OK; sum of ids = %d (expected %d)'', [I 500, I 124750, I 124750])], c')"
    by (fastforce split: if_splits)
  moreover have "slab_main demo_kern 46342 demo_cache = None"
    using slab_main_output [OF demo_kern_ok n, of 46342] by auto
  ultimately show ?thesis by blast
qed

end
