(* ===== verification/Threads.thy ===== *)
theory Threads
  imports Transition "HOL-Library.Multiset"
begin

text \<open>
  The programs that start threads, wait for them and go on: main does something, creates its threads, joins each
  in order, and does something else.  Thread_Demos has the programs.

  \<^item> A team is the position of main, the threads created so far with the local state of each, and what the threads
    share.  A step is one step of main or of one thread, so a run is any interleaving; it ends when main returns,
    which ends the process.
  \<^item> before and after are main's own parts; None is a step the C standard leaves undefined, and then the run is
    stuck.  A pthread_create that fails leaves no thread, and joining it is undefined: no program here looks at
    the result.
  \<^item> The locale fork_join has what a program must show of one step of one thread; what holds of the whole run
    follows there once: termination, that all threads have ended when main goes on, and that what they have left
    in the shared part is the sum of what each left.
\<close>

section \<open>Teams\<close>

datatype main_pc = Before | Creating nat | Joining nat | After | Returned

record ('l, 'g) app =
  workers :: nat
  create_ok :: "nat \<Rightarrow> bool"
  init :: "nat \<Rightarrow> 'l"
  ended :: "'l \<Rightarrow> bool"
  work :: "nat \<Rightarrow> 'l \<times> 'g \<Rightarrow> 'l \<times> 'g \<Rightarrow> bool"
  before :: "'g \<Rightarrow> 'g option"
  after :: "'l option list \<Rightarrow> 'g \<Rightarrow> 'g option"

record ('l, 'g) team =
  mpc :: main_pc
  crew :: "'l option list"
  store :: 'g

definition team_start :: "'g \<Rightarrow> ('l, 'g) team" where
  "team_start g = \<lparr>mpc = Before, crew = [], store = g\<rparr>"

inductive team_step :: "('l, 'g) app \<Rightarrow> ('l, 'g) team \<Rightarrow> ('l, 'g) team \<Rightarrow> bool" for app where
  t_before: "mpc s = Before \<Longrightarrow> before app (store s) = Some g \<Longrightarrow>
    team_step app s (s\<lparr>mpc := Creating 0, store := g\<rparr>)"
| t_create: "mpc s = Creating i \<Longrightarrow> i < workers app \<Longrightarrow>
    team_step app s (s\<lparr>mpc := Creating (Suc i), crew := crew s @ [if create_ok app i then Some (init app i) else None]\<rparr>)"
| t_created: "mpc s = Creating i \<Longrightarrow> \<not> i < workers app \<Longrightarrow> team_step app s (s\<lparr>mpc := Joining 0\<rparr>)"
| t_join: "mpc s = Joining i \<Longrightarrow> i < workers app \<Longrightarrow> i < length (crew s) \<Longrightarrow> crew s ! i = Some l \<Longrightarrow> ended app l \<Longrightarrow>
    team_step app s (s\<lparr>mpc := Joining (Suc i)\<rparr>)"
| t_joined: "mpc s = Joining i \<Longrightarrow> \<not> i < workers app \<Longrightarrow> team_step app s (s\<lparr>mpc := After\<rparr>)"
| t_after: "mpc s = After \<Longrightarrow> after app (crew s) (store s) = Some g \<Longrightarrow>
    team_step app s (s\<lparr>mpc := Returned, store := g\<rparr>)"
| t_work: "mpc s \<noteq> Returned \<Longrightarrow> i < length (crew s) \<Longrightarrow> crew s ! i = Some l \<Longrightarrow> work app i (l, store s) (l', g) \<Longrightarrow>
    team_step app s (s\<lparr>crew := (crew s)[i := Some l'], store := g\<rparr>)"

abbreviation team_reaches :: "('l, 'g) app \<Rightarrow> 'g \<Rightarrow> ('l, 'g) team \<Rightarrow> bool" where
  "team_reaches app g s \<equiv> (team_step app)\<^sup>*\<^sup>* (team_start g) s"

text \<open>Every run that goes on from a state stops, and only when main has returned.\<close>

definition ends :: "('l, 'g) app \<Rightarrow> ('l, 'g) team \<Rightarrow> bool" where
  "ends app s \<longleftrightarrow> ((\<nexists>s'. team_step app s s') \<longleftrightarrow> mpc s = Returned)
     \<and> (\<forall>f. f 0 = s \<longrightarrow> (\<exists>i. \<not> team_step app (f i) (f (Suc i))))"

fun created :: "nat \<Rightarrow> main_pc \<Rightarrow> nat" where
  "created k Before = 0"
| "created k (Creating i) = i"
| "created k _ = k"

fun joined :: "nat \<Rightarrow> main_pc \<Rightarrow> nat" where
  "joined k (Joining i) = i"
| "joined k After = k"
| "joined k Returned = k"
| "joined k _ = 0"

text \<open>A quantity that is a sum over the threads, and the step of one of them.\<close>

definition over_crew :: "(nat \<Rightarrow> 'l \<Rightarrow> 'm :: comm_monoid_add) \<Rightarrow> 'l option list \<Rightarrow> 'm" where
  "over_crew f c = (\<Sum>i < length c. case c ! i of None \<Rightarrow> 0 | Some l \<Rightarrow> f i l)"

lemma over_crew_Nil [simp]: "over_crew f [] = 0"
  by (simp add: over_crew_def)

lemma over_crew_snoc [simp]: "over_crew f (c @ [x]) = over_crew f c + (case x of None \<Rightarrow> 0 | Some l \<Rightarrow> f (length c) l)"
  by (simp add: over_crew_def nth_append)

lemma over_crew_update:
  assumes "i < length c" "c ! i = Some l"
  shows "over_crew f (c[i := Some l']) + f i l = over_crew f c + f i l'"
proof -
  let ?g = "\<lambda>j. case c ! j of None \<Rightarrow> 0 | Some l \<Rightarrow> f j l"
  have i: "i \<in> {..< length c}" using assms by simp
  have "over_crew f (c[i := Some l']) = f i l' + (\<Sum>j \<in> {..< length c} - {i}. ?g j)"
    unfolding over_crew_def length_list_update by (subst sum.remove [OF _ i]) (use assms in auto)
  moreover have "over_crew f c = f i l + (\<Sum>j \<in> {..< length c} - {i}. ?g j)"
    unfolding over_crew_def by (subst sum.remove [OF _ i]) (use assms in auto)
  ultimately show ?thesis by (simp add: ac_simps)
qed

lemma over_crew_part:
  assumes "i < length c" "c ! i = Some l"
  obtains r where "over_crew f c = f i l + r"
proof
  show "over_crew f c = f i l + (\<Sum>j \<in> {..< length c} - {i}. case c ! j of None \<Rightarrow> 0 | Some l \<Rightarrow> f j l)"
    unfolding over_crew_def by (subst sum.remove [of _ i]) (use assms in auto)
qed

text \<open>A thread that pthread_create could not make: main is stuck at its join.\<close>

lemma join_of_none: "mpc s = Joining i \<Longrightarrow> i < workers app \<Longrightarrow> crew s ! i = None \<Longrightarrow> team_step app s s' \<Longrightarrow> mpc s' = Joining i"
  by (auto elim!: team_step.cases)

section \<open>What a program shows of its threads\<close>

locale fork_join =
  fixes app :: "('l, 'g) app" and g0 :: 'g and ginv :: "'g \<Rightarrow> bool" and winv :: "nat \<Rightarrow> 'l \<Rightarrow> bool"
    and left :: "nat \<Rightarrow> 'l \<Rightarrow> 'm :: cancel_comm_monoid_add" and total :: "'g \<Rightarrow> 'm" and wrank :: "'l \<Rightarrow> nat" and most :: nat
  assumes all_created: "create_ok app i"
    and before_ok: "\<exists>g. before app g0 = Some g" "before app g0 = Some g \<Longrightarrow> ginv g \<and> total g = 0"
    and init_ok: "i < workers app \<Longrightarrow> winv i (init app i) \<and> left i (init app i) = 0 \<and> wrank (init app i) \<le> most"
    and work_ok: "winv i l \<Longrightarrow> ginv g \<Longrightarrow> total g = left i l + r \<Longrightarrow> work app i (l, g) (l', g') \<Longrightarrow>
      winv i l' \<and> ginv g' \<and> total g' = left i l' + r \<and> wrank l' < wrank l"
    and stays: "ended app l \<Longrightarrow> \<not> work app i (l, g) x"
    and alive: "winv i l \<Longrightarrow> ginv g \<Longrightarrow> total g = left i l + r \<Longrightarrow> \<not> ended app l \<Longrightarrow> \<exists>x. work app i (l, g) x"
    and after_ok: "ginv g \<Longrightarrow> length c = workers app \<Longrightarrow>
      (\<And>i. i < length c \<Longrightarrow> \<exists>l. c ! i = Some l \<and> ended app l \<and> winv i l) \<Longrightarrow> total g = over_crew left c \<Longrightarrow>
      \<exists>g'. after app c g = Some g'"
begin

definition members :: "('l, 'g) team \<Rightarrow> bool" where
  "members s \<longleftrightarrow> length (crew s) = created (workers app) (mpc s) \<and> length (crew s) \<le> workers app
     \<and> joined (workers app) (mpc s) \<le> length (crew s)
     \<and> (\<forall>i < length (crew s). \<exists>l. crew s ! i = Some l \<and> winv i l \<and> (i < joined (workers app) (mpc s) \<longrightarrow> ended app l))"

definition sums :: "'g \<Rightarrow> 'l option list \<Rightarrow> bool" where
  "sums g c \<longleftrightarrow> ginv g \<and> total g = over_crew left c"

definition fine :: "('l, 'g) team \<Rightarrow> bool" where
  "fine s \<longleftrightarrow> members s \<and>
     (case mpc s of Before \<Rightarrow> store s = g0
      | Returned \<Rightarrow> \<exists>g. sums g (crew s) \<and> after app (crew s) g = Some (store s)
      | _ \<Rightarrow> sums (store s) (crew s))"

lemma fine_start: "fine (team_start g0)"
  by (simp add: fine_def members_def team_start_def)

lemma work_sums:
  assumes "sums g c" "i < length c" "c ! i = Some l" "winv i l" "work app i (l, g) (l', g')"
  shows "winv i l' \<and> sums g' (c[i := Some l']) \<and> wrank l' < wrank l"
proof -
  obtain r where r: "over_crew left c = left i l + r" by (rule over_crew_part [OF assms(2,3)])
  with assms work_ok [of i l g r l' g'] have w: "winv i l'" "ginv g'" "total g' = left i l' + r" "wrank l' < wrank l"
    by (auto simp: sums_def)
  moreover have "left i l + over_crew left (c[i := Some l']) = left i l + (left i l' + r)"
    using over_crew_update [OF assms(2,3), of left l'] r by (simp add: ac_simps)
  ultimately show ?thesis by (simp add: sums_def)
qed

lemma fine_sums: "fine s \<Longrightarrow> mpc s \<noteq> Before \<Longrightarrow> mpc s \<noteq> Returned \<Longrightarrow> sums (store s) (crew s)"
  by (cases "mpc s") (auto simp: fine_def)

lemma fine_worker: "fine s \<Longrightarrow> i < length (crew s) \<Longrightarrow> \<exists>l. crew s ! i = Some l \<and> winv i l"
  by (auto simp: fine_def members_def)

lemma fine_crew: "fine s \<Longrightarrow> i < length (crew s) \<Longrightarrow> mpc s \<noteq> Before"
  by (auto simp: fine_def members_def)

lemma fine_work:
  assumes f: "fine s" and n: "mpc s \<noteq> Returned" and i: "i < length (crew s)" "crew s ! i = Some l"
    and w: "work app i (l, store s) (l', g)"
  shows "fine (s\<lparr>crew := (crew s)[i := Some l'], store := g\<rparr>) \<and> wrank l' < wrank l"
proof -
  have b: "mpc s \<noteq> Before" by (rule fine_crew [OF f i(1)])
  have "winv i l" using fine_worker [OF f i(1)] i(2) by auto
  from work_sums [OF fine_sums [OF f b n] i this w] have l': "winv i l'" "sums g ((crew s)[i := Some l'])" "wrank l' < wrank l" by auto
  have "\<not> ended app l" using stays w by blast
  then have "\<not> i < joined (workers app) (mpc s)" using f i by (metis fine_def members_def option.inject)
  then have "\<exists>m. (crew s)[i := Some l'] ! j = Some m \<and> winv j m \<and> (j < joined (workers app) (mpc s) \<longrightarrow> ended app m)"
    if "j < length (crew s)" for j using f l' that by (cases "j = i") (auto simp: fine_def members_def)
  then have "members (s\<lparr>crew := (crew s)[i := Some l'], store := g\<rparr>)" using f by (simp add: fine_def members_def)
  then show ?thesis using l' b n by (auto simp: fine_def split: main_pc.split)
qed

lemma fine_step:
  assumes f: "fine s" and "team_step app s s'"
  shows "fine s'"
  using assms(2)
proof cases
  case (t_before g)
  then show ?thesis using f before_ok(2) by (auto simp: fine_def members_def sums_def)
next
  case (t_create i)
  then show ?thesis using f init_ok all_created
    by (auto simp: fine_def members_def sums_def nth_append less_Suc_eq)
next
  case (t_join i l)
  then have "\<exists>l. crew s ! j = Some l \<and> winv j l \<and> (j < Suc i \<longrightarrow> ended app l)" if "j < length (crew s)" for j
    using f that by (cases "j = i") (auto simp: fine_def members_def less_Suc_eq)
  then show ?thesis using f t_join by (auto simp: fine_def members_def)
next
  case (t_work i l l' g)
  then show ?thesis using fine_work [OF f] by auto
qed (use f in \<open>auto simp: fine_def members_def\<close>)

fun main_left :: "main_pc \<Rightarrow> nat" where
  "main_left Before = 2 * workers app + 4 + workers app * most"
| "main_left (Creating i) = 2 * workers app + 3 - i + (workers app - i) * most"
| "main_left (Joining i) = workers app + 2 - i"
| "main_left After = 1"
| "main_left Returned = 0"

definition team_rank :: "('l, 'g) team \<Rightarrow> nat" where
  "team_rank s = main_left (mpc s) + over_crew (\<lambda>i. wrank) (crew s)"

lemma rank_create: "i < k \<Longrightarrow> (k - i) * (m :: nat) = (k - Suc i) * m + m"
  by (metis Suc_diff_Suc add.commute mult_Suc)

lemma rank_step:
  assumes f: "fine s" and "team_step app s s'"
  shows "team_rank s' < team_rank s"
  using assms(2)
proof cases
  case (t_create i)
  then have "length (crew s) = i" "wrank (init app i) \<le> most" using f init_ok [of i] by (auto simp: fine_def members_def)
  then show ?thesis using t_create rank_create [of i "workers app" most] by (simp add: team_rank_def all_created)
next
  case (t_work i l l' g)
  then show ?thesis using over_crew_update [OF t_work(3,4), of "\<lambda>i. wrank" l'] fine_work [OF f t_work(2-5)]
    by (simp add: team_rank_def)
qed (use f in \<open>auto simp: team_rank_def fine_def members_def\<close>)

lemma fine_progress:
  assumes f: "fine s" and n: "mpc s \<noteq> Returned"
  shows "\<exists>s'. team_step app s s'"
proof (cases "mpc s")
  case Before
  then show ?thesis using before_ok(1) f by (auto simp: fine_def intro: t_before)
next
  case (Creating i)
  then show ?thesis by (cases "i < workers app") (auto intro: t_create t_created)
next
  case (Joining i)
  show ?thesis
  proof (cases "i < workers app")
    case False
    then show ?thesis using Joining by (auto intro: t_joined)
  next
    case True
    then have i: "i < length (crew s)" using f Joining by (auto simp: fine_def members_def)
    then obtain l where l: "crew s ! i = Some l" "winv i l" using fine_worker [OF f] by blast
    have "sums (store s) (crew s)" using fine_sums [OF f] Joining by simp
    moreover obtain r where "over_crew left (crew s) = left i l + r" by (rule over_crew_part [OF i l(1)])
    ultimately have "ended app l \<or> (\<exists>x. work app i (l, store s) x)" using alive [OF l(2)] by (auto simp: sums_def)
    then show ?thesis using t_join [OF Joining True i l(1)] t_work [OF n i l(1)] by fastforce
  qed
next
  case After
  then have "\<exists>g. after app (crew s) (store s) = Some g"
    using f by (intro after_ok) (auto simp: fine_def members_def sums_def)
  then show ?thesis using After by (auto intro: t_after)
qed (use n in simp)

end

sublocale fork_join \<subseteq> runs: must_finish "team_step app" fine "\<lambda>s. mpc s = Returned" team_rank
proof
  fix s s'
  show "fine s \<Longrightarrow> team_step app s s' \<Longrightarrow> fine s'" by (rule fine_step)
  show "fine s \<Longrightarrow> mpc s \<noteq> Returned \<Longrightarrow> \<exists>s'. team_step app s s' \<and> team_rank s' < team_rank s"
    using fine_progress rank_step by blast
  show "fine s \<Longrightarrow> team_step app s s' \<Longrightarrow> team_rank s' < team_rank s" by (rule rank_step)
  show "fine s \<Longrightarrow> mpc s = Returned \<Longrightarrow> \<not> team_step app s s'" by (auto elim!: team_step.cases)
qed

context fork_join begin

lemma reached_fine: "team_reaches app g0 s \<Longrightarrow> fine s"
  using runs.keeps_run fine_start by blast

lemma can_return: "\<exists>s. team_reaches app g0 s \<and> mpc s = Returned"
  using runs.completes [OF fine_start] by blast

lemma reached_ends: "team_reaches app g0 s \<Longrightarrow> ends app s"
  using runs.stops_iff runs.no_infinite_run reached_fine unfolding ends_def by blast

lemma returned:
  assumes "team_reaches app g0 s" "mpc s = Returned"
  shows "\<exists>g. ginv g \<and> total g = over_crew left (crew s) \<and> Some (store s) = after app (crew s) g"
    "length (crew s) = workers app" "\<And>i. i < workers app \<Longrightarrow> \<exists>l. crew s ! i = Some l \<and> winv i l \<and> ended app l"
  using reached_fine [OF assms(1)] assms(2) by (auto simp: fine_def members_def sums_def intro: sym)

lemma running:
  assumes "team_reaches app g0 s" "mpc s \<noteq> Before" "mpc s \<noteq> Returned"
  shows "ginv (store s)" "total (store s) = over_crew left (crew s)" "length (crew s) \<le> workers app"
    "\<And>i. i < length (crew s) \<Longrightarrow> \<exists>l. crew s ! i = Some l \<and> winv i l"
  using fine_sums [OF reached_fine [OF assms(1)] assms(2,3)] reached_fine [OF assms(1)]
  by (auto simp: fine_def members_def sums_def)

end

section \<open>Threads that own a part of the store\<close>

text \<open>own says what a thread knows of its part of the shared state (None: before it has been created); the
  steps of the others must not touch it.\<close>

locale fork_join_own = fork_join app g0 ginv winv left total wrank most
  for app :: "('l, 'g) app" and g0 ginv winv and left :: "nat \<Rightarrow> 'l \<Rightarrow> 'm :: cancel_comm_monoid_add" and total wrank most +
  fixes own :: "nat \<Rightarrow> 'l option \<Rightarrow> 'g \<Rightarrow> bool"
  assumes own_first: "i < workers app \<Longrightarrow> before app g0 = Some g \<Longrightarrow> own i None g"
    and own_created: "i < workers app \<Longrightarrow> own i None g \<Longrightarrow> own i (Some (init app i)) g"
    and own_step: "i < workers app \<Longrightarrow> winv i l \<Longrightarrow> own i (Some l) g \<Longrightarrow> work app i (l, g) (l', g') \<Longrightarrow> own i (Some l') g'"
    and own_stable: "i < workers app \<Longrightarrow> winv i l \<Longrightarrow> j < workers app \<Longrightarrow> i \<noteq> j \<Longrightarrow> own j m g \<Longrightarrow> work app i (l, g) (l', g') \<Longrightarrow> own j m g'"
begin

definition member :: "('l, 'g) team \<Rightarrow> nat \<Rightarrow> 'l option" where
  "member s i = (if i < length (crew s) then crew s ! i else None)"

definition owners :: "('l, 'g) team \<Rightarrow> 'g \<Rightarrow> bool" where
  "owners s g \<longleftrightarrow> (\<forall>i < workers app. own i (member s i) g)"

definition owned :: "('l, 'g) team \<Rightarrow> bool" where
  "owned s \<longleftrightarrow> (case mpc s of Before \<Rightarrow> True
     | Returned \<Rightarrow> \<exists>g. owners s g \<and> sums g (crew s) \<and> after app (crew s) g = Some (store s)
     | _ \<Rightarrow> owners s (store s))"

lemma owners_crew: "crew s' = crew s \<Longrightarrow> owners s' g = owners s g"
  by (simp add: owners_def member_def)

lemma member_work: "i < length c \<Longrightarrow> crew s = c[i := Some l] \<Longrightarrow> crew s0 = c \<Longrightarrow>
    member s j = (if j = i then Some l else member s0 j)"
  by (simp add: member_def)

lemma owners_work:
  assumes f: "fine s" and o: "owners s (store s)" and i: "i < length (crew s)" "crew s ! i = Some l"
    and w: "work app i (l, store s) (l', g)" and s': "crew s' = (crew s)[i := Some l']"
  shows "owners s' g"
proof -
  have k: "i < workers app" using f i(1) by (auto simp: fine_def members_def)
  have wi: "winv i l" using fine_worker [OF f i(1)] i(2) by auto
  have "own i (Some l) (store s)" using o k i by (auto simp: owners_def member_def)
  then have "own i (Some l') g" by (rule own_step [OF k wi _ w])
  moreover have "own j (member s j) g" if "j < workers app" "j \<noteq> i" for j
    using own_stable [OF k wi that(1) _ _ w] o that by (auto simp: owners_def)
  ultimately show ?thesis by (simp add: owners_def member_work [OF i(1) s' refl])
qed

lemma owners_create:
  assumes f: "fine s" and o: "owners s g" and i: "mpc s = Creating i" "i < workers app"
    and s': "crew s' = crew s @ [Some (init app i)]"
  shows "owners s' g"
proof -
  have "length (crew s) = i" using f i by (simp add: fine_def members_def)
  then have m: "member s' j = (if j = i then Some (init app i) else member s j)" "member s i = None" for j
    by (auto simp: member_def s' nth_append less_Suc_eq)
  then have "own i (Some (init app i)) g" using o i own_created [of i g] by (auto simp: owners_def)
  then show ?thesis using o by (simp add: owners_def m(1))
qed

lemma owned_step:
  assumes f: "fine s" and o: "owned s" and "team_step app s s'"
  shows "owned s'"
  using assms(3)
proof cases
  case (t_before g)
  then have "crew s = []" "store s = g0" using f by (auto simp: fine_def members_def)
  then show ?thesis using t_before own_first by (auto simp: owned_def owners_def member_def)
next
  case (t_create i)
  then have "owners s (store s)" using o by (simp add: owned_def)
  from owners_create [OF f this t_create(2,3), of s'] show ?thesis using t_create all_created by (simp add: owned_def)
next
  case (t_after g)
  have "owners s (store s)" using o t_after by (simp add: owned_def)
  moreover have "sums (store s) (crew s)" using fine_sums [OF f] t_after by simp
  ultimately show ?thesis using t_after owners_crew [of s' s] by (auto simp: owned_def)
next
  case (t_work i l l' g)
  have b: "mpc s \<noteq> Before" by (rule fine_crew [OF f t_work(3)])
  then have "owners s (store s)" using o t_work(2) by (simp add: owned_def split: main_pc.splits)
  from owners_work [OF f this t_work(3-5), of s'] b show ?thesis using t_work by (auto simp: owned_def split: main_pc.split)
qed (use o in \<open>auto simp: owned_def owners_def member_def\<close>)

lemma reached_owned: "team_reaches app g0 s \<Longrightarrow> owned s"
proof (induction rule: rtranclp_induct)
  case (step s s')
  then show ?case using owned_step reached_fine by blast
qed (simp add: owned_def team_start_def)

lemma returned_owned:
  assumes "team_reaches app g0 s" "mpc s = Returned"
  shows "\<exists>g. (\<forall>i < workers app. own i (crew s ! i) g) \<and> ginv g \<and> after app (crew s) g = Some (store s)"
  using reached_owned [OF assms(1)] returned(2) [OF assms] assms(2) by (auto simp: owned_def owners_def member_def sums_def)

end

end
