(* ===== verification/Thread_Demos.thy ===== *)
theory Thread_Demos
  imports Threads Proc_Maps
begin

text \<open>
  The programs that start threads, as teams: src/09_threads_memory/01_pthread_create.c, 02_tls_compiler.c,
  03_tls_pthread_key.c, 04_pthread_join.c, src/04_heap_malloc/08_arenas_threads.c; and src/03_stack/07_pthread_stack.c.
  ok says which pthread_create succeeds; thread ids and
  addresses are functions of the number of the thread.
\<close>

lemma crew_three:
  assumes "length c = 3" "\<And>i. i < 3 \<Longrightarrow> \<exists>l. c ! i = Some l \<and> P i l"
  obtains a b d where "c = [Some a, Some b, Some d]" "P 0 a" "P 1 b" "P 2 d"
proof -
  from assms(1) obtain x y z where c: "c = [x, y, z]" by (auto simp: numeral_3_eq_3 length_Suc_conv)
  show ?thesis using that assms(2) [of 0] assms(2) [of 1] assms(2) [of 2] c by auto
qed

lemma over_three: "over_crew f [Some a, Some b, Some d] = f 0 a + f 1 b + f 2 d"
  by (simp add: over_crew_def numeral_3_eq_3 numeral_2_eq_2)

section \<open>02_tls_compiler.c\<close>

text \<open>Each thread has a counter of its own: the workers' in their local state, main's beside the output.\<close>

record tls_worker =
  tls_n :: int
  tls_i :: int
  tls_counter :: int
  tls_over :: bool

record tls_shared =
  main_counter :: int
  tls_out :: "event list"

definition tls_ns :: "int list" where "tls_ns = [10, 20, 30]"

definition tls_line :: "(nat \<Rightarrow> int) \<Rightarrow> (nat \<Rightarrow> int) \<Rightarrow> nat \<Rightarrow> int \<Rightarrow> event" where
  "tls_line tid adr k c = Out ''tid=%ld counter=%d (&counter=%p)'' [I (tid k), I c, I (adr k)]"

inductive tls_work :: "(nat \<Rightarrow> int) \<Rightarrow> (nat \<Rightarrow> int) \<Rightarrow> nat \<Rightarrow> tls_worker \<times> tls_shared \<Rightarrow> tls_worker \<times> tls_shared \<Rightarrow> bool"
  for tid adr k where
  tls_count: "tls_i l < tls_n l \<Longrightarrow> \<not> tls_over l \<Longrightarrow>
    tls_work tid adr k (l, g) (l\<lparr>tls_i := tls_i l + 1, tls_counter := tls_counter l + 1\<rparr>, g)"
| tls_print: "\<not> tls_i l < tls_n l \<Longrightarrow> \<not> tls_over l \<Longrightarrow>
    tls_work tid adr k (l, g) (l\<lparr>tls_over := True\<rparr>, g\<lparr>tls_out := tls_out g @ [tls_line tid adr k (tls_counter l)]\<rparr>)"

definition tls_app :: "(nat \<Rightarrow> bool) \<Rightarrow> (nat \<Rightarrow> int) \<Rightarrow> (nat \<Rightarrow> int) \<Rightarrow> (tls_worker, tls_shared) app" where
  "tls_app ok tid adr =
     \<lparr>workers = 3, create_ok = ok,
      init = (\<lambda>k. \<lparr>tls_n = tls_ns ! k, tls_i = 0, tls_counter = 0, tls_over = False\<rparr>),
      ended = tls_over, work = tls_work tid adr,
      before = (\<lambda>g. Some (g\<lparr>main_counter := 100\<rparr>)),
      after = (\<lambda>c g. Some (g\<lparr>tls_out := tls_out g @ [Out ''main counter=%d'' [I (main_counter g)]]\<rparr>))\<rparr>"

definition tls_start :: tls_shared where
  "tls_start = \<lparr>main_counter = 0, tls_out = []\<rparr>"

definition tls_winv :: "nat \<Rightarrow> tls_worker \<Rightarrow> bool" where
  "tls_winv k l \<longleftrightarrow> tls_n l = tls_ns ! k \<and> tls_counter l = tls_i l \<and> tls_i l \<le> tls_n l \<and> (tls_over l \<longrightarrow> tls_i l = tls_n l)"

definition tls_left :: "(nat \<Rightarrow> int) \<Rightarrow> (nat \<Rightarrow> int) \<Rightarrow> nat \<Rightarrow> tls_worker \<Rightarrow> event multiset" where
  "tls_left tid adr k l = (if tls_over l then {#tls_line tid adr k (tls_counter l)#} else {#})"

definition tls_rank :: "tls_worker \<Rightarrow> nat" where
  "tls_rank l = nat (tls_n l - tls_i l) + (if tls_over l then 0 else 1)"

inductive_cases tls_workE: "tls_work tid adr k (l, g) (l', g')"

interpretation tls: fork_join "tls_app (\<lambda>_. True) tid adr" tls_start "\<lambda>g. main_counter g = 100" tls_winv
  "tls_left tid adr" "\<lambda>g. mset (tls_out g)" tls_rank 31 for tid adr
proof
  let ?app = "tls_app (\<lambda>_. True) tid adr"
  fix i l r l' x and g g' :: tls_shared
  assume w: "tls_winv i l" "main_counter g = 100" "mset (tls_out g) = tls_left tid adr i l + r"
  show "\<not> ended ?app l \<Longrightarrow> \<exists>x. work ?app i (l, g) x"
    by (cases "tls_i l < tls_n l") (auto simp: tls_app_def intro: tls_count tls_print)
  assume "work ?app i (l, g) (l', g')"
  then have "tls_work tid adr i (l, g) (l', g')" by (simp add: tls_app_def)
  then show "tls_winv i l' \<and> main_counter g' = 100 \<and> mset (tls_out g') = tls_left tid adr i l' + r \<and> tls_rank l' < tls_rank l"
    by (rule tls_workE) (use w in \<open>auto simp: tls_winv_def tls_left_def tls_rank_def\<close>)
next
  fix i
  assume "i < workers (tls_app (\<lambda>_. True) tid adr)"
  then have "i = 0 \<or> i = 1 \<or> i = 2" by (auto simp: tls_app_def)
  then show "tls_winv i (init (tls_app (\<lambda>_. True) tid adr) i) \<and> tls_left tid adr i (init (tls_app (\<lambda>_. True) tid adr) i) = 0
      \<and> tls_rank (init (tls_app (\<lambda>_. True) tid adr) i) \<le> 31"
    by (auto simp: tls_app_def tls_winv_def tls_left_def tls_rank_def tls_ns_def)
qed (auto simp: tls_app_def tls_start_def elim!: tls_work.cases)

text \<open>C27. Thread-local counters: when the three pthread_create succeed, every run of the program ends, with main having
  returned; by then the workers have printed the counts 10, 20 and 30, each its own and in some order, and after them
  main has printed the 100 it had set, in every interleaving of the increments.\<close>

theorem tls_counters_separate:
  assumes "team_reaches (tls_app (\<lambda>_. True) tid adr) tls_start s"
  shows "ends (tls_app (\<lambda>_. True) tid adr) s \<and> (mpc s = Returned \<longrightarrow> (\<exists>ws.
    tls_out (store s) = ws @ [Out ''main counter=%d'' [I 100]] \<and>
    mset ws = {#tls_line tid adr 0 10, tls_line tid adr 1 20, tls_line tid adr 2 30#}))"
proof (intro conjI impI)
  show "ends (tls_app (\<lambda>_. True) tid adr) s" by (rule tls.reached_ends [OF assms])
  assume m: "mpc s = Returned"
  from tls.returned(1) [OF assms m] obtain g where g: "main_counter g = 100"
    "mset (tls_out g) = over_crew (tls_left tid adr) (crew s)"
    "store s = g\<lparr>tls_out := tls_out g @ [Out ''main counter=%d'' [I (main_counter g)]]\<rparr>"
    by (auto simp: tls_app_def)
  have "length (crew s) = 3" "\<And>i. i < 3 \<Longrightarrow> \<exists>l. crew s ! i = Some l \<and> tls_winv i l \<and> tls_over l"
    using tls.returned(2,3) [OF assms m] by (auto simp: tls_app_def)
  then obtain a b d where "crew s = [Some a, Some b, Some d]" "tls_winv 0 a \<and> tls_over a" "tls_winv 1 b \<and> tls_over b"
    "tls_winv 2 d \<and> tls_over d" by (rule crew_three)
  then show "\<exists>ws. tls_out (store s) = ws @ [Out ''main counter=%d'' [I 100]] \<and>
    mset ws = {#tls_line tid adr 0 10, tls_line tid adr 1 20, tls_line tid adr 2 30#}"
    using g(1-3) by (auto simp: over_three tls_left_def tls_winv_def tls_ns_def)
qed

theorem tls_counters_separate_witness:
  "\<exists>s. team_reaches (tls_app (\<lambda>_. True) (\<lambda>k. 7) (\<lambda>k. 9)) tls_start s \<and> last (tls_out (store s)) = Out ''main counter=%d'' [I 100]"
proof -
  obtain s where "team_reaches (tls_app (\<lambda>_. True) (\<lambda>k. 7) (\<lambda>k. 9)) tls_start s" "mpc s = Returned"
    using tls.can_return by blast
  with tls_counters_separate [OF this(1)] show ?thesis by fastforce
qed

section \<open>A heap the threads share\<close>

text \<open>Blocks with what they hold; malloc gives an address no block has.\<close>

definition fresh_block :: "nat \<Rightarrow> (nat \<times> 'c) list \<Rightarrow> bool" where
  "fresh_block p h \<longleftrightarrow> p \<noteq> 0 \<and> p \<notin> fst ` set h"

definition store_block :: "nat \<Rightarrow> 'c \<Rightarrow> (nat \<times> 'c) list \<Rightarrow> (nat \<times> 'c) list" where
  "store_block p c h = map (\<lambda>(q, d). if q = p then (p, c) else (q, d)) h"

definition free_block :: "nat \<Rightarrow> (nat \<times> 'c) list \<Rightarrow> (nat \<times> 'c) list" where
  "free_block p h = filter (\<lambda>(q, d). q \<noteq> p) h"

definition blocks_ok :: "(nat \<times> 'c) list \<Rightarrow> bool" where
  "blocks_ok h \<longleftrightarrow> distinct (map fst h) \<and> 0 \<notin> fst ` set h"

lemma fresh_exists: "\<exists>p. fresh_block p h"
proof -
  have "finite (insert 0 (fst ` set h))" by simp
  then show ?thesis unfolding fresh_block_def by (metis ex_new_if_finite infinite_UNIV_nat insert_iff)
qed

lemma blocks_ok_Cons: "blocks_ok h \<Longrightarrow> fresh_block p h \<Longrightarrow> blocks_ok ((p, c) # h)"
  by (auto simp: blocks_ok_def fresh_block_def)

lemma block_split:
  assumes "blocks_ok h" "mset h = {#(p, c)#} + r"
  obtains h1 h2 where "h = h1 @ (p, c) # h2" "p \<notin> fst ` set h1" "p \<notin> fst ` set h2" "r = mset (h1 @ h2)"
proof -
  have "(p, c) \<in># mset h" using assms(2) by simp
  then have "(p, c) \<in> set h" by (simp only: set_mset_mset)
  then obtain h1 h2 where h: "h = h1 @ (p, c) # h2" by (metis split_list)
  show thesis by (rule that [OF h]) (use assms h in \<open>auto simp: blocks_ok_def\<close>)
qed

lemma off_block: "p \<notin> fst ` set h \<Longrightarrow> store_block p c h = h" "p \<notin> fst ` set h \<Longrightarrow> free_block p h = h"
  by (induction h) (auto simp: store_block_def free_block_def)

lemma block_ops:
  assumes "blocks_ok h" "mset h = {#(p, c)#} + r"
  shows "map_of h p = Some c" "p \<noteq> 0" "blocks_ok (store_block p d h)" "mset (store_block p d h) = {#(p, d)#} + r"
    "blocks_ok (free_block p h)" "mset (free_block p h) = r"
proof -
  from block_split [OF assms] obtain h1 h2 where h: "h = h1 @ (p, c) # h2" "p \<notin> fst ` set h1" "p \<notin> fst ` set h2"
    "r = mset (h1 @ h2)" .
  have s: "store_block p d h = h1 @ (p, d) # h2" using off_block(1) [OF h(2), of d] off_block(1) [OF h(3), of d]
    unfolding h(1) by (simp add: store_block_def)
  have f: "free_block p h = h1 @ h2" using off_block(2) [OF h(2)] off_block(2) [OF h(3)]
    unfolding h(1) by (simp add: free_block_def)
  have "map_of h1 p = None" using h(2) by (simp only: map_of_eq_None_iff not_False_eq_True)
  then show "map_of h p = Some c" using h(1) by (simp add: map_add_def)
  show "p \<noteq> 0" "blocks_ok (store_block p d h)" "blocks_ok (free_block p h)" using assms(1) h s f by (auto simp: blocks_ok_def)
  show "mset (store_block p d h) = {#(p, d)#} + r" "mset (free_block p h) = r" using h s f by simp_all
qed

section \<open>03_tls_pthread_key.c\<close>

text \<open>A block holds its text, None before anything has been written.  When a thread returns, its value of the key
  is set to the null pointer and, if it was not null, given to the destructor.  mem_out says that malloc may fail.\<close>

datatype key_pc = K_Malloc | K_Fill | K_Set | K_Show | K_Exit | K_Dtor nat | K_Free nat | K_Over

record key_worker =
  key_pc :: key_pc
  key_buf :: nat
  specific :: nat

record key_shared =
  key_live :: bool
  key_heap :: "(nat \<times> string option) list"
  key_out :: "event list"

definition key_text :: "nat \<Rightarrow> string" where
  "key_text k = take 63 (''hello from '' @ show_nat 10 k)"

definition got_line :: "(nat \<Rightarrow> int) \<Rightarrow> nat \<Rightarrow> string \<Rightarrow> nat \<Rightarrow> event" where
  "got_line tid k t p = Out ''tid=%ld got=%s (%p)'' [I (tid k), S t, I (int p)]"

definition dtor_line :: "(nat \<Rightarrow> int) \<Rightarrow> nat \<Rightarrow> nat \<Rightarrow> event" where
  "dtor_line tid k p = Out ''[dtor] freeing %p in tid=%ld'' [I (int p), I (tid k)]"

inductive key_work :: "bool \<Rightarrow> (nat \<Rightarrow> int) \<Rightarrow> nat \<Rightarrow> key_worker \<times> key_shared \<Rightarrow> key_worker \<times> key_shared \<Rightarrow> bool"
  for mem_out tid k where
  k_malloc: "key_pc l = K_Malloc \<Longrightarrow> fresh_block p (key_heap g) \<Longrightarrow>
    key_work mem_out tid k (l, g) (l\<lparr>key_buf := p, key_pc := K_Fill\<rparr>, g\<lparr>key_heap := (p, None) # key_heap g\<rparr>)"
| k_no_memory: "key_pc l = K_Malloc \<Longrightarrow> mem_out \<Longrightarrow>
    key_work mem_out tid k (l, g) (l\<lparr>key_buf := 0, key_pc := K_Fill\<rparr>, g)"
| k_fill: "key_pc l = K_Fill \<Longrightarrow> map_of (key_heap g) (key_buf l) \<noteq> None \<Longrightarrow>
    key_work mem_out tid k (l, g) (l\<lparr>key_pc := K_Set\<rparr>, g\<lparr>key_heap := store_block (key_buf l) (Some (key_text k)) (key_heap g)\<rparr>)"
| k_set: "key_pc l = K_Set \<Longrightarrow> key_live g \<Longrightarrow>
    key_work mem_out tid k (l, g) (l\<lparr>specific := key_buf l, key_pc := K_Show\<rparr>, g)"
| k_show: "key_pc l = K_Show \<Longrightarrow> key_live g \<Longrightarrow> map_of (key_heap g) (specific l) = Some (Some t) \<Longrightarrow>
    key_work mem_out tid k (l, g) (l\<lparr>key_pc := K_Exit\<rparr>, g\<lparr>key_out := key_out g @ [got_line tid k t (specific l)]\<rparr>)"
| k_exit: "key_pc l = K_Exit \<Longrightarrow> key_work mem_out tid k (l, g)
    (l\<lparr>key_pc := if specific l = 0 then K_Over else K_Dtor (specific l), specific := 0\<rparr>, g)"
| k_dtor: "key_pc l = K_Dtor p \<Longrightarrow>
    key_work mem_out tid k (l, g) (l\<lparr>key_pc := K_Free p\<rparr>, g\<lparr>key_out := key_out g @ [dtor_line tid k p]\<rparr>)"
| k_free: "key_pc l = K_Free p \<Longrightarrow> map_of (key_heap g) p \<noteq> None \<Longrightarrow>
    key_work mem_out tid k (l, g) (l\<lparr>key_pc := K_Exit\<rparr>, g\<lparr>key_heap := free_block p (key_heap g)\<rparr>)"

definition key_app :: "(nat \<Rightarrow> bool) \<Rightarrow> bool \<Rightarrow> (nat \<Rightarrow> int) \<Rightarrow> (key_worker, key_shared) app" where
  "key_app ok mem_out tid =
     \<lparr>workers = 3, create_ok = ok, init = (\<lambda>k. \<lparr>key_pc = K_Malloc, key_buf = 0, specific = 0\<rparr>),
      ended = (\<lambda>l. key_pc l = K_Over), work = key_work mem_out tid,
      before = (\<lambda>g. Some (g\<lparr>key_live := True\<rparr>)), after = (\<lambda>c g. Some (g\<lparr>key_live := False\<rparr>))\<rparr>"

definition key_start :: key_shared where
  "key_start = \<lparr>key_live = False, key_heap = [], key_out = []\<rparr>"

text \<open>What a thread has left: its block, and the lines it has printed.  The address it still knows is in its
  pointer, its key or its destructor; after the free it is forgotten, and the lines remember it.\<close>

datatype key_item = Block nat "string option" | Line event

definition key_total :: "key_shared \<Rightarrow> key_item multiset" where
  "key_total g = image_mset (\<lambda>(p, c). Block p c) (mset (key_heap g)) + image_mset Line (mset (key_out g))"


fun key_left :: "(nat \<Rightarrow> int) \<Rightarrow> nat \<Rightarrow> key_pc \<Rightarrow> nat \<Rightarrow> nat \<Rightarrow> key_item multiset" where
  "key_left tid k K_Malloc p sp = {#}"
| "key_left tid k K_Fill p sp = {#Block p None#}"
| "key_left tid k K_Set p sp = {#Block p (Some (key_text k))#}"
| "key_left tid k K_Show p sp = {#Block p (Some (key_text k))#}"
| "key_left tid k K_Exit p sp = (if sp = 0 then {#Line (got_line tid k (key_text k) p), Line (dtor_line tid k p)#}
     else {#Block p (Some (key_text k)), Line (got_line tid k (key_text k) p)#})"
| "key_left tid k (K_Dtor q) p sp = {#Block p (Some (key_text k)), Line (got_line tid k (key_text k) p)#}"
| "key_left tid k (K_Free q) p sp =
     {#Block p (Some (key_text k)), Line (got_line tid k (key_text k) p), Line (dtor_line tid k p)#}"
| "key_left tid k K_Over p sp = {#Line (got_line tid k (key_text k) p), Line (dtor_line tid k p)#}"

fun key_winv :: "key_pc \<Rightarrow> nat \<Rightarrow> nat \<Rightarrow> bool" where
  "key_winv K_Malloc p sp \<longleftrightarrow> sp = 0"
| "key_winv K_Show p sp \<longleftrightarrow> p \<noteq> 0 \<and> sp = p"
| "key_winv K_Exit p sp \<longleftrightarrow> p \<noteq> 0 \<and> (sp = p \<or> sp = 0)"
| "key_winv (K_Dtor q) p sp \<longleftrightarrow> p \<noteq> 0 \<and> q = p \<and> sp = 0"
| "key_winv (K_Free q) p sp \<longleftrightarrow> p \<noteq> 0 \<and> q = p \<and> sp = 0"
| "key_winv pc p sp \<longleftrightarrow> p \<noteq> 0 \<and> sp = 0"

fun key_rank :: "key_pc \<Rightarrow> nat \<Rightarrow> nat" where
  "key_rank K_Malloc sp = 8"
| "key_rank K_Fill sp = 7"
| "key_rank K_Set sp = 6"
| "key_rank K_Show sp = 5"
| "key_rank K_Exit sp = (if sp = 0 then 1 else 4)"
| "key_rank (K_Dtor q) sp = 3"
| "key_rank (K_Free q) sp = 2"
| "key_rank K_Over sp = 0"

lemma key_block:
  assumes "key_total g = add_mset (Block p c) r"
  obtains h where "mset (key_heap g) = {#(p, c)#} + h" "r = image_mset (\<lambda>(p, c). Block p c) h + image_mset Line (mset (key_out g))"
proof -
  have "Block p c \<in># key_total g" using assms by simp
  then have "(p, c) \<in># mset (key_heap g)" by (auto simp: key_total_def)
  then obtain h where h: "mset (key_heap g) = {#(p, c)#} + h" by (metis add_mset_add_single insert_DiffM union_commute)
  show thesis by (rule that [OF h]) (use assms h in \<open>simp add: key_total_def\<close>)
qed

lemma inj_image_mset_line: "inj (image_mset Line)"
proof (rule injI)
  fix m n :: "event multiset"
  assume "image_mset Line m = image_mset Line n"
  then have "image_mset (\<lambda>x. case x of Line e \<Rightarrow> e) (image_mset Line m) = image_mset (\<lambda>x. case x of Line e \<Rightarrow> e) (image_mset Line n)"
    by simp
  then show "m = n" by (simp add: multiset.map_comp o_def)
qed

abbreviation key_ginv :: "key_shared \<Rightarrow> bool" where
  "key_ginv g \<equiv> key_live g \<and> blocks_ok (key_heap g)"

lemma key_work_ok:
  assumes "key_work False tid k (l, g) (l', g')" "key_winv (key_pc l) (key_buf l) (specific l)" "key_ginv g"
    "key_total g = key_left tid k (key_pc l) (key_buf l) (specific l) + r"
  shows "key_winv (key_pc l') (key_buf l') (specific l') \<and> key_ginv g' \<and>
    key_total g' = key_left tid k (key_pc l') (key_buf l') (specific l') + r \<and>
    key_rank (key_pc l') (specific l') < key_rank (key_pc l) (specific l)"
  using assms(1)
proof cases
  case (k_malloc p)
  then have "blocks_ok ((p, None :: string option) # key_heap g)" using assms(3) by (intro blocks_ok_Cons) auto
  moreover have "p \<noteq> 0" using k_malloc by (simp add: fresh_block_def)
  ultimately show ?thesis using k_malloc assms(2-4) by (auto simp: key_total_def)
next
  case k_fill
  then have t: "key_total g = add_mset (Block (key_buf l) None) r" using assms(4) by simp
  obtain h where h: "mset (key_heap g) = {#(key_buf l, None)#} + h"
    "r = image_mset (\<lambda>(p, c). Block p c) h + image_mset Line (mset (key_out g))" by (rule key_block [OF t])
  then show ?thesis using block_ops [OF _ h(1)] assms(2,3) k_fill by (simp add: key_total_def)
next
  case (k_show t)
  then have t: "key_total g = add_mset (Block (key_buf l) (Some (key_text k))) r" using assms(4) by simp
  obtain h where h: "mset (key_heap g) = {#(key_buf l, Some (key_text k))#} + h" by (rule key_block [OF t])
  then have "t = key_text k" using block_ops(1) [OF _ h] assms(2,3) k_show by simp
  then show ?thesis using assms(2,3) k_show t by (simp add: key_total_def)
next
  case (k_free p)
  then have t: "key_total g = add_mset (Block (key_buf l) (Some (key_text k)))
      (add_mset (Line (got_line tid k (key_text k) (key_buf l))) (add_mset (Line (dtor_line tid k (key_buf l))) r))"
    using assms(4) by simp
  obtain h where h: "mset (key_heap g) = {#(key_buf l, Some (key_text k))#} + h" by (rule key_block [OF t])
  then show ?thesis using block_ops(5,6) [OF _ h] assms(2,3) k_free t by (auto simp: key_total_def)
qed (use assms in \<open>auto simp: key_total_def\<close>)

lemma key_alive:
  assumes "key_winv (key_pc l) (key_buf l) (specific l)" "key_ginv g" "key_pc l \<noteq> K_Over"
    "key_total g = key_left tid k (key_pc l) (key_buf l) (specific l) + r"
  shows "\<exists>x. key_work False tid k (l, g) x"
proof (cases "key_pc l")
  case K_Malloc
  then show ?thesis using fresh_exists k_malloc by metis
next
  case K_Fill
  with assms(4) have t: "key_total g = add_mset (Block (key_buf l) None) r" by simp
  obtain h where h: "mset (key_heap g) = {#(key_buf l, None)#} + h" by (rule key_block [OF t])
  then show ?thesis using block_ops(1) [OF _ h] assms(2) k_fill K_Fill by (metis option.discI)
next
  case K_Show
  with assms(4) have t: "key_total g = add_mset (Block (key_buf l) (Some (key_text k))) r" by simp
  obtain h where h: "mset (key_heap g) = {#(key_buf l, Some (key_text k))#} + h" by (rule key_block [OF t])
  then show ?thesis using block_ops(1) [OF _ h] assms(1,2) k_show K_Show by fastforce
next
  case (K_Free p)
  with assms(4) have t: "key_total g = add_mset (Block (key_buf l) (Some (key_text k)))
      (add_mset (Line (got_line tid k (key_text k) (key_buf l))) (add_mset (Line (dtor_line tid k (key_buf l))) r))" by simp
  obtain h where h: "mset (key_heap g) = {#(key_buf l, Some (key_text k))#} + h" by (rule key_block [OF t])
  then show ?thesis using block_ops(1) [OF _ h] assms(1,2) k_free K_Free by fastforce
qed (use assms k_set k_exit k_dtor in \<open>blast+\<close>)

interpretation key: fork_join "key_app (\<lambda>_. True) False tid" key_start key_ginv
  "\<lambda>_ l. key_winv (key_pc l) (key_buf l) (specific l)" "\<lambda>k l. key_left tid k (key_pc l) (key_buf l) (specific l)"
  key_total "\<lambda>l. key_rank (key_pc l) (specific l)" 8 for tid
proof
  let ?app = "key_app (\<lambda>_. True) False tid"
  fix i r and l l' :: key_worker and g g' :: key_shared
  assume w: "key_winv (key_pc l) (key_buf l) (specific l)" "key_ginv g"
    "key_total g = key_left tid i (key_pc l) (key_buf l) (specific l) + r"
  show "\<not> ended ?app l \<Longrightarrow> \<exists>x. work ?app i (l, g) x" using key_alive [OF w(1,2) _ w(3)] by (simp add: key_app_def)
  show "work ?app i (l, g) (l', g') \<Longrightarrow> key_winv (key_pc l') (key_buf l') (specific l') \<and> key_ginv g' \<and>
    key_total g' = key_left tid i (key_pc l') (key_buf l') (specific l') + r \<and>
    key_rank (key_pc l') (specific l') < key_rank (key_pc l) (specific l)" using key_work_ok [OF _ w] by (simp add: key_app_def)
qed (auto simp: key_app_def key_start_def key_total_def blocks_ok_def elim!: key_work.cases)

text \<open>C21. Thread-specific data: when threads and blocks can be made, no run is stuck (no text is written to or read from
  a block that is not live, and no block is freed twice), every run ends, and then each thread has printed its own
  text and, once, the line of the destructor for the same block, and no block is left.\<close>

theorem key_blocks_destroyed:
  assumes "team_reaches (key_app (\<lambda>_. True) False tid) key_start s"
  shows "ends (key_app (\<lambda>_. True) False tid) s \<and> (mpc s = Returned \<longrightarrow> key_heap (store s) = [] \<and>
    (\<exists>p q r. mset (key_out (store s)) = {#got_line tid 0 ''hello from 0'' p, dtor_line tid 0 p,
       got_line tid 1 ''hello from 1'' q, dtor_line tid 1 q, got_line tid 2 ''hello from 2'' r, dtor_line tid 2 r#}))"
proof (intro conjI impI)
  show "ends (key_app (\<lambda>_. True) False tid) s" by (rule key.reached_ends [OF assms])
  assume m: "mpc s = Returned"
  let ?P = "\<lambda>i l. key_pc l = K_Over"
  have "length (crew s) = 3" "\<And>i. i < 3 \<Longrightarrow> \<exists>l. crew s ! i = Some l \<and> ?P i l"
    using key.returned(2,3) [OF assms m] by (auto simp: key_app_def)
  then obtain a b d where c: "crew s = [Some a, Some b, Some d]" "?P 0 a" "?P 1 b" "?P 2 d" by (rule crew_three)
  from key.returned(1) [OF assms m] obtain g where
    "key_total g = over_crew (\<lambda>k l. key_left tid k (key_pc l) (key_buf l) (specific l)) (crew s)"
    "store s = g\<lparr>key_live := False\<rparr>" by (auto simp: key_app_def)
  then have t: "image_mset (\<lambda>(p, c). Block p c) (mset (key_heap (store s))) + image_mset Line (mset (key_out (store s))) =
    image_mset Line ({#got_line tid 0 (key_text 0) (key_buf a), dtor_line tid 0 (key_buf a), got_line tid 1 (key_text 1) (key_buf b),
       dtor_line tid 1 (key_buf b), got_line tid 2 (key_text 2) (key_buf d), dtor_line tid 2 (key_buf d)#})"
    using c by (simp add: over_three key_total_def ac_simps)
  have "key_heap (store s) = []"
  proof (rule ccontr)
    assume "key_heap (store s) \<noteq> []"
    then obtain p c where "(p, c) \<in># mset (key_heap (store s))" by (cases "key_heap (store s)") auto
    then have "Block p c \<in># image_mset (\<lambda>(p, c). Block p c) (mset (key_heap (store s))) + image_mset Line (mset (key_out (store s)))"
      by force
    then show False unfolding t by auto
  qed
  moreover from this t have "image_mset Line (mset (key_out (store s))) = image_mset Line {#got_line tid 0 (key_text 0) (key_buf a),
     dtor_line tid 0 (key_buf a), got_line tid 1 (key_text 1) (key_buf b),
       dtor_line tid 1 (key_buf b), got_line tid 2 (key_text 2) (key_buf d), dtor_line tid 2 (key_buf d)#}" by simp
  then have "mset (key_out (store s)) = {#got_line tid 0 (key_text 0) (key_buf a),
     dtor_line tid 0 (key_buf a), got_line tid 1 (key_text 1) (key_buf b),
       dtor_line tid 1 (key_buf b), got_line tid 2 (key_text 2) (key_buf d), dtor_line tid 2 (key_buf d)#}"
    by (rule injD [OF inj_image_mset_line])
  moreover have "key_text 0 = ''hello from 0''" "key_text 1 = ''hello from 1''" "key_text 2 = ''hello from 2''"
    by code_simp+
  ultimately show "key_heap (store s) = []" "\<exists>p q r. mset (key_out (store s)) = {#got_line tid 0 ''hello from 0'' p, dtor_line tid 0 p,
       got_line tid 1 ''hello from 1'' q, dtor_line tid 1 q, got_line tid 2 ''hello from 2'' r, dtor_line tid 2 r#}" by auto
qed

theorem key_blocks_destroyed_witness:
  "\<exists>s. team_reaches (key_app (\<lambda>_. True) False (\<lambda>k. 7)) key_start s \<and> key_heap (store s) = [] \<and> length (key_out (store s)) = 6"
proof -
  obtain s where s: "team_reaches (key_app (\<lambda>_. True) False (\<lambda>k. 7)) key_start s" "mpc s = Returned"
    using key.can_return by blast
  from key_blocks_destroyed [OF s(1)] s(2) have "key_heap (store s) = []" "size (mset (key_out (store s))) = 6"
    by (auto simp del: size_mset)
  with s(1) show ?thesis by (metis size_mset)
qed

section \<open>04_pthread_join.c\<close>

datatype join_pc = J_Read | J_Malloc | J_Store | J_Sleep | J_Over

record join_worker =
  join_pc :: join_pc
  join_n :: int
  join_res :: nat

record join_shared =
  main_n :: int
  join_heap :: "(nat \<times> int option) list"
  join_out :: "event list"

inductive join_work :: "bool \<Rightarrow> nat \<Rightarrow> join_worker \<times> join_shared \<Rightarrow> join_worker \<times> join_shared \<Rightarrow> bool" for mem_out k where
  j_read: "join_pc l = J_Read \<Longrightarrow> join_work mem_out k (l, g) (l\<lparr>join_n := main_n g, join_pc := J_Malloc\<rparr>, g)"
| j_malloc: "join_pc l = J_Malloc \<Longrightarrow> fresh_block p (join_heap g) \<Longrightarrow>
    join_work mem_out k (l, g) (l\<lparr>join_res := p, join_pc := J_Store\<rparr>, g\<lparr>join_heap := (p, None) # join_heap g\<rparr>)"
| j_no_memory: "join_pc l = J_Malloc \<Longrightarrow> mem_out \<Longrightarrow>
    join_work mem_out k (l, g) (l\<lparr>join_res := 0, join_pc := J_Store\<rparr>, g)"
| j_store: "join_pc l = J_Store \<Longrightarrow> map_of (join_heap g) (join_res l) \<noteq> None \<Longrightarrow> join_n l * join_n l < 2 ^ 31 \<Longrightarrow>
    join_work mem_out k (l, g)
      (l\<lparr>join_pc := J_Sleep\<rparr>, g\<lparr>join_heap := store_block (join_res l) (Some (join_n l * join_n l)) (join_heap g)\<rparr>)"
| j_sleep: "join_pc l = J_Sleep \<Longrightarrow> join_work mem_out k (l, g) (l\<lparr>join_pc := J_Over\<rparr>, g)"

text \<open>main reads the result through the pointer it has joined, prints it, and frees the block.\<close>

definition join_main_after :: "join_worker option list \<Rightarrow> join_shared \<Rightarrow> join_shared option" where
  "join_main_after c g = do {
     l \<leftarrow> c ! 0;
     v \<leftarrow> map_of (join_heap g) (join_res l);
     v \<leftarrow> v;
     Some (g\<lparr>join_out := join_out g @ [Out ''worker(%d) returned %d'' [I (main_n g), I v]],
             join_heap := free_block (join_res l) (join_heap g)\<rparr>)}"

definition join_app :: "(nat \<Rightarrow> bool) \<Rightarrow> bool \<Rightarrow> (join_worker, join_shared) app" where
  "join_app ok mem_out =
     \<lparr>workers = 1, create_ok = ok, init = (\<lambda>k. \<lparr>join_pc = J_Read, join_n = 0, join_res = 0\<rparr>),
      ended = (\<lambda>l. join_pc l = J_Over), work = join_work mem_out,
      before = (\<lambda>g. Some (g\<lparr>main_n := 7\<rparr>)), after = join_main_after\<rparr>"

definition join_start :: join_shared where
  "join_start = \<lparr>main_n = 0, join_heap = [], join_out = []\<rparr>"

fun join_left :: "join_pc \<Rightarrow> nat \<Rightarrow> (nat \<times> int option) multiset" where
  "join_left J_Store p = {#(p, None)#}"
| "join_left J_Sleep p = {#(p, Some 49)#}"
| "join_left J_Over p = {#(p, Some 49)#}"
| "join_left _ p = {#}"

fun join_rank :: "join_pc \<Rightarrow> nat" where
  "join_rank J_Read = 4"
| "join_rank J_Malloc = 3"
| "join_rank J_Store = 2"
| "join_rank J_Sleep = 1"
| "join_rank J_Over = 0"

abbreviation join_ginv :: "join_shared \<Rightarrow> bool" where
  "join_ginv g \<equiv> main_n g = 7 \<and> join_out g = [] \<and> blocks_ok (join_heap g)"

abbreviation join_winv :: "join_worker \<Rightarrow> bool" where
  "join_winv l \<equiv> join_pc l \<noteq> J_Read \<longrightarrow> join_n l = 7"

lemma join_work_ok:
  assumes "join_work False k (l, g) (l', g')" "join_winv l" "join_ginv g" "mset (join_heap g) = join_left (join_pc l) (join_res l) + r"
  shows "join_winv l' \<and> join_ginv g' \<and> mset (join_heap g') = join_left (join_pc l') (join_res l') + r \<and>
    join_rank (join_pc l') < join_rank (join_pc l)"
  using assms(1)
proof cases
  case (j_malloc p)
  then have "blocks_ok ((p, None :: int option) # join_heap g)" using assms(3) by (intro blocks_ok_Cons) auto
  then show ?thesis using j_malloc assms(2-4) by auto
next
  case j_store
  then have h: "mset (join_heap g) = {#(join_res l, None)#} + r" using assms(4) by simp
  from j_store show ?thesis using block_ops [OF _ h] assms(2,3) by simp
qed (use assms in auto)

lemma join_alive:
  assumes "join_winv l" "join_ginv g" "mset (join_heap g) = join_left (join_pc l) (join_res l) + r" "join_pc l \<noteq> J_Over"
  shows "\<exists>x. join_work False k (l, g) x"
proof (cases "join_pc l")
  case J_Malloc
  then show ?thesis using fresh_exists j_malloc by metis
next
  case J_Store
  then have h: "mset (join_heap g) = {#(join_res l, None)#} + r" using assms(3) by simp
  then have "map_of (join_heap g) (join_res l) \<noteq> None" "join_n l * join_n l < 2 ^ 31"
    using block_ops(1) [OF _ h] assms(1,2) J_Store by auto
  then show ?thesis using j_store J_Store by blast
qed (use assms j_read j_sleep in \<open>blast+\<close>)

lemma join_main_after_runs:
  assumes "join_ginv g" "mset (join_heap g) = {#(join_res l, Some 49)#}"
  shows "join_main_after [Some l] g = Some (g\<lparr>join_out := [Out ''worker(%d) returned %d'' [I 7, I 49]], join_heap := []\<rparr>)"
proof -
  have h: "mset (join_heap g) = {#(join_res l, Some 49)#} + {#}" using assms(2) by simp
  from block_ops(1,6) [OF _ h] assms(1) show ?thesis by (simp add: join_main_after_def)
qed

interpretation jn: fork_join "join_app (\<lambda>_. True) False" join_start join_ginv "\<lambda>_. join_winv"
  "\<lambda>_ l. join_left (join_pc l) (join_res l)" "\<lambda>g. mset (join_heap g)" "\<lambda>l. join_rank (join_pc l)" 4
proof
  let ?app = "join_app (\<lambda>_. True) False"
  fix i r and l l' :: join_worker and g g' :: join_shared and c
  {
    assume w: "join_winv l" "join_ginv g" "mset (join_heap g) = join_left (join_pc l) (join_res l) + r"
    show "\<not> ended ?app l \<Longrightarrow> \<exists>x. work ?app i (l, g) x" using join_alive [OF w] by (simp add: join_app_def)
    show "work ?app i (l, g) (l', g') \<Longrightarrow> join_winv l' \<and> join_ginv g' \<and>
      mset (join_heap g') = join_left (join_pc l') (join_res l') + r \<and> join_rank (join_pc l') < join_rank (join_pc l)"
      using join_work_ok [OF _ w] by (simp add: join_app_def)
  next
    assume a: "join_ginv g" "length c = workers ?app" "mset (join_heap g) = over_crew (\<lambda>_ l. join_left (join_pc l) (join_res l)) c"
      "\<And>i. i < length c \<Longrightarrow> \<exists>l. c ! i = Some l \<and> ended ?app l \<and> join_winv l"
    then have "length c = 1" by (simp add: join_app_def)
    with a(4) [of 0] obtain l where "c = [Some l]" "join_pc l = J_Over" by (cases c) (auto simp: join_app_def)
    then show "\<exists>g'. after ?app c g = Some g'" using join_main_after_runs [of g l] a by (simp add: join_app_def over_crew_def)
  }
qed (auto simp: join_app_def join_start_def blocks_ok_def elim!: join_work.cases)

text \<open>The value joined: every run of the program ends, 7 and 49 are printed, and the block is freed.\<close>

theorem join_returns_square:
  assumes "team_reaches (join_app (\<lambda>_. True) False) join_start s"
  shows "ends (join_app (\<lambda>_. True) False) s \<and> (mpc s = Returned \<longrightarrow>
    join_heap (store s) = [] \<and> join_out (store s) = [Out ''worker(%d) returned %d'' [I 7, I 49]])"
proof (intro conjI impI)
  show "ends (join_app (\<lambda>_. True) False) s" by (rule jn.reached_ends [OF assms])
  assume m: "mpc s = Returned"
  from jn.returned(2) [OF assms m] jn.returned(3) [OF assms m, of 0] obtain l where "crew s = [Some l]" "join_pc l = J_Over"
    by (cases "crew s") (auto simp: join_app_def)
  with jn.returned(1) [OF assms m] join_main_after_runs
  show "join_heap (store s) = []" "join_out (store s) = [Out ''worker(%d) returned %d'' [I 7, I 49]]"
    by (auto simp: join_app_def over_crew_def)
qed

theorem join_returns_square_witness:
  "\<exists>s. team_reaches (join_app (\<lambda>_. True) False) join_start s \<and> join_out (store s) = [Out ''worker(%d) returned %d'' [I 7, I 49]]"
proof -
  obtain s where "team_reaches (join_app (\<lambda>_. True) False) join_start s" "mpc s = Returned" using jn.can_return by blast
  with join_returns_square [OF this(1)] show ?thesis by blast
qed


text \<open>When malloc gives the null pointer the worker writes through it: the run is stuck before main has returned.\<close>

lemma join_null_result:
  "\<exists>s. team_reaches (join_app (\<lambda>_. True) True) join_start s \<and> mpc s \<noteq> Returned \<and> (\<nexists>s'. team_step (join_app (\<lambda>_. True) True) s s')"
proof -
  let ?app = "join_app (\<lambda>_. True) True" and ?w = "\<lambda>pc n. \<lparr>join_pc = pc, join_n = n, join_res = 0\<rparr>"
  let ?t = "\<lambda>m c. \<lparr>mpc = m, crew = c, store = join_start\<lparr>main_n := 7\<rparr>\<rparr>"
  have a: "team_step ?app (team_start join_start) (?t (Creating 0) [])"
    using t_before [of "team_start join_start" ?app] by (simp add: team_start_def join_app_def)
  have b: "team_step ?app (?t (Creating 0) []) (?t (Creating 1) [Some (?w J_Read 0)])"
    using t_create [of "?t (Creating 0) []" 0 ?app] by (simp add: join_app_def)
  have c: "team_step ?app (?t (Creating 1) [Some (?w J_Read 0)]) (?t (Joining 0) [Some (?w J_Read 0)])"
    using t_created [of "?t (Creating 1) [Some (?w J_Read 0)]" 1 ?app] by (simp add: join_app_def)
  have d: "team_step ?app (?t (Joining 0) [Some (?w J_Read 0)]) (?t (Joining 0) [Some (?w J_Malloc 7)])"
    using t_work [of "?t (Joining 0) [Some (?w J_Read 0)]" 0 "?w J_Read 0" ?app] j_read [of "?w J_Read 0" True 0 "join_start\<lparr>main_n := 7\<rparr>"]
    by (simp add: join_app_def)
  have e: "team_step ?app (?t (Joining 0) [Some (?w J_Malloc 7)]) (?t (Joining 0) [Some (?w J_Store 7)])"
    using t_work [of "?t (Joining 0) [Some (?w J_Malloc 7)]" 0 "?w J_Malloc 7" ?app]
      j_no_memory [of "?w J_Malloc 7" True 0 "join_start\<lparr>main_n := 7\<rparr>"] by (simp add: join_app_def)
  have "\<not> team_step ?app (?t (Joining 0) [Some (?w J_Store 7)]) s'" for s'
    by (auto simp: join_app_def join_start_def elim!: team_step.cases join_work.cases)
  then show ?thesis using a b c d e by (intro exI [where x = "?t (Joining 0) [Some (?w J_Store 7)]"])
    (auto intro: converse_rtranclp_into_rtranclp)
qed

section \<open>08_arenas_threads.c of chapter 4\<close>

text \<open>The threads of the arenas program.  The heap holds the sizes of the blocks; malloc may also fail, and
  free of the null pointer does nothing.\<close>

record arena_worker =
  ar_round :: nat
  ar_i :: nat
  ar_freeing :: bool
  ar_buf :: "nat list"

definition N_THREADS :: nat where "N_THREADS = 8"
definition ROUNDS :: nat where "ROUNDS = 5000"

type_synonym sized_heap = "(nat \<times> nat) list"

inductive arena_work :: "nat \<Rightarrow> arena_worker \<times> sized_heap \<Rightarrow> arena_worker \<times> sized_heap \<Rightarrow> bool" for k where
  ar_malloc: "ar_round l < ROUNDS \<Longrightarrow> \<not> ar_freeing l \<Longrightarrow> ar_i l < 16 \<Longrightarrow> fresh_block p h \<Longrightarrow>
    arena_work k (l, h) (l\<lparr>ar_buf := (ar_buf l)[ar_i l := p], ar_i := ar_i l + 1\<rparr>, (p, 256 + ar_i l * 16) # h)"
| ar_no_memory: "ar_round l < ROUNDS \<Longrightarrow> \<not> ar_freeing l \<Longrightarrow> ar_i l < 16 \<Longrightarrow>
    arena_work k (l, h) (l\<lparr>ar_buf := (ar_buf l)[ar_i l := 0], ar_i := ar_i l + 1\<rparr>, h)"
| ar_turn: "ar_round l < ROUNDS \<Longrightarrow> \<not> ar_freeing l \<Longrightarrow> \<not> ar_i l < 16 \<Longrightarrow>
    arena_work k (l, h) (l\<lparr>ar_freeing := True, ar_i := 0\<rparr>, h)"
| ar_free: "ar_round l < ROUNDS \<Longrightarrow> ar_freeing l \<Longrightarrow> ar_i l < 16 \<Longrightarrow>
    ar_buf l ! ar_i l = 0 \<or> map_of h (ar_buf l ! ar_i l) \<noteq> None \<Longrightarrow>
    arena_work k (l, h) (l\<lparr>ar_i := ar_i l + 1\<rparr>, free_block (ar_buf l ! ar_i l) h)"
| ar_next: "ar_round l < ROUNDS \<Longrightarrow> ar_freeing l \<Longrightarrow> \<not> ar_i l < 16 \<Longrightarrow>
    arena_work k (l, h) (l\<lparr>ar_round := ar_round l + 1, ar_freeing := False, ar_i := 0\<rparr>, h)"

definition arena_app :: "(nat \<Rightarrow> bool) \<Rightarrow> (arena_worker, sized_heap) app" where
  "arena_app ok =
     \<lparr>workers = N_THREADS, create_ok = ok,
      init = (\<lambda>k. \<lparr>ar_round = 0, ar_i = 0, ar_freeing = False, ar_buf = replicate 16 0\<rparr>),
      ended = (\<lambda>l. \<not> ar_round l < ROUNDS), work = arena_work, before = Some, after = (\<lambda>c. Some)\<rparr>"

text \<open>The blocks a thread holds: those it has allocated in this round, or those it has yet to free.\<close>

definition ar_held :: "arena_worker \<Rightarrow> (nat \<times> nat) list" where
  "ar_held l = filter (\<lambda>(p, n). p \<noteq> 0)
     (map (\<lambda>j. (ar_buf l ! j, 256 + j * 16)) (if ar_freeing l then [ar_i l..<16] else [0..<ar_i l]))"

definition ar_winv :: "arena_worker \<Rightarrow> bool" where
  "ar_winv l \<longleftrightarrow> length (ar_buf l) = 16 \<and> ar_i l \<le> 16 \<and> (\<not> ar_round l < ROUNDS \<longrightarrow> \<not> ar_freeing l \<and> ar_i l = 0)"

definition ar_rank :: "arena_worker \<Rightarrow> nat" where
  "ar_rank l = (if ar_round l < ROUNDS
     then (ROUNDS - ar_round l - 1) * 34 + (if ar_freeing l then 17 - ar_i l else 34 - ar_i l) else 0)"

lemma upt_first: "i < n \<Longrightarrow> [i..<n] = i # [Suc i..<n]"
  by (rule upt_conv_Cons)

lemma ar_held_take:
  assumes "ar_winv l" "\<not> ar_freeing l" "ar_i l < 16"
  shows "ar_held (l\<lparr>ar_buf := (ar_buf l)[ar_i l := p], ar_i := ar_i l + 1\<rparr>) =
    ar_held l @ (if p = 0 then [] else [(p, 256 + ar_i l * 16)])"
proof -
  show ?thesis using assms
    by (auto simp: ar_held_def ar_winv_def simp del: filter_map intro!: arg_cong [where f = "filter (\<lambda>(p, n). 0 < p)"])
qed

lemma ar_held_give:
  assumes "ar_winv l" "ar_freeing l" "ar_i l < 16"
  shows "ar_held l = (if ar_buf l ! ar_i l = 0 then [] else [(ar_buf l ! ar_i l, 256 + ar_i l * 16)]) @ ar_held (l\<lparr>ar_i := ar_i l + 1\<rparr>)"
  using assms by (simp add: ar_held_def upt_first)

lemma ar_rank_next: "m < R \<Longrightarrow> (if Suc m < R then (R - Suc m - 1) * 34 + 34 else 0) < (R - m - 1) * 34 + (1 :: nat)"
  by auto

lemma arena_work_ok:
  assumes "arena_work k (l, h) (l', h')" "ar_winv l" "blocks_ok h" "mset h = mset (ar_held l) + r"
  shows "ar_winv l' \<and> blocks_ok h' \<and> mset h' = mset (ar_held l') + r \<and> ar_rank l' < ar_rank l"
  using assms(1)
proof cases
  case (ar_malloc p)
  then have "blocks_ok h'" "p \<noteq> 0" using assms(3) by (auto intro: blocks_ok_Cons simp: fresh_block_def)
  then show ?thesis using ar_malloc assms ar_held_take [OF assms(2), of p] by (auto simp: ar_winv_def ar_rank_def)
next
  case ar_no_memory
  then show ?thesis using assms ar_held_take [OF assms(2), of 0] by (auto simp: ar_winv_def ar_rank_def)
next
  case ar_turn
  then have "ar_held l' = ar_held l" using assms(2) by (auto simp: ar_held_def ar_winv_def)
  then show ?thesis using ar_turn assms by (auto simp: ar_winv_def ar_rank_def)
next
  case ar_free
  have i: "ar_winv l'" "ar_rank l' < ar_rank l" using ar_free assms(2) by (auto simp: ar_winv_def ar_rank_def)
  note g = ar_held_give [OF assms(2) ar_free(4,5)]
  have "blocks_ok h' \<and> mset h' = mset (ar_held l') + r"
  proof (cases "ar_buf l ! ar_i l = 0")
    case True
    then have "free_block (ar_buf l ! ar_i l) h = h" using assms(3) by (intro off_block(2)) (auto simp: blocks_ok_def)
    then show ?thesis using True g ar_free assms by simp
  next
    case False
    then have s: "mset h = {#(ar_buf l ! ar_i l, 256 + ar_i l * 16)#} + (mset (ar_held l') + r)" using g ar_free assms(4) by simp
    from block_ops(5,6) [OF assms(3) s] ar_free show ?thesis by simp
  qed
  with i show ?thesis by simp
next
  case ar_next
  then have "ar_held l' = ar_held l" using assms(2) by (auto simp: ar_held_def ar_winv_def)
  moreover have "ar_rank l' < ar_rank l" using ar_next assms(2) ar_rank_next [OF ar_next(3)]
    by (auto simp: ar_winv_def ar_rank_def split: if_splits)
  ultimately show ?thesis using ar_next assms by (auto simp: ar_winv_def)
qed

lemma arena_alive:
  assumes "ar_winv l" "blocks_ok h" "mset h = mset (ar_held l) + r" "ar_round l < ROUNDS"
  shows "\<exists>x. arena_work k (l, h) x"
proof (cases "ar_i l < 16")
  case True
  show ?thesis
  proof (cases "ar_freeing l \<and> ar_buf l ! ar_i l \<noteq> 0")
    case b: True
    then have "mset h = {#(ar_buf l ! ar_i l, 256 + ar_i l * 16)#} + (mset (ar_held (l\<lparr>ar_i := ar_i l + 1\<rparr>)) + r)"
      using assms(3) ar_held_give [OF assms(1) _ True] by simp
    from block_ops(1) [OF assms(2) this] b show ?thesis using ar_free [OF assms(4) _ True, of h k] by auto
  next
    case False
    then show ?thesis using ar_no_memory [OF assms(4) _ True, of k h] ar_free [OF assms(4) _ True, of h k]
      by (cases "ar_freeing l") auto
  qed
qed (use ar_turn ar_next assms(4) in blast)

interpretation arenas: fork_join "arena_app (\<lambda>_. True)" "[]" blocks_ok "\<lambda>_. ar_winv" "\<lambda>_ l. mset (ar_held l)" mset ar_rank
  "34 * ROUNDS"
proof
  let ?app = "arena_app (\<lambda>_. True)"
  fix i r and l l' :: arena_worker and g g' :: sized_heap
  assume w: "ar_winv l" "blocks_ok g" "mset g = mset (ar_held l) + r"
  show "\<not> ended ?app l \<Longrightarrow> \<exists>x. work ?app i (l, g) x" using arena_alive [OF w] by (simp add: arena_app_def)
  show "work ?app i (l, g) (l', g') \<Longrightarrow> ar_winv l' \<and> blocks_ok g' \<and> mset g' = mset (ar_held l') + r \<and> ar_rank l' < ar_rank l"
    using arena_work_ok [OF _ w] by (simp add: arena_app_def)
qed (auto simp: arena_app_def blocks_ok_def ar_winv_def ar_held_def ar_rank_def ROUNDS_def elim!: arena_work.cases)

lemma ar_held_over: "ar_winv l \<Longrightarrow> \<not> ar_round l < ROUNDS \<Longrightarrow> ar_held l = []"
  by (simp add: ar_winv_def ar_held_def)

lemma held_bound: "ar_winv l \<Longrightarrow> length (ar_held l) \<le> 16"
  by (auto simp: ar_held_def ar_winv_def intro: order.trans [OF length_filter_le])

lemma held_bytes: "ar_winv l \<Longrightarrow> sum_list (map snd (ar_held l)) \<le> 6016"
proof -
  assume w: "ar_winv l"
  let ?js = "if ar_freeing l then [ar_i l..<16] else [0..<ar_i l]"
  have "sum_list (map snd (filter P xs)) \<le> sum_list (map snd xs)" for P and xs :: "(nat \<times> nat) list"
    by (induction xs) auto
  then have "sum_list (map snd (ar_held l)) \<le> sum_list (map snd (map (\<lambda>j. (ar_buf l ! j, 256 + j * 16)) ?js))"
    unfolding ar_held_def .
  also have "\<dots> = sum_list (map (\<lambda>j. 256 + j * 16) ?js)" by (simp add: o_def)
  also have "\<dots> = (\<Sum>j \<in> set ?js. 256 + j * 16)" by (subst sum_list_distinct_conv_sum_set) auto
  also have "\<dots> \<le> (\<Sum>j < 16. 256 + j * 16)" by (rule sum_mono2) (use w in \<open>auto simp: ar_winv_def\<close>)
  also have "\<dots> = 6016" by (simp add: lessThan_nat_numeral)
  finally show ?thesis .
qed

text \<open>A sum over the threads is bounded when each thread's part is, and read off by a function that adds up.\<close>

lemma image_mset_lessThan: "image_mset g (\<Sum>i < (n :: nat). F i) = (\<Sum>i < n. image_mset g (F i))"
  by (induction n) auto

lemma sum_mset_lessThan: "sum_mset (\<Sum>i < (n :: nat). F i) = (\<Sum>i < n. sum_mset (F i))"
  by (induction n) auto

lemma over_crew_bound:
  assumes "mset h = over_crew (\<lambda>_ l. mset (f l)) c" "\<And>i l. i < length c \<Longrightarrow> c ! i = Some l \<Longrightarrow> sum_list (map g (f l)) \<le> b"
  shows "sum_list (map g h) \<le> length c * (b :: nat)"
proof -
  have "sum_list (map g h) = sum_mset (image_mset g (mset h))" by (simp flip: sum_mset_sum_list)
  also have "\<dots> = (\<Sum>i < length c. sum_mset (image_mset g (case c ! i of None \<Rightarrow> {#} | Some l \<Rightarrow> mset (f l))))"
    unfolding assms(1) over_crew_def by (simp add: image_mset_lessThan sum_mset_lessThan)
  also have "\<dots> \<le> (\<Sum>i < length c. b)"
    by (rule sum_mono) (use assms(2) in \<open>auto simp: sum_mset_sum_list split: option.split simp flip: mset_map\<close>)
  finally show ?thesis by simp
qed

text \<open>C22. The threads that allocate: at every moment of every run, also when malloc fails, the live blocks have different
  addresses, none of them null, and there are at most 128 of them and 48128 bytes together (8 threads with 16 blocks of 256 to 496 bytes); no run frees
  an address that is not live, every run ends, and then no block is left.\<close>

theorem arenas_blocks_bounded:
  assumes "team_reaches (arena_app (\<lambda>_. True)) [] s"
  shows "ends (arena_app (\<lambda>_. True)) s \<and> blocks_ok (store s) \<and> length (store s) \<le> 128 \<and>
    sum_list (map snd (store s)) \<le> 48128 \<and> (mpc s = Returned \<longrightarrow> store s = [])"
proof -
  have e: "ends (arena_app (\<lambda>_. True)) s" by (rule arenas.reached_ends [OF assms])
  consider "mpc s = Before" | "mpc s = Returned" | "mpc s \<noteq> Before" "mpc s \<noteq> Returned" by blast
  then show ?thesis
  proof cases
    case 1
    then have "store s = []" using arenas.reached_fine [OF assms] by (simp add: arenas.fine_def)
    then show ?thesis using e 1 by (simp add: blocks_ok_def)
  next
    case 2
    have c: "length (crew s) = 8" "\<And>i. i < 8 \<Longrightarrow> \<exists>l. crew s ! i = Some l \<and> ar_winv l \<and> \<not> ar_round l < ROUNDS"
      using arenas.returned(2,3) [OF assms 2] by (simp_all add: arena_app_def N_THREADS_def)
    then have "\<And>i. i < 8 \<Longrightarrow> \<exists>l. crew s ! i = Some l \<and> ar_held l = []" using ar_held_over by blast
    then have "(case crew s ! i of None \<Rightarrow> {#} | Some l \<Rightarrow> mset (ar_held l)) = {#}" if "i < 8" for i using that by fastforce
    with c(1) have "over_crew (\<lambda>_ l. mset (ar_held l)) (crew s) = {#}" unfolding over_crew_def by (intro sum.neutral) auto
    then show ?thesis using e arenas.returned(1) [OF assms 2] by (auto simp: arena_app_def blocks_ok_def)
  next
    case 3
    note r = arenas.running [OF assms 3]
    have n: "length (crew s) \<le> 8" using r(3) by (simp add: arena_app_def N_THREADS_def)
    have w: "ar_winv l" if "i < length (crew s)" "crew s ! i = Some l" for i l
      using r(4) [OF that(1)] that(2) by auto
    have "sum_list (map (\<lambda>_. 1) (store s)) \<le> length (crew s) * 16"
      by (rule over_crew_bound [OF r(2)]) (use held_bound w in \<open>simp add: sum_list_triv\<close>)
    moreover have "sum_list (map snd (store s)) \<le> length (crew s) * 6016"
      by (rule over_crew_bound [OF r(2)]) (use held_bytes w in auto)
    ultimately show ?thesis using n r(1) 3 e by (simp add: sum_list_triv)
  qed
qed

theorem arenas_blocks_bounded_witness:
  "\<exists>s. team_reaches (arena_app (\<lambda>_. True)) [] s \<and> mpc s = Returned \<and> store s = []"
proof -
  obtain s where "team_reaches (arena_app (\<lambda>_. True)) [] s" "mpc s = Returned" using arenas.can_return by blast
  with arenas_blocks_bounded [OF this(1)] show ?thesis by blast
qed

section \<open>01_pthread_create.c\<close>

text \<open>Where the stacks are is the library's choice: addr, stk and sz by the number of the thread.  The worker
  asks for its attributes, for the stack in them, destroys them, and prints.\<close>

record place =
  tid_of :: "nat \<Rightarrow> int"
  local_of :: "nat \<Rightarrow> nat"
  stk_of :: "nat \<Rightarrow> nat"
  sz_of :: "nat \<Rightarrow> nat"

definition create_line :: "place \<Rightarrow> nat \<Rightarrow> event" where
  "create_line pl k = Out ''thread #%ld tid=%ld &local=%p stack=[%p..%p) (%zu KiB)''
     [I (int k), I (tid_of pl k), I (int (local_of pl k)), I (int (stk_of pl k)), I (int (add64 (stk_of pl k) (sz_of pl k))),
      I (int (sz_of pl k div 1024))]"

datatype create_pc = C_Getattr | C_Getstack | C_Destroy | C_Print | C_Over

inductive create_work :: "place \<Rightarrow> nat \<Rightarrow> create_pc \<times> event list \<Rightarrow> create_pc \<times> event list \<Rightarrow> bool" for pl k where
  "create_work pl k (C_Getattr, g) (C_Getstack, g)"
| "create_work pl k (C_Getstack, g) (C_Destroy, g)"
| "create_work pl k (C_Destroy, g) (C_Print, g)"
| "create_work pl k (C_Print, g) (C_Over, g @ [create_line pl k])"

definition create_app :: "(nat \<Rightarrow> bool) \<Rightarrow> place \<Rightarrow> int \<Rightarrow> nat \<Rightarrow> (create_pc, event list) app" where
  "create_app ok pl tid loc =
     \<lparr>workers = 3, create_ok = ok, init = (\<lambda>k. C_Getattr), ended = (\<lambda>l. l = C_Over), work = create_work pl,
      before = (\<lambda>g. Some (g @ [Out ''main      tid=%ld &local=%p'' [I tid, I (int loc)]])), after = (\<lambda>c. Some)\<rparr>"

fun create_rank :: "create_pc \<Rightarrow> nat" where
  "create_rank C_Getattr = 4"
| "create_rank C_Getstack = 3"
| "create_rank C_Destroy = 2"
| "create_rank C_Print = 1"
| "create_rank C_Over = 0"

interpretation created: fork_join "create_app (\<lambda>_. True) pl tid loc" "[]"
  "\<lambda>g. g \<noteq> [] \<and> hd g = Out ''main      tid=%ld &local=%p'' [I tid, I (int loc)]" "\<lambda>_ _. True"
  "\<lambda>k l. if l = C_Over then {#create_line pl k#} else {#}" "\<lambda>g. mset (tl g)" create_rank 4 for pl tid loc
proof
  let ?app = "create_app (\<lambda>_. True) pl tid loc"
  fix i l and g :: "event list"
  show "\<not> ended ?app l \<Longrightarrow> \<exists>x. work ?app i (l, g) x"
    by (cases l) (auto simp: create_app_def intro: create_work.intros)
qed (auto simp: create_app_def elim!: create_work.cases)

lemma create_prints_all:
  assumes "team_reaches (create_app (\<lambda>_. True) pl tid loc) [] s"
  shows "ends (create_app (\<lambda>_. True) pl tid loc) s \<and> (mpc s = Returned \<longrightarrow> (\<exists>ws.
    store s = Out ''main      tid=%ld &local=%p'' [I tid, I (int loc)] # ws \<and>
    mset ws = {#create_line pl 0, create_line pl 1, create_line pl 2#}))"
proof (intro conjI impI)
  show "ends (create_app (\<lambda>_. True) pl tid loc) s" by (rule created.reached_ends [OF assms])
  assume m: "mpc s = Returned"
  have "length (crew s) = 3" "\<And>i. i < 3 \<Longrightarrow> \<exists>l. crew s ! i = Some l \<and> l = C_Over"
    using created.returned(2,3) [OF assms m] by (auto simp: create_app_def)
  then obtain a b d where "crew s = [Some a, Some b, Some d]" "a = C_Over" "b = C_Over" "d = C_Over" by (rule crew_three)
  then show "\<exists>ws. store s = Out ''main      tid=%ld &local=%p'' [I tid, I (int loc)] # ws \<and>
      mset ws = {#create_line pl 0, create_line pl 1, create_line pl 2#}"
    using created.returned(1) [OF assms m] by (cases "store s") (auto simp: create_app_def over_three)
qed

section \<open>07_pthread_stack.c of chapter 3\<close>

text \<open>main joins each thread before it goes on, so the threads run one after the other.  loc is the address of
  the local variable.\<close>

definition self_line :: "string \<Rightarrow> nat \<Rightarrow> world \<Rightarrow> world" where
  "self_line fmt v w = (let (self, w) = sys ''pthread_self'' [] w in printf fmt [I self, I (int v)] w)"

definition stack_worker :: "nat \<Rightarrow> world \<Rightarrow> world" where
  "stack_worker loc w =
     (let w = call ''pthread_getattr_np'' [] w;
          stkaddr = nat (field ''pthread_attr_getstack'' ''stackaddr'' w);
          stksize = nat (field ''pthread_attr_getstack'' ''stacksize'' w);
          w = call ''pthread_attr_getstack'' [] w;
          guard = nat (field ''pthread_attr_getguardsize'' ''guardsize'' w);
          w = call ''pthread_attr_getguardsize'' [] w;
          w = self_line ''[thread %lu] &local       = %p'' loc w;
          w = self_line ''[thread %lu] stack base   = %p'' stkaddr w;
          w = self_line ''[thread %lu] stack top    = %p'' (add64 stkaddr stksize) w;
          w = self_line ''[thread %lu] stack size   = %zu KiB'' (stksize div 1024) w;
          w = self_line ''[thread %lu] guard size   = %zu bytes'' guard w
      in call ''pthread_attr_destroy'' [] w)"

definition stack_thread :: "arg list \<Rightarrow> nat \<Rightarrow> world \<Rightarrow> world option" where
  "stack_thread attr loc w =
     (let (r, w) = sys ''pthread_create'' attr w
      in if r \<noteq> 0 then None else Some (call ''pthread_join'' [] (stack_worker loc w)))"

definition stack_main :: "nat \<Rightarrow> nat \<Rightarrow> nat \<Rightarrow> world \<Rightarrow> (int \<times> world) option" where
  "stack_main l1 l2 lmain w = do {
     w \<leftarrow> stack_thread [] l1 w;
     let w = call ''pthread_attr_init'' [] w;
     let w = call ''pthread_attr_setstacksize'' [I (256 * 1024)] w;
     let (pg, w) = sys ''sysconf'' [S ''_SC_PAGESIZE''] w;
     let w = call ''pthread_attr_setguardsize'' [I (pg mod 2 ^ 64)] w;
     w \<leftarrow> stack_thread [S ''a''] l2 w;
     let w = call ''pthread_attr_destroy'' [] w;
     Some (0, printf ''[ main ] &local         = %p'' [I (int lmain)] w)}"

text \<open>Each thread prints five lines; the top of its stack is the base plus the size, and the line with the
  size is that size in KiB.\<close>

lemma self_line_printed:
  "printed (self_line fmt v w) = printed w @ [(fmt, [I (os w (log w @ [Sys ''pthread_self'' []])), I (int v)])]"
  by (simp add: self_line_def world_simps)

lemma stack_worker_lines:
  "\<exists>base sz guard i1 i2 i3 i4 i5. printed (stack_worker loc w) = printed w @
    [(''[thread %lu] &local       = %p'', [I i1, I (int loc)]),
     (''[thread %lu] stack base   = %p'', [I i2, I (int base)]),
     (''[thread %lu] stack top    = %p'', [I i3, I (int (add64 base sz))]),
     (''[thread %lu] stack size   = %zu KiB'', [I i4, I (int (sz div 1024))]),
     (''[thread %lu] guard size   = %zu bytes'', [I i5, I (int guard)])]"
proof -
  have c: "printed (call n as w) = printed w" for n as w by (simp add: call_simp printed_def)
  show ?thesis unfolding stack_worker_def Let_def c
    by (simp only: self_line_printed c append.assoc append.simps) (intro exI, rule refl)
qed

end
