(* ===== verification/Sockets.thy ===== *)
theory Sockets
  imports Cstring Transition "HOL-Library.Sublist"
begin

text \<open>
  Parent and child over a socket pair and over a named pipe: src/10_ipc_memory/02_socketpair.c and 03_fifo.c.

  \<^item> The state holds the bytes on their way in each direction, which process holds which end, where each process
    is, what has been written to the standard output, and the stdio buffer of the parent.
  \<^item> A step is one call of one process.  read takes what is there, up to 64 bytes, blocks while nothing is there and
    somebody holds the other end, and gives 0 bytes when nobody does; a write that nobody can read is SIGPIPE.
  \<^item> On a terminal printf writes at once.  Otherwise the line stays in the buffer until the process returns from
    main; _exit, which both children end with, drops it.
\<close>

section \<open>02_socketpair.c\<close>

datatype sp_parent = P_Close1 | P_Write | P_Read | P_Print string | P_Close0 | P_Wait | P_Exit int | P_Sigpipe

datatype sp_child = C_Close0 | C_Read | C_Print string | C_Write | C_Close1 | C_Exit | C_Gone

record sp_run =
  at0 :: string
  at1 :: string
  parent0 :: bool
  parent1 :: bool
  child0 :: bool
  child1 :: bool
  sp_parent :: sp_parent
  sp_child :: sp_child
  sp_out :: "string list"
  sp_buf :: "string list"

definition ping :: string where "ping = ''ping'' @ [CHR 0x0A]"
definition pong :: string where "pong = ''pong'' @ [CHR 0x0A]"
definition child_says :: "string \<Rightarrow> string" where "child_says t = ''[child] got '' @ t"
definition parent_says :: "string \<Rightarrow> string" where "parent_says t = ''[parent] got '' @ t"

text \<open>After socketpair and fork.  The result of fork is not compared with -1: then there is no child.\<close>

definition sp_start :: "bool \<Rightarrow> bool \<Rightarrow> sp_run" where
  "sp_start pair_ok fork_ok = \<lparr>at0 = [], at1 = [], parent0 = pair_ok, parent1 = pair_ok,
     child0 = pair_ok \<and> fork_ok, child1 = pair_ok \<and> fork_ok, sp_parent = (if pair_ok then P_Close1 else P_Exit 1),
     sp_child = (if pair_ok \<and> fork_ok then C_Close0 else C_Gone), sp_out = [], sp_buf = []\<rparr>"

inductive sp_step :: "bool \<Rightarrow> sp_run \<Rightarrow> sp_run \<Rightarrow> bool" for tty where
  sp_c_close0: "sp_child s = C_Close0 \<Longrightarrow> sp_step tty s (s\<lparr>child0 := False, sp_child := C_Read\<rparr>)"
| sp_c_read: "sp_child s = C_Read \<Longrightarrow> at1 s \<noteq> [] \<Longrightarrow>
    sp_step tty s (s\<lparr>at1 := drop 64 (at1 s), sp_child := C_Print (take 64 (at1 s))\<rparr>)"
| sp_c_eof: "sp_child s = C_Read \<Longrightarrow> at1 s = [] \<Longrightarrow> \<not> parent0 s \<and> \<not> child0 s \<Longrightarrow>
    sp_step tty s (s\<lparr>sp_child := C_Print []\<rparr>)"
| sp_c_print: "sp_child s = C_Print t \<Longrightarrow>
    sp_step tty s (s\<lparr>sp_child := C_Write, sp_out := sp_out s @ (if tty then [child_says t] else [])\<rparr>)"
| sp_c_write: "sp_child s = C_Write \<Longrightarrow> parent0 s \<or> child0 s \<Longrightarrow>
    sp_step tty s (s\<lparr>at0 := at0 s @ pong, sp_child := C_Close1\<rparr>)"
| sp_c_killed: "sp_child s = C_Write \<Longrightarrow> \<not> parent0 s \<and> \<not> child0 s \<Longrightarrow>
    sp_step tty s (s\<lparr>child1 := False, sp_child := C_Gone\<rparr>)"
| sp_c_close1: "sp_child s = C_Close1 \<Longrightarrow> sp_step tty s (s\<lparr>child1 := False, sp_child := C_Exit\<rparr>)"
| sp_c_exit: "sp_child s = C_Exit \<Longrightarrow> sp_step tty s (s\<lparr>sp_child := C_Gone\<rparr>)"
| sp_p_close1: "sp_parent s = P_Close1 \<Longrightarrow> sp_step tty s (s\<lparr>parent1 := False, sp_parent := P_Write\<rparr>)"
| sp_p_write: "sp_parent s = P_Write \<Longrightarrow> parent1 s \<or> child1 s \<Longrightarrow>
    sp_step tty s (s\<lparr>at1 := at1 s @ ping, sp_parent := P_Read\<rparr>)"
| sp_p_killed: "sp_parent s = P_Write \<Longrightarrow> \<not> parent1 s \<and> \<not> child1 s \<Longrightarrow>
    sp_step tty s (s\<lparr>parent0 := False, sp_parent := P_Sigpipe\<rparr>)"
| sp_p_read: "sp_parent s = P_Read \<Longrightarrow> at0 s \<noteq> [] \<Longrightarrow>
    sp_step tty s (s\<lparr>at0 := drop 64 (at0 s), sp_parent := P_Print (take 64 (at0 s))\<rparr>)"
| sp_p_eof: "sp_parent s = P_Read \<Longrightarrow> at0 s = [] \<Longrightarrow> \<not> parent1 s \<and> \<not> child1 s \<Longrightarrow>
    sp_step tty s (s\<lparr>sp_parent := P_Print []\<rparr>)"
| sp_p_print: "sp_parent s = P_Print t \<Longrightarrow>
    sp_step tty s (if tty then s\<lparr>sp_parent := P_Close0, sp_out := sp_out s @ [parent_says t]\<rparr>
                   else s\<lparr>sp_parent := P_Close0, sp_buf := sp_buf s @ [parent_says t]\<rparr>)"
| sp_p_close0: "sp_parent s = P_Close0 \<Longrightarrow> sp_step tty s (s\<lparr>parent0 := False, sp_parent := P_Wait\<rparr>)"
| sp_p_wait: "sp_parent s = P_Wait \<Longrightarrow> sp_child s = C_Gone \<Longrightarrow>
    sp_step tty s (s\<lparr>sp_parent := P_Exit 0, sp_out := sp_out s @ sp_buf s, sp_buf := []\<rparr>)"

abbreviation sp_reaches :: "bool \<Rightarrow> bool \<Rightarrow> bool \<Rightarrow> sp_run \<Rightarrow> bool" where
  "sp_reaches tty pair_ok fork_ok s \<equiv> (sp_step tty)\<^sup>*\<^sup>* (sp_start pair_ok fork_ok) s"

fun sp_parent_rank :: "sp_parent \<Rightarrow> nat" where
  "sp_parent_rank P_Close1 = 6"
| "sp_parent_rank P_Write = 5"
| "sp_parent_rank P_Read = 4"
| "sp_parent_rank (P_Print t) = 3"
| "sp_parent_rank P_Close0 = 2"
| "sp_parent_rank P_Wait = 1"
| "sp_parent_rank _ = 0"

fun sp_child_rank :: "sp_child \<Rightarrow> nat" where
  "sp_child_rank C_Close0 = 6"
| "sp_child_rank C_Read = 5"
| "sp_child_rank (C_Print t) = 4"
| "sp_child_rank C_Write = 3"
| "sp_child_rank C_Close1 = 2"
| "sp_child_rank C_Exit = 1"
| "sp_child_rank C_Gone = 0"

text \<open>How far the conversation has come: what the parent has sent and the child has answered.\<close>

definition sp_inv :: "bool \<Rightarrow> sp_run \<Rightarrow> bool" where
  "sp_inv tty s \<longleftrightarrow>
     (parent0 s \<longleftrightarrow> 1 < sp_parent_rank (sp_parent s)) \<and> (parent1 s \<longleftrightarrow> sp_parent s = P_Close1) \<and>
     (child0 s \<longleftrightarrow> sp_child s = C_Close0) \<and> (child1 s \<longleftrightarrow> 1 < sp_child_rank (sp_child s)) \<and>
     sp_parent s \<noteq> P_Sigpipe \<and> (\<forall>n. sp_parent s = P_Exit n \<longrightarrow> n = 0) \<and>
     (\<forall>t. sp_parent s = P_Print t \<longrightarrow> t = pong) \<and> (\<forall>t. sp_child s = C_Print t \<longrightarrow> t = ping) \<and>
     at1 s = (if sp_parent_rank (sp_parent s) < 5 \<and> 4 < sp_child_rank (sp_child s) then ping else []) \<and>
     at0 s = (if sp_child_rank (sp_child s) < 3 \<and> 3 < sp_parent_rank (sp_parent s) then pong else []) \<and>
     (sp_parent_rank (sp_parent s) < 4 \<longrightarrow> sp_child_rank (sp_child s) < 3) \<and>
     (4 < sp_parent_rank (sp_parent s) \<longrightarrow> 4 < sp_child_rank (sp_child s)) \<and>
     (sp_parent_rank (sp_parent s) = 0 \<longrightarrow> sp_child s = C_Gone) \<and>
     sp_out s = (if tty \<and> sp_child_rank (sp_child s) < 4 then [child_says ping] else [])
       @ (if sp_parent_rank (sp_parent s) < (if tty then 3 else 1) then [parent_says pong] else []) \<and>
     sp_buf s = (if \<not> tty \<and> sp_parent_rank (sp_parent s) \<in> {1, 2} then [parent_says pong] else [])"

lemma sp_lengths [simp]: "length ping = 5" "length pong = 5" "ping \<noteq> []" "pong \<noteq> []"
    "[] \<noteq> ping" "[] \<noteq> pong"
  by (simp_all add: ping_def pong_def)

lemma sp_inv_start: "sp_inv tty (sp_start True True)"
  by (simp add: sp_inv_def sp_start_def)

lemma sp_inv_step: "sp_step tty s s' \<Longrightarrow> sp_inv tty s \<Longrightarrow> sp_inv tty s'"
  by (induction rule: sp_step.induct) (auto simp: sp_inv_def split: if_splits)

definition sp_rank :: "sp_run \<Rightarrow> nat" where
  "sp_rank s = sp_parent_rank (sp_parent s) + sp_child_rank (sp_child s)"

lemma sp_rank_step: "sp_step tty s s' \<Longrightarrow> sp_rank s' < sp_rank s"
  by (induction rule: sp_step.induct) (auto simp: sp_rank_def)

lemma sp_child_moves:
  assumes "sp_inv tty s" "sp_child s \<noteq> C_Gone" "sp_child s = C_Read \<Longrightarrow> at1 s \<noteq> []"
  shows "\<exists>s'. sp_step tty s s'"
  using assms sp_c_write [of s tty] sp_c_killed [of s tty]
  by (cases "sp_child s") (auto intro: sp_c_close0 sp_c_read sp_c_print sp_c_close1 sp_c_exit)

lemma sp_progress:
  assumes inv: "sp_inv tty s" and n: "sp_parent s \<noteq> P_Exit 0"
  shows "\<exists>s'. sp_step tty s s'"
proof (cases "sp_parent s")
  case P_Write
  then show ?thesis using sp_p_write [of s tty] sp_p_killed [of s tty] by blast
next
  case P_Read
  then show ?thesis using sp_p_read [of s tty] sp_child_moves [OF inv] inv
    by (cases "at0 s = []"; cases "sp_child s = C_Gone") (auto simp: sp_inv_def split: if_splits)
next
  case P_Wait
  then show ?thesis using sp_p_wait [of s tty] sp_child_moves [OF inv] inv
    by (cases "sp_child s = C_Gone") (auto simp: sp_inv_def)
qed (use inv n in \<open>auto simp: sp_inv_def intro: sp_p_close1 sp_p_print sp_p_close0\<close>)

interpretation sp: must_finish "sp_step tty" "sp_inv tty" "\<lambda>s. sp_parent s = P_Exit 0" sp_rank for tty
proof
  fix s s' :: sp_run
  show "sp_inv tty s \<Longrightarrow> sp_step tty s s' \<Longrightarrow> sp_inv tty s'" using sp_inv_step by blast
  show "sp_inv tty s \<Longrightarrow> sp_parent s \<noteq> P_Exit 0 \<Longrightarrow> \<exists>s'. sp_step tty s s' \<and> sp_rank s' < sp_rank s"
    using sp_progress sp_rank_step by blast
  show "sp_inv tty s \<Longrightarrow> sp_step tty s s' \<Longrightarrow> sp_rank s' < sp_rank s" by (rule sp_rank_step)
  show "sp_inv tty s \<Longrightarrow> sp_parent s = P_Exit 0 \<Longrightarrow> \<not> sp_step tty s s'"
    by (auto simp: sp_inv_def elim!: sp_step.cases)
qed

text \<open>C32. Ping and pong: when fork succeeds, every run ends with the normal exit of the parent, never in SIGPIPE or a
  deadlock.  On a terminal the line of the child always comes before the line of the parent; into a file only the
  line of the parent appears, since the child drops its buffer.  At every moment the output is a prefix of that.\<close>

theorem socketpair_conversation:
  assumes "sp_reaches tty True True s"
  shows "((\<nexists>s'. sp_step tty s s') \<longleftrightarrow> sp_parent s = P_Exit 0) \<and>
    (\<forall>f. f 0 = s \<longrightarrow> (\<exists>i. \<not> sp_step tty (f i) (f (Suc i)))) \<and>
    prefix (sp_out s) ((if tty then [''[child] got ping'' @ [CHR 0x0A]] else []) @ [''[parent] got pong'' @ [CHR 0x0A]]) \<and>
    (sp_parent s = P_Exit 0 \<longrightarrow>
      sp_out s = (if tty then [''[child] got ping'' @ [CHR 0x0A]] else []) @ [''[parent] got pong'' @ [CHR 0x0A]])"
proof -
  have inv: "sp_inv tty s" by (rule sp.keeps_run [OF assms sp_inv_start])
  have t: "child_says ping = ''[child] got ping'' @ [CHR 0x0A]" "parent_says pong = ''[parent] got pong'' @ [CHR 0x0A]"
    by (simp_all add: child_says_def parent_says_def ping_def pong_def)
  show ?thesis using inv sp.stops_iff [OF inv] sp.no_infinite_run inv unfolding t [symmetric]
    by (auto simp: sp_inv_def)
qed

theorem socketpair_conversation_witness:
  "\<exists>s. sp_reaches False True True s \<and> sp_out s = [''[parent] got pong'' @ [CHR 0x0A]]"
proof -
  obtain s where s: "sp_reaches False True True s" "sp_parent s = P_Exit 0" using sp.completes [OF sp_inv_start] by blast
  from socketpair_conversation [OF s(1)] s show ?thesis by auto
qed

text \<open>When fork fails the parent closes the only other end, and its first write kills it.\<close>

lemma socketpair_fork_unchecked: "\<exists>s. sp_reaches tty True False s \<and> sp_parent s = P_Sigpipe"
proof -
  let ?a = "sp_start True False" and ?b = "(sp_start True False)\<lparr>parent1 := False, sp_parent := P_Write\<rparr>"
  have "sp_step tty ?a ?b" by (rule sp_p_close1) (simp add: sp_start_def)
  moreover have "sp_step tty ?b (?b\<lparr>parent0 := False, sp_parent := P_Sigpipe\<rparr>)"
    by (rule sp_p_killed) (simp_all add: sp_start_def)
  ultimately show ?thesis by (intro exI [where x = "?b\<lparr>parent0 := False, sp_parent := P_Sigpipe\<rparr>"]) auto
qed

section \<open>03_fifo.c\<close>

text \<open>An open of one end returns once the other end has been opened; the two flags say which end has.\<close>

datatype ff_parent = F_Open | F_Opening | F_Write | F_Close | F_Wait | F_Unlink | F_Exit int

datatype ff_child = G_Open | G_Opening | G_Read | G_Write string | G_Close | G_Exit | G_Gone

record ff_run =
  ff_path :: bool
  ff_data :: string
  opened_w :: bool
  opened_r :: bool
  writers :: bool
  readers :: bool
  ff_parent :: ff_parent
  ff_child :: ff_child
  ff_out :: string

definition hello_fifo :: string where "hello_fifo = ''hello fifo'' @ [CHR 0x0A]"

definition ff_start :: "bool \<Rightarrow> bool \<Rightarrow> ff_run" where
  "ff_start fifo_ok fork_ok = \<lparr>ff_path = fifo_ok, ff_data = [], opened_w = False, opened_r = False, writers = False,
     readers = False, ff_parent = (if fifo_ok then F_Open else F_Exit 1),
     ff_child = (if fifo_ok \<and> fork_ok then G_Open else G_Gone), ff_out = []\<rparr>"

inductive ff_step :: "ff_run \<Rightarrow> ff_run \<Rightarrow> bool" where
  ff_c_open: "ff_child s = G_Open \<Longrightarrow> ff_step s (s\<lparr>opened_r := True, readers := True, ff_child := G_Opening\<rparr>)"
| ff_c_opened: "ff_child s = G_Opening \<Longrightarrow> opened_w s \<Longrightarrow> ff_step s (s\<lparr>ff_child := G_Read\<rparr>)"
| ff_c_read: "ff_child s = G_Read \<Longrightarrow> ff_data s \<noteq> [] \<Longrightarrow>
    ff_step s (s\<lparr>ff_data := drop 64 (ff_data s), ff_child := G_Write (take 64 (ff_data s))\<rparr>)"
| ff_c_eof: "ff_child s = G_Read \<Longrightarrow> ff_data s = [] \<Longrightarrow> \<not> writers s \<Longrightarrow> ff_step s (s\<lparr>ff_child := G_Write []\<rparr>)"
| ff_c_write: "ff_child s = G_Write t \<Longrightarrow> ff_step s (s\<lparr>ff_out := ff_out s @ t, ff_child := G_Close\<rparr>)"
| ff_c_close: "ff_child s = G_Close \<Longrightarrow> ff_step s (s\<lparr>readers := False, ff_child := G_Exit\<rparr>)"
| ff_c_exit: "ff_child s = G_Exit \<Longrightarrow> ff_step s (s\<lparr>ff_child := G_Gone\<rparr>)"
| ff_p_open: "ff_parent s = F_Open \<Longrightarrow> ff_step s (s\<lparr>opened_w := True, writers := True, ff_parent := F_Opening\<rparr>)"
| ff_p_opened: "ff_parent s = F_Opening \<Longrightarrow> opened_r s \<Longrightarrow> ff_step s (s\<lparr>ff_parent := F_Write\<rparr>)"
| ff_p_write: "ff_parent s = F_Write \<Longrightarrow> readers s \<Longrightarrow>
    ff_step s (s\<lparr>ff_data := ff_data s @ hello_fifo, ff_parent := F_Close\<rparr>)"
| ff_p_killed: "ff_parent s = F_Write \<Longrightarrow> \<not> readers s \<Longrightarrow> ff_step s (s\<lparr>writers := False, ff_parent := F_Exit (-13)\<rparr>)"
| ff_p_close: "ff_parent s = F_Close \<Longrightarrow> ff_step s (s\<lparr>writers := False, ff_parent := F_Wait\<rparr>)"
| ff_p_wait: "ff_parent s = F_Wait \<Longrightarrow> ff_child s = G_Gone \<Longrightarrow> ff_step s (s\<lparr>ff_parent := F_Unlink\<rparr>)"
| ff_p_unlink: "ff_parent s = F_Unlink \<Longrightarrow> ff_step s (s\<lparr>ff_path := False, ff_parent := F_Exit 0\<rparr>)"

abbreviation ff_reaches :: "bool \<Rightarrow> bool \<Rightarrow> ff_run \<Rightarrow> bool" where
  "ff_reaches fifo_ok fork_ok s \<equiv> ff_step\<^sup>*\<^sup>* (ff_start fifo_ok fork_ok) s"

fun ff_parent_rank :: "ff_parent \<Rightarrow> nat" where
  "ff_parent_rank F_Open = 6"
| "ff_parent_rank F_Opening = 5"
| "ff_parent_rank F_Write = 4"
| "ff_parent_rank F_Close = 3"
| "ff_parent_rank F_Wait = 2"
| "ff_parent_rank F_Unlink = 1"
| "ff_parent_rank (F_Exit n) = 0"

fun ff_child_rank :: "ff_child \<Rightarrow> nat" where
  "ff_child_rank G_Open = 6"
| "ff_child_rank G_Opening = 5"
| "ff_child_rank G_Read = 4"
| "ff_child_rank (G_Write t) = 3"
| "ff_child_rank G_Close = 2"
| "ff_child_rank G_Exit = 1"
| "ff_child_rank G_Gone = 0"

definition ff_rank :: "ff_run \<Rightarrow> nat" where
  "ff_rank s = ff_parent_rank (ff_parent s) + ff_child_rank (ff_child s)"

definition ff_inv :: "ff_run \<Rightarrow> bool" where
  "ff_inv s \<longleftrightarrow>
     (ff_path s \<longleftrightarrow> 0 < ff_parent_rank (ff_parent s)) \<and> (\<forall>n. ff_parent s = F_Exit n \<longrightarrow> n = 0) \<and>
     (opened_w s \<longleftrightarrow> ff_parent_rank (ff_parent s) < 6) \<and> (opened_r s \<longleftrightarrow> ff_child_rank (ff_child s) < 6) \<and>
     (writers s \<longleftrightarrow> 2 < ff_parent_rank (ff_parent s) \<and> ff_parent_rank (ff_parent s) < 6) \<and>
     (readers s \<longleftrightarrow> 1 < ff_child_rank (ff_child s) \<and> ff_child_rank (ff_child s) < 6) \<and>
     (ff_parent_rank (ff_parent s) < 5 \<longrightarrow> ff_child_rank (ff_child s) < 6) \<and>
     (ff_child_rank (ff_child s) < 5 \<longrightarrow> ff_parent_rank (ff_parent s) < 6) \<and>
     (ff_parent_rank (ff_parent s) < 2 \<longrightarrow> ff_child s = G_Gone) \<and>
     (\<forall>t. ff_child s = G_Write t \<longrightarrow> t = hello_fifo) \<and>
     (ff_child_rank (ff_child s) < 4 \<longrightarrow> ff_parent_rank (ff_parent s) < 4) \<and>
     ff_data s = (if ff_parent_rank (ff_parent s) < 4 \<and> 3 < ff_child_rank (ff_child s) then hello_fifo else []) \<and>
     ff_out s = (if ff_child_rank (ff_child s) < 3 then hello_fifo else [])"

lemma hello_length [simp]: "length hello_fifo = 11" "hello_fifo \<noteq> []" "[] \<noteq> hello_fifo"
  by (simp_all add: hello_fifo_def)

lemma ff_inv_start: "ff_inv (ff_start True True)"
  by (simp add: ff_inv_def ff_start_def)

lemma ff_inv_step: "ff_step s s' \<Longrightarrow> ff_inv s \<Longrightarrow> ff_inv s'"
  by (induction rule: ff_step.induct) (auto simp: ff_inv_def split: if_splits)

lemma ff_rank_step: "ff_step s s' \<Longrightarrow> ff_rank s' < ff_rank s"
  by (induction rule: ff_step.induct) (auto simp: ff_rank_def)

lemma ff_progress:
  assumes inv: "ff_inv s" and n: "ff_parent s \<noteq> F_Exit 0"
  shows "\<exists>s'. ff_step s s'"
proof (cases "ff_parent s")
  case F_Opening
  then show ?thesis using inv ff_p_opened [of s] ff_c_open [of s] by (cases "ff_child s") (auto simp: ff_inv_def)
next
  case F_Write
  then show ?thesis using ff_p_write ff_p_killed by blast
next
  case F_Wait
  then show ?thesis using inv ff_c_read [of s]
    by (cases "ff_child s") (auto simp: ff_inv_def intro: ff_p_wait ff_c_opened ff_c_write ff_c_close ff_c_exit)
qed (use inv n in \<open>auto simp: ff_inv_def intro: ff_p_open ff_p_close ff_p_unlink\<close>)

interpretation ff: must_finish ff_step ff_inv "\<lambda>s. ff_parent s = F_Exit 0" ff_rank
proof
  fix s s' :: ff_run
  show "ff_inv s \<Longrightarrow> ff_step s s' \<Longrightarrow> ff_inv s'" using ff_inv_step by blast
  show "ff_inv s \<Longrightarrow> ff_parent s \<noteq> F_Exit 0 \<Longrightarrow> \<exists>s'. ff_step s s' \<and> ff_rank s' < ff_rank s"
    using ff_progress ff_rank_step by blast
  show "ff_inv s \<Longrightarrow> ff_step s s' \<Longrightarrow> ff_rank s' < ff_rank s" by (rule ff_rank_step)
  show "ff_inv s \<Longrightarrow> ff_parent s = F_Exit 0 \<Longrightarrow> \<not> ff_step s s'" by (auto simp: ff_inv_def elim!: ff_step.cases)
qed

text \<open>The named pipe: when fork succeeds, every run ends, with the line written and the path removed.\<close>

theorem fifo_delivers:
  assumes "ff_reaches True True s"
  shows "((\<nexists>s'. ff_step s s') \<longleftrightarrow> ff_parent s = F_Exit 0) \<and>
    (\<forall>f. f 0 = s \<longrightarrow> (\<exists>i. \<not> ff_step (f i) (f (Suc i)))) \<and>
    (ff_parent s = F_Exit 0 \<longrightarrow> ff_out s = ''hello fifo'' @ [CHR 0x0A] \<and> \<not> ff_path s)"
proof -
  have inv: "ff_inv s" by (rule ff.keeps_run [OF assms ff_inv_start])
  show ?thesis using ff.stops_iff [OF inv] ff.no_infinite_run inv by (auto simp: ff_inv_def hello_fifo_def)
qed

theorem fifo_delivers_witness: "\<exists>s. ff_reaches True True s \<and> ff_out s = ''hello fifo'' @ [CHR 0x0A]"
proof -
  obtain s where "ff_reaches True True s" "ff_parent s = F_Exit 0" using ff.completes [OF ff_inv_start] by blast
  with fifo_delivers [OF this(1)] show ?thesis by blast
qed

text \<open>When fork fails, nobody opens the other end: the parent's open never returns.\<close>

lemma fifo_fork_unchecked:
  assumes "ff_reaches True False s"
  shows "ff_parent s = F_Open \<or> ff_parent s = F_Opening \<and> (\<nexists>s'. ff_step s s')"
proof -
  have "ff_child s = G_Gone \<and> \<not> opened_r s \<and> (ff_parent s = F_Open \<or> ff_parent s = F_Opening)" using assms
  proof (induction rule: rtranclp_induct)
    case (step s s')
    then show ?case by (auto elim!: ff_step.cases)
  qed (simp add: ff_start_def)
  then show ?thesis by (auto elim!: ff_step.cases)
qed


end
