(* ===== verification/Descriptors.thy ===== *)
theory Descriptors
  imports World Transition
begin

text \<open>
  A file descriptor handed from parent to child over a socket pair, src/10_ipc_memory/10_scm_rights.c, and the
  descriptors of a daemon, src/08_process_syscalls/07_daemonise.c.

  \<^item> The control message is its bytes: send_fd writes them, the kernel reads the number, looks it up in the sender's
    table, and writes the bytes the receiver gets with the number of the new descriptor; recv_fd reads those.
  \<^item> A table maps numbers to open file descriptions: 0 and 1 are the ends of the socket pair, 2 is /etc/hostname with
    its one offset.  An end is open while some table has it.
  \<^item> On a terminal printf writes at once, otherwise when the process returns from main; _exit drops the buffer.
\<close>

section \<open>Control messages\<close>

definition SOL_SOCKET :: nat where "SOL_SOCKET = 1"
definition SCM_RIGHTS :: nat where "SCM_RIGHTS = 1"
definition CMSG_HDR :: nat where "CMSG_HDR = 16"

definition int_bytes :: "int \<Rightarrow> u8 list" where
  "int_bytes n = le_bytes 4 (nat (n mod 2 ^ 32))"

definition int_of_bytes :: "u8 list \<Rightarrow> int" where
  "int_of_bytes bs = (let v = int (le_val bs) in if v < 2 ^ 31 then v else v - 2 ^ 32)"

text \<open>struct cmsghdr: the length, the level, the type, then the data; pad is what the compiler leaves in the last
  four bytes of CMSG_SPACE.\<close>

definition cmsg :: "int \<Rightarrow> u8 list \<Rightarrow> u8 list" where
  "cmsg fd pad = le_bytes 8 (CMSG_HDR + 4) @ le_bytes 4 SOL_SOCKET @ le_bytes 4 SCM_RIGHTS @ int_bytes fd @ pad"

definition cmsg_len :: "u8 list \<Rightarrow> nat" where "cmsg_len bs = le_val (take 8 bs)"
definition cmsg_level :: "u8 list \<Rightarrow> nat" where "cmsg_level bs = le_val (take 4 (drop 8 bs))"
definition cmsg_type :: "u8 list \<Rightarrow> nat" where "cmsg_type bs = le_val (take 4 (drop 12 bs))"
definition cmsg_data :: "u8 list \<Rightarrow> int" where "cmsg_data bs = int_of_bytes (take 4 (drop CMSG_HDR bs))"

text \<open>What the kernel takes from the control buffer of sendmsg.\<close>

definition passed_fd :: "u8 list \<Rightarrow> int option" where
  "passed_fd bs = (if CMSG_HDR \<le> length bs \<and> cmsg_len bs = CMSG_HDR + 4 \<and> cmsg_level bs = SOL_SOCKET \<and> cmsg_type bs = SCM_RIGHTS
     then Some (cmsg_data bs) else None)"

text \<open>recv_fd, given what recvmsg returned and the control bytes it received.\<close>

definition recv_fd :: "int \<Rightarrow> u8 list \<Rightarrow> int" where
  "recv_fd n bs =
     (if n \<le> 0 then -1
      else if length bs < CMSG_HDR \<or> cmsg_type bs \<noteq> SCM_RIGHTS then -1
      else cmsg_data bs)"

lemma le_val_small: "v < 256 ^ n \<Longrightarrow> le_val (le_bytes n v) = v"
  by (simp add: le_val_le_bytes)

lemma int_bytes_length [simp]: "length (int_bytes n) = 4"
  by (simp add: int_bytes_def)

lemma int_bytes_back: "- (2 ^ 31) \<le> n \<Longrightarrow> n < 2 ^ 31 \<Longrightarrow> int_of_bytes (int_bytes n) = n"
proof -
  assume n: "- (2 ^ 31) \<le> n" "n < 2 ^ 31"
  have "nat (n mod 2 ^ 32) < 256 ^ 4" by (simp add: nat_less_iff)
  then have "int (le_val (int_bytes n)) = n mod 2 ^ 32" by (simp add: int_bytes_def le_val_small)
  moreover have "n mod 2 ^ 32 = (if n < 0 then n + 2 ^ 32 else n)"
  proof (cases "n < 0")
    case True
    have "n mod 2 ^ 32 = (n + 2 ^ 32) mod 2 ^ 32" by simp
    also have "\<dots> = n + 2 ^ 32" by (rule mod_pos_pos_trivial) (use n True in auto)
    finally show ?thesis using True by simp
  next
    case False
    then show ?thesis using n by (simp add: mod_pos_pos_trivial)
  qed
  ultimately show ?thesis using n by (simp add: int_of_bytes_def Let_def)
qed

lemma cmsg_fields:
  "CMSG_HDR \<le> length (cmsg fd pad)" "cmsg_len (cmsg fd pad) = CMSG_HDR + 4" "cmsg_level (cmsg fd pad) = SOL_SOCKET"
  "cmsg_type (cmsg fd pad) = SCM_RIGHTS" "- (2 ^ 31) \<le> fd \<Longrightarrow> fd < 2 ^ 31 \<Longrightarrow> cmsg_data (cmsg fd pad) = fd"
  by (simp_all add: cmsg_def cmsg_len_def cmsg_level_def cmsg_type_def cmsg_data_def le_val_small int_bytes_back
      CMSG_HDR_def SOL_SOCKET_def SCM_RIGHTS_def)

lemma passed_fd_cmsg: "- (2 ^ 31) \<le> fd \<Longrightarrow> fd < 2 ^ 31 \<Longrightarrow> passed_fd (cmsg fd pad) = Some fd"
  by (simp add: passed_fd_def cmsg_fields)

lemma recv_fd_cmsg: "- (2 ^ 31) \<le> fd \<Longrightarrow> fd < 2 ^ 31 \<Longrightarrow> recv_fd 1 (cmsg fd pad) = fd"
  using cmsg_fields(1) [of fd pad] by (simp add: recv_fd_def cmsg_fields(2-5))

section \<open>The run of 10_scm_rights.c\<close>

datatype scm_parent = R_Close1 | R_Open | R_Print int | R_Send int | R_Close int | R_Close0 | R_Wait | R_Exit int

datatype scm_child = S_Close0 | S_Recv | S_Print int | S_Seek int | S_Read int | S_Write int "string option"
  | S_Close int | S_Close1 | S_Exit | S_Gone

datatype scm_text = Line string "arg list" | Bytes string

record scm =
  ptab :: "int \<Rightarrow> nat option"
  ctab :: "int \<Rightarrow> nat option"
  offset :: nat
  in_flight :: "nat list"
  scm_parent :: scm_parent
  scm_child :: scm_child
  scm_out :: "scm_text list"
  scm_buf :: "scm_text list"

definition passing :: "int \<Rightarrow> scm_text" where
  "passing fd = Line ''[parent] passing fd=%d (/etc/hostname) to child'' [I fd]"

definition received :: "int \<Rightarrow> scm_text" where
  "received fd = Line ''[child] received fd=%d'' [I fd]"

definition scm_start :: "int \<Rightarrow> int \<Rightarrow> scm" where
  "scm_start sv0 sv1 = \<lparr>ptab = [sv0 \<mapsto> 0, sv1 \<mapsto> 1], ctab = [sv0 \<mapsto> 0, sv1 \<mapsto> 1], offset = 0, in_flight = [],
     scm_parent = R_Close1, scm_child = S_Close0, scm_out = [], scm_buf = []\<rparr>"

definition end_open :: "nat \<Rightarrow> scm \<Rightarrow> bool" where
  "end_open d s \<longleftrightarrow> d \<in> ran (ptab s) \<or> d \<in> ran (ctab s)"

text \<open>opens says whether /etc/hostname can be opened, host is what it holds.  A write whose length is -1 is refused.\<close>

inductive scm_step :: "bool \<Rightarrow> bool \<Rightarrow> string \<Rightarrow> int \<Rightarrow> int \<Rightarrow> scm \<Rightarrow> scm \<Rightarrow> bool" for tty opens host sv0 sv1 where
  s_close0: "scm_child s = S_Close0 \<Longrightarrow>
    scm_step tty opens host sv0 sv1 s (s\<lparr>ctab := (ctab s)(sv0 := None), scm_child := S_Recv\<rparr>)"
| s_recv: "scm_child s = S_Recv \<Longrightarrow> in_flight s = d # ds \<Longrightarrow> ctab s y = None \<Longrightarrow> 0 \<le> y \<Longrightarrow> y < 2 ^ 31 \<Longrightarrow>
    scm_step tty opens host sv0 sv1 s (s\<lparr>in_flight := ds, ctab := (ctab s)(y \<mapsto> d), scm_child := S_Print (recv_fd 1 (cmsg y pad))\<rparr>)"
| s_eof: "scm_child s = S_Recv \<Longrightarrow> in_flight s = [] \<Longrightarrow> \<not> end_open 0 s \<Longrightarrow>
    scm_step tty opens host sv0 sv1 s (s\<lparr>scm_child := S_Print (recv_fd 0 [])\<rparr>)"
| s_print: "scm_child s = S_Print fd \<Longrightarrow>
    scm_step tty opens host sv0 sv1 s (s\<lparr>scm_child := S_Seek fd, scm_out := scm_out s @ (if tty then [received fd] else [])\<rparr>)"
| s_seek: "scm_child s = S_Seek fd \<Longrightarrow>
    scm_step tty opens host sv0 sv1 s (s\<lparr>scm_child := S_Read fd, offset := (if ctab s fd = Some 2 then 0 else offset s)\<rparr>)"
| s_read: "scm_child s = S_Read fd \<Longrightarrow> ctab s fd = Some 2 \<Longrightarrow> bs = take 64 (drop (offset s) host) \<Longrightarrow>
    scm_step tty opens host sv0 sv1 s (s\<lparr>scm_child := S_Write fd (Some bs), offset := offset s + length bs\<rparr>)"
| s_read_bad: "scm_child s = S_Read fd \<Longrightarrow> ctab s fd = None \<Longrightarrow>
    scm_step tty opens host sv0 sv1 s (s\<lparr>scm_child := S_Write fd None\<rparr>)"
| s_write: "scm_child s = S_Write fd bs \<Longrightarrow> scm_step tty opens host sv0 sv1 s
    (s\<lparr>scm_child := S_Close fd, scm_out := scm_out s @ (case bs of Some t \<Rightarrow> [Bytes t] | None \<Rightarrow> [])\<rparr>)"
| s_close: "scm_child s = S_Close fd \<Longrightarrow>
    scm_step tty opens host sv0 sv1 s (s\<lparr>scm_child := S_Close1, ctab := (ctab s)(fd := None)\<rparr>)"
| s_close1: "scm_child s = S_Close1 \<Longrightarrow>
    scm_step tty opens host sv0 sv1 s (s\<lparr>scm_child := S_Exit, ctab := (ctab s)(sv1 := None)\<rparr>)"
| s_exit: "scm_child s = S_Exit \<Longrightarrow> scm_step tty opens host sv0 sv1 s (s\<lparr>scm_child := S_Gone, ctab := Map.empty\<rparr>)"
| r_close1: "scm_parent s = R_Close1 \<Longrightarrow>
    scm_step tty opens host sv0 sv1 s (s\<lparr>ptab := (ptab s)(sv1 := None), scm_parent := R_Open\<rparr>)"
| r_open: "scm_parent s = R_Open \<Longrightarrow> opens \<Longrightarrow> ptab s fd = None \<Longrightarrow> 0 \<le> fd \<Longrightarrow> fd < 2 ^ 31 \<Longrightarrow>
    scm_step tty opens host sv0 sv1 s (s\<lparr>ptab := (ptab s)(fd \<mapsto> 2), offset := 0, scm_parent := R_Print fd\<rparr>)"
| r_no_open: "scm_parent s = R_Open \<Longrightarrow> \<not> opens \<Longrightarrow>
    scm_step tty opens host sv0 sv1 s (s\<lparr>ptab := Map.empty, scm_parent := R_Exit 1\<rparr>)"
| r_print: "scm_parent s = R_Print fd \<Longrightarrow> scm_step tty opens host sv0 sv1 s
    (s\<lparr>scm_parent := R_Send fd, scm_out := scm_out s @ (if tty then [passing fd] else []),
       scm_buf := scm_buf s @ (if tty then [] else [passing fd])\<rparr>)"
| r_send: "scm_parent s = R_Send fd \<Longrightarrow> passed_fd (cmsg fd pad) = Some f \<Longrightarrow> ptab s f = Some d \<Longrightarrow> end_open 1 s \<Longrightarrow>
    scm_step tty opens host sv0 sv1 s (s\<lparr>in_flight := in_flight s @ [d], scm_parent := R_Close fd\<rparr>)"
| r_killed: "scm_parent s = R_Send fd \<Longrightarrow> \<not> end_open 1 s \<Longrightarrow>
    scm_step tty opens host sv0 sv1 s (s\<lparr>ptab := Map.empty, scm_parent := R_Exit (-13)\<rparr>)"
| r_close: "scm_parent s = R_Close fd \<Longrightarrow>
    scm_step tty opens host sv0 sv1 s (s\<lparr>ptab := (ptab s)(fd := None), scm_parent := R_Close0\<rparr>)"
| r_close0: "scm_parent s = R_Close0 \<Longrightarrow>
    scm_step tty opens host sv0 sv1 s (s\<lparr>ptab := (ptab s)(sv0 := None), scm_parent := R_Wait\<rparr>)"
| r_wait: "scm_parent s = R_Wait \<Longrightarrow> scm_child s = S_Gone \<Longrightarrow> scm_step tty opens host sv0 sv1 s
    (s\<lparr>ptab := Map.empty, scm_parent := R_Exit 0, scm_out := scm_out s @ scm_buf s, scm_buf := []\<rparr>)"

abbreviation scm_reaches :: "bool \<Rightarrow> bool \<Rightarrow> string \<Rightarrow> int \<Rightarrow> int \<Rightarrow> scm \<Rightarrow> bool" where
  "scm_reaches tty opens host sv0 sv1 s \<equiv> (scm_step tty opens host sv0 sv1)\<^sup>*\<^sup>* (scm_start sv0 sv1) s"

fun r_rank :: "scm_parent \<Rightarrow> nat" where
  "r_rank R_Close1 = 7"
| "r_rank R_Open = 6"
| "r_rank (R_Print fd) = 5"
| "r_rank (R_Send fd) = 4"
| "r_rank (R_Close fd) = 3"
| "r_rank R_Close0 = 2"
| "r_rank R_Wait = 1"
| "r_rank (R_Exit n) = 0"

fun s_rank :: "scm_child \<Rightarrow> nat" where
  "s_rank S_Close0 = 9"
| "s_rank S_Recv = 8"
| "s_rank (S_Print fd) = 7"
| "s_rank (S_Seek fd) = 6"
| "s_rank (S_Read fd) = 5"
| "s_rank (S_Write fd bs) = 4"
| "s_rank (S_Close fd) = 3"
| "s_rank S_Close1 = 2"
| "s_rank S_Exit = 1"
| "s_rank S_Gone = 0"

text \<open>The tables by program point, and the descriptor each process works with.\<close>

fun p_table :: "int \<Rightarrow> int \<Rightarrow> scm_parent \<Rightarrow> int \<Rightarrow> nat option" where
  "p_table sv0 sv1 R_Close1 = [sv0 \<mapsto> 0, sv1 \<mapsto> 1]"
| "p_table sv0 sv1 R_Open = [sv0 \<mapsto> 0]"
| "p_table sv0 sv1 (R_Print fd) = [sv0 \<mapsto> 0, fd \<mapsto> 2]"
| "p_table sv0 sv1 (R_Send fd) = [sv0 \<mapsto> 0, fd \<mapsto> 2]"
| "p_table sv0 sv1 (R_Close fd) = [sv0 \<mapsto> 0, fd \<mapsto> 2]"
| "p_table sv0 sv1 R_Close0 = [sv0 \<mapsto> 0]"
| "p_table sv0 sv1 _ = Map.empty"

fun p_fd :: "scm_parent \<Rightarrow> int option" where
  "p_fd (R_Print fd) = Some fd"
| "p_fd (R_Send fd) = Some fd"
| "p_fd (R_Close fd) = Some fd"
| "p_fd _ = None"

fun c_fd :: "scm_child \<Rightarrow> int option" where
  "c_fd (S_Print fd) = Some fd"
| "c_fd (S_Seek fd) = Some fd"
| "c_fd (S_Read fd) = Some fd"
| "c_fd (S_Write fd bs) = Some fd"
| "c_fd (S_Close fd) = Some fd"
| "c_fd _ = None"

definition c_table :: "int \<Rightarrow> int \<Rightarrow> scm_child \<Rightarrow> int \<Rightarrow> nat option" where
  "c_table sv0 sv1 pc = (case c_fd pc of Some fd \<Rightarrow> if fd < 0 then [sv1 \<mapsto> 1] else [sv1 \<mapsto> 1, fd \<mapsto> 2]
     | None \<Rightarrow> if pc = S_Close0 then [sv0 \<mapsto> 0, sv1 \<mapsto> 1] else if pc = S_Recv \<or> pc = S_Close1 then [sv1 \<mapsto> 1] else Map.empty)"

text \<open>The lines each process has printed, while it lives and in the end.\<close>

definition tables_inv :: "int \<Rightarrow> int \<Rightarrow> scm \<Rightarrow> bool" where
  "tables_inv sv0 sv1 s \<longleftrightarrow> ptab s = p_table sv0 sv1 (scm_parent s) \<and> ctab s = c_table sv0 sv1 (scm_child s)
     \<and> (\<forall>fd. p_fd (scm_parent s) = Some fd \<longrightarrow> 0 \<le> fd \<and> fd < 2 ^ 31 \<and> fd \<noteq> sv0)
     \<and> (\<forall>fd. c_fd (scm_child s) = Some fd \<longrightarrow> -1 \<le> fd \<and> fd < 2 ^ 31 \<and> fd \<noteq> sv1)"

definition flow_inv :: "bool \<Rightarrow> string \<Rightarrow> scm \<Rightarrow> bool" where
  "flow_inv opens host s \<longleftrightarrow>
     in_flight s = (if opens \<and> r_rank (scm_parent s) < 4 \<and> 7 < s_rank (scm_child s) then [2] else [])
     \<and> (opens \<and> s_rank (scm_child s) < 8 \<longrightarrow> r_rank (scm_parent s) < 4)
     \<and> (\<not> opens \<and> s_rank (scm_child s) < 8 \<longrightarrow> r_rank (scm_parent s) = 0)
     \<and> (\<not> opens \<longrightarrow> scm_parent s \<in> {R_Close1, R_Open, R_Exit 1})
     \<and> (\<forall>n. opens \<and> scm_parent s = R_Exit n \<longrightarrow> n = 0 \<and> scm_child s = S_Gone)
     \<and> (\<forall>fd. c_fd (scm_child s) = Some fd \<longrightarrow> (opens \<longleftrightarrow> 0 \<le> fd))
     \<and> (\<forall>fd. opens \<and> scm_child s = S_Read fd \<longrightarrow> offset s = 0)
     \<and> (\<forall>fd bs. scm_child s = S_Write fd bs \<longrightarrow> bs = (if opens then Some (take 64 host) else None))"

lemma c_table_simps:
  "c_table sv0 sv1 S_Close0 = [sv0 \<mapsto> 0, sv1 \<mapsto> 1]" "c_table sv0 sv1 S_Recv = [sv1 \<mapsto> 1]" "c_table sv0 sv1 S_Close1 = [sv1 \<mapsto> 1]"
  "c_table sv0 sv1 S_Exit = Map.empty" "c_table sv0 sv1 S_Gone = Map.empty"
  "c_fd pc = Some fd \<Longrightarrow> c_table sv0 sv1 pc = (if fd < 0 then [sv1 \<mapsto> 1] else [sv1 \<mapsto> 1, fd \<mapsto> 2])"
  by (simp_all add: c_table_def)

lemma recv_fd_none: "recv_fd 0 bs = -1"
  by (simp add: recv_fd_def)

lemma parent_end_open:
  assumes "tables_inv sv0 sv1 s" "sv0 \<noteq> sv1" "1 < r_rank (scm_parent s)"
  shows "end_open 0 s"
proof -
  have "ptab s sv0 = Some 0" using assms by (cases "scm_parent s") (auto simp: tables_inv_def)
  then show ?thesis unfolding end_open_def ran_def by blast
qed

lemma child_end_open:
  assumes "tables_inv sv0 sv1 s" "sv0 \<noteq> sv1" "1 < s_rank (scm_child s)"
  shows "end_open 1 s"
proof -
  have "ctab s sv1 = Some 1" using assms by (cases "scm_child s") (auto simp: tables_inv_def c_table_simps)
  then show ?thesis unfolding end_open_def ran_def by blast
qed

lemma tables_inv_step:
  assumes "scm_step tty opens host sv0 sv1 s s'" "tables_inv sv0 sv1 s" "flow_inv opens host s" "sv0 \<noteq> sv1" "0 \<le> sv1"
  shows "tables_inv sv0 sv1 s'"
  using assms
  by (induction rule: scm_step.induct)
    (auto simp: tables_inv_def c_table_simps recv_fd_cmsg recv_fd_none flow_inv_def fun_eq_iff split: if_splits)

lemma eof_without_file:
  assumes "tables_inv sv0 sv1 s" "flow_inv opens host s" "sv0 \<noteq> sv1" "scm_child s = S_Recv" "in_flight s = []" "\<not> end_open 0 s"
  shows "\<not> opens \<and> r_rank (scm_parent s) = 0"
proof -
  have "\<not> 1 < r_rank (scm_parent s)" using parent_end_open [OF assms(1,3)] assms(6) by blast
  then show ?thesis using assms(2,4,5) by (cases "scm_parent s") (auto simp: flow_inv_def split: if_splits)
qed

lemma flow_inv_step:
  assumes "scm_step tty opens host sv0 sv1 s s'" "tables_inv sv0 sv1 s" "flow_inv opens host s" "sv0 \<noteq> sv1"
  shows "flow_inv opens host s'"
  using assms(1)
proof cases
  case s_eof
  then have "\<not> opens \<and> r_rank (scm_parent s) = 0" using eof_without_file [OF assms(2,3,4)] by blast
  then show ?thesis using s_eof assms(3) by (auto simp: flow_inv_def recv_fd_none)
next
  case (r_killed fd)
  then have "\<not> 1 < s_rank (scm_child s)" using child_end_open [OF assms(2,4)] by blast
  then have False using r_killed assms(3) by (auto simp: flow_inv_def split: if_splits)
  then show ?thesis ..
qed (use assms(2-4) in \<open>auto simp: tables_inv_def c_table_simps recv_fd_cmsg flow_inv_def passed_fd_cmsg split: if_splits\<close>)

section \<open>What the run prints, and that it ends\<close>

definition scm_text :: "bool \<Rightarrow> bool \<Rightarrow> string \<Rightarrow> nat \<Rightarrow> nat \<Rightarrow> int \<Rightarrow> int \<Rightarrow> scm_text list" where
  "scm_text tty opens host r c f y =
     (if tty \<and> opens \<and> r < 5 then [passing f] else []) @ (if tty \<and> c < 7 then [received y] else [])
     @ (if opens \<and> c < 4 then [Bytes (take 64 host)] else []) @ (if \<not> tty \<and> opens \<and> r = 0 then [passing f] else [])"

definition out_inv :: "bool \<Rightarrow> bool \<Rightarrow> string \<Rightarrow> scm \<Rightarrow> int \<Rightarrow> int \<Rightarrow> bool" where
  "out_inv tty opens host s f y \<longleftrightarrow> scm_out s = scm_text tty opens host (r_rank (scm_parent s)) (s_rank (scm_child s)) f y
     \<and> scm_buf s = (if \<not> tty \<and> opens \<and> 0 < r_rank (scm_parent s) \<and> r_rank (scm_parent s) < 5 then [passing f] else [])
     \<and> (\<forall>fd. p_fd (scm_parent s) = Some fd \<longrightarrow> fd = f) \<and> (\<forall>fd. c_fd (scm_child s) = Some fd \<longrightarrow> fd = y)
     \<and> (s_rank (scm_child s) < 8 \<longrightarrow> (if opens then 0 \<le> y else y = -1))"

lemma out_inv_step:
  assumes "scm_step tty opens host sv0 sv1 s s'" "tables_inv sv0 sv1 s" "flow_inv opens host s" "out_inv tty opens host s f y"
    and k: "\<not> (\<exists>fd. scm_parent s = R_Send fd) \<or> end_open 1 s" and d: "sv0 \<noteq> sv1"
  shows "\<exists>f y. out_inv tty opens host s' f y"
proof -
  have o1: "opens \<Longrightarrow> s_rank (scm_child s) < 8 \<Longrightarrow> r_rank (scm_parent s) < 4"
    and o3: "opens \<or> scm_parent s \<in> {R_Close1, R_Open, R_Exit 1}"
    and o4: "\<forall>fd bs. scm_child s = S_Write fd bs \<longrightarrow> bs = (if opens then Some (take 64 host) else None)"
    using assms(3) unfolding flow_inv_def by blast+
  have o2: "opens \<Longrightarrow> r_rank (scm_parent s) = 0 \<Longrightarrow> scm_child s = S_Gone"
    using assms(3) by (cases "scm_parent s") (auto simp: flow_inv_def)
  note defs = out_inv_def scm_text_def
  show ?thesis
  using assms(1)
  proof cases
    case (s_recv d ds y' pad)
    then have "out_inv tty opens host s' f y'" using assms(2-4)
      by (auto simp: defs flow_inv_def recv_fd_cmsg split: if_splits)
    then show ?thesis by blast
  next
    case s_eof
    moreover from this have "\<not> opens" using eof_without_file [OF assms(2,3) d] by blast
    ultimately have "out_inv tty opens host s' f (-1)" using assms(4) by (auto simp: defs recv_fd_none)
    then show ?thesis by blast
  next
    case (r_open fd)
    then have "out_inv tty opens host s' fd y" using assms(4) o1 by (auto simp: defs)
    then show ?thesis by blast
  next
    case (s_print fd)
    then have "out_inv tty opens host s' f y" using assms(4) o2 by (auto simp: defs)
    then show ?thesis by blast
  next
    case (s_write fd bs)
    then have "out_inv tty opens host s' f y" using assms(4) o2 o4 by (auto simp: defs)
    then show ?thesis by blast
  next
    case (r_print fd)
    then have "opens" using o3 by auto
    moreover from this have "\<not> s_rank (scm_child s) < 8" using o1 r_print by fastforce
    ultimately have "out_inv tty opens host s' f y" using r_print assms(4) by (auto simp: defs)
    then show ?thesis by blast
  next
    case r_no_open
    then have "out_inv tty opens host s' f y" using assms(4) by (auto simp: defs)
    then show ?thesis by blast
  next
    case (r_killed fd)
    then show ?thesis using k by blast
  next
    case r_wait
    then have "out_inv tty opens host s' f y" using assms(4) o3 by (auto simp: defs)
    then show ?thesis by blast
  qed (rule exI [where x = f], rule exI [where x = y], use assms(4) in \<open>simp add: defs\<close>)+
qed

definition scm_inv :: "bool \<Rightarrow> bool \<Rightarrow> string \<Rightarrow> int \<Rightarrow> int \<Rightarrow> scm \<Rightarrow> bool" where
  "scm_inv tty opens host sv0 sv1 s \<longleftrightarrow> tables_inv sv0 sv1 s \<and> flow_inv opens host s \<and> (\<exists>f y. out_inv tty opens host s f y)"

definition scm_done :: "bool \<Rightarrow> scm \<Rightarrow> bool" where
  "scm_done opens s \<longleftrightarrow> scm_parent s = R_Exit (if opens then 0 else 1) \<and> scm_child s = S_Gone"

definition scm_rank :: "scm \<Rightarrow> nat" where
  "scm_rank s = r_rank (scm_parent s) + s_rank (scm_child s)"

lemma scm_rank_step: "scm_step tty opens host sv0 sv1 s s' \<Longrightarrow> scm_rank s' < scm_rank s"
  by (induction rule: scm_step.induct) (auto simp: scm_rank_def)

lemma scm_inv_start: "sv0 \<noteq> sv1 \<Longrightarrow> scm_inv tty opens host sv0 sv1 (scm_start sv0 sv1)"
  by (simp add: scm_inv_def scm_start_def tables_inv_def c_table_simps flow_inv_def out_inv_def scm_text_def)

lemma fresh_fd: "\<exists>y. (t :: int \<Rightarrow> nat option) y = None \<and> 0 \<le> y \<and> y < 2 ^ 31" if "t \<in> {[a \<mapsto> d], Map.empty}" for t a d
  using that by (intro exI [where x = "if a = 0 then 1 else 0"]) auto

lemma scm_progress:
  assumes inv: "scm_inv tty opens host sv0 sv1 s" and d: "sv0 \<noteq> sv1" and n: "\<not> scm_done opens s"
  shows "\<exists>s'. scm_step tty opens host sv0 sv1 s s'"
proof (rule ccontr)
  assume stuck: "\<nexists>s'. scm_step tty opens host sv0 sv1 s s'"
  have t: "tables_inv sv0 sv1 s" and f: "flow_inv opens host s" using inv by (simp_all add: scm_inv_def)
  have c: "scm_child s = S_Gone \<or> scm_child s = S_Recv"
    using stuck t f s_close0 [of s] s_print [of s] s_seek [of s] s_read [of s] s_read_bad [of s] s_write [of s] s_close [of s] s_close1 [of s] s_exit [of s]
    by (cases "scm_child s") (fastforce simp: tables_inv_def c_table_simps flow_inv_def)+
  show False
  proof (cases "scm_parent s")
    case R_Open
    then have "ptab s = [sv0 \<mapsto> 0]" using t by (simp add: tables_inv_def)
    then obtain fd where "ptab s fd = None" "0 \<le> fd" "fd < 2 ^ 31" using fresh_fd [of "ptab s" sv0 0] by auto
    then show False using stuck r_open [OF R_Open] r_no_open [OF R_Open] by blast
  next
    case (R_Send fd)
    then have "passed_fd (cmsg fd []) = Some fd" "ptab s fd = Some 2" using t by (auto simp: tables_inv_def passed_fd_cmsg)
    then show False using stuck r_send [OF R_Send] r_killed [OF R_Send] by blast
  next
    case R_Wait
    then have "scm_child s = S_Recv" using stuck r_wait [OF R_Wait] c by blast
    then have "in_flight s = [2]" "ctab s = [sv1 \<mapsto> 1]" using f t R_Wait by (auto simp: flow_inv_def tables_inv_def c_table_simps)
    moreover obtain y where "ctab s y = None" "0 \<le> y" "y < 2 ^ 31" using fresh_fd [of "ctab s" sv1 1] calculation by auto
    ultimately show False using stuck s_recv [OF \<open>scm_child s = S_Recv\<close>] by blast
  next
    case (R_Exit k)
    then have "scm_child s = S_Recv" "\<not> opens" using n c f by (auto simp: scm_done_def flow_inv_def)
    moreover have "in_flight s = []" "\<not> end_open 0 s" using calculation t f R_Exit
      by (auto simp: flow_inv_def tables_inv_def c_table_simps end_open_def)
    ultimately show False using stuck s_eof by blast
  next
    case R_Close1
    then show False using stuck r_close1 by blast
  next
    case (R_Print fd)
    then show False using stuck r_print by blast
  next
    case (R_Close fd)
    then show False using stuck r_close by blast
  next
    case R_Close0
    then show False using stuck r_close0 by blast
  qed
qed

interpretation scm: must_finish "scm_step tty opens host sv0 sv1" "\<lambda>s. scm_inv tty opens host sv0 sv1 s \<and> sv0 \<noteq> sv1 \<and> 0 \<le> sv1"
  "scm_done opens" scm_rank for tty opens host sv0 sv1
proof
  fix s s' :: scm
  assume g: "scm_inv tty opens host sv0 sv1 s \<and> sv0 \<noteq> sv1 \<and> 0 \<le> sv1"
  show "\<not> scm_done opens s \<Longrightarrow> \<exists>s'. scm_step tty opens host sv0 sv1 s s' \<and> scm_rank s' < scm_rank s"
    using scm_progress scm_rank_step g by blast
  {
    assume st: "scm_step tty opens host sv0 sv1 s s'"
    have "1 < s_rank (scm_child s)" if "scm_parent s = R_Send fd" for fd
      using that g by (auto simp: scm_inv_def flow_inv_def split: if_splits)
    then have "\<not> (\<exists>fd. scm_parent s = R_Send fd) \<or> end_open 1 s" using child_end_open g by (auto simp: scm_inv_def)
    then show "scm_inv tty opens host sv0 sv1 s' \<and> sv0 \<noteq> sv1 \<and> 0 \<le> sv1"
      using g st tables_inv_step flow_inv_step out_inv_step unfolding scm_inv_def by metis
    show "scm_rank s' < scm_rank s" by (rule scm_rank_step [OF st])
  }
  show "scm_done opens s \<Longrightarrow> \<not> scm_step tty opens host sv0 sv1 s s'" by (auto simp: scm_done_def elim!: scm_step.cases)
qed

text \<open>C25. The passed descriptor: every run ends, and all descriptors of both processes are closed by then.  If the parent
  could open the file, the child has a new descriptor of the same open file, reads the first 64 bytes through it and
  writes them, and on a terminal the lines come in the order passing, received, bytes; into a file the line of the
  child is lost and the line of the parent comes last.  If not, the child has received -1 and writes nothing.\<close>

theorem descriptor_passed:
  assumes "scm_reaches tty opens host sv0 sv1 s" "sv0 \<noteq> sv1" "0 \<le> sv1"
  shows "((\<nexists>s'. scm_step tty opens host sv0 sv1 s s') \<longleftrightarrow> scm_done opens s) \<and>
    (\<forall>f. f 0 = s \<longrightarrow> (\<exists>i. \<not> scm_step tty opens host sv0 sv1 (f i) (f (Suc i)))) \<and>
    (scm_done opens s \<longrightarrow> (\<exists>f y. scm_out s =
      (if opens then if tty then [passing f, received y, Bytes (take 64 host)] else [Bytes (take 64 host), passing f]
       else if tty then [received (-1)] else []) \<and> (opens \<longrightarrow> 0 \<le> y)) \<and> ptab s = Map.empty \<and> ctab s = Map.empty)"
proof -
  have inv: "scm_inv tty opens host sv0 sv1 s \<and> sv0 \<noteq> sv1 \<and> 0 \<le> sv1"
    by (rule scm.keeps_run [OF assms(1)]) (use scm_inv_start assms(2,3) in blast)
  have "(\<exists>f y. scm_out s =
      (if opens then if tty then [passing f, received y, Bytes (take 64 host)] else [Bytes (take 64 host), passing f]
       else if tty then [received (-1)] else []) \<and> (opens \<longrightarrow> 0 \<le> y)) \<and> ptab s = Map.empty \<and> ctab s = Map.empty" if d: "scm_done opens s"
  proof -
    from inv obtain f y where "out_inv tty opens host s f y" by (auto simp: scm_inv_def)
    with d inv show ?thesis
      by (auto simp: scm_done_def out_inv_def scm_text_def scm_inv_def tables_inv_def c_table_simps split: if_splits)
  qed
  then show ?thesis using scm.stops_iff [OF inv] scm.no_infinite_run inv by blast
qed

theorem descriptor_passed_witness:
  "\<exists>s f. scm_reaches False True ''box'' 3 4 s \<and> scm_out s = [Bytes ''box'', passing f]"
proof -
  have "scm_inv False True ''box'' 3 4 (scm_start 3 4) \<and> (3 :: int) \<noteq> 4 \<and> (0 :: int) \<le> 4" using scm_inv_start by simp
  from scm.completes [OF this] obtain s where s: "scm_reaches False True ''box'' 3 4 s" "scm_done True s" by blast
  from descriptor_passed [OF s(1)] s show ?thesis by auto
qed


section \<open>07_daemonise.c\<close>

record dproc =
  d_pid :: int
  d_pgid :: int
  d_sid :: int
  d_fds :: "int \<Rightarrow> string option"
  d_cwd :: string
  d_umask :: nat

datatype fate = Exited int | Running dproc

text \<open>setsid fails in the leader of a process group.  dup2 of a number that is not open fails and changes nothing.\<close>

definition setsid :: "dproc \<Rightarrow> dproc option" where
  "setsid p = (if d_pgid p = d_pid p then None else Some (p\<lparr>d_pgid := d_pid p, d_sid := d_pid p\<rparr>))"

definition open_null :: "int \<Rightarrow> dproc \<Rightarrow> dproc" where
  "open_null fd p = (if fd < 0 then p else p\<lparr>d_fds := (d_fds p)(fd \<mapsto> ''/dev/null'')\<rparr>)"

definition dup2 :: "int \<Rightarrow> int \<Rightarrow> dproc \<Rightarrow> dproc" where
  "dup2 fd n p = (case d_fds p fd of None \<Rightarrow> p | Some x \<Rightarrow> p\<lparr>d_fds := (d_fds p)(n \<mapsto> x)\<rparr>)"

definition close_fd :: "int \<Rightarrow> dproc \<Rightarrow> dproc" where
  "close_fd fd p = p\<lparr>d_fds := (d_fds p)(fd := None)\<rparr>"

text \<open>Neither chdir nor open is checked; cd says whether chdir succeeds, fd is what open returns.\<close>

definition to_null :: "bool \<Rightarrow> int \<Rightarrow> dproc \<Rightarrow> dproc" where
  "to_null cd fd p =
     (let p = (if cd then p\<lparr>d_cwd := ''/''\<rparr> else p);
          p = p\<lparr>d_umask := 0\<rparr>;
          p = open_null fd p;
          p = dup2 fd 2 (dup2 fd 1 (dup2 fd 0 p))
      in if 2 < fd then close_fd fd p else p)"

text \<open>What becomes of the process that calls daemonise and of the two it makes, in the order they are made.
  fork1 and fork2 are the numbers of the children, None when fork fails.\<close>

definition daemonise :: "int option \<Rightarrow> int option \<Rightarrow> bool \<Rightarrow> int \<Rightarrow> dproc \<Rightarrow> fate list" where
  "daemonise fork1 fork2 cd fd p =
     (case fork1 of None \<Rightarrow> [Exited 1] | Some c1 \<Rightarrow> Exited 0 #
      (case setsid (p\<lparr>d_pid := c1\<rparr>) of None \<Rightarrow> [Exited 1] | Some q \<Rightarrow>
       (case fork2 of None \<Rightarrow> [Exited 1] | Some c2 \<Rightarrow> [Exited 0, Running (to_null cd fd (q\<lparr>d_pid := c2\<rparr>))])))"

definition daemon_log :: "int \<Rightarrow> dproc \<Rightarrow> scm_text list" where
  "daemon_log ppid d = [Line ''alive: pid=%d ppid=%d'' [I (d_pid d), I ppid], Line ''exiting'' []]"

lemma to_null_ids: "d_pid (to_null cd fd p) = d_pid p" "d_sid (to_null cd fd p) = d_sid p" "d_pgid (to_null cd fd p) = d_pgid p"
  "d_cwd (to_null cd fd p) = (if cd then ''/'' else d_cwd p)" "d_umask (to_null cd fd p) = 0"
  by (simp_all add: to_null_def open_null_def dup2_def close_fd_def Let_def split: option.splits)

text \<open>A new descriptor of /dev/null ends as the first three, and nothing else changes.\<close>

lemma to_null_fds:
  assumes "0 \<le> fd" "d_fds p fd = None"
  shows "d_fds (to_null cd fd p) = (d_fds p)(0 \<mapsto> ''/dev/null'', 1 \<mapsto> ''/dev/null'', 2 \<mapsto> ''/dev/null'')"
proof (cases "2 < fd")
  case True
  then show ?thesis using assms by (auto simp: to_null_def open_null_def dup2_def close_fd_def Let_def fun_eq_iff)
next
  case False
  then have "fd = 0 \<or> fd = 1 \<or> fd = 2" using assms(1) by auto
  then show ?thesis by (auto simp: to_null_def open_null_def dup2_def Let_def fun_eq_iff)
qed

text \<open>The open is not checked: without /dev/null the daemon keeps the descriptors of the terminal.\<close>

lemma daemon_keeps_terminal: "d_fds p (-1) = None \<Longrightarrow> d_fds (to_null cd (-1) p) = d_fds p"
  by (simp add: to_null_def open_null_def dup2_def Let_def)

text \<open>C33. The daemon, on every answer of fork, chdir and open.  A refused first fork ends the caller with 1; a refused second
  one ends the caller with 0 and its child with 1.  When both succeed, with process numbers that are new, the caller and
  its child exit with 0, and the process that is left is in the session and process group of that child without leading
  them, has mask 0, and is in the root directory if chdir succeeded.  If open answered with a new descriptor, the
  descriptors 0, 1 and 2 are /dev/null and every other number is as it was in the caller, the one that open used
  included; if open failed, all descriptors are still those of the caller.\<close>

theorem daemon_detached:
  assumes "c1 \<noteq> d_pgid p" "c2 \<noteq> c1" and "fd = -1 \<or> 0 \<le> fd \<and> d_fds p fd = None" and "d_fds p (-1) = None"
  shows "daemonise None fork2 cd fd p = [Exited 1] \<and> daemonise (Some c1) None cd fd p = [Exited 0, Exited 1] \<and>
    (\<exists>d. daemonise (Some c1) (Some c2) cd fd p = [Exited 0, Exited 0, Running d] \<and>
      d_pid d = c2 \<and> d_sid d = c1 \<and> d_pgid d = c1 \<and> d_pid d \<noteq> d_sid d \<and>
      d_cwd d = (if cd then ''/'' else d_cwd p) \<and> d_umask d = 0 \<and>
      d_fds d = (if fd = -1 then d_fds p
        else (d_fds p)(0 \<mapsto> ''/dev/null'', 1 \<mapsto> ''/dev/null'', 2 \<mapsto> ''/dev/null'')))"
proof -
  let ?q = "p\<lparr>d_pid := c1, d_pgid := c1, d_sid := c1, d_pid := c2\<rparr>"
  have "daemonise (Some c1) (Some c2) cd fd p = [Exited 0, Exited 0, Running (to_null cd fd ?q)]"
    using assms(1) by (simp add: daemonise_def setsid_def)
  moreover have "d_fds (to_null cd fd ?q) = (if fd = -1 then d_fds p
      else (d_fds p)(0 \<mapsto> ''/dev/null'', 1 \<mapsto> ''/dev/null'', 2 \<mapsto> ''/dev/null''))"
    using assms(3,4) daemon_keeps_terminal [of ?q cd] to_null_fds [of fd ?q cd] by auto
  ultimately show ?thesis using assms(1,2) by (simp add: to_null_ids) (simp add: daemonise_def setsid_def)
qed

theorem daemon_detached_witness:
  "\<exists>d e. daemonise (Some 101) (Some 102) True 3 \<lparr>d_pid = 100, d_pgid = 100, d_sid = 50, d_fds = [0 \<mapsto> ''tty'', 1 \<mapsto> ''tty'', 2 \<mapsto> ''tty''],
      d_cwd = ''/home'', d_umask = 18\<rparr> = [Exited 0, Exited 0, Running d] \<and> d_fds d 1 = Some ''/dev/null'' \<and> d_fds d 3 = None \<and> d_cwd d = ''/'' \<and>
    daemonise (Some 101) (Some 102) True (-1) \<lparr>d_pid = 100, d_pgid = 100, d_sid = 50, d_fds = [0 \<mapsto> ''tty'', 1 \<mapsto> ''tty'', 2 \<mapsto> ''tty''],
      d_cwd = ''/home'', d_umask = 18\<rparr> = [Exited 0, Exited 0, Running e] \<and> d_fds e 1 = Some ''tty''"
  using daemon_detached [of 101 "\<lparr>d_pid = 100, d_pgid = 100, d_sid = 50, d_fds = [0 \<mapsto> ''tty'', 1 \<mapsto> ''tty'', 2 \<mapsto> ''tty''],
      d_cwd = ''/home'', d_umask = 18\<rparr>" 102 3 None True]
    daemon_detached [of 101 "\<lparr>d_pid = 100, d_pgid = 100, d_sid = 50, d_fds = [0 \<mapsto> ''tty'', 1 \<mapsto> ''tty'', 2 \<mapsto> ''tty''],
      d_cwd = ''/home'', d_umask = 18\<rparr>" 102 "-1" None True] by auto

text \<open>Without the fork before it, setsid would fail in a process a shell has started, which leads its group.\<close>

lemma setsid_leader: "setsid p = None \<longleftrightarrow> d_pgid p = d_pid p"
  by (simp add: setsid_def)


end
