(* ===== verification/Ipc_Demos.thy ===== *)
theory Ipc_Demos
  imports Mmap_Demos
begin

text \<open>
  Two programs of one process over a descriptor of the kernel: src/10_ipc_memory/06_memfd_create.c and 08_signalfd.c.
\<close>

section \<open>06_memfd_create.c\<close>

definition memfd_create :: "world \<Rightarrow> int \<times> world" where
  "memfd_create = sys ''memfd_create'' [S ''demo'', S ''MFD_CLOEXEC | MFD_ALLOW_SEALING'']"

text \<open>The seals, and the end of main.\<close>

definition memfd_seal :: "int \<Rightarrow> addr \<Rightarrow> world \<Rightarrow> world" where
  "memfd_seal fd p w =
     (let (r, w) = sys ''fcntl'' [I fd, S ''F_ADD_SEALS'', S ''F_SEAL_SHRINK | F_SEAL_GROW | F_SEAL_WRITE''] w;
          w = (if r < 0 then perror ''F_ADD_SEALS (need MFD_ALLOW_SEALING)'' w else w);
          (seals, w) = sys ''fcntl'' [I fd, S ''F_GET_SEALS''] w;
          w = printf ''current seals = 0x%x'' [I seals] w;
          (u, w) = munmap p 4096 w
      in call ''close'' [I fd] w)"

text \<open>The file is empty until ftruncate has made it a page of zeros; a store past its end is a bus error.\<close>

definition memfd_main :: "world \<Rightarrow> (int \<times> world) option" where
  "memfd_main w = do {
     let (fd, w) = memfd_create w;
     if fd < 0 then Some (1, perror ''memfd_create'' w) else do {
       let (pid, w) = sys ''getpid'' [] w;
       let w = printf ''memfd_create fd = %d  (look in /proc/%d/fd/%d)'' [I fd, I pid, I fd] w;
       let (t, w) = sys ''ftruncate'' [I fd, I 4096] w;
       let file = (if t = 0 then replicate 4096 0 else []);
       let (m, w) = sys ''mmap'' [I 4096, I 3, S ''MAP_SHARED'', I fd] w;
       let p = nat m;
       let w = (if m = -1 then w else map_bytes p file (PROT_READ + PROT_WRITE) w);
       if m = -1 then None else do {
       w \<leftarrow> mem_cpy p (bytes_of ''hello memfd!'') w;
       s \<leftarrow> c_string p w;
       Some (0, memfd_seal fd p (printf ''via mmap: %s'' [S s] w))}}}"

text \<open>When the kernel gives the descriptor, the page and the mapping, the program prints what it has stored and
  ends; when it refuses the page or the mapping, the store through p faults.\<close>

definition memfd_lines :: "int \<Rightarrow> int \<Rightarrow> int \<Rightarrow> (string \<times> arg list) list" where
  "memfd_lines fd pid seals = [(''memfd_create fd = %d  (look in /proc/%d/fd/%d)'', [I fd, I pid, I fd]),
     (''via mmap: %s'', [S ''hello memfd!'']), (''current seals = 0x%x'', [I seals])]"

lemma printed_other [simp]: "printed (w\<lparr>ram := r\<rparr>) = printed w" "printed (w\<lparr>ram := r, perm := q\<rparr>) = printed w"
    "printed (map_bytes a bs p w) = printed w"
  by (simp_all add: printed_def map_bytes_def)

lemma printed_printf: "printed (printf f as w) = printed w @ [(f, as)]"
  by (simp add: printed_def printf_def)

lemma memfd_seal_printed: "\<exists>seals. printed (memfd_seal fd p w) = printed w @ [(''current seals = 0x%x'', [I seals])]"
  by (simp add: memfd_seal_def world_simps munmap_def Let_def)

lemma memfd_prints:
  assumes fd: "memfd_create w = (fd, w1)" "0 \<le> fd" and pid: "sys ''getpid'' [] w1 = (pid, w2)"
    and t: "sys ''ftruncate'' [I fd, I 4096] (printf ''memfd_create fd = %d  (look in /proc/%d/fd/%d)'' [I fd, I pid, I fd] w2) = (0, w3)"
    and m: "sys ''mmap'' [I 4096, I 3, S ''MAP_SHARED'', I fd] w3 = (r, w4)" "r \<noteq> -1"
  shows "\<exists>w' seals. memfd_main w = Some (0, w') \<and> printed w' = printed w @ memfd_lines fd pid seals"
proof -
  let ?w4 = "map_bytes (nat r) (replicate 4096 0) (PROT_READ + PROT_WRITE) w4" and ?bs = "bytes_of ''hello memfd!''"
  have rw: "rw_range ?w4 (nat r) 4096"
    by (auto simp: rw_range_def map_bytes_def put_def)
  have len: "length ?bs \<le> 4096" by (simp add: bytes_of_def)
  note c = mem_cpy_holds [OF rw len]
  have s: "c_string (nat r) (?w4\<lparr>ram := put (ram ?w4) (nat r) ?bs\<rparr>) = Some ''hello memfd!''"
    by (rule c_string_holds [OF _ c(2)]) simp
  have p: "printed w4 = printed w @ [(''memfd_create fd = %d  (look in /proc/%d/fd/%d)'', [I fd, I pid, I fd])]"
    using assms by (auto simp: world_simps memfd_create_def)
  let ?w5 = "printf ''via mmap: %s'' [S ''hello memfd!''] (?w4\<lparr>ram := put (ram ?w4) (nat r) ?bs\<rparr>)"
  have "memfd_main w = Some (0, memfd_seal fd (nat r) ?w5)"
    using fd pid t m c(1) s by (simp only: memfd_main_def Let_def case_prod_conv bind_simps if_False if_True not_less [symmetric] not_le) simp
  moreover obtain seals where "printed (memfd_seal fd (nat r) ?w5) = printed ?w5 @ [(''current seals = 0x%x'', [I seals])]"
    using memfd_seal_printed by blast
  moreover have "printed ?w5 = printed w @ [(''memfd_create fd = %d  (look in /proc/%d/fd/%d)'', [I fd, I pid, I fd]),
      (''via mmap: %s'', [S ''hello memfd!''])]" by (simp add: printed_printf p)
  ultimately show ?thesis by (simp add: memfd_lines_def)
qed

section \<open>08_signalfd.c\<close>

definition sizeof_siginfo :: int where "sizeof_siginfo = 128"

text \<open>The two fields are uint32_t; \<open>%d\<close> prints their bits as an int.\<close>

definition as_int :: "int \<Rightarrow> int" where
  "as_int n = sint (of_int n :: 32 word)"

definition signalfd_main :: "world \<Rightarrow> int \<times> world" where
  "signalfd_main w =
     (let w = call ''sigprocmask'' [S ''SIG_BLOCK'', S ''SIGTERM'', S ''SIGINT''] w;
          (sfd, w) = sys ''signalfd'' [I (-1), S ''SIGTERM'', S ''SIGINT'', S ''SFD_CLOEXEC''] w
      in if sfd < 0 then (1, perror ''signalfd'' w) else
         let (p1, w) = sys ''getpid'' [] w;
             (p2, w) = sys ''getpid'' [] w;
             w = printf ''pid=%d  send me SIGINT (Ctrl-C) or SIGTERM (kill -TERM %d)'' [I p1, I p2] w;
             (n, w) = sys ''read'' [I sfd, I sizeof_siginfo] w;
             signo = field ''signalfd_siginfo'' ''ssi_signo'' w;
             spid = field ''signalfd_siginfo'' ''ssi_pid'' w;
             w = (if n = sizeof_siginfo then printf ''got signal %d from pid=%d'' [I (as_int signo), I (as_int spid)] w else w)
         in (0, call ''close'' [I sfd] w))"

end
