(* ===== verification/Lifetimes.thy ===== *)
theory Lifetimes
  imports Mmap_Demos
begin

text \<open>
  The programs that step outside an object on purpose: src/03_stack/05_dangling_local.c, 06_stack_canary.c,
  src/04_heap_malloc/11_use_after_free.c, 12_heap_overflow.c, src/11_memory_protection/04_canary_demo.c and
  05_fortify_demo.c, on the abstract machine of the C standard.

  \<^item> Memory is a set of objects, each with its bytes and with a lifetime.  A pointer is an object and an offset, or
    null.  An access outside a live object is undefined behaviour, which is None, and so is reading a byte that has
    never been written, freeing anything but a live block, and the difference of pointers into two objects.
  \<^item> What a compiler adds (a canary, a guard page, a reused block) is a way for an undefined program to end; the
    theorems say for which inputs a program is defined, and that is what those tools must not change.
\<close>

section \<open>Objects\<close>

type_synonym ptr = "(nat \<times> nat) option"

record cmachine =
  objs :: "nat \<Rightarrow> u8 option list option"
  heap :: "nat set"
  fresh :: nat
  lines :: "(string \<times> arg list) list"

definition machine0 :: cmachine where
  "machine0 = \<lparr>objs = Map.empty, heap = {}, fresh = 0, lines = []\<rparr>"

definition new_obj :: "nat \<Rightarrow> cmachine \<Rightarrow> nat \<times> cmachine" where
  "new_obj n s = (fresh s, s\<lparr>objs := (objs s)(fresh s \<mapsto> replicate n None), fresh := fresh s + 1\<rparr>)"

definition end_obj :: "nat \<Rightarrow> cmachine \<Rightarrow> cmachine" where
  "end_obj i s = s\<lparr>objs := (objs s)(i := None), heap := heap s - {i}\<rparr>"

definition new_block :: "bool \<Rightarrow> nat \<Rightarrow> cmachine \<Rightarrow> ptr \<times> cmachine" where
  "new_block ok n s = (if ok then let (i, s) = new_obj n s in (Some (i, 0), s\<lparr>heap := insert i (heap s)\<rparr>) else (None, s))"

definition free_ptr :: "ptr \<Rightarrow> cmachine \<Rightarrow> cmachine option" where
  "free_ptr p s = (case p of None \<Rightarrow> Some s
     | Some (i, k) \<Rightarrow> if k = 0 \<and> i \<in> heap s then Some (end_obj i s) else None)"

definition load :: "ptr \<Rightarrow> cmachine \<Rightarrow> u8 option" where
  "load p s = do { (i, k) \<leftarrow> p; bs \<leftarrow> objs s i; if k < length bs then bs ! k else None }"

definition store :: "ptr \<Rightarrow> u8 \<Rightarrow> cmachine \<Rightarrow> cmachine option" where
  "store p b s = do { (i, k) \<leftarrow> p; bs \<leftarrow> objs s i;
     if k < length bs then Some (s\<lparr>objs := (objs s)(i \<mapsto> bs[k := Some b])\<rparr>) else None }"

fun ptr_add :: "ptr \<Rightarrow> nat \<Rightarrow> ptr" where
  "ptr_add None n = None"
| "ptr_add (Some (i, k)) n = Some (i, k + n)"

definition ptr_diff :: "ptr \<Rightarrow> ptr \<Rightarrow> int option" where
  "ptr_diff p q = do { (i, k) \<leftarrow> p; (j, l) \<leftarrow> q; if i = j then Some (int k - int l) else None }"

fun store_all :: "ptr \<Rightarrow> u8 list \<Rightarrow> cmachine \<Rightarrow> cmachine option" where
  "store_all p [] s = Some s"
| "store_all p (b # bs) s = do { s \<leftarrow> store p b s; store_all (ptr_add p 1) bs s }"

fun loads :: "ptr \<Rightarrow> nat \<Rightarrow> cmachine \<Rightarrow> u8 list option" where
  "loads p 0 s = Some []"
| "loads p (Suc n) s = do { b \<leftarrow> load p s; bs \<leftarrow> loads (ptr_add p 1) n s; Some (b # bs) }"

text \<open>The string at the start of the rest of an object; it must end inside it.\<close>

fun text_in :: "u8 option list \<Rightarrow> string option" where
  "text_in [] = None"
| "text_in (None # bs) = None"
| "text_in (Some b # bs) = (if b = 0 then Some [] else map_option (\<lambda>t. char_of (unat b) # t) (text_in bs))"

definition c_text :: "ptr \<Rightarrow> cmachine \<Rightarrow> string option" where
  "c_text p s = do { (i, k) \<leftarrow> p; bs \<leftarrow> objs s i; text_in (drop k bs) }"

definition strcpy :: "ptr \<Rightarrow> string \<Rightarrow> cmachine \<Rightarrow> cmachine option" where
  "strcpy p t = store_all p (bytes_of t)"

definition memset :: "ptr \<Rightarrow> u8 \<Rightarrow> nat \<Rightarrow> cmachine \<Rightarrow> cmachine option" where
  "memset p b n = store_all p (replicate n b)"

definition say :: "string \<Rightarrow> arg list \<Rightarrow> cmachine \<Rightarrow> cmachine" where
  "say f as s = s\<lparr>lines := lines s @ [(f, as)]\<rparr>"

lemma store_all_char:
  "objs s i = Some cs \<Longrightarrow> store_all (Some (i, k)) bs s =
    (if k + length bs \<le> length cs \<or> bs = [] then
       Some (if bs = [] then s else s\<lparr>objs := (objs s)(i \<mapsto> take k cs @ map Some bs @ drop (k + length bs) cs)\<rparr>)
     else None)"
proof (induction bs arbitrary: k s cs)
  case (Cons b bs)
  show ?case
  proof (cases "k < length cs")
    case True
    let ?s = "s\<lparr>objs := (objs s)(i \<mapsto> cs[k := Some b])\<rparr>"
    have "store_all (Some (i, k + 1)) bs ?s =
      (if k + 1 + length bs \<le> length cs \<or> bs = [] then
         Some (if bs = [] then ?s else ?s\<lparr>objs := (objs ?s)(i \<mapsto> take (k + 1) (cs[k := Some b]) @ map Some bs @ drop (k + 1 + length bs) (cs[k := Some b]))\<rparr>)
       else None)" using Cons.IH [of ?s "cs[k := Some b]" "k + 1"] by simp
    then show ?thesis using True Cons.prems
      by (auto simp: store_def upd_conv_take_nth_drop take_Suc_conv_app_nth ac_simps)
  qed (use Cons.prems in \<open>simp add: store_def\<close>)
qed simp

lemma text_in_bytes: "nul \<notin> set t \<Longrightarrow> text_in (map Some (bytes_of t) @ r) = Some t"
proof (induction t)
  case (Cons c t)
  then have "(of_nat (of_char c) :: u8) \<noteq> 0" using byte_nul [of c] by auto
  then show ?case using Cons by (simp add: bytes_of_def byte_char)
qed (simp add: bytes_of_def)

lemma length_bytes_of: "length (bytes_of t) = Suc (length t)" "bytes_of t \<noteq> []"
  by (simp_all add: bytes_of_def)

text \<open>strcpy and memset into a live object are defined exactly when the object has the room.\<close>

lemma strcpy_live:
  assumes "objs s i = Some cs"
  shows "strcpy (Some (i, 0)) t s = (if length t < length cs
    then Some (s\<lparr>objs := (objs s)(i \<mapsto> map Some (bytes_of t) @ drop (Suc (length t)) cs)\<rparr>) else None)"
  using store_all_char [OF assms, of 0 "bytes_of t"] by (simp add: strcpy_def length_bytes_of Suc_le_eq)

lemma memset_live:
  assumes "objs s i = Some cs" "0 < n"
  shows "memset (Some (i, 0)) b n s = (if n \<le> length cs
    then Some (s\<lparr>objs := (objs s)(i \<mapsto> replicate n (Some b) @ drop n cs)\<rparr>) else None)"
  using store_all_char [OF assms(1), of 0 "replicate n b"] assms(2) by (simp add: memset_def)

lemma c_text_start: "objs s i = Some (map Some (bytes_of t) @ r) \<Longrightarrow> nul \<notin> set t \<Longrightarrow> c_text (Some (i, 0)) s = Some t"
  by (simp add: c_text_def text_in_bytes)

section \<open>05_dangling_local.c\<close>

text \<open>bad returns a pointer to its own local; the object ends with the call.\<close>

definition bad :: "cmachine \<Rightarrow> (ptr \<times> cmachine) option" where
  "bad s = do { let (i, s) = new_obj 16 s; s \<leftarrow> strcpy (Some (i, 0)) ''danger!'' s; Some (Some (i, 0), end_obj i s) }"

definition clobber :: "cmachine \<Rightarrow> cmachine option" where
  "clobber s = do {
     let (i, s) = new_obj 256 s;
     s \<leftarrow> memset (Some (i, 0)) (of_char (CHR ''#'')) 255 s;
     s \<leftarrow> store (Some (i, 255)) 0 s;
     b \<leftarrow> load (Some (i, 0)) s;
     let s = (if b = of_char (CHR ''X'') then say ''never'' [] s else s);
     Some (end_obj i s)}"

definition dangling_main :: "cmachine \<Rightarrow> (int \<times> cmachine) option" where
  "dangling_main s = do {
     (p, s) \<leftarrow> bad s;
     t \<leftarrow> c_text p s;
     s \<leftarrow> clobber (say ''right after return: %s'' [S t] s);
     t \<leftarrow> c_text p s;
     Some (0, say ''after clobber:      %s'' [S t] s)}"

section \<open>06_stack_canary.c and 04_canary_demo.c\<close>

text \<open>The two functions differ in the format of the line.\<close>

definition victim :: "string \<Rightarrow> string \<Rightarrow> cmachine \<Rightarrow> cmachine option" where
  "victim fmt src s = do {
     let (i, s) = new_obj 16 s;
     s \<leftarrow> strcpy (Some (i, 0)) src s;
     t \<leftarrow> c_text (Some (i, 0)) s;
     Some (end_obj i (say fmt [S t] s))}"

definition canary_main :: "cmachine \<Rightarrow> (int \<times> cmachine) option" where
  "canary_main s = do {
     s \<leftarrow> victim ''buf = %s'' ''fits'' s;
     let s = say ''about to overflow on purpose...'' [] s;
     s \<leftarrow> victim ''buf = %s'' (replicate 37 (CHR ''A'')) s;
     Some (0, s)}"

definition canary_f :: "string \<Rightarrow> cmachine \<Rightarrow> cmachine option" where
  "canary_f = victim ''buf=%s''"

definition canary_demo_main :: "cmachine \<Rightarrow> (int \<times> cmachine) option" where
  "canary_demo_main s = do {
     s \<leftarrow> canary_f ''short'' s;
     s \<leftarrow> canary_f (replicate 45 (CHR ''X'')) s;
     Some (0, s)}"

section \<open>05_fortify_demo.c\<close>

text \<open>With _FORTIFY_SOURCE the library is told the size of the destination and ends the process instead of
  writing outside it.\<close>

datatype fortified = Ran int cmachine | Aborted

definition strcpy_chk :: "ptr \<Rightarrow> nat \<Rightarrow> string \<Rightarrow> cmachine \<Rightarrow> cmachine option option" where
  "strcpy_chk p n t s = (if length t < n then map_option Some (strcpy p t s) else Some None)"

definition fortify_src :: "string list \<Rightarrow> string" where
  "fortify_src argv = (if 1 < length argv then argv ! 1 else ''this is way too long for the 16-byte buffer'')"

definition fortify_main :: "string list \<Rightarrow> cmachine \<Rightarrow> fortified option" where
  "fortify_main argv s = do {
     let (i, s) = new_obj 16 s;
     r \<leftarrow> strcpy_chk (Some (i, 0)) 16 (fortify_src argv) s;
     case r of None \<Rightarrow> Some Aborted | Some s \<Rightarrow> do {
       t \<leftarrow> c_text (Some (i, 0)) s;
       Some (Ran 0 (end_obj i (say ''buf=%s'' [S t] s)))}}"

section \<open>11_use_after_free.c and 12_heap_overflow.c\<close>

text \<open>ok says which malloc succeeds.  A pointer is printed as the number of its object and its offset.\<close>

definition show_ptr :: "ptr \<Rightarrow> arg list" where
  "show_ptr p = (case p of None \<Rightarrow> [I 0, I 0] | Some (i, k) \<Rightarrow> [I (int i), I (int k)])"

definition uaf_main :: "(nat \<Rightarrow> bool) \<Rightarrow> cmachine \<Rightarrow> (int \<times> cmachine) option" where
  "uaf_main ok s = do {
     let (p, s) = new_block (ok 0) 32 s;
     s \<leftarrow> strcpy p ''live'' s;
     t \<leftarrow> c_text p s;
     let s = say ''alloc:        p=%p  data=%s'' (show_ptr p @ [S t]) s;
     s \<leftarrow> free_ptr p s;
     bs \<leftarrow> loads p 8 s;
     let s = say ''after free:   p=%p  data (first 8 hex): %02x%02x%02x%02x%02x%02x%02x%02x''
               (show_ptr p @ map (\<lambda>b. I (uint b)) bs) s;
     s \<leftarrow> store_all p (le_bytes 8 0xdeadbeef) s;
     let (q, s) = new_block (ok 1) 32 s;
     let (r, s) = new_block (ok 2) 32 s;
     Some (0, say ''q=%p  r=%p   (note q==p, r could be anywhere)'' (show_ptr q @ show_ptr r) s)}"

definition heap_overflow_main :: "(nat \<Rightarrow> bool) \<Rightarrow> cmachine \<Rightarrow> (int \<times> cmachine) option" where
  "heap_overflow_main ok s = do {
     let (a, s) = new_block (ok 0) 32 s;
     let (b, s) = new_block (ok 1) 32 s;
     d \<leftarrow> ptr_diff b a;
     let s = say ''a=%p  b=%p  (b-a=%ld bytes)'' (show_ptr a @ show_ptr b @ [I d]) s;
     s \<leftarrow> memset a (of_char (CHR ''A'')) 80 s;
     s \<leftarrow> free_ptr a s;
     s \<leftarrow> free_ptr b s;
     Some (0, say ''survived (some glibc versions only catch this at coalesce time)'' [] s)}"

section \<open>Which inputs are defined\<close>

lemma new_obj_live: "objs (snd (new_obj n s)) (fst (new_obj n s)) = Some (replicate n None)"
  by (simp add: new_obj_def)

lemma victim_char:
  assumes "nul \<notin> set src"
  shows "victim fmt src s = (if length src < 16
    then Some (s\<lparr>objs := (objs s)(fresh s := None), heap := heap s - {fresh s}, fresh := fresh s + 1, lines := lines s @ [(fmt, [S src])]\<rparr>)
    else None)"
  using assms by (simp add: victim_def new_obj_def strcpy_live c_text_start say_def end_obj_def)

lemma overflows_undefined: "canary_main s = None" "canary_demo_main s = None"
  by (simp_all add: canary_main_def canary_demo_main_def canary_f_def victim_char)

lemma bad_dangles: "\<exists>s'. bad s = Some (Some (fresh s, 0), s') \<and> objs s' (fresh s) = None"
  by (simp add: bad_def new_obj_def strcpy_live end_obj_def)

lemma dangling_undefined: "dangling_main s = None"
  using bad_dangles [of s] by (auto simp: dangling_main_def c_text_def)

lemma clobber_defined: "\<exists>s'. clobber s = Some s' \<and> lines s' = lines s"
  by (simp add: clobber_def new_obj_def memset_live store_def load_def end_obj_def say_def nth_append)

lemma strcpy_null: "strcpy None t s = None"
  by (simp add: strcpy_def bytes_of_def store_def split: list.split) (cases t; simp add: store_def)

lemma loads_dead: "objs s i = None \<Longrightarrow> loads (Some (i, k)) (Suc n) s = None"
  by (simp add: load_def)

lemma uaf_undefined: "uaf_main ok s = None"
proof (cases "ok 0")
  case True
  let ?s = "s\<lparr>fresh := Suc (fresh s), heap := insert (fresh s) (heap s),
      objs := (objs s)(fresh s \<mapsto> map Some (bytes_of ''live'') @ drop 5 (replicate 32 None))\<rparr>"
  have t: "c_text (Some (fresh s, 0)) ?s = Some ''live''" by (rule c_text_start) simp_all
  have l: "loads (Some (fresh s, 0)) 8 s' = None" if "objs s' (fresh s) = None" for s'
    using loads_dead [OF that, of 0 7] by simp
  show ?thesis using True t l by (simp add: uaf_main_def new_block_def new_obj_def strcpy_live free_ptr_def end_obj_def say_def)
qed (simp add: uaf_main_def new_block_def strcpy_null)

lemma overflow_undefined: "heap_overflow_main ok s = None"
  by (cases "ok 0"; cases "ok 1") (simp_all add: heap_overflow_main_def new_block_def new_obj_def ptr_diff_def)

text \<open>The memset alone is outside the block, too.\<close>

lemma memset_80: "objs s i = Some cs \<Longrightarrow> length cs = 32 \<Longrightarrow> memset (Some (i, 0)) b 80 s = None"
  by (simp add: memset_live)

text \<open>C26. Buffers of 16 bytes: the unchecked copy is defined exactly for strings of at most 15 characters, and then prints
  the string and ends the lifetime of the buffer; the fortified program aborts exactly for the longer ones, as it does
  without an argument, and is never undefined.  The two overflowing mains, the one that reads a local of a function
  that has returned, the use after free and the heap overflow are undefined whatever malloc answers.\<close>

theorem buffers_exact:
  assumes "nul \<notin> set src" "argv = [''fortify'', src]"
  shows "(victim fmt src s = None \<longleftrightarrow> 16 \<le> length src)
    \<and> (length src < 16 \<longrightarrow> (\<exists>s'. victim fmt src s = Some s' \<and> lines s' = lines s @ [(fmt, [S src])] \<and> objs s' (fresh s) = None))
    \<and> (fortify_main argv s = Some Aborted \<longleftrightarrow> 16 \<le> length src)
    \<and> (length src < 16 \<longrightarrow> (\<exists>s'. fortify_main argv s = Some (Ran 0 s') \<and> lines s' = lines s @ [(''buf=%s'', [S src])]))
    \<and> fortify_main [''fortify''] s = Some Aborted \<and> canary_main s = None \<and> canary_demo_main s = None
    \<and> dangling_main s = None \<and> uaf_main ok s = None \<and> heap_overflow_main ok s = None"
proof -
  have f: "fortify_main argv s = (if length src < 16 then Some (Ran 0 (end_obj (fresh s) (say ''buf=%s'' [S src]
      (s\<lparr>fresh := fresh s + 1, objs := (objs s)(fresh s \<mapsto> map Some (bytes_of src) @ drop (Suc (length src)) (replicate 16 None))\<rparr>))))
      else Some Aborted)"
    using assms by (simp add: fortify_main_def fortify_src_def strcpy_chk_def new_obj_def strcpy_live c_text_start)
  have d: "fortify_main [''fortify''] s = Some Aborted"
    by (simp add: fortify_main_def fortify_src_def strcpy_chk_def new_obj_def)
  show ?thesis unfolding f d overflows_undefined dangling_undefined uaf_undefined overflow_undefined
    using victim_char [OF assms(1), of fmt s] by (auto simp: end_obj_def say_def)
qed

theorem buffers_exact_witness:
  "victim ''buf=%s'' (replicate 16 (CHR ''A'')) machine0 = None \<and>
    (\<exists>s'. victim ''buf=%s'' ''fits'' machine0 = Some s' \<and> lines s' = [(''buf=%s'', [S ''fits''])])"
  using buffers_exact [of "''fits''" _ "''buf=%s''" machine0] buffers_exact [of "replicate 16 (CHR ''A'')" _ "''buf=%s''" machine0]
  by (auto simp: machine0_def)

end
