(* ===== verification/Doubles.thy ===== *)
theory Doubles
  imports Complex_Main "HOL-Library.Log_Nat" Cstring
begin

text \<open>
  The doubles of the benchmarks, and the clock they read.

  \<^item> A double is a rational number; every operation of the C code computes the exact result and rounds it to 53
    significant bits, to the nearest and on a tie to the even one (\<open>dbl\<close>), as IEEE 754 asks.  Overflow past 2^1024 and
    the subnormal numbers below 2^-1022 are not in the model: the programs compute times in seconds and nanoseconds.
  \<^item> \<open>fixed p x\<close> is what the conversion %.pf prints.
  \<^item> \<open>now_sec\<close> is the function of that name in 00_fundamentals/01_memory_hierarchy.c and 04_cacheline_falsesharing.c,
    and \<open>now\<close> in 09_threads_memory/06_mutex_vs_atomic.c.

  The lemmas: rounding is monotone, is exact on integers up to 2^53 and errs by at most one part in 2^53; so a clock
  that does not go back gives times that are not negative.
\<close>

section \<open>Rounding to the nearest integer, ties to even\<close>

definition to_even :: "rat \<Rightarrow> int" where
  "to_even x = (let f = \<lfloor>x\<rfloor>; d = x - of_int f in if d < 1 / 2 \<or> d = 1 / 2 \<and> even f then f else f + 1)"

lemma to_even_of_int [simp]: "to_even (of_int n) = n"
  by (simp add: to_even_def)

lemma to_even_err: "\<bar>of_int (to_even x) - x\<bar> \<le> 1 / 2"
proof -
  have "of_int \<lfloor>x\<rfloor> \<le> x" "x < of_int \<lfloor>x\<rfloor> + 1" by linarith+
  moreover have "to_even x = \<lfloor>x\<rfloor> \<and> x - of_int \<lfloor>x\<rfloor> \<le> 1 / 2 \<or> to_even x = \<lfloor>x\<rfloor> + 1 \<and> 1 / 2 \<le> x - of_int \<lfloor>x\<rfloor>"
    unfolding to_even_def Let_def by (simp only: split: if_split) linarith
  ultimately show ?thesis by (auto simp: abs_le_iff)
qed

lemma to_even_mono: "x \<le> y \<Longrightarrow> to_even x \<le> to_even y"
proof (cases "\<lfloor>x\<rfloor> = \<lfloor>y\<rfloor>")
  case True
  assume "x \<le> y"
  then show ?thesis using True unfolding to_even_def Let_def by auto
next
  case False
  assume "x \<le> y"
  then have "\<lfloor>x\<rfloor> \<le> \<lfloor>y\<rfloor>" by (rule floor_mono)
  with False have "\<lfloor>x\<rfloor> + 1 \<le> \<lfloor>y\<rfloor>" by simp
  moreover have "to_even x \<le> \<lfloor>x\<rfloor> + 1" "\<lfloor>y\<rfloor> \<le> to_even y" by (auto simp: to_even_def Let_def)
  ultimately show ?thesis by linarith
qed

section \<open>Rounding to a double\<close>

definition expo :: "rat \<Rightarrow> int" where
  "expo x = (let (a, b) = quotient_of x; k = bitlen a - bitlen b in if 2 powi k \<le> x then k else k - 1)"

definition dbl :: "rat \<Rightarrow> rat" where
  "dbl x = (if x = 0 then 0 else let u = 2 powi (expo \<bar>x\<bar> - 52) in of_int (to_even (x / u)) * u)"

lemma bitlen_powi: "0 < a \<Longrightarrow> 2 powi (bitlen a - 1) \<le> (of_int a :: rat) \<and> (of_int a :: rat) < 2 powi bitlen a"
proof -
  assume a: "0 < a"
  then have l: "1 \<le> bitlen a" using bitlen_nonneg [of a] bitlen_eq_zero_iff [of a] by linarith
  from bitlen_bounds [OF a] have "(of_int (2 ^ nat (bitlen a - 1)) :: rat) \<le> of_int a" "(of_int a :: rat) < of_int (2 ^ nat (bitlen a))"
    by (simp_all only: of_int_le_iff of_int_less_iff)
  then show ?thesis using l by (simp add: power_int_def)
qed

lemma expo_bounds:
  assumes "0 < x"
  shows "2 powi expo x \<le> x" "x < 2 powi (expo x + 1)"
proof -
  obtain a b where q: "quotient_of x = (a, b)" by (cases "quotient_of x") auto
  have x: "x = of_int a / of_int b" "0 < b" using quotient_of_div [OF q] quotient_of_denom_pos [OF q] by auto
  then have a: "0 < a" using assms by (simp add: zero_less_divide_iff)
  note ab = bitlen_powi [OF a] bitlen_powi [OF x(2)]
  have "x < 2 powi bitlen a / 2 powi (bitlen b - 1)"
    unfolding x(1) by (rule frac_less) (use ab x a in auto)
  then have up: "x < 2 powi (bitlen a - bitlen b + 1)" by (simp add: power_int_diff power_int_add)
  have "2 powi (bitlen a - 1) / 2 powi bitlen b \<le> x"
    unfolding x(1) by (rule frac_le) (use ab x a in auto)
  then have lo: "2 powi (bitlen a - bitlen b - 1) \<le> x" by (simp add: power_int_diff)
  show "2 powi expo x \<le> x" "x < 2 powi (expo x + 1)" using up lo by (auto simp: expo_def q Let_def)
qed

lemma powi_le_iff: "(2 powi m :: rat) \<le> 2 powi n \<longleftrightarrow> m \<le> n"
  using power_int_increasing [of m n "2 :: rat"] power_int_strict_increasing [of n m "2 :: rat"] by (cases "m \<le> n") auto

lemma powi_less_iff: "(2 powi m :: rat) < 2 powi n \<longleftrightarrow> m < n"
  using powi_le_iff [of n m] by linarith

lemma dbl_0 [simp]: "dbl 0 = 0"
  by (simp add: dbl_def)

lemma dbl_err: "\<bar>dbl x - x\<bar> \<le> \<bar>x\<bar> / 2 ^ 53"
proof (cases "x = 0")
  case False
  let ?u = "2 powi (expo \<bar>x\<bar> - 52) :: rat"
  have u: "0 < ?u" by simp
  have "dbl x - x = (of_int (to_even (x / ?u)) - x / ?u) * ?u" using False by (simp add: dbl_def Let_def left_diff_distrib)
  then have "\<bar>dbl x - x\<bar> = \<bar>of_int (to_even (x / ?u)) - x / ?u\<bar> * ?u" using u by (simp only: abs_mult) simp
  also have "\<dots> \<le> 1 / 2 * ?u" by (rule mult_right_mono [OF to_even_err]) simp
  also have "\<dots> = 2 powi expo \<bar>x\<bar> / 2 ^ 53" by (simp add: power_int_diff)
  also have "\<dots> \<le> \<bar>x\<bar> / 2 ^ 53" using expo_bounds(1) [of "\<bar>x\<bar>"] False by (simp add: divide_right_mono)
  finally show ?thesis .
qed simp

lemma dbl_pos: "0 < x \<Longrightarrow> dbl x = of_int (to_even (x / 2 powi (expo x - 52))) * 2 powi (expo x - 52)"
  by (simp add: dbl_def Let_def)

lemma dbl_nonneg:
  assumes "0 \<le> x"
  shows "0 \<le> dbl x"
proof (cases "x = 0")
  case False
  with assms have x: "0 < x" by simp
  have "to_even (of_int 0) \<le> to_even (x / 2 powi (expo x - 52))" using x by (intro to_even_mono) simp
  then have "0 \<le> to_even (x / 2 powi (expo x - 52))" by (simp only: to_even_of_int)
  then show ?thesis using x by (simp add: dbl_pos)
qed simp

text \<open>A double of the binade of x is between the two powers of two.\<close>

lemma dbl_binade:
  assumes "0 < x"
  shows "2 powi expo x \<le> dbl x" "dbl x \<le> 2 powi (expo x + 1)"
proof -
  let ?u = "2 powi (expo x - 52) :: rat"
  have p: "(2 :: rat) powi expo x = of_int (2 ^ 52) * ?u" "(2 :: rat) powi (expo x + 1) = of_int (2 ^ 53) * ?u"
    by (simp_all add: power_int_diff power_int_add)
  have "of_int (2 ^ 52) \<le> x / ?u" "x / ?u \<le> of_int (2 ^ 53)"
    using expo_bounds [OF assms] unfolding p by (simp_all add: pos_le_divide_eq pos_divide_le_eq)
  then have "2 ^ 52 \<le> to_even (x / ?u)" "to_even (x / ?u) \<le> 2 ^ 53"
    using to_even_mono to_even_of_int by metis+
  then have "(of_int (2 ^ 52) :: rat) \<le> of_int (to_even (x / ?u))" "of_int (to_even (x / ?u)) \<le> (of_int (2 ^ 53) :: rat)"
    by (simp_all only: of_int_le_iff)
  then show "2 powi expo x \<le> dbl x" "dbl x \<le> 2 powi (expo x + 1)"
    unfolding p dbl_pos [OF assms] by (simp_all only: mult_right_mono zero_le_power_int)
qed

lemma dbl_mono:
  assumes "0 \<le> x" "x \<le> y"
  shows "dbl x \<le> dbl y"
proof (cases "x = 0")
  case True
  then show ?thesis using assms by (simp add: dbl_nonneg)
next
  case False
  with assms have xy: "0 < x" "0 < y" by auto
  have "(2 :: rat) powi expo x < 2 powi (expo y + 1)" using expo_bounds(1) [OF xy(1)] expo_bounds(2) [OF xy(2)] assms by linarith
  then have "expo x < expo y + 1" by (simp only: powi_less_iff)
  then consider "expo x = expo y" | "expo x + 1 \<le> expo y" by linarith
  then show ?thesis
  proof cases
    case 1
    then show ?thesis using assms unfolding dbl_pos [OF xy(1)] dbl_pos [OF xy(2)]
      by (auto intro!: mult_right_mono to_even_mono divide_right_mono)
  next
    case 2
    then have "(2 :: rat) powi (expo x + 1) \<le> 2 powi expo y" by (simp only: powi_le_iff)
    then show ?thesis using dbl_binade(2) [OF xy(1)] dbl_binade(1) [OF xy(2)] by linarith
  qed
qed

lemma dbl_int [simp]:
  assumes "0 \<le> n" "n < 2 ^ 53"
  shows "dbl (of_int n) = of_int n"
proof (cases "n = 0")
  case False
  with assms have x: "0 < (of_int n :: rat)" by simp
  have "(of_int n :: rat) < of_int (2 ^ 53)" using assms(2) by (simp only: of_int_less_iff)
  also have "\<dots> = 2 powi 53" by (simp add: power_int_def)
  finally have "(2 :: rat) powi expo (of_int n) < 2 powi 53" using expo_bounds(1) [OF x] by linarith
  then have e: "expo (of_int n) \<le> 52" by (simp only: powi_less_iff)
  have u: "(2 :: rat) powi (expo (of_int n) - 52) = inverse (2 ^ nat (52 - expo (of_int n)))"
    using e by (auto simp: power_int_def power_one_over inverse_eq_divide)
  have "(of_int n :: rat) / 2 powi (expo (of_int n) - 52) = of_int (n * 2 ^ nat (52 - expo (of_int n)))"
    by (simp add: u divide_inverse)
  then have "to_even (of_int n / 2 powi (expo (of_int n) - 52)) = n * 2 ^ nat (52 - expo (of_int n))"
    by (simp only: to_even_of_int)
  then show ?thesis unfolding dbl_pos [OF x] by (simp add: u)
qed simp

lemma dbl_nat [simp]: "n < 2 ^ 53 \<Longrightarrow> dbl (of_nat n) = of_nat n"
  using dbl_int [of "int n"] by simp

section \<open>%.pf\<close>

definition fixed :: "nat \<Rightarrow> rat \<Rightarrow> string" where
  "fixed p x =
     (let n = nat (to_even (\<bar>x\<bar> * 10 ^ p));
          d = show_nat 10 (n mod 10 ^ p)
      in (if x < 0 then ''-'' else '''') @ show_nat 10 (n div 10 ^ p)
           @ (if p = 0 then '''' else ''.'' @ replicate (p - length d) (CHR ''0'') @ d))"

section \<open>The clock\<close>

text \<open>\<open>ts.tv_sec + ts.tv_nsec * 1e-9\<close>: both fields are converted, the literal is a double, and both operations round.\<close>

datatype timespec = Timespec (tv_sec: int) (tv_nsec: int)

definition seconds :: "timespec \<Rightarrow> rat" where
  "seconds ts = dbl (dbl (of_int (tv_sec ts)) + dbl (dbl (of_int (tv_nsec ts)) * dbl (1 / 10 ^ 9)))"

definition now_sec :: "world \<Rightarrow> rat \<times> world" where
  "now_sec w =
     (let w = call ''clock_gettime'' [S ''CLOCK_MONOTONIC''] w
      in (seconds (Timespec (field ''clock_gettime'' ''tv_sec'' w) (field ''clock_gettime'' ''tv_nsec'' w)), w))"

text \<open>Times are ordered by the seconds and then by the nanoseconds.\<close>

instantiation timespec :: linorder
begin

definition less_eq_timespec :: "timespec \<Rightarrow> timespec \<Rightarrow> bool" where
  "t \<le> t' \<longleftrightarrow> tv_sec t < tv_sec t' \<or> tv_sec t = tv_sec t' \<and> tv_nsec t \<le> tv_nsec t'"

definition less_timespec :: "timespec \<Rightarrow> timespec \<Rightarrow> bool" where
  "t < t' \<longleftrightarrow> tv_sec t < tv_sec t' \<or> tv_sec t = tv_sec t' \<and> tv_nsec t < tv_nsec t'"

instance
  by standard (auto simp: less_eq_timespec_def less_timespec_def timespec.expand)

end

text \<open>What clock_gettime(2) documents of the monotonic clock: the fields are in range and it does not go back.  The
  clock may answer differently at every point of the log.\<close>

definition clock_at :: "(event list \<Rightarrow> int) \<Rightarrow> event list \<Rightarrow> timespec" where
  "clock_at sy l =
     Timespec (sy (l @ [Sys ''clock_gettime'' [S ''tv_sec'']])) (sy (l @ [Sys ''clock_gettime'' [S ''tv_nsec'']]))"

fun clock_ok :: "timespec \<Rightarrow> bool" where
  "clock_ok (Timespec s n) \<longleftrightarrow> 0 \<le> s \<and> s < 2 ^ 52 \<and> 0 \<le> n \<and> n < 10 ^ 9"

definition monotonic :: "(event list \<Rightarrow> int) \<Rightarrow> bool" where
  "monotonic sy \<longleftrightarrow> (\<forall>l d. clock_ok (clock_at sy l) \<and> clock_at sy l \<le> clock_at sy (l @ d))"

text \<open>The worlds a run goes through: the system stays the same and the log grows.\<close>

definition goes_on :: "world \<Rightarrow> world \<Rightarrow> bool" where
  "goes_on w w' \<longleftrightarrow> os w' = os w \<and> (\<exists>d. log w' = log w @ d)"

lemma goes_on_refl [simp]: "goes_on w w"
  by (simp add: goes_on_def)

lemma goes_on_trans: "goes_on w w' \<Longrightarrow> goes_on w' w'' \<Longrightarrow> goes_on w w''"
  by (auto simp: goes_on_def)

abbreviation clock_world :: "world \<Rightarrow> world" where
  "clock_world w \<equiv> w\<lparr>log := log w @ [Sys ''clock_gettime'' [S ''CLOCK_MONOTONIC'']]\<rparr>"

lemma now_sec_simp: "now_sec w = (seconds (clock_at (os w) (log (clock_world w))), clock_world w)"
  by (simp add: now_sec_def call_simp field_def clock_at_def)

section \<open>What rounding does to times\<close>

abbreviation part :: "int \<Rightarrow> rat" where
  "part n \<equiv> dbl (dbl (of_int n) * dbl (1 / 10 ^ 9))"

lemma nano_near: "dbl (1 / 10 ^ 9) \<le> 1 / 10 ^ 9 + 1 / (10 ^ 9 * 2 ^ 53)" "1 / 10 ^ 9 - 1 / (10 ^ 9 * 2 ^ 53) \<le> dbl (1 / 10 ^ 9)"
proof -
  have "\<bar>(1 :: rat) / 10 ^ 9\<bar> / 2 ^ 53 = 1 / (10 ^ 9 * 2 ^ 53)" by simp
  then have "\<bar>dbl (1 / 10 ^ 9) - 1 / 10 ^ 9\<bar> \<le> 1 / (10 ^ 9 * 2 ^ 53)" using dbl_err [of "1 / 10 ^ 9"] by (simp only:)
  then show "dbl (1 / 10 ^ 9) \<le> 1 / 10 ^ 9 + 1 / (10 ^ 9 * 2 ^ 53)" "1 / 10 ^ 9 - 1 / (10 ^ 9 * 2 ^ 53) \<le> dbl (1 / 10 ^ 9)"
    by linarith+
qed

lemma part_bounds:
  assumes "0 \<le> n" "n < 10 ^ 9"
  shows "0 \<le> part n" "part n \<le> 1"
proof -
  have d: "dbl (of_int n) = of_int n" using assms by (intro dbl_int) auto
  have p: "0 \<le> dbl (1 / 10 ^ 9)" by (intro dbl_nonneg) simp
  then have m: "0 \<le> of_int n * dbl (1 / 10 ^ 9)" using assms by (intro mult_nonneg_nonneg) simp_all
  then show "0 \<le> part n" unfolding d by (rule dbl_nonneg)
  have "(of_int n :: rat) \<le> of_int (10 ^ 9 - 1)" using assms by (simp only: of_int_le_iff)
  then have "of_int n * dbl (1 / 10 ^ 9) \<le> of_int (10 ^ 9 - 1) * (1 / 10 ^ 9 + 1 / (10 ^ 9 * 2 ^ 53))"
    using assms p by (intro mult_mono nano_near) simp_all
  then have "of_int n * dbl (1 / 10 ^ 9) \<le> 1" by (simp add: field_simps)
  from dbl_mono [OF m this] show "part n \<le> 1" unfolding d using dbl_int [of 1] by simp
qed

lemma part_mono: "0 \<le> n \<Longrightarrow> n \<le> n' \<Longrightarrow> part n \<le> part n'"
  by (intro dbl_mono mult_nonneg_nonneg mult_right_mono) (simp_all add: dbl_nonneg dbl_mono)

lemma seconds_mono:
  assumes c: "clock_ok c" "clock_ok c'" and le: "c \<le> c'"
  shows "0 \<le> seconds c" "seconds c \<le> seconds c'"
proof -
  obtain s n s' n' where e: "c = Timespec s n" "c' = Timespec s' n'" by (metis timespec.exhaust)
  have d: "dbl (of_int s) = of_int s" "dbl (of_int s') = of_int s'" "dbl (of_int (s + 1)) = of_int (s + 1)"
    by (rule dbl_int, use c e in \<open>simp, simp\<close>)+
  note p = part_bounds [of n] part_bounds [of n']
  have 0: "0 \<le> of_int s + part n" using c e p by simp
  then show "0 \<le> seconds c" by (simp add: e seconds_def d dbl_nonneg)
  consider "s + 1 \<le> s'" | "s = s'" "n \<le> n'" using le e by (force simp: less_eq_timespec_def)
  then have "dbl (of_int s + part n) \<le> dbl (of_int s' + part n')"
  proof cases
    case 1
    have "dbl (of_int s + part n) \<le> of_int (s + 1)"
      using dbl_mono [OF 0, of "of_int (s + 1)"] p(2) c e unfolding d by simp
    also have "\<dots> \<le> of_int s'" using 1 by (simp only: of_int_le_iff)
    also have "\<dots> \<le> dbl (of_int s' + part n')"
      using dbl_mono [of "of_int s'" "of_int s' + part n'"] p(3) c e unfolding d by simp
    finally show ?thesis .
  next
    case 2
    then show ?thesis using part_mono [of n n'] c e 0 by (intro dbl_mono) simp_all
  qed
  then show "seconds c \<le> seconds c'" by (simp add: e seconds_def d)
qed

text \<open>A difference of two readings is not negative.\<close>

lemma elapsed_nonneg:
  assumes m: "monotonic (os w)" and t0: "now_sec w = (t0, w1)" and w2: "goes_on w1 w2" and t1: "now_sec w2 = (t1, w3)"
  shows "0 \<le> dbl (t1 - t0)" "goes_on w w3"
proof -
  have e: "w1 = clock_world w" "w3 = clock_world w2" "t0 = seconds (clock_at (os w) (log w1))"
    "t1 = seconds (clock_at (os w2) (log w3))" using t0 t1 unfolding now_sec_simp by auto
  obtain d where d: "log w2 = log w1 @ d" "os w2 = os w" using w2 unfolding goes_on_def e by auto
  have l: "log w3 = log w1 @ (d @ [Sys ''clock_gettime'' [S ''CLOCK_MONOTONIC'']])" by (simp add: e(2) d)
  have "t0 \<le> t1" unfolding e(3,4) d(2) l using m by (intro seconds_mono) (auto simp: monotonic_def)
  then show "0 \<le> dbl (t1 - t0)" by (simp add: dbl_nonneg)
  show "goes_on w w3" by (simp add: goes_on_def e d)
qed

text \<open>How far a reading is from the clock.\<close>

lemma seconds_err:
  assumes "clock_ok (Timespec s n)"
  shows "\<bar>seconds (Timespec s n) - (of_int s + of_int n / 10 ^ 9)\<bar> \<le> (of_int s + 4) / 2 ^ 53"
proof -
  have d: "dbl (of_int s) = of_int s" "dbl (of_int n) = of_int n" using assms by (auto intro!: dbl_int)
  have n: "0 \<le> (of_int n :: rat)" "(of_int n :: rat) \<le> 10 ^ 9"
    using assms by simp_all
  let ?q = "of_int n * dbl (1 / 10 ^ 9)"
  have "?q - of_int n / 10 ^ 9 = of_int n * (dbl (1 / 10 ^ 9) - 1 / 10 ^ 9)" by (simp add: right_diff_distrib)
  then have "\<bar>?q - of_int n / 10 ^ 9\<bar> = of_int n * \<bar>dbl (1 / 10 ^ 9) - 1 / 10 ^ 9\<bar>" using n(1) by (simp only: abs_mult abs_of_nonneg)
  also have "\<dots> \<le> 10 ^ 9 * (\<bar>1 / 10 ^ 9\<bar> / 2 ^ 53)" by (rule mult_mono [OF n(2) dbl_err]) simp_all
  finally have q: "\<bar>?q - of_int n / 10 ^ 9\<bar> \<le> 1 / 2 ^ 53" by simp
  have "of_int n / 10 ^ 9 \<le> (1 :: rat)" "0 \<le> of_int n / (10 ^ 9 :: rat)" using n by simp_all
  with q have q1: "\<bar>?q\<bar> \<le> 1 + 1 / 2 ^ 53" by linarith
  have p: "\<bar>dbl ?q - ?q\<bar> \<le> (1 + 1 / 2 ^ 53) / 2 ^ 53" using dbl_err [of ?q] q1 by (simp add: field_simps)
  have s: "\<bar>of_int s + dbl ?q\<bar> \<le> of_int s + 1" using part_bounds [of n] assms by (simp add: d)
  have "\<bar>dbl (of_int s + dbl ?q) - (of_int s + dbl ?q)\<bar> \<le> (of_int s + 1) / 2 ^ 53"
    using dbl_err [of "of_int s + dbl ?q"] s by (simp add: field_simps)
  then have "\<bar>dbl (of_int s + dbl ?q) - (of_int s + of_int n / 10 ^ 9)\<bar>
      \<le> (of_int s + 1) / 2 ^ 53 + (1 + 1 / 2 ^ 53) / 2 ^ 53 + 1 / 2 ^ 53" using p q by linarith
  also have "\<dots> \<le> (of_int s + 4) / 2 ^ 53" by (simp add: field_simps)
  finally show ?thesis by (simp add: seconds_def d)
qed


end
