(* ===== verification/Benchmarks.thy ===== *)
theory Benchmarks
  imports Doubles Proc_Status Fundamentals Thread_Demos
begin

text \<open>
  The four programs that measure time, whole: src/05_mmap/08_map_populate.c, src/00_fundamentals/01_memory_hierarchy.c (Fundamentals has the shuffle,
  the chain and the chase), src/00_fundamentals/04_cacheline_falsesharing.c (Fundamentals has the layouts) and
  src/09_threads_memory/06_mutex_vs_atomic.c.  Doubles has their arithmetic and the clock.
\<close>

section \<open>Nanoseconds per operation\<close>

definition per_op :: "rat \<Rightarrow> rat \<Rightarrow> nat \<Rightarrow> rat" where
  "per_op t0 t1 iters = dbl (dbl (dbl (t1 - t0) * 10 ^ 9) / dbl (of_nat iters))"

text \<open>Rounding a value near y.\<close>

lemma dbl_near:
  assumes "\<bar>x - y\<bar> \<le> e" "\<bar>y\<bar> \<le> b"
  shows "\<bar>dbl x - y\<bar> \<le> e + (b + e) / 2 ^ 53"
proof -
  have "\<bar>x\<bar> \<le> b + e" using assms by linarith
  then have "\<bar>x\<bar> / 2 ^ 53 \<le> (b + e) / 2 ^ 53" by (simp add: divide_right_mono)
  then show ?thesis using dbl_err [of x] assms(1) by linarith
qed

lemma scaled:
  fixes c :: rat
  assumes "\<bar>a - b\<bar> \<le> e" "0 \<le> c"
  shows "\<bar>a * c - b * c\<bar> \<le> e * c"
proof -
  have "a * c - b * c = (a - b) * c" by (simp only: left_diff_distrib)
  then show ?thesis using assms by (simp add: abs_mult mult_right_mono)
qed

text \<open>The error of the time per operation, when both readings and the time between them are bounded by b.\<close>

lemma per_op_near:
  assumes t: "\<bar>t0 - x0\<bar> \<le> b / 2 ^ 53" "\<bar>t1 - x1\<bar> \<le> b / 2 ^ 53" and x: "\<bar>x1 - x0\<bar> \<le> b"
    and it: "0 < iters" "iters < 2 ^ 53"
  shows "\<bar>per_op t0 t1 iters - (x1 - x0) * 10 ^ 9 / of_nat iters\<bar> \<le> 6 / 2 ^ 53 * b * 10 ^ 9 / of_nat iters"
proof -
  define d k y where "d = x1 - x0" and "k = (of_nat iters :: rat)" and "y = b * 10 ^ 9 / k"
  have k: "dbl k = k" "0 < k" using it by (simp_all add: k_def)
  have b: "0 \<le> b" using x by linarith
  then have y: "0 \<le> y" using k(2) by (simp add: y_def)
  have "\<bar>(t1 - t0) - d\<bar> \<le> 2 * (b / 2 ^ 53)" using t(1,2) unfolding d_def by linarith
  from dbl_near [OF this, of b] x have "\<bar>dbl (t1 - t0) - d\<bar> \<le> 31 / 10 * b / 2 ^ 53" using b by (simp add: d_def)
  from scaled [OF this, of "10 ^ 9"] have "\<bar>dbl (t1 - t0) * 10 ^ 9 - d * 10 ^ 9\<bar> \<le> 31 / 10 * b / 2 ^ 53 * 10 ^ 9" by simp
  moreover have "\<bar>d * 10 ^ 9\<bar> \<le> b * 10 ^ 9" using x by (simp add: d_def abs_mult)
  ultimately have "\<bar>dbl (dbl (t1 - t0) * 10 ^ 9) - d * 10 ^ 9\<bar>
      \<le> 31 / 10 * b / 2 ^ 53 * 10 ^ 9 + (b * 10 ^ 9 + 31 / 10 * b / 2 ^ 53 * 10 ^ 9) / 2 ^ 53" by (rule dbl_near)
  then have "\<bar>dbl (dbl (t1 - t0) * 10 ^ 9) - d * 10 ^ 9\<bar> \<le> 42 / 10 / 2 ^ 53 * (b * 10 ^ 9)" using b by simp
  from scaled [OF this, of "1 / k"] have "\<bar>dbl (dbl (t1 - t0) * 10 ^ 9) / k - d * 10 ^ 9 / k\<bar> \<le> 42 / 10 / 2 ^ 53 * y"
    using k(2) by (simp add: y_def)
  moreover have "\<bar>d * 10 ^ 9 / k\<bar> \<le> y" using x k(2) by (simp add: y_def d_def abs_mult divide_right_mono)
  ultimately have "\<bar>dbl (dbl (dbl (t1 - t0) * 10 ^ 9) / k) - d * 10 ^ 9 / k\<bar> \<le> 42 / 10 / 2 ^ 53 * y + (y + 42 / 10 / 2 ^ 53 * y) / 2 ^ 53"
    by (rule dbl_near)
  then have "\<bar>dbl (dbl (dbl (t1 - t0) * 10 ^ 9) / k) - d * 10 ^ 9 / k\<bar> \<le> 6 / 2 ^ 53 * y" using y by simp
  then show ?thesis by (simp add: per_op_def d_def [symmetric] k_def [symmetric] k(1) y_def)
qed

text \<open>What the programs print of two readings: a time that is not negative, and as near the exact one as doubles
  allow.  The error of the elapsed time is at most 6 / 2^53 of the reading of the clock in seconds (plus
  4), which is then divided by the number of operations.\<close>

definition exact_secs :: "timespec \<Rightarrow> timespec \<Rightarrow> rat" where
  "exact_secs c c' = (of_int (tv_sec c') + of_int (tv_nsec c') / 10 ^ 9) - (of_int (tv_sec c) + of_int (tv_nsec c) / 10 ^ 9)"

definition timed :: "nat \<Rightarrow> timespec \<Rightarrow> timespec \<Rightarrow> rat \<Rightarrow> bool" where
  "timed iters c c' t \<longleftrightarrow> 0 \<le> t \<and>
     \<bar>t - exact_secs c c' * 10 ^ 9 / of_nat iters\<bar> \<le> 6 / 2 ^ 53 * (of_int (tv_sec c') + 4) * 10 ^ 9 / of_nat iters"

lemma per_op_nonneg:
  assumes "0 \<le> dbl (t1 - t0)"
  shows "0 \<le> per_op t0 t1 iters"
  unfolding per_op_def by (rule dbl_nonneg, rule divide_nonneg_nonneg, rule dbl_nonneg, rule mult_nonneg_nonneg)
    (use assms in \<open>simp_all add: dbl_nonneg\<close>)

lemma exact_bounds:
  assumes "clock_ok c"
  shows "0 \<le> of_int (tv_sec c) + of_int (tv_nsec c) / (10 ^ 9 :: rat)"
    "of_int (tv_sec c) + of_int (tv_nsec c) / 10 ^ 9 \<le> (of_int (tv_sec c) + 1 :: rat)"
proof -
  obtain s n where c: "c = Timespec s n" by (cases c)
  have n: "0 \<le> n" "n < 10 ^ 9" "0 \<le> s" using assms by (simp_all add: c)
  then have "0 \<le> of_int n / (10 ^ 9 :: rat)" "of_int n / (10 ^ 9 :: rat) \<le> 1" by simp_all
  moreover have "(0 :: rat) \<le> of_int s" using n by simp
  ultimately show "0 \<le> of_int (tv_sec c) + of_int (tv_nsec c) / (10 ^ 9 :: rat)"
    "of_int (tv_sec c) + of_int (tv_nsec c) / 10 ^ 9 \<le> (of_int (tv_sec c) + 1 :: rat)" by (simp_all add: c)
qed

lemma readings_timed:
  assumes c: "clock_ok c" "clock_ok c'" "c \<le> c'" and it: "0 < iters" "iters < 2 ^ 53"
  shows "timed iters c c' (per_op (seconds c) (seconds c') iters)"
proof -
  define b :: rat where "b = of_int (tv_sec c') + 4"
  have le: "(of_int (tv_sec c) :: rat) \<le> of_int (tv_sec c')" using c(3) by (auto simp: less_eq_timespec_def)
  have e: "\<bar>seconds x - (of_int (tv_sec x) + of_int (tv_nsec x) / 10 ^ 9)\<bar> \<le> (of_int (tv_sec x) + 4) / 2 ^ 53" if "clock_ok x" for x
    using seconds_err [of "tv_sec x" "tv_nsec x"] that by simp
  have "(of_int (tv_sec c) + 4) / 2 ^ 53 \<le> b / 2 ^ 53" using le by (intro divide_right_mono) (simp_all add: b_def)
  with e [OF c(1)] have "\<bar>seconds c - (of_int (tv_sec c) + of_int (tv_nsec c) / 10 ^ 9)\<bar> \<le> b / 2 ^ 53" by (rule order_trans)
  moreover have "\<bar>(of_int (tv_sec c') + of_int (tv_nsec c') / 10 ^ 9) - (of_int (tv_sec c) + of_int (tv_nsec c) / 10 ^ 9)\<bar> \<le> b"
    using exact_bounds [OF c(1)] exact_bounds [OF c(2)] le unfolding b_def by linarith
  ultimately have "\<bar>per_op (seconds c) (seconds c') iters - exact_secs c c' * 10 ^ 9 / of_nat iters\<bar> \<le> 6 / 2 ^ 53 * b * 10 ^ 9 / of_nat iters"
    using per_op_near [OF _ e [OF c(2), folded b_def] _ it] unfolding exact_secs_def by blast
  moreover have "0 \<le> dbl (seconds c' - seconds c)" using seconds_mono [OF c] by (simp add: dbl_nonneg)
  ultimately show ?thesis using per_op_nonneg unfolding timed_def b_def by blast
qed

text \<open>The calls of one function in a stretch es of the log that begins after l, each as the log up to and with it;
  their answers are the values of the system there.\<close>

fun calls :: "string \<Rightarrow> event list \<Rightarrow> event list \<Rightarrow> event list list" where
  "calls f l [] = []"
| "calls f l (Sys g as # es) = (if g = f then [l @ [Sys g as]] else []) @ calls f (l @ [Sys g as]) es"
| "calls f l (e # es) = calls f (l @ [e]) es"

lemma calls_append [simp]: "calls f l (es @ es') = calls f l es @ calls f (l @ es) es'"
  by (induction f l es rule: calls.induct) simp_all

definition clock_readings :: "world \<Rightarrow> event list \<Rightarrow> timespec list" where
  "clock_readings w es = map (clock_at (os w)) (calls ''clock_gettime'' (log w) es)"

lemma elapsed_timed:
  assumes m: "monotonic (os w)" and t0: "now_sec w = (t0, w1)" and t1: "now_sec w1 = (t1, w2)"
    and it: "0 < iters" "iters < 2 ^ 53"
  shows "\<exists>c c' es. log w2 = log w @ es \<and> os w2 = os w \<and> (\<forall>f. calls f (log w) es = (if f = ''clock_gettime'' then calls f (log w) es else [])) \<and>
    clock_readings w es = [c, c'] \<and> timed iters c c' (per_op t0 t1 iters)" "0 \<le> dbl (t1 - t0)"
proof -
  show n: "0 \<le> dbl (t1 - t0)" by (rule elapsed_nonneg(1) [OF m t0 goes_on_refl t1])
  let ?e = "Sys ''clock_gettime'' [S ''CLOCK_MONOTONIC'']"
  have e: "w1 = clock_world w" "w2 = clock_world w1" "t0 = seconds (clock_at (os w) (log w @ [?e]))"
    "t1 = seconds (clock_at (os w) (log w @ [?e, ?e]))" using t0 t1 unfolding now_sec_simp by auto
  have c: "clock_ok (clock_at (os w) x)" for x using m by (simp add: monotonic_def)
  have "clock_at (os w) (log w @ [?e]) \<le> clock_at (os w) ((log w @ [?e]) @ [?e])" using m unfolding monotonic_def by blast
  then have "timed iters (clock_at (os w) (log w @ [?e])) (clock_at (os w) (log w @ [?e, ?e])) (per_op t0 t1 iters)"
    unfolding e(3,4) by (intro readings_timed c it) simp
  then show "\<exists>c c' es. log w2 = log w @ es \<and> os w2 = os w \<and> (\<forall>f. calls f (log w) es = (if f = ''clock_gettime'' then calls f (log w) es else [])) \<and>
    clock_readings w es = [c, c'] \<and> timed iters c c' (per_op t0 t1 iters)"
    by (intro exI [of _ "clock_at (os w) (log w @ [?e])"] exI [of _ "clock_at (os w) (log w @ [?e, ?e])"] exI [of _ "[?e, ?e]"])
      (simp add: e(1,2) clock_readings_def)
qed

section \<open>01_memory_hierarchy.c\<close>

text \<open>The values of rand and the indeterminate contents of the block from aligned_alloc are answers of the system.\<close>

definition rand_of :: "world \<Rightarrow> nat \<Rightarrow> nat" where
  "rand_of w i = nat (os w (log w @ [Sys ''rand'' [I (int i)]]))"

definition old_slots :: "nat \<Rightarrow> world \<Rightarrow> nat list" where
  "old_slots n w = map (\<lambda>i. nat (os w (log w @ [Sys ''slot'' [I (int i)]]))) [0..<n]"

definition timed_measure :: "nat \<Rightarrow> nat \<Rightarrow> world \<Rightarrow> (rat \<times> world) option" where
  "timed_measure bytes iters w =
     (let n = bytes div 8;
          (p, w) = sys ''aligned_alloc'' [I 64, I (int (mul64 n 8))] w
      in if p = 0 then Some (-1, w)
         else do {
           let (q, w) = sys ''malloc'' [I (int (mul64 n 8))] w;
           idx \<leftarrow> (if n = 0 then Some [] else if q = 0 then None else Some [0..<n]);
           buf \<leftarrow> build_chain (rand_of w) n idx (old_slots n w);
           let (t0, w) = now_sec w;
           k \<leftarrow> chase buf iters 0;
           let (t1, w) = now_sec w;
           let w = (if k = 2 ^ 64 - 1 then eprintf ''unreachable'' [] w else w);
           let w = call ''free'' [I q] w;
           Some (per_op t0 t1 iters, call ''free'' [I p] w)})"

definition size_line :: "nat \<Rightarrow> rat \<Rightarrow> string \<times> arg list" where
  "size_line sz ns =
     (if sz \<ge> 1024 * 1024 then (''%5zu MiB    %8.2f'', [I (int (sz div (1024 * 1024))), S (fixed 2 ns)])
      else (''%5zu KiB    %8.2f'', [I (int (sz div 1024)), S (fixed 2 ns)]))"

definition size_step :: "nat \<Rightarrow> world \<Rightarrow> world option" where
  "size_step sz w = do {
     (ns, w) \<leftarrow> timed_measure sz (iters_of sz) w;
     let (fmt, args) = size_line sz ns;
     Some (printf fmt args w)}"

definition hierarchy_main :: "world \<Rightarrow> (int \<times> world) option" where
  "hierarchy_main w = do {
     let w = call ''srand'' [I 42] w;
     let w = printf ''%-12s  %-10s'' [S ''size'', S ''ns/access''] w;
     let w = printf ''%-12s  %-10s'' [S ''----'', S ''----------''] w;
     w \<leftarrow> for_list size_step sizes w;
     Some (0, w)}"

lemma now_sec_prints: "now_sec w = (t, w') \<Longrightarrow> printed w' = printed w"
  by (auto simp: now_sec_simp printed_def)

lemma goes_on_log: "goes_on w (w\<lparr>log := log w @ d\<rparr>)" "goes_on w (call n as w)" "goes_on w (printf n as w)" "goes_on w (eprintf n as w)"
  by (simp_all add: goes_on_def call_simp printf_simp eprintf_def)

text \<open>What a run of timed_measure asks the system: one aligned_alloc, and then, if it succeeded, the clock twice.\<close>

lemma timed_measure_runs:
  assumes n: "8 \<le> bytes" "bytes < 2 ^ 63" and m: "monotonic (os w)" and it: "0 < iters" "iters < 2 ^ 53"
    and malloc: "\<And>l k. os w (l @ [Sys ''malloc'' [I k]]) \<noteq> 0"
  shows "\<exists>ns w' es a. timed_measure bytes iters w = Some (ns, w') \<and> os w' = os w \<and> log w' = log w @ es \<and> printed w' = printed w \<and>
    map (os w) (calls ''aligned_alloc'' (log w) es) = [a] \<and>
    (if a = 0 then ns = -1 \<and> clock_readings w es = [] else \<exists>c c'. clock_readings w es = [c, c'] \<and> timed iters c c' ns)"
proof -
  let ?n = "bytes div 8" let ?a = "Sys ''aligned_alloc'' [I 64, I (int (mul64 (bytes div 8) 8))]"
  let ?m = "Sys ''malloc'' [I (int (mul64 (bytes div 8) 8))]"
  let ?w1 = "w\<lparr>log := log w @ [?a]\<rparr>" let ?w2 = "w\<lparr>log := log w @ [?a, ?m]\<rparr>"
  let ?p = "os w (log w @ [?a])" let ?q = "os w (log w @ [?a, ?m])"
  have a: "sys ''aligned_alloc'' [I 64, I (int (mul64 ?n 8))] w = (?p, ?w1)" "sys ''malloc'' [I (int (mul64 ?n 8))] ?w1 = (?q, ?w2)"
    by (simp_all add: sys_simp)
  have q0: "?q \<noteq> 0" using malloc [of "log w @ [?a]"] by simp
  show ?thesis
  proof (cases "?p = 0")
    case True
    then have "timed_measure bytes iters w = Some (-1, ?w1)" by (simp add: timed_measure_def a(1))
    then show ?thesis using True by (intro exI [of _ "-1"] exI [of _ ?w1] exI [of _ "[?a]"] exI [of _ 0])
      (simp add: clock_readings_def printed_def)
  next
    case False
    have "0 < ?n" "?n \<le> 2 ^ 61" "length (old_slots ?n ?w2) = ?n" using n by (simp_all add: old_slots_def div_greater_zero_iff)
    then obtain b k where b: "build_chain (rand_of ?w2) ?n [0..<?n] (old_slots ?n ?w2) = Some b" "chase b iters 0 = Some k" "k < ?n"
      by (rule chain_chased)
    have k: "k \<noteq> 2 ^ 64 - 1" using b(3) \<open>?n \<le> 2 ^ 61\<close> by simp
    obtain t0 w3 where t0: "now_sec ?w2 = (t0, w3)" by (cases "now_sec ?w2")
    obtain t1 w4 where t1: "now_sec w3 = (t1, w4)" by (cases "now_sec w3")
    have "monotonic (os ?w2)" using m by simp
    from elapsed_timed(1) [OF this t0 t1 it] obtain c c' es where es: "log w4 = log ?w2 @ es" "os w4 = os w"
      "calls ''aligned_alloc'' (log ?w2) es = []" "clock_readings ?w2 es = [c, c']" "timed iters c c' (per_op t0 t1 iters)" by auto
    have pr: "printed w4 = printed w" using now_sec_prints [OF t0] now_sec_prints [OF t1] by (simp add: printed_def)
    let ?w' = "call ''free'' [I ?p] (call ''free'' [I ?q] w4)" let ?es = "[?a, ?m] @ es @ [Sys ''free'' [I ?q], Sys ''free'' [I ?p]]"
    have "timed_measure bytes iters w = Some (per_op t0 t1 iters, ?w')"
      using \<open>0 < ?n\<close> b(1,2) k q0 False unfolding timed_measure_def Let_def a prod.case t0 t1 by simp
    moreover have "log ?w' = log w @ ?es" "os ?w' = os w" "printed ?w' = printed w"
      using pr es(1,2) by (simp_all add: call_simp printed_def)
    moreover have "map (os w) (calls ''aligned_alloc'' (log w) ?es) = [?p]" "clock_readings w ?es = [c, c']"
      using es(3,4) by (simp_all add: clock_readings_def)
    ultimately show ?thesis using False es(5)
      by (intro exI [of _ "per_op t0 t1 iters"] exI [of _ ?w'] exI [of _ ?es] exI [of _ ?p]) auto
  qed
qed

text \<open>The times that go with a list of sizes, the answers of aligned_alloc and the readings of the clock: a refused
  block is reported as -1 and reads no clock, and every other size uses the next two readings.\<close>

fun report_ok :: "nat list \<Rightarrow> int list \<Rightarrow> timespec list \<Rightarrow> rat list \<Rightarrow> bool" where
  "report_ok [] [] [] [] = True"
| "report_ok (sz # xs) (a # as) cs (t # ts) =
     (if a = 0 then t = -1 \<and> report_ok xs as cs ts
      else (case cs of c # c' # cs' \<Rightarrow> timed (iters_of sz) c c' t \<and> report_ok xs as cs' ts | _ \<Rightarrow> False))"
| "report_ok _ _ _ _ = False"

lemma report_ok_length: "report_ok xs as cs ts \<Longrightarrow> length ts = length xs"
  by (induction xs as cs ts rule: report_ok.induct) (auto split: if_splits list.splits)

text \<open>The loop of main over the sizes.\<close>

lemma sizes_loop:
  assumes "\<forall>sz \<in> set xs. 8 \<le> sz \<and> sz < 2 ^ 63" "monotonic (os w)" "\<And>l k. os w (l @ [Sys ''malloc'' [I k]]) \<noteq> 0"
  shows "\<exists>w' es ts. for_list size_step xs w = Some w' \<and> os w' = os w \<and> log w' = log w @ es \<and>
    report_ok xs (map (os w) (calls ''aligned_alloc'' (log w) es)) (clock_readings w es) ts \<and> printed w' = printed w @ map2 size_line xs ts"
  using assms
proof (induction xs arbitrary: w)
  case Nil
  then show ?case by (intro exI [of _ w] exI [of _ "[]"]) (simp add: clock_readings_def)
next
  case (Cons sz xs)
  have "0 < iters_of sz" "iters_of sz < 2 ^ 53" by (simp_all add: iters_of_def)
  with timed_measure_runs [of sz w "iters_of sz"] Cons.prems obtain ns w1 es a where w1: "timed_measure sz (iters_of sz) w = Some (ns, w1)"
    "os w1 = os w" "log w1 = log w @ es" "printed w1 = printed w" "map (os w) (calls ''aligned_alloc'' (log w) es) = [a]"
    "if a = 0 then ns = -1 \<and> clock_readings w es = []
     else \<exists>c c'. clock_readings w es = [c, c'] \<and> timed (iters_of sz) c c' ns" by auto
  obtain f as where l: "size_line sz ns = (f, as)" by (metis surj_pair)
  let ?w2 = "printf f as w1"
  have o: "os ?w2 = os w" "log ?w2 = log w @ es @ [Out f as]" using w1(2,3) by (simp_all add: printf_simp)
  with Cons.IH [of ?w2] Cons.prems obtain w' es' ts where w': "for_list size_step xs ?w2 = Some w'" "os w' = os w"
    "log w' = log w @ es @ [Out f as] @ es'" "printed w' = printed ?w2 @ map2 size_line xs ts"
    "report_ok xs (map (os w) (calls ''aligned_alloc'' (log ?w2) es')) (clock_readings ?w2 es') ts" by auto
  let ?es = "es @ [Out f as] @ es'"
  have "clock_readings w ?es = clock_readings w es @ clock_readings ?w2 es'" using o by (simp add: clock_readings_def)
  moreover have "map (os w) (calls ''aligned_alloc'' (log w) ?es) = a # map (os w) (calls ''aligned_alloc'' (log ?w2) es')"
    using w1(5) o by simp
  ultimately have "report_ok (sz # xs) (map (os w) (calls ''aligned_alloc'' (log w) ?es)) (clock_readings w ?es) (ns # ts)"
    using w1(6) w'(5) by (auto split: if_splits)
  moreover have "size_step sz w = Some ?w2" using w1(1) l by (simp add: size_step_def)
  moreover have "printed ?w2 = printed w @ [size_line sz ns]" using w1(4) l by (simp add: printed_def printf_simp)
  ultimately show ?case using w' by (intro exI [of _ w'] exI [of _ ?es] exI [of _ "ns # ts"]) simp
qed

text \<open>C29. Memory hierarchy: whatever random numbers, old contents and clock readings the system gives, as long as the
  unchecked malloc succeeds and the monotonic clock keeps its fields in range (fewer than 2^52 seconds) and never goes
  back, main ends with 0 and prints the two header lines and one line per size.  A size whose
  aligned_alloc was refused is reported as -1 and reads no clock; every other size reads the clock
  twice in succession, and its time is not negative and differs from those two readings' exact difference in
  nanoseconds, divided by the number of steps, by at most 6 / 2^53 of the second reading (plus 4 s)
  divided by that number: the rounding of double arithmetic, and nothing else.\<close>

theorem hierarchy_reports:
  assumes "monotonic (os w)" "\<And>l k. os w (l @ [Sys ''malloc'' [I k]]) \<noteq> 0"
  shows "\<exists>w' es ts. hierarchy_main w = Some (0, w') \<and> log w' = log w @ es \<and>
    report_ok sizes (map (os w) (calls ''aligned_alloc'' (log w) es)) (clock_readings w es) ts \<and>
    printed w' = printed w @ [(''%-12s  %-10s'', [S ''size'', S ''ns/access'']), (''%-12s  %-10s'', [S ''----'', S ''----------''])]
      @ map2 size_line sizes ts"
proof -
  let ?e1 = "Sys ''srand'' [I 42]" let ?e2 = "Out ''%-12s  %-10s'' [S ''size'', S ''ns/access'']"
  let ?e3 = "Out ''%-12s  %-10s'' [S ''----'', S ''----------'']"
  let ?w = "w\<lparr>log := log w @ [?e1, ?e2, ?e3]\<rparr>"
  have o: "printf ''%-12s  %-10s'' [S ''----'', S ''----------''] (printf ''%-12s  %-10s'' [S ''size'', S ''ns/access'']
    (call ''srand'' [I 42] w)) = ?w" by (simp add: printf_simp call_simp)
  have "\<forall>sz \<in> set sizes. 8 \<le> sz \<and> sz < 2 ^ 63" by (simp add: sizes_def)
  with sizes_loop [of sizes ?w] assms obtain w' es ts where w': "for_list size_step sizes ?w = Some w'" "log w' = log ?w @ es"
    "report_ok sizes (map (os w) (calls ''aligned_alloc'' (log ?w) es)) (clock_readings ?w es) ts"
    "printed w' = printed ?w @ map2 size_line sizes ts" by auto
  have "hierarchy_main w = Some (0, w')" unfolding hierarchy_main_def Let_def o w'(1) by simp
  then show ?thesis using w'(2-4)
    by (intro exI [of _ w'] exI [of _ "[?e1, ?e2, ?e3] @ es"] exI [of _ ts]) (simp add: clock_readings_def printed_def)
qed

text \<open>A system whose clock stands still and that grants every request.\<close>

definition still :: "event list \<Rightarrow> int" where
  "still l = (if l = [] then 1 else case last l of Sys f as \<Rightarrow> if f = ''clock_gettime'' then 5 else 1 | _ \<Rightarrow> 1)"

abbreviation still_world :: world where
  "still_world \<equiv> \<lparr>ram = Map.empty, perm = (\<lambda>_. 0), log = [], os = still, reply = (\<lambda>_. [])\<rparr>"

lemma still_clock: "clock_at still l = Timespec 5 5"
  by (simp add: clock_at_def still_def)

lemma still_good: "monotonic still"
  by (simp add: monotonic_def still_clock)

theorem hierarchy_reports_witness:
  "\<exists>w' es ts. hierarchy_main still_world = Some (0, w') \<and> log w' = es \<and> length (printed w') = 9 \<and>
    report_ok sizes (map still (calls ''aligned_alloc'' [] es)) (clock_readings still_world es) ts"
proof -
  have "still (l @ [Sys ''malloc'' [I k]]) \<noteq> 0" for l k by (simp add: still_def)
  then obtain w' es ts where w': "hierarchy_main still_world = Some (0, w')" "log w' = es"
    "report_ok sizes (map still (calls ''aligned_alloc'' [] es)) (clock_readings still_world es) ts"
    "printed w' = printed still_world @ [(''%-12s  %-10s'', [S ''size'', S ''ns/access'']), (''%-12s  %-10s'', [S ''----'', S ''----------''])]
      @ map2 size_line sizes ts"
    using hierarchy_reports [of still_world] still_good by auto
  have "length ts = 7" using report_ok_length [OF w'(3)] by (simp add: sizes_def)
  then have "length (printed w') = 9" using w'(4) by (simp add: sizes_def printed_def)
  then show ?thesis using w'(1-3) by blast
qed

section \<open>06_mutex_vs_atomic.c\<close>

text \<open>Locking a mutex the thread already holds would block for ever, and a
  signed long must not overflow: both are None.  The atomic counter wraps.\<close>

definition BENCH_N :: nat where "BENCH_N = 50 * 1000 * 1000"

record bench =
  mu_locked :: bool
  mx_counter :: int
  at_counter :: "64 word"

definition mutex_lock :: "bench \<Rightarrow> bench option" where
  "mutex_lock b = (if mu_locked b then None else Some (b\<lparr>mu_locked := True\<rparr>))"

definition mutex_unlock :: "bench \<Rightarrow> bench" where
  "mutex_unlock b = b\<lparr>mu_locked := False\<rparr>"

definition mx_incr :: "bench \<Rightarrow> bench option" where
  "mx_incr b = (if mx_counter b + 1 < 2 ^ 63 then Some (b\<lparr>mx_counter := mx_counter b + 1\<rparr>) else None)"

fun mutex_loop :: "nat \<Rightarrow> bench \<Rightarrow> bench option" where
  "mutex_loop 0 b = Some b"
| "mutex_loop (Suc n) b = do { b \<leftarrow> mutex_lock b; b \<leftarrow> mx_incr b; mutex_loop n (mutex_unlock b) }"

fun atomic_loop :: "nat \<Rightarrow> bench \<Rightarrow> bench" where
  "atomic_loop 0 b = b"
| "atomic_loop (Suc n) b = atomic_loop n (b\<lparr>at_counter := at_counter b + 1\<rparr>)"

definition bench_line :: "string \<Rightarrow> rat \<Rightarrow> rat \<Rightarrow> world \<Rightarrow> world" where
  "bench_line fmt t0 t1 = printf fmt [I (int BENCH_N), S (fixed 3 (dbl (t1 - t0))), S (fixed 1 (per_op t0 t1 BENCH_N))]"

definition bench_main :: "world \<Rightarrow> (int \<times> bench \<times> world) option" where
  "bench_main w = do {
     let (t0, w) = now_sec w;
     b \<leftarrow> mutex_loop BENCH_N \<lparr>mu_locked = False, mx_counter = 0, at_counter = 0\<rparr>;
     let (t1, w) = now_sec w;
     let w = bench_line ''pthread_mutex 1-thread : %d ops in %.3f s  -> %.1f ns/op'' t0 t1 w;
     let (t0, w) = now_sec w;
     let b = atomic_loop BENCH_N b;
     let (t1, w) = now_sec w;
     let w = bench_line ''atomic_fetch_add        : %d ops in %.3f s  -> %.1f ns/op'' t0 t1 w;
     Some (0, b, w)}"

lemma mutex_loop_counts:
  "\<not> mu_locked b \<Longrightarrow> mx_counter b + int n < 2 ^ 63 \<Longrightarrow> mutex_loop n b = Some (b\<lparr>mx_counter := mx_counter b + int n\<rparr>)"
proof (induction n arbitrary: b)
  case (Suc n)
  have s: "b\<lparr>mu_locked := False, mx_counter := c\<rparr> = b\<lparr>mx_counter := c\<rparr>" for c using Suc.prems(1) by (cases b) simp
  show ?case using Suc by (simp add: mutex_lock_def mx_incr_def mutex_unlock_def s algebra_simps)
qed simp

lemma atomic_loop_counts: "atomic_loop n b = b\<lparr>at_counter := at_counter b + of_nat n\<rparr>"
  by (induction n arbitrary: b) (simp_all add: algebra_simps)

text \<open>Whatever the clock says, main ends with 0 and both counters at fifty million; the times of its two lines are not
  negative and near what the clock said.\<close>

lemma bench_counts:
  assumes m: "monotonic (os w)"
  shows "\<exists>w' e1 e2 t1 t2 c1 c2 c3 c4. bench_main w = Some (0, \<lparr>mu_locked = False, mx_counter = 50000000, at_counter = 50000000\<rparr>, w') \<and>
    0 \<le> e1 \<and> 0 \<le> e2 \<and> timed BENCH_N c1 c2 t1 \<and> timed BENCH_N c3 c4 t2 \<and>
    printed w' = printed w @
      [(''pthread_mutex 1-thread : %d ops in %.3f s  -> %.1f ns/op'', [I 50000000, S (fixed 3 e1), S (fixed 1 t1)]),
       (''atomic_fetch_add        : %d ops in %.3f s  -> %.1f ns/op'', [I 50000000, S (fixed 3 e2), S (fixed 1 t2)])]"
proof -
  obtain t0 w1 where a: "now_sec w = (t0, w1)" by (cases "now_sec w")
  obtain t1 w2 where b: "now_sec w1 = (t1, w2)" by (cases "now_sec w1")
  let ?w3 = "bench_line ''pthread_mutex 1-thread : %d ops in %.3f s  -> %.1f ns/op'' t0 t1 w2"
  obtain t2 w4 where c: "now_sec ?w3 = (t2, w4)" by (cases "now_sec ?w3")
  obtain t3 w5 where d: "now_sec w4 = (t3, w5)" by (cases "now_sec w4")
  have n: "0 < BENCH_N" "BENCH_N < 2 ^ 53" by (simp_all add: BENCH_N_def)
  have o: "os ?w3 = os w" using elapsed_timed(1) [OF m a b n] by (auto simp: bench_line_def printf_simp)
  have "monotonic (os ?w3)" unfolding o by (rule m)
  note e = elapsed_timed(2) [OF m a b n] elapsed_timed(2) [OF this c d n]
  obtain c1 c2 c3 c4 where r: "timed BENCH_N c1 c2 (per_op t0 t1 BENCH_N)" "timed BENCH_N c3 c4 (per_op t2 t3 BENCH_N)"
    using elapsed_timed(1) [OF m a b n] elapsed_timed(1) [OF \<open>monotonic (os ?w3)\<close> c d n] by metis
  have p: "printed w5 = printed ?w3" "printed w2 = printed w"
    using now_sec_prints [OF a] now_sec_prints [OF b] now_sec_prints [OF c] now_sec_prints [OF d] by simp_all
  have k: "mutex_loop BENCH_N \<lparr>mu_locked = False, mx_counter = 0, at_counter = 0\<rparr> = Some \<lparr>mu_locked = False, mx_counter = 50000000, at_counter = 0\<rparr>"
    "atomic_loop BENCH_N \<lparr>mu_locked = False, mx_counter = 50000000, at_counter = 0\<rparr> = \<lparr>mu_locked = False, mx_counter = 50000000, at_counter = 50000000\<rparr>"
    by (simp_all add: mutex_loop_counts atomic_loop_counts BENCH_N_def)
  have l: "printed (bench_line fmt t t' w) = printed w @ [(fmt, [I 50000000, S (fixed 3 (dbl (t' - t))), S (fixed 1 (per_op t t' BENCH_N))])]"
    for fmt t t' w by (simp add: bench_line_def BENCH_N_def printf_simp printed_def)
  show ?thesis
  proof (intro exI conjI)
    show "bench_main w = Some (0, \<lparr>mu_locked = False, mx_counter = 50000000, at_counter = 50000000\<rparr>,
        bench_line ''atomic_fetch_add        : %d ops in %.3f s  -> %.1f ns/op'' t2 t3 w5)"
      unfolding bench_main_def Let_def a b c d prod.case k(1) Option.bind.simps k(2) by (rule refl)
    show "0 \<le> dbl (t1 - t0)" "0 \<le> dbl (t3 - t2)" by (rule e)+
    show "timed BENCH_N c1 c2 (per_op t0 t1 BENCH_N)" "timed BENCH_N c3 c4 (per_op t2 t3 BENCH_N)" by (rule r)+
  qed (simp only: l p append_assoc append.simps)
qed

section \<open>04_cacheline_falsesharing.c\<close>

text \<open>Both structs have the fields a and b; a worker has a pointer to one of them.  Its increment of the volatile
  object is a read and a write.\<close>

record counters =
  ctr_a :: "64 word"
  ctr_b :: "64 word"

datatype fld = Fld_a | Fld_b

fun get_fld :: "fld \<Rightarrow> counters \<Rightarrow> 64 word" where
  "get_fld Fld_a c = ctr_a c"
| "get_fld Fld_b c = ctr_b c"

fun set_fld :: "fld \<Rightarrow> 64 word \<Rightarrow> counters \<Rightarrow> counters" where
  "set_fld Fld_a v c = c\<lparr>ctr_a := v\<rparr>"
| "set_fld Fld_b v c = c\<lparr>ctr_b := v\<rparr>"

record fs_worker =
  fs_p :: fld
  fs_i :: nat
  fs_read :: "64 word option"

record fs_shared =
  fs_ctrs :: counters
  fs_world :: world
  fs_t0 :: rat
  fs_secs :: rat

inductive fs_work :: "nat \<Rightarrow> fs_worker \<times> fs_shared \<Rightarrow> fs_worker \<times> fs_shared \<Rightarrow> bool" for k where
  fs_load: "fs_i l < ITERS \<Longrightarrow> fs_read l = None \<Longrightarrow>
    fs_work k (l, g) (l\<lparr>fs_read := Some (get_fld (fs_p l) (fs_ctrs g))\<rparr>, g)"
| fs_store: "fs_i l < ITERS \<Longrightarrow> fs_read l = Some v \<Longrightarrow>
    fs_work k (l, g) (l\<lparr>fs_read := None, fs_i := Suc (fs_i l)\<rparr>, g\<lparr>fs_ctrs := set_fld (fs_p l) (v + 1) (fs_ctrs g)\<rparr>)"

definition fs_app :: "(nat \<Rightarrow> bool) \<Rightarrow> fld \<Rightarrow> fld \<Rightarrow> (fs_worker, fs_shared) app" where
  "fs_app ok pa pb =
     \<lparr>workers = 2, create_ok = ok, init = (\<lambda>k. \<lparr>fs_p = [pa, pb] ! k, fs_i = 0, fs_read = None\<rparr>),
      ended = (\<lambda>l. \<not> fs_i l < ITERS), work = fs_work,
      before = (\<lambda>g. let (t0, w) = now_sec (fs_world g) in Some (g\<lparr>fs_world := w, fs_t0 := t0\<rparr>)),
      after = (\<lambda>c g. let (t1, w) = now_sec (fs_world g) in Some (g\<lparr>fs_world := w, fs_secs := dbl (t1 - fs_t0 g)\<rparr>))\<rparr>"

definition fs_begin :: "counters \<Rightarrow> world \<Rightarrow> fs_shared" where
  "fs_begin c w = \<lparr>fs_ctrs = c, fs_world = w, fs_t0 = 0, fs_secs = 0\<rparr>"

text \<open>run with the pointers to a and b of one struct: what it returns and leaves, on any interleaving.\<close>

definition fs_run :: "counters \<Rightarrow> world \<Rightarrow> rat \<Rightarrow> counters \<Rightarrow> world \<Rightarrow> bool" where
  "fs_run c w t c' w' \<longleftrightarrow> (\<exists>s. team_reaches (fs_app (\<lambda>_. True) Fld_a Fld_b) (fs_begin c w) s \<and> mpc s = Returned \<and>
     t = fs_secs (store s) \<and> c' = fs_ctrs (store s) \<and> w' = fs_world (store s))"

text \<open>main up to the benchmarks: a null pointer from aligned_alloc faults at the first store.\<close>

definition fs_setup :: "world \<Rightarrow> (int \<times> int \<times> world) option" where
  "fs_setup w =
     (let bsz = alloc_size (struct_size shared_bad);
          gsz = alloc_size (struct_size shared_good);
          (b, w) = sys ''aligned_alloc'' [I 64, I (int bsz)] w
      in if b = 0 then None
         else (let (g, w) = sys ''aligned_alloc'' [I 64, I (int gsz)] w
               in if g = 0 then None
                  else Some (b, g, printf ''FALSE-SHARING bench, %llu iters per thread'' [I (int ITERS)] w)))"

definition zero_counters :: counters where
  "zero_counters = \<lparr>ctr_a = 0, ctr_b = 0\<rparr>"

inductive fs_main :: "world \<Rightarrow> int \<times> counters \<times> counters \<times> world \<Rightarrow> bool" where
  "fs_setup w = Some (b, g, w0) \<Longrightarrow> fs_run zero_counters w0 t1 cb w1 \<Longrightarrow>
   w2 = printf ''  bad layout  (counters in same cache line) : %.3f s'' [S (fixed 3 t1)] w1 \<Longrightarrow>
   fs_run zero_counters w2 t2 cg w3 \<Longrightarrow>
   w4 = printf ''  good layout (counters in different lines) : %.3f s'' [S (fixed 3 t2)] w3 \<Longrightarrow>
   fs_main w (0, cb, cg, call ''free'' [I g] (call ''free'' [I b] w4))"

text \<open>What a thread knows of its counter: no other thread writes it.\<close>

definition fs_fld :: "nat \<Rightarrow> fld" where
  "fs_fld k = [Fld_a, Fld_b] ! k"

definition fs_own :: "counters \<Rightarrow> nat \<Rightarrow> fs_worker option \<Rightarrow> fs_shared \<Rightarrow> bool" where
  "fs_own c k m g \<longleftrightarrow> get_fld (fs_fld k) (fs_ctrs g) = get_fld (fs_fld k) c + (case m of None \<Rightarrow> 0 | Some l \<Rightarrow> of_nat (fs_i l)) \<and>
     (\<forall>l. m = Some l \<longrightarrow> fs_p l = fs_fld k \<and> (\<forall>v. fs_read l = Some v \<longrightarrow> v = get_fld (fs_fld k) (fs_ctrs g)))"

definition fs_winv :: "nat \<Rightarrow> fs_worker \<Rightarrow> bool" where
  "fs_winv k l \<longleftrightarrow> fs_p l = fs_fld k \<and> fs_i l \<le> ITERS"

definition fs_rank :: "fs_worker \<Rightarrow> nat" where
  "fs_rank l = 2 * (ITERS - fs_i l) + (if fs_read l = None then 1 else 0)"

inductive_cases fs_workE: "fs_work k (l, g) (l', g')"

lemma get_set_fld [simp]: "get_fld f (set_fld f' v c) = (if f = f' then v else get_fld f c)"
  by (cases f; cases f') simp_all

lemma fs_fld_inj: "i < 2 \<Longrightarrow> j < 2 \<Longrightarrow> fs_fld i = fs_fld j \<Longrightarrow> i = j"
  by (auto simp: fs_fld_def less_2_cases_iff)

interpretation sharing: fork_join_own "fs_app (\<lambda>_. True) Fld_a Fld_b" "fs_begin c w"
  "\<lambda>g. (fs_t0 g, fs_world g) = now_sec w" fs_winv "\<lambda>_ _. 0 :: nat" "\<lambda>_. 0" fs_rank "2 * ITERS + 1" "fs_own c" for c w
proof
  let ?app = "fs_app (\<lambda>_. True) Fld_a Fld_b"
  fix i l r l' and g g' :: fs_shared
  assume w: "fs_winv i l"
  show "\<not> ended ?app l \<Longrightarrow> \<exists>x. work ?app i (l, g) x"
    by (cases "fs_read l") (auto simp: fs_app_def intro: fs_load fs_store)
  assume g: "(fs_t0 g, fs_world g) = now_sec w" "(0 :: nat) = 0 + r"
  assume "work ?app i (l, g) (l', g')"
  then have "fs_work i (l, g) (l', g')" by (simp add: fs_app_def)
  then show "fs_winv i l' \<and> (fs_t0 g', fs_world g') = now_sec w \<and> (0 :: nat) = 0 + r \<and> fs_rank l' < fs_rank l"
    by (rule fs_workE) (use w g in \<open>auto simp: fs_winv_def fs_rank_def\<close>)
qed (auto simp: fs_app_def fs_begin_def fs_winv_def fs_rank_def fs_own_def fs_fld_def dest: fs_fld_inj [unfolded fs_fld_def]
    split: prod.splits option.splits elim!: fs_work.cases)


text \<open>The run of both threads has one result, although their steps interleave in any way.\<close>

lemma fs_run_result:
  assumes "fs_run c w t c' w'"
  shows "c' = \<lparr>ctr_a = ctr_a c + of_nat ITERS, ctr_b = ctr_b c + of_nat ITERS\<rparr>"
    "\<exists>t0 w1 t1. now_sec w = (t0, w1) \<and> now_sec w1 = (t1, w') \<and> t = dbl (t1 - t0)"
proof -
  obtain s where s: "team_reaches (fs_app (\<lambda>_. True) Fld_a Fld_b) (fs_begin c w) s" "mpc s = Returned"
    "t = fs_secs (store s)" "c' = fs_ctrs (store s)" "w' = fs_world (store s)" using assms by (auto simp: fs_run_def)
  from sharing.returned_owned [OF s(1,2)] obtain g where g: "\<And>i. i < 2 \<Longrightarrow> fs_own c i (crew s ! i) g"
    "(fs_t0 g, fs_world g) = now_sec w" "after (fs_app (\<lambda>_. True) Fld_a Fld_b) (crew s) g = Some (store s)"
    by (auto simp: fs_app_def)
  have e: "fs_ctrs (store s) = fs_ctrs g" "now_sec (fs_world g) = (t1, w1) \<Longrightarrow> fs_world (store s) = w1 \<and> fs_secs (store s) = dbl (t1 - fs_t0 g)" for t1 w1
    using sym [OF g(3)] by (auto simp: fs_app_def split: prod.splits)
  have "get_fld (fs_fld i) (fs_ctrs g) = get_fld (fs_fld i) c + of_nat ITERS" if i: "i < 2" for i
  proof -
    obtain l where l: "crew s ! i = Some l" "fs_winv i l" "\<not> fs_i l < ITERS"
      using sharing.returned(3) [OF s(1,2), of i] i by (auto simp: fs_app_def)
    then have "fs_i l = ITERS" by (simp add: fs_winv_def)
    then show ?thesis using g(1) [OF i] l(1) by (simp add: fs_own_def)
  qed
  from this [of 0] this [of 1] show "c' = \<lparr>ctr_a = ctr_a c + of_nat ITERS, ctr_b = ctr_b c + of_nat ITERS\<rparr>"
    unfolding s(4) e(1) by (cases "fs_ctrs g") (simp add: fs_fld_def)
  obtain t1 w1 where "now_sec (fs_world g) = (t1, w1)" by (cases "now_sec (fs_world g)")
  then show "\<exists>t0 w1 t1. now_sec w = (t0, w1) \<and> now_sec w1 = (t1, w') \<and> t = dbl (t1 - t0)"
    using e(2) g(2) s(3,5) by metis
qed

lemma fs_run_time: "fs_run c w t c' w' \<Longrightarrow> monotonic (os w) \<Longrightarrow> 0 \<le> t \<and> goes_on w w' \<and> printed w' = printed w"
  using fs_run_result(2) elapsed_nonneg [OF _ _ goes_on_refl] now_sec_prints by metis

lemma fs_run_exists: "\<exists>t c' w'. fs_run c w t c' w'"
  using sharing.can_return [of c w] by (auto simp: fs_run_def)

lemma fs_setup_world: "fs_setup w = Some (b, g, w0) \<Longrightarrow>
    goes_on w w0 \<and> printed w0 = printed w @ [(''FALSE-SHARING bench, %llu iters per thread'', [I (int ITERS)])]"
  by (auto simp: fs_setup_def Let_def sys_simp printf_simp goes_on_def printed_def split: if_splits)

lemma fs_main_result:
  assumes m: "monotonic (os w)" and s: "fs_setup w = Some (b, g, w0)" and r: "fs_main w (r, cb, cg, w')"
  shows "r = 0" "cb = \<lparr>ctr_a = 200000000, ctr_b = 200000000\<rparr>" "cg = cb"
    "\<exists>t1 t2. 0 \<le> t1 \<and> 0 \<le> t2 \<and> printed w' = printed w @
      [(''FALSE-SHARING bench, %llu iters per thread'', [I 200000000]),
       (''  bad layout  (counters in same cache line) : %.3f s'', [S (fixed 3 t1)]),
       (''  good layout (counters in different lines) : %.3f s'', [S (fixed 3 t2)])]"
proof -
  from r obtain t1 t2 w1 w2 w3 where r: "r = 0" "fs_run zero_counters w0 t1 cb w1"
    "w2 = printf ''  bad layout  (counters in same cache line) : %.3f s'' [S (fixed 3 t1)] w1" "fs_run zero_counters w2 t2 cg w3"
    "w' = call ''free'' [I g] (call ''free'' [I b] (printf ''  good layout (counters in different lines) : %.3f s'' [S (fixed 3 t2)] w3))"
    using s by (auto elim!: fs_main.cases)
  note w0 = fs_setup_world [OF s]
  then have t1: "0 \<le> t1" "goes_on w0 w1" "printed w1 = printed w0" using fs_run_time [OF r(2)] m by (auto simp: goes_on_def)
  then have "os w2 = os w" using w0 by (auto simp: r(3) printf_simp goes_on_def)
  then have t2: "0 \<le> t2" "printed w3 = printed w2" using fs_run_time [OF r(4)] m by auto
  show "r = 0" "cb = \<lparr>ctr_a = 200000000, ctr_b = 200000000\<rparr>" "cg = cb"
    using r(1) fs_run_result(1) [OF r(2)] fs_run_result(1) [OF r(4)] by (simp_all add: zero_counters_def ITERS_def)
  show "\<exists>t1 t2. 0 \<le> t1 \<and> 0 \<le> t2 \<and> printed w' = printed w @
      [(''FALSE-SHARING bench, %llu iters per thread'', [I 200000000]),
       (''  bad layout  (counters in same cache line) : %.3f s'', [S (fixed 3 t1)]),
       (''  good layout (counters in different lines) : %.3f s'', [S (fixed 3 t2)])]"
    using w0 t1(1,3) t2 by (intro exI [of _ t1] exI [of _ t2]) (simp add: r(3,5) printf_simp call_simp printed_def ITERS_def)
qed

text \<open>C28. False sharing: in the bad layout the two counters are in one cache line, in the good one in two; in both, when the
  threads can be created, every interleaving of their reads and writes ends with both counters at exactly ITERS, so the
  layout costs time only.  main then prints its three lines, with times that are not negative, and there is such a run.\<close>

theorem false_sharing_counts:
  assumes "monotonic (os w)" "fs_setup w = Some (b, g, w0)"
  shows "offset_of shared_bad ''a'' div 64 = offset_of shared_bad ''b'' div 64 \<and>
    offset_of shared_good ''a'' div 64 \<noteq> offset_of shared_good ''b'' div 64 \<and>
    (\<forall>v s. team_reaches (fs_app (\<lambda>_. True) Fld_a Fld_b) (fs_begin zero_counters v) s \<longrightarrow> ends (fs_app (\<lambda>_. True) Fld_a Fld_b) s) \<and>
    (\<exists>r. fs_main w r) \<and>
    (\<forall>r cb cg w'. fs_main w (r, cb, cg, w') \<longrightarrow> r = 0 \<and> cb = \<lparr>ctr_a = 200000000, ctr_b = 200000000\<rparr> \<and> cg = cb \<and>
      (\<exists>t1 t2. 0 \<le> t1 \<and> 0 \<le> t2 \<and> printed w' = printed w @
        [(''FALSE-SHARING bench, %llu iters per thread'', [I 200000000]),
         (''  bad layout  (counters in same cache line) : %.3f s'', [S (fixed 3 t1)]),
         (''  good layout (counters in different lines) : %.3f s'', [S (fixed 3 t2)])]))"
proof (intro conjI allI impI cache_lines(1,2))
  fix v s
  assume "team_reaches (fs_app (\<lambda>_. True) Fld_a Fld_b) (fs_begin zero_counters v) s"
  then show "ends (fs_app (\<lambda>_. True) Fld_a Fld_b) s" by (rule sharing.reached_ends)
next
  show "\<exists>r. fs_main w r" using assms(2) fs_run_exists by (metis fs_main.intros)
qed (use fs_main_result [OF assms] in blast)+

theorem false_sharing_counts_witness:
  "\<exists>cb cg w'. fs_main still_world (0, cb, cg, w') \<and> cb = \<lparr>ctr_a = 200000000, ctr_b = 200000000\<rparr> \<and> cg = cb"
proof -
  obtain w0 where "fs_setup still_world = Some (1, 1, w0)" by (simp add: fs_setup_def Let_def sys_simp still_def)
  note f = false_sharing_counts [OF _ this]
  have "monotonic (os still_world)" using still_good by simp
  note f = f [OF this]
  obtain r cb cg w' where m: "fs_main still_world (r, cb, cg, w')" using f by (metis prod_cases4)
  then show ?thesis using f by blast
qed

section \<open>08_map_populate.c of chapter 5\<close>

definition sweep :: "addr \<Rightarrow> nat \<Rightarrow> world \<Rightarrow> (rat \<times> world) option" where
  "sweep p len w = do {
     let (pg, w) = sys ''sysconf'' [S ''_SC_PAGESIZE''] w;
     let (t0, w) = now_sec w;
     w \<leftarrow> for_step (\<lambda>i w. poke (p + i) 1 w) len (size_of_long pg) 0 w;
     let (t1, w) = now_sec w;
     Some (dbl (t1 - t0), w)}"

definition populate_main :: "world \<Rightarrow> (int \<times> world) option" where
  "populate_main w = do {
     let len = 256 * 2 ^ 20;
     let (p, w) = mmap_anon ''MAP_PRIVATE | MAP_ANONYMOUS'' len (PROT_READ + PROT_WRITE) w;
     let p = or_failed p;
     (t1, w) \<leftarrow> sweep p len w;
     let w = printf ''no POPULATE: first sweep took %.3f s'' [S (fixed 3 t1)] w;
     (t1b, w) \<leftarrow> sweep p len w;
     let w = printf ''no POPULATE: second sweep     %.3f s (already resident)'' [S (fixed 3 t1b)] w;
     let (r, w) = munmap p len w;
     let (p, w) = mmap_anon ''MAP_PRIVATE | MAP_ANONYMOUS | MAP_POPULATE'' len (PROT_READ + PROT_WRITE) w;
     let p = or_failed p;
     (t2, w) \<leftarrow> sweep p len w;
     let w = printf ''POPULATE   : first sweep took %.3f s (already faulted)'' [S (fixed 3 t2)] w;
     Some (0, snd (munmap p len w))}"

text \<open>A sweep over memory the program may write, with a page size in range, ends with all of it still there.\<close>

lemma sweep_runs:
  assumes m: "monotonic (os w)" and pg: "\<And>l. 0 < os w (l @ [Sys ''sysconf'' [S ''_SC_PAGESIZE'']]) \<and> os w (l @ [Sys ''sysconf'' [S ''_SC_PAGESIZE'']]) \<le> 2 ^ 62"
    and len: "len \<le> 2 ^ 62" and wr: "writable w p len"
  shows "\<exists>t w'. sweep p len w = Some (t, w') \<and> 0 \<le> t \<and> goes_on w w' \<and> printed w' = printed w \<and> writable w' p len"
proof -
  obtain r w1 where a: "sys ''sysconf'' [S ''_SC_PAGESIZE''] w = (r, w1)" by (metis surj_pair)
  have w1: "goes_on w w1" "os w1 = os w" "printed w1 = printed w" "ram w1 = ram w" "perm w1 = perm w"
    using a by (auto simp: sys_simp goes_on_def printed_def)
  have "0 < r \<and> r \<le> 2 ^ 62" using a pg by (auto simp: sys_simp)
  then have r: "0 < size_of_long r" "len + size_of_long r \<le> 2 ^ 64" using len by (auto simp: size_of_long_def)
  obtain t0 w2 where t0: "now_sec w1 = (t0, w2)" by (cases "now_sec w1")
  have w2: "ram w2 = ram w" "perm w2 = perm w" "printed w2 = printed w" using t0 w1 by (auto simp: now_sec_simp printed_def)
  let ?P = "\<lambda>v. goes_on w2 v \<and> log v = log w2 \<and> writable v p len"
  have "?P w2" using wr by (simp add: writable_def w2)
  moreover have "\<exists>v'. poke (p + i) 1 v = Some v' \<and> ?P v'" if "i < len" "?P v" for i v
    using that by (auto simp: poke_def writable_def goes_on_def)
  ultimately obtain w3 where w3: "for_step (\<lambda>i w. poke (p + i) 1 w) len (size_of_long r) 0 w2 = Some w3" "?P w3"
    using for_step_runs [OF r, of ?P "\<lambda>i. poke (p + i) 1" w2 0] by blast
  obtain t1 w4 where t1: "now_sec w3 = (t1, w4)" by (cases "now_sec w3")
  have e: "0 \<le> dbl (t1 - t0)" "goes_on w1 w4" using elapsed_nonneg [OF _ t0 _ t1] m w1 w3(2) by auto
  have "writable w4 p len" "printed w4 = printed w"
    using w3(2) t1 w2 now_sec_prints [OF t1] by (auto simp: now_sec_simp writable_def printed_def)
  then show ?thesis using e goes_on_trans [OF w1(1) e(2)] by (simp add: sweep_def a t0 w3(1) t1)
qed

lemma mmap_writable:
  assumes "\<And>l as. os w (l @ [Sys ''mmap'' as]) \<noteq> -1"
  obtains p w' where "mmap_anon fl n (PROT_READ + PROT_WRITE) w = (Some p, w')" "goes_on w w'" "printed w' = printed w" "writable w' p n"
  using assms by (auto simp: mmap_anon_def sys_simp map_zero_def goes_on_def printed_def writable_def)

lemma munmap_goes_on: "goes_on w (snd (munmap p n w)) \<and> printed (snd (munmap p n w)) = printed w"
  by (auto simp: munmap_def sys_simp goes_on_def printed_def)

text \<open>When both mappings succeed the program ends with 0 and prints three times that are not negative.\<close>

lemma populate_reports:
  assumes m: "monotonic (os w)" and pg: "\<And>l. 0 < os w (l @ [Sys ''sysconf'' [S ''_SC_PAGESIZE'']]) \<and> os w (l @ [Sys ''sysconf'' [S ''_SC_PAGESIZE'']]) \<le> 2 ^ 62"
    and ok: "\<And>l as. os w (l @ [Sys ''mmap'' as]) \<noteq> -1"
  shows "\<exists>w' t1 t2 t3. populate_main w = Some (0, w') \<and> 0 \<le> t1 \<and> 0 \<le> t2 \<and> 0 \<le> t3 \<and> printed w' = printed w @
    [(''no POPULATE: first sweep took %.3f s'', [S (fixed 3 t1)]), (''no POPULATE: second sweep     %.3f s (already resident)'', [S (fixed 3 t2)]),
     (''POPULATE   : first sweep took %.3f s (already faulted)'', [S (fixed 3 t3)])]"
proof -
  let ?n = "256 * 2 ^ 20 :: nat"
  have sweeps: "\<exists>t v'. sweep p ?n v = Some (t, v') \<and> 0 \<le> t \<and> os v' = os w \<and> printed v' = printed v \<and> writable v' p ?n"
    if "os v = os w" "writable v p ?n" for v p
    using sweep_runs [of v ?n p] m pg that by (auto simp: goes_on_def)
  have maps: "\<exists>p v'. mmap_anon fl ?n (PROT_READ + PROT_WRITE) v = (Some p, v') \<and> os v' = os w \<and> printed v' = printed v \<and> writable v' p ?n"
    if "os v = os w" for v fl
  proof -
    have "os v (l @ [Sys ''mmap'' as]) \<noteq> -1" for l as unfolding that by (rule ok)
    from mmap_writable [OF this] obtain p v' where "mmap_anon fl ?n (PROT_READ + PROT_WRITE) v = (Some p, v')" "goes_on v v'" "printed v' = printed v" "writable v' p ?n" .
    moreover from this(2) have "os v' = os w" using that by (simp add: goes_on_def)
    ultimately show ?thesis by (intro exI conjI)
  qed
  obtain p w1 where 1: "mmap_anon ''MAP_PRIVATE | MAP_ANONYMOUS'' ?n (PROT_READ + PROT_WRITE) w = (Some p, w1)" "os w1 = os w"
    "printed w1 = printed w" "writable w1 p ?n" using maps [OF refl] by blast
  obtain t1 w2 where 2: "sweep p ?n w1 = Some (t1, w2)" "0 \<le> t1" "os w2 = os w" "printed w2 = printed w1" "writable w2 p ?n"
    using sweeps [OF 1(2,4)] by blast
  let ?w3 = "printf ''no POPULATE: first sweep took %.3f s'' [S (fixed 3 t1)] w2"
  obtain t2 w4 where 3: "sweep p ?n ?w3 = Some (t2, w4)" "0 \<le> t2" "os w4 = os w" "printed w4 = printed ?w3"
    using sweeps [of ?w3 p] 2(3,5) by (auto simp: printf_simp writable_def)
  let ?w5 = "printf ''no POPULATE: second sweep     %.3f s (already resident)'' [S (fixed 3 t2)] w4"
  obtain r w6 where 4: "munmap p ?n ?w5 = (r, w6)" by (metis surj_pair)
  then have w6: "os w6 = os w" "printed w6 = printed ?w5" using munmap_goes_on [of ?w5 p ?n] 3(3) by (auto simp: goes_on_def printf_simp)
  obtain q w7 where 5: "mmap_anon ''MAP_PRIVATE | MAP_ANONYMOUS | MAP_POPULATE'' ?n (PROT_READ + PROT_WRITE) w6 = (Some q, w7)" "os w7 = os w"
    "printed w7 = printed w6" "writable w7 q ?n" using maps [OF w6(1)] by blast
  obtain t3 w8 where 6: "sweep q ?n w7 = Some (t3, w8)" "0 \<le> t3" "printed w8 = printed w7" using sweeps [OF 5(2,4)] by blast
  let ?w9 = "snd (munmap q ?n (printf ''POPULATE   : first sweep took %.3f s (already faulted)'' [S (fixed 3 t3)] w8))"
  have "populate_main w = Some (0, ?w9)"
    by (simp only: populate_main_def Let_def 1(1) 2(1) 3(1) 4 5(1) 6(1) prod.case Option.bind.simps or_failed_def option.case)
  moreover have "printed (printf f as v) = printed v @ [(f, as)]" for f as v by (simp add: printf_simp printed_def)
  ultimately show ?thesis using munmap_goes_on 1(3) 2(2,4) 3(2,4) w6(2) 5(3) 6(2,3) by auto
qed

end
