(* ===== verification/Spec2Isabelle.thy ===== *)
theory Spec2Isabelle
  imports Bump Pool Slab Freelist Buddy Proc_Maps Fundamentals Futex Mmap_Demos Pipes Shared_Flag Signals Counters
    Heap_Demos Fork_Demos Faults Oom Buddy_Spec Freelist_Spec Allocator_Demos
    Thread_Demos Sockets Descriptors Ipc_Demos Lifetimes Benchmarks
begin

text \<open>
  A verification development for the C programs of linux-memory-know-hows: a course on the memory of Linux
  processes in fourteen chapters, each a directory of small programs, which ends in five memory allocators.
  There is no shared code between the programs; what they share is the machine under them.  The theories
  follow that split.

  The machine.
  \<^item> Memory: byte memory as a partial function from 64-bit addresses, little-endian words, the wrap-around
    of size_t, mmap and munmap as the allocators use them.
  \<^item> World: what a demonstration program sees: memory with page protections, the log of its calls and of the
    lines it printed, and the answers of the kernel, which are two functions of the whole log.  A property of
    every world is a property of every behaviour of the kernel.  None is a memory fault or undefined behaviour.
  \<^item> Cstring: fgets, strncmp, strtol, sscanf and the decimal and hexadecimal output of printf, with the lemmas
    that reading back what was printed gives the number.

  The allocators of src/14_putting_it_together, over Memory.
  \<^item> Allocator_Spec: what a client may expect of any allocator, as a locale: blocks handed out are disjoint, inside
    the allocator's memory and keep their bytes, whatever sequence of allocations, frees and writes a client makes.
    Each allocator interprets it on its own operations.
  \<^item> Bump (01_bump.c), Pool (02_pool.c), Slab (03_slab.c), Freelist (04_freelist.c), Buddy (05_buddy.c): every
    function of the file as one definition over the memory, its data structure invariant, that every operation
    keeps it, what each operation returns on each branch, and the locale's interpretation.  Linked_List has the
    lists threaded through memory that three of them keep.  Freelist and Buddy also show that giving everything back
    restores the initial state (coalescing), Slab that its counters and its list of slabs with room are exact.  Sizes
    that the code mishandles have lemmas of their own: what wraps around in Bump, Freelist and Pool, objects that do not
    fit a slab, more than 2^30 pages.
    Allocator_Spec also has the locale block_memory, stores into live blocks, interpreted by the pool and the slab.
  \<^item> Freelist_Spec and Buddy_Spec: the two free-list structures as lists of blocks (first fit, splitting, joining;
    one list per order), and that the code on bytes refines the operations on lists; from that the exact output of
    the two main functions.  Allocator_Demos has the main functions of the other three.

  Programs that read /proc, over World and Cstring.
  \<^item> Proc_Status: the readers of /proc/self/status and /proc/meminfo (01/02, 04/13, 05/06, 07/01, 07/02, 07/03,
    07/05, 12/03; a/b names program b of chapter a).  The reports are the numbers of the file, the table programs
    print exactly the lines of their table (locale key_table, interpreted on both tables), the paging demonstration
    ends.  Lines may be longer than the array of the code: fgets then hands them over in pieces, as Cstring has it.
  \<^item> Proc_Maps: the readers of /proc/self/maps and smaps (02/01, 02/03, 04/03, 04/08, 12/01, 12/02, 13/01, 13/04).
    What the sscanf format gets from the array of any line the kernel writes: the numbers, the permissions, devices of
    up to seven characters and paths of up to 255 are read back exactly, longer ones are cut; totals are the sums over
    mappings whose lines fit.

  Programs over arithmetic and layout.
  \<^item> Fundamentals: the data of 00/01 and 00/04, and 00/02, 00/03, 01/04, 02/02, 02/04, 02/05, 03/01, 04/02,
    04/06, 11/02.  The shuffled pointer chain is one cycle; bit fields of pagemap entries and chunk headers; the walk over the initial stack; limits
    printed exactly.
  \<^item> Doubles: IEEE doubles as rationals rounded to 53 bits, what %.pf prints, and the monotonic clock.  Rounding is
    monotone and errs by at most one part in 2^53, so a clock that does not go back gives times that are not negative.
  \<^item> Benchmarks: the programs that measure time, 00/01, 00/04, 05/08 and 09/06.  The time 00/01 prints is that of
    two readings of the clock in succession up to the rounding of doubles, a bound that grows with the readings (the
    lemmas need fewer than 2^52 seconds, so that a second is a double); the counters of 00/04 are exact in every
    interleaving.

  Programs over mappings and the heap, over World.
  \<^item> Mmap_Demos: 01/01, 01/03, 05/01, 05/02, 05/04, 05/07, 05/09, 06/02, 11/01, 11/06, 13/02, 13/05.  Private and
    shared file mappings, mremap, and machine code that runs only from executable pages.
  \<^item> Ipc_Demos: 10/06 and 10/08.
  \<^item> Oom: 07/04.  A number written with snprintf and write is read back by fscanf.
  \<^item> Heap_Demos: 03/03, 04/01, 04/04, 04/05, 04/07, 04/09, 04/10, 06/01, 12/04, 12/05.  The multiset of blocks in use,
    read off the log, is at the end what it was at the start.

  Programs that leave the C standard on purpose.
  \<^item> Lifetimes (03/05, 03/06, 04/11, 04/12, 11/04, 11/05): objects with bytes and a lifetime; None is undefined
    behaviour.  For which strings the copying functions are defined, and that the faulty mains never are.

  Programs with several threads or processes, as inductive step relations over every interleaving.
  \<^item> Transition: the two contracts of such a program, as locales: can_finish (every state that can be reached can be
    completed) and must_finish (a rank bounds the steps left, and the only states that stop are final).
  \<^item> Threads: a main that starts threads, joins them and goes on, as one step relation with the locale fork_join:
    what a program shows of one step of one thread gives termination, and the sum of what the threads leave.
    Thread_Demos interprets it on five programs (09/01 to 09/04, 04/08) and has 03/07.  The locale fork_join_own
    extends it by what each thread owns of the shared part; Benchmarks interprets it on the counters of 00/04.
  \<^item> Fork_Demos (08/01 to 08/04, 08/09): each program as a list of statements, run by a step relation with the
    stdio buffer of each process.  The steps are also a function that lists them, which is shown to be the relation,
    so the exact set of outcomes of every program, on a terminal and into a file, is computed by simp.
  \<^item> Faults (03/02, 03/04, 11/03, 13/03): recursion to the end of the stack, the handlers of SIGSEGV, and a thread
    that fills pages on demand.
  \<^item> Futex (09/05): mutual exclusion, the final count, no lost wake-up.
  \<^item> Pipes (08/08, 10/01): delivery, termination and absence of deadlock; the rank of a state bounds the steps left.
  \<^item> Sockets (10/02, 10/03): the conversation over a socket pair has one order of output, the named pipe delivers.
  \<^item> Descriptors (10/10, 08/07): the bytes of the control message and the two descriptor tables, with the run over
    every interleaving; the descriptors and the session of a daemon.
  \<^item> Shared_Flag (05/03, 10/04, 10/05): the message is complete when the flag is seen.
  \<^item> Signals (08/06, 08/10): every zombie is reaped; the wake-up that can be lost before pause.
  \<^item> Counters (10/07, 10/09, 08/05): eventfd, message queue, atomic counter.

  Bounds.  Loops of the C code are structural recursions, recursions with a measure, or partial_function (option)
  where the code's loop may not end (lists through memory, strings in memory, a loop with step 0); for those the
  lemmas show that they end in the states that can be reached.  The search of Fork_Demos has a depth, and gives a
  result only when every run ends within it; nothing else has fuel.  Address arithmetic of the
  allocators wraps at 64 bits as size_t does; sums of C ints that overflow are None.

  Not modelled: doubles that overflow or are subnormal, which times are not; glibc's malloc inside (its
  answers are arbitrary) and what a compiler or library does with an undefined run; 05/05, which does not compile.
  Outside Fork_Demos, Sockets and Descriptors a printed line counts as written at once, as on a terminal.
\<close>

end
